(* ===== verification/Prelude.thy ===== *)
theory Prelude
  imports Main "HOL-Library.Word"
begin

text \<open>
  What every component of the development shares: bytes and byte-string literals, Rust's
  \<open>Result\<close>, the big-endian integer encodings of the wire, the C-string primitives of
  \<open>crates/rlibpq/src/cstr.rs\<close> with the loop shapes built on them, decimal rendering, and the
  generic state machine whose reachable states the components' invariants speak of.

  The collections: \<open>wire_simps\<close> evaluates byte literals and integer encodings, \<open>scan_simps\<close>
  unfolds the scanning loops over known prefixes.
\<close>

unbundle bit_operations_syntax

named_theorems wire_simps \<open>evaluation of byte literals and integer encodings\<close>
named_theorems scan_simps \<open>unfolding of the scanning loops\<close>

section \<open>Bytes and results\<close>

type_synonym byte = "8 word"
type_synonym bytes = "byte list"
type_synonym u16 = "16 word"
type_synonym u32 = "32 word"
type_synonym u64 = "64 word"

text \<open>A byte-string literal: \<open>bstr ''abc''\<close> is Rust's \<^verbatim>\<open>b"abc"\<close>, and also the bytes of an
  ASCII \<open>&str\<close>. \<open>chb CHR ''x''\<close> is \<^verbatim>\<open>b'x'\<close>.\<close>

definition bstr :: "string \<Rightarrow> bytes" where
  "bstr s = map of_char s"

definition chb :: "char \<Rightarrow> byte" where
  "chb c = of_char c"

text \<open>Rust's \<open>Result<T, E>\<close>, with \<open>and_then\<close> for the \<^verbatim>\<open>?\<close> operator and \<open>map_err\<close>.\<close>

datatype ('a, 'e) result = Ok 'a | Err 'e

fun and_then :: "('a, 'e) result \<Rightarrow> ('a \<Rightarrow> ('b, 'e) result) \<Rightarrow> ('b, 'e) result" where
  "and_then (Ok x) f = f x"
| "and_then (Err e) f = Err e"

fun map_err :: "('e \<Rightarrow> 'f) \<Rightarrow> ('a, 'e) result \<Rightarrow> ('a, 'f) result" where
  "map_err f (Ok x) = Ok x"
| "map_err f (Err e) = Err (f e)"

definition ok_or :: "'a option \<Rightarrow> 'e \<Rightarrow> ('a, 'e) result" where
  "ok_or x e = (case x of Some y \<Rightarrow> Ok y | None \<Rightarrow> Err e)"

definition is_ok :: "('a, 'e) result \<Rightarrow> bool" where
  "is_ok r = (case r of Ok _ \<Rightarrow> True | Err _ \<Rightarrow> False)"

section \<open>Integers on the wire\<close>

text \<open>\<open>to_be_bytes\<close> and \<open>from_be_bytes\<close> at the two widths the protocol uses.\<close>

definition be16 :: "u16 \<Rightarrow> bytes" where
  "be16 w = [ucast (drop_bit 8 w), ucast w]"

definition from_be16 :: "byte \<Rightarrow> byte \<Rightarrow> u16" where
  "from_be16 a b = push_bit 8 (ucast a) OR ucast b"

definition be32 :: "u32 \<Rightarrow> bytes" where
  "be32 w = [ucast (drop_bit 24 w), ucast (drop_bit 16 w), ucast (drop_bit 8 w), ucast w]"

definition from_be32 :: "byte \<Rightarrow> byte \<Rightarrow> byte \<Rightarrow> byte \<Rightarrow> u32" where
  "from_be32 a b c d =
     push_bit 24 (ucast a) OR push_bit 16 (ucast b) OR push_bit 8 (ucast c) OR ucast d"

section \<open>C strings\<close>

text \<open>\<open>cstr::at\<close>: the byte at an index, or NUL past the end.\<close>

definition at :: "bytes \<Rightarrow> nat \<Rightarrow> byte" where
  "at buf i = (if i < length buf then buf ! i else 0)"

text \<open>\<open>cstr::is_space\<close>: \<open>isspace()\<close> in the C locale.\<close>

definition is_space :: "byte \<Rightarrow> bool" where
  "is_space c = (c \<in> {32, 9, 10, 11, 12, 13})"

text \<open>The loop \<^verbatim>\<open>while at(buf, p) != 0 && P(at(buf, p)) { p += 1; }\<close>: it stops at the
  terminator at the latest.\<close>

function scan :: "(byte \<Rightarrow> bool) \<Rightarrow> bytes \<Rightarrow> nat \<Rightarrow> nat" where
  "scan P buf p = (if at buf p \<noteq> 0 \<and> P (at buf p) then scan P buf (Suc p) else p)"
  by pat_completeness auto
termination
  by (relation "measure (\<lambda>(P, buf, p). length buf - p)") (auto simp: at_def split: if_splits)

declare scan.simps [simp del]

text \<open>The loop \<^verbatim>\<open>while !Q(at(buf, p)) { p += 1; }\<close>, which has no test for the terminator: \<open>None\<close>
  is a loop that never stops (no byte from \<open>p\<close> on satisfies \<open>Q\<close>, and NUL does not).\<close>

function run_to :: "(byte \<Rightarrow> bool) \<Rightarrow> bytes \<Rightarrow> nat \<Rightarrow> nat option" where
  "run_to Q buf p =
     (if p < length buf then (if Q (buf ! p) then Some p else run_to Q buf (Suc p))
      else if Q 0 then Some p else None)"
  by pat_completeness auto
termination
  by (relation "measure (\<lambda>(Q, buf, p). length buf - p)") auto

declare run_to.simps [simp del]

text \<open>The half-open slice \<^verbatim>\<open>&buf[i..j]\<close>.\<close>

definition slice :: "'a list \<Rightarrow> nat \<Rightarrow> nat \<Rightarrow> 'a list" where
  "slice xs i j = take (j - i) (drop i xs)"

text \<open>\<open>up_to_nul\<close>, \<open>strnlen\<close>: the bytes before the first NUL.\<close>

definition before_nul :: "bytes \<Rightarrow> bytes" where
  "before_nul bs = takeWhile (\<lambda>c. c \<noteq> 0) bs"

text \<open>The decimal digits \<open>format!\<close> writes for an unsigned integer.\<close>

function dec_digits :: "nat \<Rightarrow> bytes" where
  "dec_digits n = (if n < 10 then [of_nat (48 + n)]
                   else dec_digits (n div 10) @ [of_nat (48 + n mod 10)])"
  by pat_completeness auto
termination
  by (relation "measure id") auto

declare dec_digits.simps [simp del]

definition is_ascii_digit :: "byte \<Rightarrow> bool" where
  "is_ascii_digit c = (48 \<le> c \<and> c \<le> 57)"

text \<open>The value of a string of decimal digits.\<close>

definition dec_value :: "bytes \<Rightarrow> nat" where
  "dec_value ds = foldl (\<lambda>n d. 10 * n + unat (d - 48)) 0 ds"

section \<open>State machines\<close>

text \<open>A deterministic or nondeterministic machine is an initial predicate and a step relation;
  an invariant that the initial states satisfy and every step keeps holds in every reachable
  state. The components interpret this with their own step relations.\<close>

inductive reach :: "('s \<Rightarrow> bool) \<Rightarrow> ('s \<Rightarrow> 's \<Rightarrow> bool) \<Rightarrow> 's \<Rightarrow> bool" for init step where
  reach_init: "init s \<Longrightarrow> reach init step s"
| reach_step: "reach init step s \<Longrightarrow> step s t \<Longrightarrow> reach init step t"

locale machine =
  fixes init :: "'s \<Rightarrow> bool"
    and step :: "'s \<Rightarrow> 's \<Rightarrow> bool"
    and inv :: "'s \<Rightarrow> bool"
  assumes inv_init: "init s \<Longrightarrow> inv s"
    and inv_step: "inv s \<Longrightarrow> step s t \<Longrightarrow> inv t"
begin

lemma reach_inv: "reach init step s \<Longrightarrow> inv s"
  by (induction rule: reach.induct) (auto intro: inv_init inv_step)

end

section \<open>Lemmas\<close>

lemma and_then_Ok_iff [simp]:
  "and_then r f = Ok y \<longleftrightarrow> (\<exists>x. r = Ok x \<and> f x = Ok y)"
  by (cases r) auto

lemma and_then_Err_iff:
  "and_then r f = Err e \<longleftrightarrow> r = Err e \<or> (\<exists>x. r = Ok x \<and> f x = Err e)"
  by (cases r) auto

lemma map_err_Ok_iff [simp]: "map_err f r = Ok y \<longleftrightarrow> r = Ok y"
  by (cases r) auto

lemma ok_or_Ok_iff [simp]: "ok_or x e = Ok y \<longleftrightarrow> x = Some y"
  by (simp add: ok_or_def split: option.splits)

lemma ok_or_simps [simp]: "ok_or (Some y) e = Ok y" "ok_or None e = Err e"
  by (simp_all add: ok_or_def)

lemma is_ok_simps [simp]: "is_ok (Ok x)" "\<not> is_ok (Err e)"
  by (simp_all add: is_ok_def)

lemma bstr_Nil [simp]: "bstr [] = []"
  by (simp add: bstr_def)

lemma bstr_Cons [simp]: "bstr (c # cs) = chb c # bstr cs"
  by (simp add: bstr_def chb_def)

lemma length_bstr [simp]: "length (bstr s) = length s"
  by (simp add: bstr_def)

lemma chb_Char [simp, wire_simps]:
  "chb (Char b0 b1 b2 b3 b4 b5 b6 b7) =
     of_bool b0 + 2 * of_bool b1 + 4 * of_bool b2 + 8 * of_bool b3 +
     16 * of_bool b4 + 32 * of_bool b5 + 64 * of_bool b6 + 128 * of_bool b7"
  by (simp add: chb_def of_char_def)

lemma word_nth_small_False: "n \<ge> LENGTH('a::len) \<Longrightarrow> \<not> bit (w :: 'a word) n"
  using bit_imp_le_length [of w n] by auto

lemma from_be32_be32 [simp]:
  "from_be32 (ucast (drop_bit 24 w)) (ucast (drop_bit 16 w)) (ucast (drop_bit 8 w)) (ucast w) = w"
proof (rule bit_word_eqI)
  fix n
  assume "n < LENGTH(32)"
  then consider "n < 8" | "8 \<le> n" "n < 16" | "16 \<le> n" "n < 24" | "24 \<le> n" "n < 32"
    by fastforce
  then show "bit (from_be32 (ucast (drop_bit 24 w)) (ucast (drop_bit 16 w))
      (ucast (drop_bit 8 w)) (ucast w)) n \<longleftrightarrow> bit w n"
    by cases (auto simp: from_be32_def bit_simps)
qed

lemma be32_from_be32 [simp]: "be32 (from_be32 a b c d) = [a, b, c, d]"
  unfolding from_be32_def be32_def
  by (auto intro!: bit_word_eqI simp: bit_simps word_nth_small_False)

lemma from_be16_be16 [simp]: "from_be16 (ucast (drop_bit 8 w)) (ucast w) = w"
proof (rule bit_word_eqI)
  fix n
  assume "n < LENGTH(16)"
  then consider "n < 8" | "8 \<le> n" "n < 16"
    by fastforce
  then show "bit (from_be16 (ucast (drop_bit 8 w)) (ucast w)) n \<longleftrightarrow> bit w n"
    by cases (auto simp: from_be16_def bit_simps)
qed

lemma be16_from_be16 [simp]: "be16 (from_be16 a b) = [a, b]"
  unfolding from_be16_def be16_def
  by (auto intro!: bit_word_eqI simp: bit_simps word_nth_small_False)

lemma length_be32 [simp]: "length (be32 w) = 4"
  by (simp add: be32_def)

lemma length_be16 [simp]: "length (be16 w) = 2"
  by (simp add: be16_def)

lemma at_beyond [simp]: "length buf \<le> i \<Longrightarrow> at buf i = 0"
  by (simp add: at_def)

lemma at_nth: "i < length buf \<Longrightarrow> at buf i = buf ! i"
  by (simp add: at_def)

lemma at_nonzero_less: "at buf i \<noteq> 0 \<Longrightarrow> i < length buf"
  by (simp add: at_def split: if_splits)

lemma at_append_length [simp]: "at (xs @ ys) (length xs + i) = at ys i"
  by (simp add: at_def nth_append)

lemma at_append_length0 [simp]: "at (xs @ ys) (length xs) = at ys 0"
  using at_append_length [of xs ys 0] by simp

lemma at_Cons_0 [simp]: "at (x # xs) 0 = x"
  by (simp add: at_def)

lemma at_Nil [simp]: "at [] i = 0"
  by (simp add: at_def)

lemma scan_ge: "p \<le> scan P buf p"
proof (induction P buf p rule: scan.induct)
  case (1 P buf p)
  then show ?case
    by (cases "at buf p \<noteq> 0 \<and> P (at buf p)") (auto simp: scan.simps [of P buf p])
qed

lemma scan_le: "p \<le> length buf \<Longrightarrow> scan P buf p \<le> length buf"
proof (induction P buf p rule: scan.induct)
  case (1 P buf p)
  then show ?case
    by (cases "at buf p \<noteq> 0 \<and> P (at buf p)")
      (auto simp: scan.simps [of P buf p] dest: at_nonzero_less)
qed

lemma scan_stops: "at buf (scan P buf p) = 0 \<or> \<not> P (at buf (scan P buf p))"
proof (induction P buf p rule: scan.induct)
  case (1 P buf p)
  then show ?case
    by (cases "at buf p \<noteq> 0 \<and> P (at buf p)") (auto simp: scan.simps [of P buf p])
qed

text \<open>A scan runs over a block of bytes that satisfy the test, and stops at the byte behind it.\<close>

lemma scan_over:
  assumes "\<forall>c \<in> set ys. c \<noteq> 0 \<and> P c"
  shows "scan P (xs @ ys @ zs) (length xs) = scan P (xs @ ys @ zs) (length xs + length ys)"
  using assms
proof (induction ys arbitrary: xs)
  case Nil
  then show ?case by simp
next
  case (Cons y ys)
  have "scan P (xs @ (y # ys) @ zs) (length xs) = scan P ((xs @ [y]) @ ys @ zs) (length (xs @ [y]))"
    using Cons.prems by (simp add: scan.simps [of P "xs @ y # ys @ zs" "length xs"])
  also have "\<dots> = scan P ((xs @ [y]) @ ys @ zs) (length (xs @ [y]) + length ys)"
    using Cons.prems by (intro Cons.IH) auto
  finally show ?case by simp
qed

lemma scan_stop_here: "at buf p = 0 \<or> \<not> P (at buf p) \<Longrightarrow> scan P buf p = p"
  by (subst scan.simps) auto

lemma scan_block [scan_simps]:
  assumes "\<forall>c \<in> set ys. c \<noteq> 0 \<and> P c" and "at zs 0 = 0 \<or> \<not> P (at zs 0)"
  shows "scan P (xs @ ys @ zs) (length xs) = length xs + length ys"
proof -
  have "at (xs @ ys @ zs) (length xs + length ys) = at zs 0"
    using at_append_length [of "xs @ ys" zs 0] by simp
  then show ?thesis
    using assms by (simp add: scan_over scan_stop_here)
qed

lemma run_to_block [scan_simps]:
  assumes "\<forall>c \<in> set ys. \<not> Q c" and "Q z"
  shows "run_to Q (xs @ ys @ z # zs) (length xs) = Some (length xs + length ys)"
  using assms
proof (induction ys arbitrary: xs)
  case Nil
  then show ?case
    by (simp add: run_to.simps [of Q "xs @ z # zs" "length xs"] nth_append)
next
  case (Cons y ys)
  have "run_to Q (xs @ (y # ys) @ z # zs) (length xs) =
        run_to Q ((xs @ [y]) @ ys @ z # zs) (length (xs @ [y]))"
    using Cons.prems by (simp add: run_to.simps [of Q "xs @ y # ys @ z # zs" "length xs"])
  also have "\<dots> = Some (length (xs @ [y]) + length ys)"
    using Cons.prems by (intro Cons.IH) auto
  finally show ?case by simp
qed

lemma slice_block [simp]: "slice (xs @ ys @ zs) (length xs) (length xs + length ys) = ys"
  by (simp add: slice_def)

lemma slice_empty [simp]: "slice xs i i = []"
  by (simp add: slice_def)

lemma before_nul_id [simp]: "0 \<notin> set bs \<Longrightarrow> before_nul bs = bs"
  by (auto simp: before_nul_def takeWhile_eq_all_conv)

lemma before_nul_no_nul: "0 \<notin> set (before_nul bs)"
  by (auto simp: before_nul_def dest: set_takeWhileD)

lemma digit_byte: "n < 10 \<Longrightarrow> is_ascii_digit (of_nat (48 + n)) \<and> unat (of_nat (48 + n) - 48 :: byte) = n"
proof -
  assume n: "n < 10"
  then have "unat (of_nat (48 + n) :: byte) = 48 + n"
    by (simp only: unat_of_nat) simp
  then show ?thesis
    using n by (auto simp: is_ascii_digit_def word_le_nat_alt unat_of_nat)
qed

lemma dec_value_snoc: "dec_value (ds @ [d]) = 10 * dec_value ds + unat (d - 48)"
  by (simp add: dec_value_def)

lemma dec_digits_digits: "list_all is_ascii_digit (dec_digits n)"
proof (induction n rule: dec_digits.induct)
  case (1 n)
  then show ?case
    using digit_byte [of n] digit_byte [of "n mod 10"] by (subst dec_digits.simps) auto
qed

lemma dec_value_digits: "dec_value (dec_digits n) = n"
proof (induction n rule: dec_digits.induct)
  case (1 n)
  then show ?case
    using digit_byte [of n] digit_byte [of "n mod 10"]
    by (subst dec_digits.simps) (auto simp: dec_value_snoc, simp add: dec_value_def)
qed

lemma dec_digits_not_Nil [simp]: "dec_digits n \<noteq> []"
  by (subst dec_digits.simps) simp

end
