(* ===== verification/Conninfo.thy ===== *)
theory Conninfo
  imports Prelude
begin

text \<open>
  \<open>crates/rlibpq/src/conninfo.rs\<close>, with the constants of \<open>pg_config.rs\<close> and the errors of
  \<open>error.rs\<close>: the table of connection options, a working copy of it, the keyword/value parser and
  the fallbacks to the environment and the compiled-in defaults.

  A working copy is the list of its values in the table's order. The environment is the function
  \<open>getenv\<close>; it is an argument. A \<open>RawText\<close> is its bytes.

  Shown: the working copy is a store (the locale \<open>keyed_store\<close>, interpreted on it), so that of
  several settings the last one counts; parsing the quoted spelling of any settings gives exactly
  these settings; and the fallbacks never override what was given.
\<close>

section \<open>Build constants\<close>

definition USE_SSL :: bool where "USE_SSL = False"
definition ENABLE_GSS :: bool where "ENABLE_GSS = False"
definition DEF_PGPORT_STR :: bytes where "DEF_PGPORT_STR = bstr ''5432''"
definition PG_KRB_SRVNAM :: bytes where "PG_KRB_SRVNAM = bstr ''postgres''"
definition SCRAM_MAX_KEY_LEN :: nat where "SCRAM_MAX_KEY_LEN = 32"
definition DEFAULT_OPTION :: bytes where "DEFAULT_OPTION = []"
definition DEFAULT_CHANNEL_BINDING :: bytes where
  "DEFAULT_CHANNEL_BINDING = (if USE_SSL then bstr ''prefer'' else bstr ''disable'')"
definition DEFAULT_TARGET_SESSION_ATTRS :: bytes where
  "DEFAULT_TARGET_SESSION_ATTRS = bstr ''any''"
definition DEFAULT_LOAD_BALANCE_HOSTS :: bytes where
  "DEFAULT_LOAD_BALANCE_HOSTS = bstr ''disable''"
definition DEFAULT_SSL_MODE :: bytes where
  "DEFAULT_SSL_MODE = (if USE_SSL then bstr ''prefer'' else bstr ''disable'')"
definition DEFAULT_SSL_NEGOTIATION :: bytes where
  "DEFAULT_SSL_NEGOTIATION = bstr ''postgres''"
definition DEFAULT_GSS_MODE :: bytes where
  "DEFAULT_GSS_MODE = (if ENABLE_GSS then bstr ''prefer'' else bstr ''disable'')"

section \<open>Errors\<close>

datatype conn_error =
    MissingEquals bytes
  | UnterminatedQuotedString
  | InvalidConnectionOption bytes
  | InvalidUriPropagated bytes
  | Ipv6Unterminated bytes
  | Ipv6Empty bytes
  | UnexpectedCharacter byte nat bytes
  | ExtraSeparator bytes
  | MissingSeparator bytes
  | InvalidUriQueryParameter bytes
  | InvalidPercentEncoding bytes
  | ForbiddenNulInPercentEncoding bytes
  | UnexpectedSpaces bytes
  | InvalidPortNumber bytes
  | InvalidIntegerValue bytes bytes
  | InvalidValue bytes bytes
  | SslNotCompiledIn bytes bytes
  | WeakSslModeWithDirect bytes
  | WeakSslModeWithSystemRoot bytes
  | GssNotCompiledIn bytes
  | GssapiOverLocalSocket
  | ServiceNotFound bytes
  | ServiceFileNotFound bytes
  | ServiceFileLineTooLong bytes nat
  | ServiceFileSyntaxError bytes nat
  | NestedServiceSpecification bytes nat
  | HostCountMismatch nat nat
  | PortCountMismatch nat nat

section \<open>The table of options\<close>

datatype dispchar = Plain | Password | Debug

record conn_option_def =
  co_keyword :: bytes
  co_envvar :: "bytes option"
  co_compiled :: "bytes option"
  co_label :: bytes
  co_dispchar :: dispchar
  co_dispsize :: nat

definition conn_option ::
  "bytes \<Rightarrow> bytes option \<Rightarrow> bytes option \<Rightarrow> bytes \<Rightarrow> dispchar \<Rightarrow> nat \<Rightarrow> conn_option_def" where
  "conn_option kw ev compiled label disp n =
     \<lparr> co_keyword = kw, co_envvar = ev, co_compiled = compiled, co_label = label,
       co_dispchar = disp, co_dispsize = n \<rparr>"

definition OPTIONS_1 :: "conn_option_def list" where
  "OPTIONS_1 = [
     conn_option (bstr ''service'') (Some (bstr ''PGSERVICE'')) None (bstr ''Database-Service'') Plain 20,
     conn_option (bstr ''user'') (Some (bstr ''PGUSER'')) None (bstr ''Database-User'') Plain 20,
     conn_option (bstr ''password'') (Some (bstr ''PGPASSWORD'')) None (bstr ''Database-Password'') Password 20,
     conn_option (bstr ''passfile'') (Some (bstr ''PGPASSFILE'')) None (bstr ''Database-Password-File'') Plain 64,
     conn_option (bstr ''channel_binding'') (Some (bstr ''PGCHANNELBINDING'')) (Some DEFAULT_CHANNEL_BINDING) (bstr ''Channel-Binding'') Plain 8,
     conn_option (bstr ''connect_timeout'') (Some (bstr ''PGCONNECT_TIMEOUT'')) None (bstr ''Connect-timeout'') Plain 10,
     conn_option (bstr ''dbname'') (Some (bstr ''PGDATABASE'')) None (bstr ''Database-Name'') Plain 20,
     conn_option (bstr ''host'') (Some (bstr ''PGHOST'')) None (bstr ''Database-Host'') Plain 40,
     conn_option (bstr ''hostaddr'') (Some (bstr ''PGHOSTADDR'')) None (bstr ''Database-Host-IP-Address'') Plain 45,
     conn_option (bstr ''port'') (Some (bstr ''PGPORT'')) (Some DEF_PGPORT_STR) (bstr ''Database-Port'') Plain 6,
     conn_option (bstr ''client_encoding'') (Some (bstr ''PGCLIENTENCODING'')) None (bstr ''Client-Encoding'') Plain 10,
     conn_option (bstr ''options'') (Some (bstr ''PGOPTIONS'')) (Some DEFAULT_OPTION) (bstr ''Backend-Options'') Plain 40,
     conn_option (bstr ''application_name'') (Some (bstr ''PGAPPNAME'')) None (bstr ''Application-Name'') Plain 64,
     conn_option (bstr ''fallback_application_name'') None None (bstr ''Fallback-Application-Name'') Plain 64,
     conn_option (bstr ''keepalives'') None None (bstr ''TCP-Keepalives'') Plain 1,
     conn_option (bstr ''keepalives_idle'') None None (bstr ''TCP-Keepalives-Idle'') Plain 10,
     conn_option (bstr ''keepalives_interval'') None None (bstr ''TCP-Keepalives-Interval'') Plain 10]"

definition OPTIONS_2 :: "conn_option_def list" where
  "OPTIONS_2 = [
     conn_option (bstr ''keepalives_count'') None None (bstr ''TCP-Keepalives-Count'') Plain 10,
     conn_option (bstr ''tcp_user_timeout'') None None (bstr ''TCP-User-Timeout'') Plain 10,
     conn_option (bstr ''sslmode'') (Some (bstr ''PGSSLMODE'')) (Some DEFAULT_SSL_MODE) (bstr ''SSL-Mode'') Plain 12,
     conn_option (bstr ''sslnegotiation'') (Some (bstr ''PGSSLNEGOTIATION'')) (Some DEFAULT_SSL_NEGOTIATION) (bstr ''SSL-Negotiation'') Plain 9,
     conn_option (bstr ''sslcompression'') (Some (bstr ''PGSSLCOMPRESSION'')) (Some (bstr ''0'')) (bstr ''SSL-Compression'') Plain 1,
     conn_option (bstr ''sslcert'') (Some (bstr ''PGSSLCERT'')) None (bstr ''SSL-Client-Cert'') Plain 64,
     conn_option (bstr ''sslkey'') (Some (bstr ''PGSSLKEY'')) None (bstr ''SSL-Client-Key'') Plain 64,
     conn_option (bstr ''sslcertmode'') (Some (bstr ''PGSSLCERTMODE'')) None (bstr ''SSL-Client-Cert-Mode'') Plain 8,
     conn_option (bstr ''sslpassword'') None None (bstr ''SSL-Client-Key-Password'') Password 20,
     conn_option (bstr ''sslrootcert'') (Some (bstr ''PGSSLROOTCERT'')) None (bstr ''SSL-Root-Certificate'') Plain 64,
     conn_option (bstr ''sslcrl'') (Some (bstr ''PGSSLCRL'')) None (bstr ''SSL-Revocation-List'') Plain 64,
     conn_option (bstr ''sslcrldir'') (Some (bstr ''PGSSLCRLDIR'')) None (bstr ''SSL-Revocation-List-Dir'') Plain 64,
     conn_option (bstr ''sslsni'') (Some (bstr ''PGSSLSNI'')) (Some (bstr ''1'')) (bstr ''SSL-SNI'') Plain 1,
     conn_option (bstr ''requirepeer'') (Some (bstr ''PGREQUIREPEER'')) None (bstr ''Require-Peer'') Plain 10,
     conn_option (bstr ''require_auth'') (Some (bstr ''PGREQUIREAUTH'')) None (bstr ''Require-Auth'') Plain 14,
     conn_option (bstr ''min_protocol_version'') (Some (bstr ''PGMINPROTOCOLVERSION'')) None (bstr ''Min-Protocol-Version'') Plain 6,
     conn_option (bstr ''max_protocol_version'') (Some (bstr ''PGMAXPROTOCOLVERSION'')) None (bstr ''Max-Protocol-Version'') Plain 6]"

definition OPTIONS_3 :: "conn_option_def list" where
  "OPTIONS_3 = [
     conn_option (bstr ''ssl_min_protocol_version'') (Some (bstr ''PGSSLMINPROTOCOLVERSION'')) (Some (bstr ''TLSv1.2'')) (bstr ''SSL-Minimum-Protocol-Version'') Plain 8,
     conn_option (bstr ''ssl_max_protocol_version'') (Some (bstr ''PGSSLMAXPROTOCOLVERSION'')) None (bstr ''SSL-Maximum-Protocol-Version'') Plain 8,
     conn_option (bstr ''gssencmode'') (Some (bstr ''PGGSSENCMODE'')) (Some DEFAULT_GSS_MODE) (bstr ''GSSENC-Mode'') Plain 8,
     conn_option (bstr ''krbsrvname'') (Some (bstr ''PGKRBSRVNAME'')) (Some PG_KRB_SRVNAM) (bstr ''Kerberos-service-name'') Plain 20,
     conn_option (bstr ''gsslib'') (Some (bstr ''PGGSSLIB'')) None (bstr ''GSS-library'') Plain 7,
     conn_option (bstr ''gssdelegation'') (Some (bstr ''PGGSSDELEGATION'')) (Some (bstr ''0'')) (bstr ''GSS-delegation'') Plain 1,
     conn_option (bstr ''replication'') None None (bstr ''Replication'') Debug 5,
     conn_option (bstr ''target_session_attrs'') (Some (bstr ''PGTARGETSESSIONATTRS'')) (Some DEFAULT_TARGET_SESSION_ATTRS) (bstr ''Target-Session-Attrs'') Plain 15,
     conn_option (bstr ''load_balance_hosts'') (Some (bstr ''PGLOADBALANCEHOSTS'')) (Some DEFAULT_LOAD_BALANCE_HOSTS) (bstr ''Load-Balance-Hosts'') Plain 8,
     conn_option (bstr ''scram_client_key'') None None (bstr ''SCRAM-Client-Key'') Debug (SCRAM_MAX_KEY_LEN * 2),
     conn_option (bstr ''scram_server_key'') None None (bstr ''SCRAM-Server-Key'') Debug (SCRAM_MAX_KEY_LEN * 2),
     conn_option (bstr ''oauth_issuer'') None None (bstr ''OAuth-Issuer'') Plain 40,
     conn_option (bstr ''oauth_client_id'') None None (bstr ''OAuth-Client-ID'') Plain 40,
     conn_option (bstr ''oauth_client_secret'') None None (bstr ''OAuth-Client-Secret'') Password 40,
     conn_option (bstr ''oauth_scope'') None None (bstr ''OAuth-Scope'') Plain 15,
     conn_option (bstr ''sslkeylogfile'') None None (bstr ''SSL-Key-Log-File'') Debug 64]"

definition CONNINFO_OPTIONS :: "conn_option_def list" where
  "CONNINFO_OPTIONS = OPTIONS_1 @ OPTIONS_2 @ OPTIONS_3"

section \<open>A working copy\<close>

type_synonym conn_info = "bytes option list"

text \<open>\<open>Iterator::position\<close>.\<close>

fun position :: "('a \<Rightarrow> bool) \<Rightarrow> 'a list \<Rightarrow> nat option" where
  "position P [] = None"
| "position P (x # xs) = (if P x then Some 0 else map_option Suc (position P xs))"

definition ConnInfo_new :: conn_info where
  "ConnInfo_new = replicate (length CONNINFO_OPTIONS) None"

definition index_of :: "bytes \<Rightarrow> nat option" where
  "index_of keyword = position (\<lambda>def. co_keyword def = keyword) CONNINFO_OPTIONS"

definition conn_get :: "conn_info \<Rightarrow> bytes \<Rightarrow> bytes option" where
  "conn_get ci keyword = Option.bind (index_of keyword) (\<lambda>i. ci ! i)"

text \<open>The error of \<open>set\<close> is the unknown keyword.\<close>

definition conn_set :: "conn_info \<Rightarrow> bytes \<Rightarrow> bytes \<Rightarrow> (conn_info, bytes) result" where
  "conn_set ci keyword v =
     (let (keyword, v) =
        (if keyword = bstr ''requiressl''
         then (if at v 0 = chb CHR ''1'' then (bstr ''sslmode'', bstr ''require'')
               else (bstr ''sslmode'', bstr ''prefer''))
         else (keyword, v))
      in case index_of keyword of
           None \<Rightarrow> Err keyword
         | Some i \<Rightarrow> Ok (ci[i := Some v]))"

definition set_if_unset :: "conn_info \<Rightarrow> nat \<Rightarrow> bytes \<Rightarrow> conn_info" where
  "set_if_unset ci i v = (if ci ! i = None then ci[i := Some v] else ci)"

section \<open>Fallbacks\<close>

type_synonym env = "bytes \<Rightarrow> bytes option"

definition named_user :: "env \<Rightarrow> bytes \<Rightarrow> bytes option" where
  "named_user env key = (case env key of Some name \<Rightarrow> if name \<noteq> [] then Some name else None | None \<Rightarrow> None)"

definition effective_user :: "env \<Rightarrow> bytes option" where
  "effective_user env =
     (case named_user env (bstr ''USER'') of Some u \<Rightarrow> Some u | None \<Rightarrow> named_user env (bstr ''LOGNAME''))"

text \<open>One turn of the loop of \<open>add_fallbacks\<close>, over the values and \<open>sslmode_default\<close>.\<close>

definition fallback_step ::
  "env \<Rightarrow> nat \<Rightarrow> conn_info \<times> nat option \<Rightarrow> conn_info \<times> nat option" where
  "fallback_step env i st =
     (let (vals, dflt) = st; def = CONNINFO_OPTIONS ! i in
      if vals ! i \<noteq> None then (vals, dflt)
      else case Option.bind (co_envvar def) env of
        Some v \<Rightarrow> (vals[i := Some v], dflt)
      | None \<Rightarrow>
          if co_keyword def = bstr ''sslmode'' \<and>
             (case env (bstr ''PGREQUIRESSL'') of Some v \<Rightarrow> at v 0 = chb CHR ''1'' | None \<Rightarrow> False)
          then (vals[i := Some (bstr ''require'')], dflt)
          else
            let dflt = (if co_keyword def = bstr ''sslmode'' then Some i else dflt) in
            (case co_compiled def of
               Some c \<Rightarrow> (vals[i := Some c], dflt)
             | None \<Rightarrow>
                 if co_keyword def = bstr ''user'' then (vals[i := effective_user env], dflt)
                 else (vals, dflt)))"

definition add_fallbacks :: "env \<Rightarrow> conn_info \<Rightarrow> conn_info" where
  "add_fallbacks env ci =
     (let (vals, dflt) = fold (fallback_step env) [0..<length CONNINFO_OPTIONS] (ci, None) in
      case dflt of
        Some i \<Rightarrow> if conn_get vals (bstr ''sslrootcert'') = Some (bstr ''system'')
                  then vals[i := Some (bstr ''verify-full'')] else vals
      | None \<Rightarrow> vals)"

section \<open>Parsing keyword/value strings\<close>

definition starts_with :: "bytes \<Rightarrow> bytes \<Rightarrow> bool" where
  "starts_with pre s = (take (length pre) s = pre)"

definition uri_prefix_length :: "bytes \<Rightarrow> nat" where
  "uri_prefix_length s =
     (if starts_with (bstr ''postgresql://'') s then length (bstr ''postgresql://'')
      else if starts_with (bstr ''postgres://'') s then length (bstr ''postgres://'') else 0)"

definition recognized_connection_string :: "bytes \<Rightarrow> bool" where
  "recognized_connection_string s =
     (uri_prefix_length s \<noteq> 0 \<or> chb CHR ''='' \<in> set s)"

function read_bare_value :: "bytes \<Rightarrow> nat \<Rightarrow> bytes \<times> nat" where
  "read_bare_value buf cp =
     (if at buf cp = 0 then ([], cp)
      else if is_space (at buf cp) then ([], cp + 1)
      else if at buf cp = 92 then
        (if at buf (cp + 1) \<noteq> 0
         then (let (v, e) = read_bare_value buf (cp + 2) in (at buf (cp + 1) # v, e))
         else read_bare_value buf (cp + 1))
      else (let (v, e) = read_bare_value buf (cp + 1) in (at buf cp # v, e)))"
  by pat_completeness auto
termination
  by (relation "measure (\<lambda>(buf, cp). length buf - cp)") (auto simp: at_def split: if_splits)

function read_quoted_value :: "bytes \<Rightarrow> nat \<Rightarrow> (bytes \<times> nat, conn_error) result" where
  "read_quoted_value buf cp =
     (if at buf cp = 0 then Err UnterminatedQuotedString
      else if at buf cp = 92 then
        (if at buf (cp + 1) \<noteq> 0
         then and_then (read_quoted_value buf (cp + 2)) (\<lambda>(v, e). Ok (at buf (cp + 1) # v, e))
         else read_quoted_value buf (cp + 1))
      else if at buf cp = 39 then Ok ([], cp + 1)
      else and_then (read_quoted_value buf (cp + 1)) (\<lambda>(v, e). Ok (at buf cp # v, e)))"
  by pat_completeness auto
termination
  by (relation "measure (\<lambda>(buf, cp). length buf - cp)") (auto simp: at_def split: if_splits)

declare read_bare_value.simps [simp del] read_quoted_value.simps [simp del]

lemma read_bare_value_ge: "cp \<le> snd (read_bare_value buf cp)"
proof (induction buf cp rule: read_bare_value.induct)
  case (1 buf cp)
  then show ?case
    by (subst read_bare_value.simps) (auto split: prod.splits)
qed

lemma read_quoted_value_ge: "read_quoted_value buf cp = Ok (v, e) \<Longrightarrow> cp \<le> e"
proof (induction buf cp arbitrary: v e rule: read_quoted_value.induct)
  case (1 buf cp)
  have eq: "read_quoted_value buf cp = (if at buf cp = 0 then Err UnterminatedQuotedString
      else if at buf cp = 92 then
        (if at buf (cp + 1) \<noteq> 0
         then and_then (read_quoted_value buf (cp + 2)) (\<lambda>(v, e). Ok (at buf (cp + 1) # v, e))
         else read_quoted_value buf (cp + 1))
      else if at buf cp = 39 then Ok ([], cp + 1)
      else and_then (read_quoted_value buf (cp + 1)) (\<lambda>(v, e). Ok (at buf cp # v, e)))"
    by (rule read_quoted_value.simps)
  consider "at buf cp = 92" "at buf (cp + 1) \<noteq> 0" | "at buf cp = 92" "at buf (cp + 1) = 0"
    | "at buf cp = 39" | "at buf cp \<noteq> 0" "at buf cp \<noteq> 92" "at buf cp \<noteq> 39" | "at buf cp = 0"
    by blast
  then show ?case
  proof cases
    case 1
    then show ?thesis
      using "1.IH"(1) "1.prems" eq by fastforce
  next
    case 2
    then show ?thesis
      using "1.IH"(2) "1.prems" eq by fastforce
  next
    case 3
    then show ?thesis
      using "1.prems" eq by simp
  next
    case 4
    then show ?thesis
      using "1.IH"(3) "1.prems" eq by fastforce
  next
    case 5
    then show ?thesis
      using "1.prems" eq by simp
  qed
qed

text \<open>The scanning of one parameter name: where the name ends, and where the scan goes on.\<close>

definition name_end :: "bytes \<Rightarrow> nat \<Rightarrow> nat" where
  "name_end buf cp = scan (\<lambda>c. c \<noteq> 61 \<and> \<not> is_space c) buf cp"

definition after_name :: "bytes \<Rightarrow> nat \<Rightarrow> nat" where
  "after_name buf cp =
     (let e = name_end buf cp in
      if at buf e \<noteq> 0 \<and> is_space (at buf e) then scan is_space buf (e + 1) else e)"

definition read_value :: "bytes \<Rightarrow> nat \<Rightarrow> (bytes \<times> nat, conn_error) result" where
  "read_value buf cp =
     (if at buf cp = 39 then read_quoted_value buf (cp + 1) else Ok (read_bare_value buf cp))"

lemma read_value_ge: "read_value buf cp = Ok (v, e) \<Longrightarrow> cp \<le> e"
  using read_bare_value_ge [of cp buf]
  by (auto simp: read_value_def dest!: read_quoted_value_ge split: if_splits)

lemma after_name_ge: "cp \<le> after_name buf cp"
  using scan_ge [of cp "\<lambda>c. c \<noteq> 61 \<and> \<not> is_space c" buf]
    scan_ge [of "name_end buf cp + 1" is_space buf]
  by (auto simp: after_name_def name_end_def Let_def)

function parse_kv_from :: "bytes \<Rightarrow> nat \<Rightarrow> conn_info \<Rightarrow> (conn_info, conn_error) result" where
  "parse_kv_from buf cp ci =
     (if at buf cp = 0 then Ok ci
      else if is_space (at buf cp) then parse_kv_from buf (cp + 1) ci
      else let name = slice buf cp (name_end buf cp); eq = after_name buf cp in
        if at buf eq \<noteq> 61 then Err (MissingEquals name)
        else case read_value buf (scan is_space buf (eq + 1)) of
          Err e \<Rightarrow> Err e
        | Ok (v, cp') \<Rightarrow>
            (case conn_set ci name v of
               Err k \<Rightarrow> Err (InvalidConnectionOption k)
             | Ok ci' \<Rightarrow> parse_kv_from buf cp' ci'))"
  by pat_completeness auto
termination
proof (relation "measure (\<lambda>(buf, cp, ci). length buf - cp)", goal_cases)
  case (2 buf cp ci)
  then show ?case
    using at_nonzero_less [of buf cp] by auto
next
  case (3 buf cp ci name eq r v cp' ci')
  have "cp \<le> eq" "eq < length buf"
    using 3(3-5) after_name_ge [of cp buf] at_nonzero_less [of buf eq] by auto
  moreover have "eq + 1 \<le> cp'"
    using read_value_ge [of buf "scan is_space buf (eq + 1)" v cp'] 3(6,7)
      scan_ge [of "eq + 1" is_space buf] by simp
  ultimately show ?case
    by simp
qed simp

declare parse_kv_from.simps [simp del]

definition parse_keyword_value :: "bytes \<Rightarrow> (conn_info, conn_error) result" where
  "parse_keyword_value buf = parse_kv_from buf 0 ConnInfo_new"

section \<open>The working copy as a store\<close>

text \<open>The interface: settings by key, of which the last one for a key counts. The parsers use a
  working copy through these laws only.\<close>

locale keyed_store =
  fixes wf :: "'s \<Rightarrow> bool"
    and new :: 's
    and get :: "'s \<Rightarrow> 'k \<Rightarrow> 'v option"
    and put :: "'s \<Rightarrow> 'k \<Rightarrow> 'v \<Rightarrow> 's"
    and known :: "'k \<Rightarrow> bool"
  assumes wf_new: "wf new"
    and wf_put: "wf s \<Longrightarrow> known k \<Longrightarrow> wf (put s k v)"
    and get_new: "get new k = None"
    and get_put: "wf s \<Longrightarrow> known k \<Longrightarrow> get (put s k v) k' = (if k' = k then Some v else get s k')"
begin

lemma wf_put_all:
  "wf s \<Longrightarrow> \<forall>(k, v) \<in> set kvs. known k \<Longrightarrow> wf (fold (\<lambda>(k, v) s. put s k v) kvs s)"
  by (induction kvs arbitrary: s) (auto simp: wf_put)

lemma get_put_all:
  "wf s \<Longrightarrow> \<forall>(k, v) \<in> set kvs. known k \<Longrightarrow>
   get (fold (\<lambda>(k, v) s. put s k v) kvs s) k' =
     (case map_of (rev kvs) k' of Some v \<Rightarrow> Some v | None \<Rightarrow> get s k')"
proof (induction kvs arbitrary: s)
  case (Cons kv kvs)
  then show ?case
    by (cases kv) (auto simp: wf_put get_put map_add_def split: option.splits)
qed simp

lemma last_setting_counts:
  assumes "\<forall>(k, v) \<in> set kvs. known k"
  shows "get (fold (\<lambda>(k, v) s. put s k v) kvs new) k' = map_of (rev kvs) k'"
  using get_put_all [OF wf_new assms] by (simp add: get_new split: option.splits)

end

definition known_keyword :: "bytes \<Rightarrow> bool" where
  "known_keyword k = (index_of k \<noteq> None)"

definition conn_wf :: "conn_info \<Rightarrow> bool" where
  "conn_wf ci = (length ci = length CONNINFO_OPTIONS)"

definition conn_put :: "conn_info \<Rightarrow> bytes \<Rightarrow> bytes \<Rightarrow> conn_info" where
  "conn_put ci k v = (case conn_set ci k v of Ok ci' \<Rightarrow> ci' | Err _ \<Rightarrow> ci)"

lemma position_Some:
  "position P xs = Some i \<Longrightarrow> i < length xs \<and> P (xs ! i)"
  by (induction xs arbitrary: i) (auto split: if_splits)

lemma index_of_Some:
  "index_of k = Some i \<Longrightarrow> i < length CONNINFO_OPTIONS \<and> co_keyword (CONNINFO_OPTIONS ! i) = k"
  unfolding index_of_def by (drule position_Some) simp

lemma position_None: "position P xs = None \<longleftrightarrow> (\<forall>x \<in> set xs. \<not> P x)"
  by (induction xs) auto

definition plain_keyword :: "bytes \<Rightarrow> bool" where
  "plain_keyword k = (k \<noteq> [] \<and> k \<noteq> bstr ''requiressl'' \<and>
     list_all (\<lambda>c. c \<noteq> 0 \<and> c \<noteq> 61 \<and> \<not> is_space c) k)"

lemma keywords_plain: "list_all (plain_keyword \<circ> co_keyword) CONNINFO_OPTIONS"
  unfolding CONNINFO_OPTIONS_def OPTIONS_1_def OPTIONS_2_def OPTIONS_3_def
  by (simp add: conn_option_def plain_keyword_def is_space_def)

lemma known_plain: "known_keyword k \<Longrightarrow> plain_keyword k"
  using keywords_plain index_of_Some by (fastforce simp: known_keyword_def list_all_length)

lemma conn_set_known:
  assumes "known_keyword k"
  obtains i where "index_of k = Some i" "conn_set ci k v = Ok (ci[i := Some v])"
  using assms known_plain [OF assms]
  by (auto simp: known_keyword_def plain_keyword_def conn_set_def)

interpretation conninfo: keyed_store conn_wf ConnInfo_new conn_get conn_put known_keyword
proof unfold_locales
  show "conn_wf ConnInfo_new"
    by (simp add: conn_wf_def ConnInfo_new_def)
  show "conn_get ConnInfo_new k = None" for k
    by (cases "index_of k") (auto simp: conn_get_def ConnInfo_new_def dest: index_of_Some)
next
  fix s k v
  assume s: "conn_wf s" and k: "known_keyword k"
  obtain i where i: "index_of k = Some i" "conn_set s k v = Ok (s[i := Some v])"
    using conn_set_known [OF k] by blast
  show "conn_wf (conn_put s k v)"
    using s i by (simp add: conn_wf_def conn_put_def)
  show "conn_get (conn_put s k v) k' = (if k' = k then Some v else conn_get s k')" for k'
  proof (cases "index_of k'")
    case None
    then show ?thesis
      using i by (auto simp: conn_get_def)
  next
    case (Some j)
    then show ?thesis
      using i s index_of_Some [of k i] index_of_Some [of k' j]
      by (auto simp: conn_get_def conn_put_def conn_wf_def nth_list_update)
  qed
qed


section \<open>Parsing what was printed\<close>

text \<open>The quoted spelling of a setting: every quote and backslash of the value is escaped.\<close>

definition quote_value :: "bytes \<Rightarrow> bytes" where
  "quote_value v = concat (map (\<lambda>c. if c = 39 \<or> c = 92 then [92, c] else [c]) v)"

definition print_setting :: "bytes \<times> bytes \<Rightarrow> bytes" where
  "print_setting kv = fst kv @ [61, 39] @ quote_value (snd kv) @ [39, 32]"

definition print_settings :: "(bytes \<times> bytes) list \<Rightarrow> bytes" where
  "print_settings kvs = concat (map print_setting kvs)"

lemma at_append_Suc [simp]: "at (xs @ y # ys) (Suc (length xs)) = at ys 0"
  using at_append_length [of "xs @ [y]" ys 0] by simp

lemma read_quoted_quote:
  assumes "0 \<notin> set v"
  shows "read_quoted_value (xs @ quote_value v @ 39 # zs) (length xs) =
         Ok (v, length xs + length (quote_value v) + 1)"
  using assms
proof (induction v arbitrary: xs)
  case Nil
  then show ?case
    by (subst read_quoted_value.simps) (simp add: quote_value_def)
next
  case (Cons c v)
  show ?case
  proof (cases "c = 39 \<or> c = 92")
    case True
    have IH: "read_quoted_value ((xs @ [92, c]) @ quote_value v @ 39 # zs) (length (xs @ [92, c])) =
        Ok (v, length (xs @ [92, c]) + length (quote_value v) + 1)"
      using Cons by (intro Cons.IH) simp
    show ?thesis
      using True Cons.prems IH
      by (subst read_quoted_value.simps) (auto simp: quote_value_def)
  next
    case False
    have IH: "read_quoted_value ((xs @ [c]) @ quote_value v @ 39 # zs) (length (xs @ [c])) =
        Ok (v, length (xs @ [c]) + length (quote_value v) + 1)"
      using Cons by (intro Cons.IH) simp
    show ?thesis
      using False Cons.prems IH
      by (subst read_quoted_value.simps) (auto simp: quote_value_def)
  qed
qed

lemma parse_kv_step:
  assumes "at buf cp \<noteq> 0" and "\<not> is_space (at buf cp)" and "at buf (after_name buf cp) = 61"
    and "read_value buf (scan is_space buf (after_name buf cp + 1)) = Ok (v, cp')"
    and "conn_set ci (slice buf cp (name_end buf cp)) v = Ok ci'"
  shows "parse_kv_from buf cp ci = parse_kv_from buf cp' ci'"
  using assms by (subst parse_kv_from.simps) (simp add: Let_def)

lemma parse_print_setting:
  assumes k: "known_keyword k" and v: "0 \<notin> set v"
  shows "parse_kv_from (xs @ print_setting (k, v) @ zs) (length xs) ci =
         parse_kv_from (xs @ print_setting (k, v) @ zs) (length (xs @ print_setting (k, v)))
           (conn_put ci k v)"
proof -
  let ?buf = "xs @ print_setting (k, v) @ zs" and ?n = "length xs + length k"
  have pl: "k \<noteq> []" "\<forall>c \<in> set k. c \<noteq> 0 \<and> c \<noteq> 61 \<and> \<not> is_space c"
    using known_plain [OF k] by (auto simp: plain_keyword_def list_all_iff)
  then have hd: "at ?buf (length xs) \<noteq> 0" "\<not> is_space (at ?buf (length xs))"
    by (cases k; simp add: print_setting_def)+
  have b: "?buf = xs @ k @ 61 # 39 # quote_value v @ 39 # 32 # zs"
    by (simp add: print_setting_def)
  have ne: "name_end ?buf (length xs) = ?n"
    unfolding name_end_def b using pl(2) by (intro scan_block) (auto simp: is_space_def)
  have at_n: "at ?buf ?n = 61"
    using at_append_length [of "xs @ k" "61 # 39 # quote_value v @ 39 # 32 # zs" 0] b by simp
  have an: "after_name ?buf (length xs) = ?n"
    using at_n by (simp add: after_name_def ne is_space_def)
  have at_q: "at ?buf (?n + 1) = 39"
    using at_append_length [of "xs @ k @ [61]" "39 # quote_value v @ 39 # 32 # zs" 0] b by simp
  have sc: "scan is_space ?buf (?n + 1) = ?n + 1"
    using at_q by (intro scan_stop_here) (simp add: is_space_def)
  have "read_quoted_value ?buf (?n + 2) = Ok (v, ?n + 2 + length (quote_value v) + 1)"
    using read_quoted_quote [OF v, of "xs @ k @ [61, 39]" "32 # zs"] b by simp
  then have rv: "read_value ?buf (?n + 1) = Ok (v, ?n + 3 + length (quote_value v))"
    using at_q by (simp add: read_value_def numeral_eq_Suc)
  have nm: "slice ?buf (length xs) ?n = k"
    unfolding b by (rule slice_block)
  obtain ci' where cs: "conn_set ci k v = Ok ci'" "conn_put ci k v = ci'"
    using conn_set_known [OF k, of ci v] by (auto simp: conn_put_def)
  let ?m = "?n + 3 + length (quote_value v)"
  have at_m: "at ?buf ?m = 32"
    using at_append_length [of "xs @ k @ [61, 39] @ quote_value v @ [39]" "32 # zs" 0] b
    by (simp add: numeral_eq_Suc add.assoc)
  have "parse_kv_from ?buf (length xs) ci = parse_kv_from ?buf ?m ci'"
    using hd at_n rv cs(1)
    by (intro parse_kv_step [of _ _ v]) (simp_all only: ne an nm sc not_False_eq_True)
  also have "\<dots> = parse_kv_from ?buf (?m + 1) ci'"
    using at_m by (subst parse_kv_from.simps) (simp add: is_space_def)
  also have "?m + 1 = length (xs @ print_setting (k, v))"
    by (simp add: print_setting_def)
  finally show ?thesis
    using cs(2) by simp
qed

lemma parse_print_settings:
  assumes "\<forall>(k, v) \<in> set kvs. known_keyword k \<and> 0 \<notin> set v"
  shows "parse_kv_from (xs @ print_settings kvs) (length xs) ci =
         Ok (fold (\<lambda>(k, v) ci. conn_put ci k v) kvs ci)"
  using assms
proof (induction kvs arbitrary: xs ci)
  case Nil
  then show ?case
    by (subst parse_kv_from.simps) (simp add: print_settings_def)
next
  case (Cons kv kvs)
  obtain k v where kv: "kv = (k, v)"
    by fastforce
  have "parse_kv_from (xs @ print_settings (kv # kvs)) (length xs) ci =
      parse_kv_from ((xs @ print_setting (k, v)) @ print_settings kvs)
        (length (xs @ print_setting (k, v))) (conn_put ci k v)"
    using Cons.prems parse_print_setting [of k v xs "print_settings kvs" ci]
    by (simp add: kv print_settings_def)
  also have "\<dots> = Ok (fold (\<lambda>(k, v) ci. conn_put ci k v) kvs (conn_put ci k v))"
    using Cons.prems by (intro Cons.IH) simp
  finally show ?case
    by (simp add: kv)
qed

text \<open>C15: The keyword/value parser inverts the quoted spelling. For any list of settings of known
  options with NUL-free values (spaces, quotes, backslashes, equal signs and empty values
  included), parsing their quoted spelling succeeds, and in the result every option has the value
  of its last setting, and none if it was not set.\<close>

theorem parse_keyword_value_round_trip:
  assumes "\<forall>(k, v) \<in> set kvs. known_keyword k \<and> 0 \<notin> set v"
  shows "\<exists>ci. parse_keyword_value (print_settings kvs) = Ok ci \<and>
           (\<forall>k. conn_get ci k = map_of (rev kvs) k)"
proof -
  have "parse_keyword_value (print_settings kvs) =
      Ok (fold (\<lambda>(k, v) ci. conn_put ci k v) kvs ConnInfo_new)"
    using parse_print_settings [OF assms, of "[]"] by (simp add: parse_keyword_value_def)
  moreover have "\<forall>(k, v) \<in> set kvs. known_keyword k"
    using assms by auto
  ultimately show ?thesis
    using conninfo.last_setting_counts by blast
qed

theorem parse_keyword_value_round_trip_witness:
  "\<exists>ci. parse_keyword_value (print_settings [(bstr ''host'', [97, 32, 39]), (bstr ''user'', [])]) = Ok ci
     \<and> conn_get ci (bstr ''host'') = Some [97, 32, 39]"
proof -
  have "known_keyword (bstr ''host'')" "known_keyword (bstr ''user'')"
    unfolding known_keyword_def index_of_def CONNINFO_OPTIONS_def OPTIONS_1_def
    by (simp_all add: conn_option_def)
  then show ?thesis
    using parse_keyword_value_round_trip [of "[(bstr ''host'', [97, 32, 39]), (bstr ''user'', [])]"]
    by auto
qed


section \<open>Fallbacks in their order\<close>

text \<open>What an unset option falls back to, the compiled-in \<open>sslmode\<close> aside.\<close>

definition fallback_value :: "env \<Rightarrow> conn_option_def \<Rightarrow> bytes option" where
  "fallback_value env def =
     (case Option.bind (co_envvar def) env of
        Some v \<Rightarrow> Some v
      | None \<Rightarrow>
          if co_keyword def = bstr ''sslmode'' \<and>
             (case env (bstr ''PGREQUIRESSL'') of Some v \<Rightarrow> at v 0 = chb CHR ''1'' | None \<Rightarrow> False)
          then Some (bstr ''require'')
          else case co_compiled def of
                 Some c \<Rightarrow> Some c
               | None \<Rightarrow> if co_keyword def = bstr ''user'' then effective_user env else None)"

text \<open>The loop leaves the \<open>sslmode\<close> index behind exactly when that option takes its compiled-in
  default.\<close>

definition takes_default :: "env \<Rightarrow> bytes option \<Rightarrow> conn_option_def \<Rightarrow> bool" where
  "takes_default env v def =
     (v = None \<and> Option.bind (co_envvar def) env = None \<and>
      co_keyword def = bstr ''sslmode'' \<and>
      \<not> (case env (bstr ''PGREQUIRESSL'') of Some v \<Rightarrow> at v 0 = chb CHR ''1'' | None \<Rightarrow> False))"

lemma fallback_step_eq:
  assumes "i < length vals"
  shows "fallback_step env i (vals, dflt) =
    (vals[i := (case vals ! i of Some v \<Rightarrow> Some v
                | None \<Rightarrow> fallback_value env (CONNINFO_OPTIONS ! i))],
     if takes_default env (vals ! i) (CONNINFO_OPTIONS ! i) then Some i else dflt)"
proof (cases "vals ! i")
  case None
  then have same: "vals[i := None] = vals"
    using assms list_update_id [of vals i] by simp
  show ?thesis
    using None
    by (cases "Option.bind (co_envvar (CONNINFO_OPTIONS ! i)) env";
        cases "co_compiled (CONNINFO_OPTIONS ! i)")
      (auto simp: fallback_step_def fallback_value_def takes_default_def Let_def same)
next
  case (Some v)
  then show ?thesis
    using list_update_id [of vals i]
    by (simp add: fallback_step_def takes_default_def)
qed

lemma fallback_loop:
  assumes "conn_wf ci" and "n \<le> length CONNINFO_OPTIONS"
  shows "\<exists>dflt. fold (fallback_step env) [0..<n] (ci, None) =
      (map (\<lambda>i. case ci ! i of Some v \<Rightarrow> Some v | None \<Rightarrow> fallback_value env (CONNINFO_OPTIONS ! i))
         [0..<n] @ drop n ci, dflt) \<and>
    (\<forall>i. dflt = Some i \<longrightarrow> i < n \<and> takes_default env (ci ! i) (CONNINFO_OPTIONS ! i)) \<and>
    (dflt = None \<longrightarrow> (\<forall>i < n. \<not> takes_default env (ci ! i) (CONNINFO_OPTIONS ! i)))"
  using assms(2)
proof (induction n)
  case 0
  then show ?case
    by simp
next
  case (Suc n)
  let ?f = "\<lambda>i. case ci ! i of Some v \<Rightarrow> Some v | None \<Rightarrow> fallback_value env (CONNINFO_OPTIONS ! i)"
  have n: "n < length ci"
    using Suc.prems assms(1) by (simp add: conn_wf_def)
  obtain dflt where IH: "fold (fallback_step env) [0..<n] (ci, None) = (map ?f [0..<n] @ drop n ci, dflt)"
      "\<forall>i. dflt = Some i \<longrightarrow> i < n \<and> takes_default env (ci ! i) (CONNINFO_OPTIONS ! i)"
      "dflt = None \<longrightarrow> (\<forall>i < n. \<not> takes_default env (ci ! i) (CONNINFO_OPTIONS ! i))"
    using Suc by auto
  have at_n: "(map ?f [0..<n] @ drop n ci) ! n = ci ! n"
    using n by (simp add: nth_append)
  have upd: "(map ?f [0..<n] @ drop n ci)[n := ?f n] = map ?f [0..<Suc n] @ drop (Suc n) ci"
    using n by (simp add: list_update_append Cons_nth_drop_Suc [symmetric])
  have step: "fold (fallback_step env) [0..<Suc n] (ci, None) =
      (map ?f [0..<Suc n] @ drop (Suc n) ci,
       if takes_default env (ci ! n) (CONNINFO_OPTIONS ! n) then Some n else dflt)"
    using fallback_step_eq [of n "map ?f [0..<n] @ drop n ci" env dflt] n IH(1) upd at_n by simp
  show ?case
    using IH(2,3) unfolding step by (auto simp: less_Suc_eq)
qed


lemma keywords_distinct: "distinct (map co_keyword CONNINFO_OPTIONS)"
  unfolding CONNINFO_OPTIONS_def OPTIONS_1_def OPTIONS_2_def OPTIONS_3_def
  by (simp add: conn_option_def)

lemma index_of_nth:
  assumes "i < length CONNINFO_OPTIONS"
  shows "index_of (co_keyword (CONNINFO_OPTIONS ! i)) = Some i"
proof (cases "index_of (co_keyword (CONNINFO_OPTIONS ! i))")
  case None
  then show ?thesis
    using assms by (auto simp: index_of_def position_None)
next
  case (Some j)
  then show ?thesis
    using index_of_Some [OF Some] assms keywords_distinct
    by (auto simp: distinct_conv_nth)
qed

lemma index_of_ssl:
  "index_of (bstr ''sslmode'') = Some 19" "co_envvar (CONNINFO_OPTIONS ! 19) = Some (bstr ''PGSSLMODE'')"
  "index_of (bstr ''sslrootcert'') = Some 26"
  "CONNINFO_OPTIONS ! 26 = conn_option (bstr ''sslrootcert'') (Some (bstr ''PGSSLROOTCERT'')) None
     (bstr ''SSL-Root-Certificate'') Plain 64"
  unfolding index_of_def CONNINFO_OPTIONS_def OPTIONS_1_def OPTIONS_2_def
  by (simp_all add: conn_option_def)


definition require_ssl_env :: "env \<Rightarrow> bool" where
  "require_ssl_env env =
     (case env (bstr ''PGREQUIRESSL'') of Some v \<Rightarrow> at v 0 = chb CHR ''1'' | None \<Rightarrow> False)"

definition root_cert :: "env \<Rightarrow> conn_info \<Rightarrow> bytes option" where
  "root_cert env ci =
     (case conn_get ci (bstr ''sslrootcert'') of
        Some v \<Rightarrow> Some v | None \<Rightarrow> env (bstr ''PGSSLROOTCERT''))"

lemma takes_default_index:
  assumes "i < length CONNINFO_OPTIONS" and "takes_default env v (CONNINFO_OPTIONS ! i)"
  shows "i = 19 \<and> v = None \<and> env (bstr ''PGSSLMODE'') = None \<and> \<not> require_ssl_env env"
proof -
  have "i = 19"
    using index_of_nth [OF assms(1)] assms(2) index_of_ssl(1)
    unfolding takes_default_def by (metis option.inject)
  then show ?thesis
    using assms(2) index_of_ssl(2) by (simp add: takes_default_def require_ssl_env_def)
qed

lemma add_fallbacks_nth:
  assumes wf: "conn_wf ci" and i: "index_of k = Some i"
  shows "conn_get (add_fallbacks env ci) k =
    (case conn_get ci k of
       Some v \<Rightarrow> Some v
     | None \<Rightarrow>
         if k = bstr ''sslmode'' \<and> env (bstr ''PGSSLMODE'') = None \<and> \<not> require_ssl_env env \<and>
            root_cert env ci = Some (bstr ''system'')
         then Some (bstr ''verify-full'') else fallback_value env (CONNINFO_OPTIONS ! i))"
proof -
  let ?f = "\<lambda>i. case ci ! i of Some v \<Rightarrow> Some v | None \<Rightarrow> fallback_value env (CONNINFO_OPTIONS ! i)"
  let ?vals = "map ?f [0..<length CONNINFO_OPTIONS]"
  have i': "i < length CONNINFO_OPTIONS" "co_keyword (CONNINFO_OPTIONS ! i) = k"
    using index_of_Some [OF i] by auto
  obtain dflt where d: "fold (fallback_step env) [0..<length CONNINFO_OPTIONS] (ci, None) = (?vals, dflt)"
      "\<forall>i. dflt = Some i \<longrightarrow> i < length CONNINFO_OPTIONS \<and> takes_default env (ci ! i) (CONNINFO_OPTIONS ! i)"
      "dflt = None \<longrightarrow> (\<forall>i < length CONNINFO_OPTIONS. \<not> takes_default env (ci ! i) (CONNINFO_OPTIONS ! i))"
    using fallback_loop [OF wf order.refl, of env] wf by (auto simp: conn_wf_def)
  have l: "19 < length CONNINFO_OPTIONS" "26 < length CONNINFO_OPTIONS"
    using index_of_Some index_of_ssl(1,3) by blast+
  have root: "conn_get ?vals (bstr ''sslrootcert'') = root_cert env ci"
  proof -
    have ne: "bstr ''sslrootcert'' \<noteq> bstr ''sslmode''" "bstr ''sslrootcert'' \<noteq> bstr ''user''"
      by simp_all
    show ?thesis
      using l ne
      by (simp add: conn_get_def index_of_ssl root_cert_def fallback_value_def conn_option_def
          del: bstr_Cons split: option.split)
  qed
  have get: "conn_get ?vals k = ?f i" "conn_get ci k = ci ! i"
    using i i' by (simp_all add: conn_get_def split: option.split)
  have k19: "k = bstr ''sslmode'' \<longleftrightarrow> i = 19"
    using i index_of_nth [OF i'(1)] index_of_Some [OF index_of_ssl(1)] i' index_of_ssl(1) by auto
  have d19: "dflt = Some j \<Longrightarrow> j = 19" for j
    using d(2) takes_default_index by blast
  have dflt: "dflt = Some 19 \<longleftrightarrow>
      ci ! 19 = None \<and> env (bstr ''PGSSLMODE'') = None \<and> \<not> require_ssl_env env"
  proof -
    have "co_keyword (CONNINFO_OPTIONS ! 19) = bstr ''sslmode''"
      using index_of_Some [OF index_of_ssl(1)] by blast
    then have td: "takes_default env (ci ! 19) (CONNINFO_OPTIONS ! 19) \<longleftrightarrow>
        ci ! 19 = None \<and> env (bstr ''PGSSLMODE'') = None \<and> \<not> require_ssl_env env"
      using index_of_ssl(2) by (simp add: takes_default_def require_ssl_env_def del: bstr_Cons)
    show ?thesis
    proof (cases dflt)
      case None
      then show ?thesis
        using d(3) l(1) td by auto
    next
      case (Some j)
      then show ?thesis
        using d19 [OF Some] d(2) td by auto
    qed
  qed
  show ?thesis
  proof (cases "dflt = Some 19 \<and> root_cert env ci = Some (bstr ''system'')")
    case True
    then have "add_fallbacks env ci = ?vals[19 := Some (bstr ''verify-full'')]"
      using d(1) root by (simp add: add_fallbacks_def)
    then show ?thesis
      using True dflt k19 i i' get l by (auto simp: conn_get_def nth_list_update split: option.split)
  next
    case False
    then have "add_fallbacks env ci = ?vals"
      using d(1) root d19 by (auto simp: add_fallbacks_def split: option.split)
    then show ?thesis
      using False dflt k19 get by (auto split: option.split)
  qed
qed

text \<open>Where the value of an option comes from. After \<open>add_fallbacks\<close> every option that was given
  keeps the value given. One that was not takes its environment variable; without that, \<open>sslmode\<close>
  takes \<open>require\<close> if PGREQUIRESSL starts with 1, and otherwise \<open>verify-full\<close> if the root certificate
  (given or from the environment) is \<open>system\<close>; failing these it is the compiled-in default, and for
  \<open>user\<close> the name of the user.\<close>

lemma add_fallbacks_precedence:
  assumes "conn_wf ci" and "def \<in> set CONNINFO_OPTIONS"
  shows "conn_get (add_fallbacks env ci) (co_keyword def) =
    (case conn_get ci (co_keyword def) of
       Some v \<Rightarrow> Some v
     | None \<Rightarrow>
         (case Option.bind (co_envvar def) env of
            Some v \<Rightarrow> Some v
          | None \<Rightarrow>
              if co_keyword def = bstr ''sslmode'' \<and> require_ssl_env env then Some (bstr ''require'')
              else if co_keyword def = bstr ''sslmode'' \<and> root_cert env ci = Some (bstr ''system'')
              then Some (bstr ''verify-full'')
              else case co_compiled def of
                     Some c \<Rightarrow> Some c
                   | None \<Rightarrow>
                       if co_keyword def = bstr ''user'' then effective_user env else None))"
proof -
  obtain i where i: "i < length CONNINFO_OPTIONS" "def = CONNINFO_OPTIONS ! i"
    using assms(2) by (auto simp: in_set_conv_nth)
  have ev: "co_envvar def = Some (bstr ''PGSSLMODE'')" if "co_keyword def = bstr ''sslmode''"
    using that i index_of_nth index_of_ssl(1,2) by (metis option.inject)
  show ?thesis
  proof (cases "co_keyword def = bstr ''sslmode''")
    case True
    then show ?thesis
      using add_fallbacks_nth [OF assms(1) index_of_nth [OF i(1)], of env] i(2) ev
      by (auto simp: fallback_value_def require_ssl_env_def simp del: bstr_Cons split: option.split)
  next
    case False
    then show ?thesis
      using add_fallbacks_nth [OF assms(1) index_of_nth [OF i(1)], of env] i(2)
      by (auto simp: fallback_value_def simp del: bstr_Cons split: option.split)
  qed
qed

end
