(* ===== verification/Encoding.thy ===== *)
theory Encoding
  imports Prelude "HOL-Library.List_Lexorder"
begin

text \<open>
  \<open>crates/rlibpq/src/encoding.rs\<close>: the client encodings, their names, and what a character is in
  each. A slice the source indexes at 0 is passed as its first byte and the rest, so that the
  empty slice, on which \<open>s[0]\<close> would panic, cannot be written down; \<open>mblen_or_incomplete\<close>,
  \<open>mblen_bounded\<close> and \<open>verify_str\<close>, which test for it, take the whole slice.

  Shown: the name table is sorted, so the binary search finds every alias it lists and nothing
  else; a verified character has the length \<open>mblen\<close> gives and lies inside the slice; the two bytes
  \<open>invalid_sequence\<close> puts in place of a bad character are refused by the same encoding.
\<close>

section \<open>Encodings and names\<close>

datatype encoding =
    SqlAscii | EucJp | EucCn | EucKr | EucTw | EucJis2004 | Utf8 | MuleInternal
  | Latin1 | Latin2 | Latin3 | Latin4 | Latin5 | Latin6 | Latin7 | Latin8
  | Latin9 | Latin10 | Win1256 | Win1258 | Win866 | Win874 | Koi8R | Win1251
  | Win1252 | Iso8859_5 | Iso8859_6 | Iso8859_7 | Iso8859_8 | Win1250 | Win1253 | Win1254
  | Win1255 | Win1257 | Koi8U | Sjis | Big5 | Gbk | Uhc | Gb18030
  | Johab | ShiftJis2004

text \<open>The discriminants, in declaration order: the derived order of the enum.\<close>

primrec enc_index :: "encoding \<Rightarrow> nat" where
  "enc_index SqlAscii = 0"
| "enc_index EucJp = 1"
| "enc_index EucCn = 2"
| "enc_index EucKr = 3"
| "enc_index EucTw = 4"
| "enc_index EucJis2004 = 5"
| "enc_index Utf8 = 6"
| "enc_index MuleInternal = 7"
| "enc_index Latin1 = 8"
| "enc_index Latin2 = 9"
| "enc_index Latin3 = 10"
| "enc_index Latin4 = 11"
| "enc_index Latin5 = 12"
| "enc_index Latin6 = 13"
| "enc_index Latin7 = 14"
| "enc_index Latin8 = 15"
| "enc_index Latin9 = 16"
| "enc_index Latin10 = 17"
| "enc_index Win1256 = 18"
| "enc_index Win1258 = 19"
| "enc_index Win866 = 20"
| "enc_index Win874 = 21"
| "enc_index Koi8R = 22"
| "enc_index Win1251 = 23"
| "enc_index Win1252 = 24"
| "enc_index Iso8859_5 = 25"
| "enc_index Iso8859_6 = 26"
| "enc_index Iso8859_7 = 27"
| "enc_index Iso8859_8 = 28"
| "enc_index Win1250 = 29"
| "enc_index Win1253 = 30"
| "enc_index Win1254 = 31"
| "enc_index Win1255 = 32"
| "enc_index Win1257 = 33"
| "enc_index Koi8U = 34"
| "enc_index Sjis = 35"
| "enc_index Big5 = 36"
| "enc_index Gbk = 37"
| "enc_index Uhc = 38"
| "enc_index Gb18030 = 39"
| "enc_index Johab = 40"
| "enc_index ShiftJis2004 = 41"

definition NAMEDATALEN :: nat where
  "NAMEDATALEN = 64"

definition ENCNAME_TBL :: "(bytes \<times> encoding) list" where
  "ENCNAME_TBL = [
     (bstr ''abc'', Win1258),
     (bstr ''alt'', Win866),
     (bstr ''big5'', Big5),
     (bstr ''euccn'', EucCn),
     (bstr ''eucjis2004'', EucJis2004),
     (bstr ''eucjp'', EucJp),
     (bstr ''euckr'', EucKr),
     (bstr ''euctw'', EucTw),
     (bstr ''gb18030'', Gb18030),
     (bstr ''gbk'', Gbk),
     (bstr ''iso88591'', Latin1),
     (bstr ''iso885910'', Latin6),
     (bstr ''iso885913'', Latin7),
     (bstr ''iso885914'', Latin8),
     (bstr ''iso885915'', Latin9),
     (bstr ''iso885916'', Latin10),
     (bstr ''iso88592'', Latin2),
     (bstr ''iso88593'', Latin3),
     (bstr ''iso88594'', Latin4),
     (bstr ''iso88595'', Iso8859_5),
     (bstr ''iso88596'', Iso8859_6),
     (bstr ''iso88597'', Iso8859_7),
     (bstr ''iso88598'', Iso8859_8),
     (bstr ''iso88599'', Latin5),
     (bstr ''johab'', Johab),
     (bstr ''koi8'', Koi8R),
     (bstr ''koi8r'', Koi8R),
     (bstr ''koi8u'', Koi8U),
     (bstr ''latin1'', Latin1),
     (bstr ''latin10'', Latin10),
     (bstr ''latin2'', Latin2),
     (bstr ''latin3'', Latin3),
     (bstr ''latin4'', Latin4),
     (bstr ''latin5'', Latin5),
     (bstr ''latin6'', Latin6),
     (bstr ''latin7'', Latin7),
     (bstr ''latin8'', Latin8),
     (bstr ''latin9'', Latin9),
     (bstr ''mskanji'', Sjis),
     (bstr ''muleinternal'', MuleInternal),
     (bstr ''shiftjis'', Sjis),
     (bstr ''shiftjis2004'', ShiftJis2004),
     (bstr ''sjis'', Sjis),
     (bstr ''sqlascii'', SqlAscii),
     (bstr ''tcvn'', Win1258),
     (bstr ''tcvn5712'', Win1258),
     (bstr ''uhc'', Uhc),
     (bstr ''unicode'', Utf8),
     (bstr ''utf8'', Utf8),
     (bstr ''vscii'', Win1258),
     (bstr ''win'', Win1251),
     (bstr ''win1250'', Win1250),
     (bstr ''win1251'', Win1251),
     (bstr ''win1252'', Win1252),
     (bstr ''win1253'', Win1253),
     (bstr ''win1254'', Win1254),
     (bstr ''win1255'', Win1255),
     (bstr ''win1256'', Win1256),
     (bstr ''win1257'', Win1257),
     (bstr ''win1258'', Win1258),
     (bstr ''win866'', Win866),
     (bstr ''win874'', Win874),
     (bstr ''win932'', Sjis),
     (bstr ''win936'', Gbk),
     (bstr ''win949'', Uhc),
     (bstr ''win950'', Big5),
     (bstr ''windows1250'', Win1250),
     (bstr ''windows1251'', Win1251),
     (bstr ''windows1252'', Win1252),
     (bstr ''windows1253'', Win1253),
     (bstr ''windows1254'', Win1254),
     (bstr ''windows1255'', Win1255),
     (bstr ''windows1256'', Win1256),
     (bstr ''windows1257'', Win1257),
     (bstr ''windows1258'', Win1258),
     (bstr ''windows866'', Win866),
     (bstr ''windows874'', Win874),
     (bstr ''windows932'', Sjis),
     (bstr ''windows936'', Gbk),
     (bstr ''windows949'', Uhc),
     (bstr ''windows950'', Big5)]"

definition is_alnum :: "byte \<Rightarrow> bool" where
  "is_alnum c = (48 \<le> c \<and> c \<le> 57 \<or> 65 \<le> c \<and> c \<le> 90 \<or> 97 \<le> c \<and> c \<le> 122)"

definition to_lower :: "byte \<Rightarrow> byte" where
  "to_lower c = (if 65 \<le> c \<and> c \<le> 90 then c + 32 else c)"

text \<open>\<open>slice::binary_search_by\<close> as the standard library runs it: halve the window while it has
  more than one element, moving the base up unless the probe compares greater, then test the one
  candidate left.\<close>

function bsearch_loop :: "('k::linorder \<times> 'v) list \<Rightarrow> 'k \<Rightarrow> nat \<Rightarrow> nat \<Rightarrow> nat" where
  "bsearch_loop tbl key base width =
     (if width > 1 then
        (let half = width div 2; mid = base + half
         in bsearch_loop tbl key (if fst (tbl ! mid) > key then base else mid) (width - half))
      else base)"
  by pat_completeness auto
termination
  by (relation "measure (\<lambda>(tbl, key, base, width). width)") auto

declare bsearch_loop.simps [simp del]

definition bsearch :: "('k::linorder \<times> 'v) list \<Rightarrow> 'k \<Rightarrow> nat option" where
  "bsearch tbl key =
     (if tbl = [] then None
      else (let i = bsearch_loop tbl key 0 (length tbl)
            in if fst (tbl ! i) = key then Some i else None))"

definition clean_encoding_name :: "bytes \<Rightarrow> bytes" where
  "clean_encoding_name name = map to_lower (filter is_alnum name)"

definition enc_from_name :: "bytes \<Rightarrow> encoding option" where
  "enc_from_name name =
     (if name = [] \<or> NAMEDATALEN \<le> length name then None
      else map_option (\<lambda>i. snd (ENCNAME_TBL ! i)) (bsearch ENCNAME_TBL (clean_encoding_name name)))"

definition is_client_only :: "encoding \<Rightarrow> bool" where
  "is_client_only e = (enc_index Koi8U < enc_index e)"

section \<open>Characters\<close>

definition is_highbit_set :: "byte \<Rightarrow> bool" where
  "is_highbit_set c = (c AND 128 \<noteq> 0)"

definition is_euc_range_valid :: "byte \<Rightarrow> bool" where
  "is_euc_range_valid c = (161 \<le> c \<and> c \<le> 254)"

definition is_sjis_head :: "byte \<Rightarrow> bool" where
  "is_sjis_head c = (129 \<le> c \<and> c \<le> 159 \<or> 224 \<le> c \<and> c \<le> 252)"

definition is_sjis_tail :: "byte \<Rightarrow> bool" where
  "is_sjis_tail c = (64 \<le> c \<and> c \<le> 126 \<or> 128 \<le> c \<and> c \<le> 252)"

definition SS2 :: byte where "SS2 = 142"
definition SS3 :: byte where "SS3 = 143"
definition NONUTF8_INVALID_BYTE0 :: byte where "NONUTF8_INVALID_BYTE0 = 141"
definition NONUTF8_INVALID_BYTE1 :: byte where "NONUTF8_INVALID_BYTE1 = 32"

datatype enc_family =
    FAscii | FEucJp | FEucCn | FEucKr | FEucTw | FUtf8 | FMule | FLatin1 | FSjis | FBig5 | FGbk
  | FUhc | FGb18030 | FJohab

fun family :: "encoding \<Rightarrow> enc_family" where
  "family SqlAscii = FAscii"
| "family EucJp = FEucJp"
| "family EucJis2004 = FEucJp"
| "family EucCn = FEucCn"
| "family EucKr = FEucKr"
| "family EucTw = FEucTw"
| "family Utf8 = FUtf8"
| "family MuleInternal = FMule"
| "family Sjis = FSjis"
| "family ShiftJis2004 = FSjis"
| "family Big5 = FBig5"
| "family Gbk = FGbk"
| "family Uhc = FUhc"
| "family Gb18030 = FGb18030"
| "family Johab = FJohab"
| "family _ = FLatin1"

primrec family_max_length :: "enc_family \<Rightarrow> nat" where
  "family_max_length FAscii = 1"
| "family_max_length FLatin1 = 1"
| "family_max_length FSjis = 2"
| "family_max_length FBig5 = 2"
| "family_max_length FGbk = 2"
| "family_max_length FUhc = 2"
| "family_max_length FEucJp = 3"
| "family_max_length FEucCn = 3"
| "family_max_length FEucKr = 3"
| "family_max_length FJohab = 3"
| "family_max_length FEucTw = 4"
| "family_max_length FUtf8 = 4"
| "family_max_length FMule = 4"
| "family_max_length FGb18030 = 4"

definition max_length :: "encoding \<Rightarrow> nat" where
  "max_length e = family_max_length (family e)"

definition euc_mblen :: "byte \<Rightarrow> nat" where
  "euc_mblen c = (if c = SS2 then 2 else if c = SS3 then 3 else if is_highbit_set c then 2 else 1)"

definition euccn_mblen :: "byte \<Rightarrow> nat" where
  "euccn_mblen c = (if c = SS2 \<or> c = SS3 then 3 else if is_highbit_set c then 2 else 1)"

definition euctw_mblen :: "byte \<Rightarrow> nat" where
  "euctw_mblen c = (if c = SS2 then 4 else if c = SS3 then 3 else if is_highbit_set c then 2 else 1)"

definition utf_mblen :: "byte \<Rightarrow> nat" where
  "utf_mblen c =
     (if c AND 128 = 0 then 1 else if c AND 224 = 192 then 2 else if c AND 240 = 224 then 3
      else if c AND 248 = 240 then 4 else 1)"

definition mule_mblen :: "byte \<Rightarrow> nat" where
  "mule_mblen c =
     (if 129 \<le> c \<and> c \<le> 141 then 2
      else if c = 154 \<or> c = 155 \<or> 144 \<le> c \<and> c \<le> 153 then 3
      else if c = 156 \<or> c = 157 then 4 else 1)"

definition sjis_mblen :: "byte \<Rightarrow> nat" where
  "sjis_mblen c = (if 161 \<le> c \<and> c \<le> 223 \<or> \<not> is_highbit_set c then 1 else 2)"

definition big5_mblen :: "byte \<Rightarrow> nat" where
  "big5_mblen c = (if is_highbit_set c then 2 else 1)"

definition gb18030_mblen :: "byte \<Rightarrow> bytes \<Rightarrow> nat" where
  "gb18030_mblen c cs =
     (if \<not> is_highbit_set c then 1 else if 48 \<le> at cs 0 \<and> at cs 0 \<le> 57 then 4 else 2)"

text \<open>\<open>Encoding::mblen\<close> of the slice \<open>c # cs\<close>.\<close>

fun family_mblen :: "enc_family \<Rightarrow> byte \<Rightarrow> bytes \<Rightarrow> nat" where
  "family_mblen FAscii c cs = 1"
| "family_mblen FLatin1 c cs = 1"
| "family_mblen FEucJp c cs = euc_mblen c"
| "family_mblen FEucKr c cs = euc_mblen c"
| "family_mblen FJohab c cs = euc_mblen c"
| "family_mblen FEucCn c cs = euccn_mblen c"
| "family_mblen FEucTw c cs = euctw_mblen c"
| "family_mblen FUtf8 c cs = utf_mblen c"
| "family_mblen FMule c cs = mule_mblen c"
| "family_mblen FSjis c cs = sjis_mblen c"
| "family_mblen FBig5 c cs = big5_mblen c"
| "family_mblen FGbk c cs = big5_mblen c"
| "family_mblen FUhc c cs = big5_mblen c"
| "family_mblen FGb18030 c cs = gb18030_mblen c cs"

definition mblen :: "encoding \<Rightarrow> byte \<Rightarrow> bytes \<Rightarrow> nat" where
  "mblen e c cs = family_mblen (family e) c cs"

fun mblen_or_incomplete :: "encoding \<Rightarrow> bytes \<Rightarrow> nat option" where
  "mblen_or_incomplete e [] = None"
| "mblen_or_incomplete e (c # cs) =
     (if e = Gb18030 \<and> is_highbit_set c \<and> length (c # cs) < 2 then None else Some (mblen e c cs))"

fun mblen_bounded :: "encoding \<Rightarrow> bytes \<Rightarrow> nat" where
  "mblen_bounded e [] = 0"
| "mblen_bounded e (c # cs) =
     length (before_nul (take (min (mblen e c cs) (length (c # cs))) (c # cs)))"

section \<open>Verification\<close>

definition eucjp_verifychar :: "byte \<Rightarrow> bytes \<Rightarrow> nat option" where
  "eucjp_verifychar c cs =
     (if c = SS2 then (if length cs \<ge> 1 \<and> 161 \<le> cs ! 0 \<and> cs ! 0 \<le> 223 then Some 2 else None)
      else if c = SS3 then
        (if length cs \<ge> 2 \<and> is_euc_range_valid (cs ! 0) \<and> is_euc_range_valid (cs ! 1)
         then Some 3 else None)
      else if is_highbit_set c then
        (if length cs \<ge> 1 \<and> is_euc_range_valid c \<and> is_euc_range_valid (cs ! 0)
         then Some 2 else None)
      else Some 1)"

definition euckr_verifychar :: "byte \<Rightarrow> bytes \<Rightarrow> nat option" where
  "euckr_verifychar c cs =
     (if is_highbit_set c then
        (if length cs \<ge> 1 \<and> is_euc_range_valid c \<and> is_euc_range_valid (cs ! 0)
         then Some 2 else None)
      else Some 1)"

definition euctw_verifychar :: "byte \<Rightarrow> bytes \<Rightarrow> nat option" where
  "euctw_verifychar c cs =
     (if c = SS2 then
        (if length cs \<ge> 3 \<and> 161 \<le> cs ! 0 \<and> cs ! 0 \<le> 167 \<and>
            is_euc_range_valid (cs ! 1) \<and> is_euc_range_valid (cs ! 2)
         then Some 4 else None)
      else if c = SS3 then None
      else if is_highbit_set c then
        (if length cs \<ge> 1 \<and> is_euc_range_valid (cs ! 0) then Some 2 else None)
      else Some 1)"

definition gb_lead :: "byte \<Rightarrow> bool" where
  "gb_lead c = (129 \<le> c \<and> c \<le> 254)"

definition gb_digit :: "byte \<Rightarrow> bool" where
  "gb_digit c = (48 \<le> c \<and> c \<le> 57)"

definition gb18030_verifychar :: "byte \<Rightarrow> bytes \<Rightarrow> nat option" where
  "gb18030_verifychar c cs =
     (if \<not> is_highbit_set c then Some 1
      else if length cs \<ge> 3 \<and> gb_digit (cs ! 0) then
        (if gb_lead c \<and> gb_lead (cs ! 1) \<and> gb_digit (cs ! 2) then Some 4 else None)
      else if length cs \<ge> 1 \<and> gb_lead c then
        (if 64 \<le> cs ! 0 \<and> cs ! 0 \<le> 126 \<or> 128 \<le> cs ! 0 \<and> cs ! 0 \<le> 254
         then Some 2 else None)
      else None)"

definition utf8_continuation :: "byte \<Rightarrow> bool" where
  "utf8_continuation a = (128 \<le> a \<and> a \<le> 191)"

definition utf8_second :: "byte \<Rightarrow> byte \<Rightarrow> bool" where
  "utf8_second c a =
     (if c = 224 then 160 \<le> a \<and> a \<le> 191
      else if c = 237 then 128 \<le> a \<and> a \<le> 159
      else if c = 240 then 144 \<le> a \<and> a \<le> 191
      else if c = 244 then 128 \<le> a \<and> a \<le> 143
      else utf8_continuation a)"

text \<open>\<open>utf8_islegal\<close>: the whole slice, of any length, is one legal character.\<close>

definition utf8_islegal :: "bytes \<Rightarrow> bool" where
  "utf8_islegal source =
     (let l = length source
      in if \<not> (1 \<le> l \<and> l \<le> 4) then False
         else if l \<ge> 4 \<and> \<not> utf8_continuation (source ! 3) then False
         else if l \<ge> 3 \<and> \<not> utf8_continuation (source ! 2) then False
         else if l \<ge> 2 \<and> \<not> utf8_second (source ! 0) (source ! 1) then False
         else \<not> (128 \<le> source ! 0 \<and> source ! 0 < 194 \<or> source ! 0 > 244))"

definition utf8_verifychar :: "byte \<Rightarrow> bytes \<Rightarrow> nat option" where
  "utf8_verifychar c cs =
     (if c AND 128 = 0 then (if c \<noteq> 0 then Some 1 else None)
      else (let l = utf_mblen c
            in if l \<le> length (c # cs) \<and> utf8_islegal (take l (c # cs)) then Some l else None))"

definition mule_verifychar :: "byte \<Rightarrow> bytes \<Rightarrow> nat option" where
  "mule_verifychar c cs =
     (let l = mule_mblen c
      in if length (c # cs) \<ge> l \<and> list_all is_highbit_set (take (l - 1) cs) then Some l else None)"

definition johab_verifychar :: "byte \<Rightarrow> bytes \<Rightarrow> nat option" where
  "johab_verifychar c cs =
     (let l = euc_mblen c
      in if length (c # cs) < l then None
         else if \<not> is_highbit_set c \<or> list_all is_euc_range_valid (take (l - 1) cs) then Some l
         else None)"

definition sjis_verifychar :: "byte \<Rightarrow> bytes \<Rightarrow> nat option" where
  "sjis_verifychar c cs =
     (let l = sjis_mblen c
      in if length (c # cs) < l then None
         else if l = 1 then Some 1
         else if is_sjis_head c \<and> is_sjis_tail (cs ! 0) then Some l else None)"

definition big5_verifychar :: "byte \<Rightarrow> bytes \<Rightarrow> nat option" where
  "big5_verifychar c cs =
     (let l = big5_mblen c
      in if length (c # cs) < l then None
         else if l = 2 \<and> c = NONUTF8_INVALID_BYTE0 \<and> cs ! 0 = NONUTF8_INVALID_BYTE1 then None
         else if list_all (\<lambda>x. x \<noteq> 0) (take (l - 1) cs) then Some l else None)"

text \<open>\<open>Encoding::verify_char\<close> of the slice \<open>c # cs\<close>.\<close>

fun family_verify_char :: "enc_family \<Rightarrow> byte \<Rightarrow> bytes \<Rightarrow> nat option" where
  "family_verify_char FAscii c cs = Some 1"
| "family_verify_char FLatin1 c cs = Some 1"
| "family_verify_char FEucJp c cs = eucjp_verifychar c cs"
| "family_verify_char FEucCn c cs = euckr_verifychar c cs"
| "family_verify_char FEucKr c cs = euckr_verifychar c cs"
| "family_verify_char FEucTw c cs = euctw_verifychar c cs"
| "family_verify_char FUtf8 c cs = utf8_verifychar c cs"
| "family_verify_char FMule c cs = mule_verifychar c cs"
| "family_verify_char FJohab c cs = johab_verifychar c cs"
| "family_verify_char FSjis c cs = sjis_verifychar c cs"
| "family_verify_char FBig5 c cs = big5_verifychar c cs"
| "family_verify_char FGbk c cs = big5_verifychar c cs"
| "family_verify_char FUhc c cs = big5_verifychar c cs"
| "family_verify_char FGb18030 c cs = gb18030_verifychar c cs"

definition verify_char :: "encoding \<Rightarrow> byte \<Rightarrow> bytes \<Rightarrow> nat option" where
  "verify_char e c cs = family_verify_char (family e) c cs"

text \<open>The loop of \<open>verify_str\<close> over the slice from \<open>i\<close> on: how many bytes of it are verified. A
  character of length 0 would stop the source's loop from making progress; \<open>None\<close> is that.\<close>

function verify_str_from :: "encoding \<Rightarrow> bytes \<Rightarrow> nat option" where
  "verify_str_from e [] = Some 0"
| "verify_str_from e (c # cs) =
     (case (if is_highbit_set c then verify_char e c cs else if c = 0 then None else Some 1) of
        None \<Rightarrow> Some 0
      | Some l \<Rightarrow> if l = 0 then None
                  else map_option (\<lambda>n. l + n) (verify_str_from e (drop l (c # cs))))"
  by pat_completeness auto
termination
  by (relation "measure (\<lambda>(e, s). length s)") auto

definition invalid_sequence :: "encoding \<Rightarrow> bytes" where
  "invalid_sequence e =
     [if e = Utf8 then 192 else NONUTF8_INVALID_BYTE0, NONUTF8_INVALID_BYTE1]"

section \<open>The name table and its search\<close>

lemma ENCNAME_TBL_sorted: "sorted_wrt (<) (map fst ENCNAME_TBL)"
  unfolding ENCNAME_TBL_def by (simp add: sorted_wrt2 sorted_wrt1 del: sorted_wrt.simps(2))

lemma bsearch_loop_window:
  assumes "sorted_wrt (<) (map fst tbl)" and "i < length tbl" and "fst (tbl ! i) = key"
  shows "base \<le> i \<Longrightarrow> i < base + width \<Longrightarrow> base + width \<le> length tbl \<Longrightarrow>
    bsearch_loop tbl key base width = i"
proof (induction width arbitrary: base rule: less_induct)
  case (less width)
  show ?case
  proof (cases "width > 1")
    case True
    let ?half = "width div 2" and ?mid = "base + width div 2"
    have mid: "?mid < length tbl" "?half > 0" "width - ?half < width"
      using True less.prems by auto
    have ord: "j < k \<Longrightarrow> k < length tbl \<Longrightarrow> fst (tbl ! j) < fst (tbl ! k)" for j k
      using assms(1) by (auto simp: sorted_wrt_iff_nth_less)
    show ?thesis
    proof (cases "fst (tbl ! ?mid) > key")
      case above: True
      then have "i < ?mid"
        using ord [of ?mid i] assms(2,3) by (metis linorder_neqE_nat order.asym)
      then have "bsearch_loop tbl key base (width - ?half) = i"
        using less.prems mid by (intro less.IH) auto
      with True above show ?thesis
        by (simp add: bsearch_loop.simps [of tbl key base width] Let_def)
    next
      case False
      then have "?mid \<le> i"
        using ord [of i ?mid] assms(3) mid(1) by (metis linorder_not_le)
      then have "bsearch_loop tbl key ?mid (width - ?half) = i"
        using less.prems mid by (intro less.IH) auto
      with True False show ?thesis
        by (simp add: bsearch_loop.simps [of tbl key base width] Let_def)
    qed
  next
    case False
    with less.prems show ?thesis
      by (simp add: bsearch_loop.simps [of tbl key base width])
  qed
qed

lemma bsearch_loop_inside:
  "0 < width \<Longrightarrow> base \<le> bsearch_loop tbl key base width \<and>
     bsearch_loop tbl key base width < base + width"
proof (induction tbl key base width rule: bsearch_loop.induct)
  case (1 tbl key base width)
  show ?case
  proof (cases "width > 1")
    case True
    let ?b = "if fst (tbl ! (base + width div 2)) > key then base else base + width div 2"
    have "?b \<le> bsearch_loop tbl key ?b (width - width div 2) \<and>
        bsearch_loop tbl key ?b (width - width div 2) < ?b + (width - width div 2)"
      using "1.IH" [OF True refl refl] True by simp
    moreover have "base \<le> ?b" "?b + (width - width div 2) \<le> base + width"
      using True by auto
    moreover have "bsearch_loop tbl key base width = bsearch_loop tbl key ?b (width - width div 2)"
      using True by (subst bsearch_loop.simps) (simp add: Let_def)
    ultimately show ?thesis by linarith
  next
    case False
    with "1.prems" show ?thesis by (simp add: bsearch_loop.simps [of tbl key base width])
  qed
qed

lemma bsearch_map_of:
  assumes "sorted_wrt (<) (map fst tbl)"
  shows "map_option (\<lambda>i. snd (tbl ! i)) (bsearch tbl key) = map_of tbl key"
proof (cases "map_of tbl key")
  case None
  then have "key \<notin> set (map fst tbl)" by (simp add: map_of_eq_None_iff)
  then have "fst (tbl ! bsearch_loop tbl key 0 (length tbl)) \<noteq> key" if "tbl \<noteq> []"
    using bsearch_loop_inside [of "length tbl" 0 tbl key] that
    by (metis length_greater_0_conv length_map nth_map nth_mem plus_nat.add_0)
  with None show ?thesis by (simp add: bsearch_def Let_def)
next
  case (Some v)
  then obtain i where i: "i < length tbl" "tbl ! i = (key, v)"
    by (metis in_set_conv_nth map_of_SomeD)
  then have "bsearch_loop tbl key 0 (length tbl) = i"
    using bsearch_loop_window [OF assms, of i key 0 "length tbl"] by simp
  with i Some show ?thesis by (auto simp: bsearch_def Let_def)
qed

section \<open>Lengths of characters\<close>

lemmas byte_order = word_le_nat_alt word_less_nat_alt

lemmas char_defs =
  euc_mblen_def euccn_mblen_def euctw_mblen_def utf_mblen_def mule_mblen_def sjis_mblen_def
  big5_mblen_def gb18030_mblen_def SS2_def SS3_def

lemmas verifychar_defs =
  eucjp_verifychar_def euckr_verifychar_def euctw_verifychar_def gb18030_verifychar_def
  utf8_verifychar_def mule_verifychar_def johab_verifychar_def sjis_verifychar_def
  big5_verifychar_def

lemma mblen_positive: "1 \<le> mblen e c cs"
  by (cases "family e") (simp_all add: mblen_def char_defs)

lemma mblen_max: "mblen e c cs \<le> max_length e"
  by (cases "family e") (simp_all add: mblen_def max_length_def char_defs)

lemma highbit_single_shifts: "is_highbit_set 142" "is_highbit_set 143"
  by (simp_all add: is_highbit_set_def)

lemma family_verify_length:
  "family_verify_char f c cs = Some l \<Longrightarrow> l = family_mblen f c cs \<and> l \<le> length (c # cs)"
  by (cases f)
     (auto simp: verifychar_defs char_defs is_euc_range_valid_def gb_digit_def gb_lead_def at_def
        byte_order Let_def Suc_le_eq highbit_single_shifts split: if_splits)

lemma verify_str_total: "\<exists>n. verify_str_from e s = Some n \<and> n \<le> length s"
proof (induction e s rule: verify_str_from.induct)
  case (1 e)
  then show ?case by simp
next
  case (2 e c cs)
  let ?v = "if is_highbit_set c then verify_char e c cs else if c = 0 then None else Some 1"
  show ?case
  proof (cases ?v)
    case None
    then show ?thesis by simp
  next
    case (Some l)
    then have l: "0 < l" "l \<le> length (c # cs)"
      using family_verify_length [of "family e" c cs l] mblen_positive [of e c cs]
      by (auto simp: verify_char_def mblen_def split: if_splits)
    then obtain n where "verify_str_from e (drop l (c # cs)) = Some n" "n \<le> length (drop l (c # cs))"
      using "2.IH" [OF Some] by auto
    with Some l show ?thesis by auto
  qed
qed

lemma family_invalid_refused:
  "family_max_length f > 1 \<Longrightarrow>
     family_verify_char f (if f = FUtf8 then 192 else NONUTF8_INVALID_BYTE0)
       (NONUTF8_INVALID_BYTE1 # rest) = None"
  by (cases f)
     (simp_all add: verifychar_defs char_defs is_highbit_set_def is_euc_range_valid_def
        gb_digit_def gb_lead_def is_sjis_head_def is_sjis_tail_def NONUTF8_INVALID_BYTE0_def
        NONUTF8_INVALID_BYTE1_def utf8_islegal_def utf8_second_def utf8_continuation_def)

lemma family_Utf8_iff: "family e = FUtf8 \<longleftrightarrow> e = Utf8"
  by (cases e) simp_all

section \<open>Properties\<close>

text \<open>\<open>Encoding::from_name\<close> finds exactly the aliases the table lists: the binary search
  over the table agrees with a plain lookup of the cleaned name.\<close>

lemma enc_from_name_lookup:
  "enc_from_name name =
     (if name = [] \<or> NAMEDATALEN \<le> length name then None
      else map_of ENCNAME_TBL (clean_encoding_name name))"
  using bsearch_map_of [OF ENCNAME_TBL_sorted] by (simp add: enc_from_name_def)

text \<open>A character that verifies is exactly as long as \<open>mblen\<close> says, is not empty, lies inside
  the slice it was read from, and is no longer than the encoding's maximum.\<close>

lemma verify_char_length:
  assumes "verify_char e c cs = Some l"
  shows "l = mblen e c cs \<and> 1 \<le> l \<and> l \<le> length (c # cs) \<and> l \<le> max_length e"
  using family_verify_length [of "family e" c cs l] assms mblen_positive [of e c cs]
    mblen_max [of e c cs]
  by (auto simp: verify_char_def mblen_def)

text \<open>The two bytes an escape function writes in place of a badly encoded character are
  refused by the same multibyte encoding, whatever follows them, so a server that reads them in
  that encoding cannot take them for a character.\<close>

lemma invalid_sequence_refused:
  assumes "1 < max_length e"
  shows "\<exists>c d. invalid_sequence e = [c, d] \<and> verify_char e c (d # rest) = None"
  using family_invalid_refused [of "family e" rest] assms
  by (auto simp: invalid_sequence_def verify_char_def max_length_def family_Utf8_iff)

end
