(* ===== verification/QueryResult.thy ===== *)
theory QueryResult
  imports Encoding
begin

text \<open>
  \<open>crates/rlibpq/src/result.rs\<close>: a \<open>PGresult\<close> as data: its status, row description, rows, and
  broken-down error fields. A record per struct with the source's fields, prefixed \<open>re_\<close>
  (\<open>ResultError\<close>), \<open>fd_\<close> (\<open>FieldDescription\<close>) and \<open>qr_\<close> (\<open>QueryResult\<close>); the signed 16 and 32 bit
  columns keep their width.

  The rendering of an error into text (\<open>ResultError::message\<close> and the syntax cursor) is not here.
\<close>

datatype exec_status =
    EmptyQuery | CommandOk | TuplesOk | CopyOut | CopyIn | BadResponse | NonfatalError
  | FatalError | CopyBoth | SingleTuple | PipelineSync | PipelineAborted | TuplesChunk

fun exec_status_as_str :: "exec_status \<Rightarrow> bytes" where
  "exec_status_as_str EmptyQuery = bstr ''PGRES_EMPTY_QUERY''"
| "exec_status_as_str CommandOk = bstr ''PGRES_COMMAND_OK''"
| "exec_status_as_str TuplesOk = bstr ''PGRES_TUPLES_OK''"
| "exec_status_as_str CopyOut = bstr ''PGRES_COPY_OUT''"
| "exec_status_as_str CopyIn = bstr ''PGRES_COPY_IN''"
| "exec_status_as_str BadResponse = bstr ''PGRES_BAD_RESPONSE''"
| "exec_status_as_str NonfatalError = bstr ''PGRES_NONFATAL_ERROR''"
| "exec_status_as_str FatalError = bstr ''PGRES_FATAL_ERROR''"
| "exec_status_as_str CopyBoth = bstr ''PGRES_COPY_BOTH''"
| "exec_status_as_str SingleTuple = bstr ''PGRES_SINGLE_TUPLE''"
| "exec_status_as_str PipelineSync = bstr ''PGRES_PIPELINE_SYNC''"
| "exec_status_as_str PipelineAborted = bstr ''PGRES_PIPELINE_ABORTED''"
| "exec_status_as_str TuplesChunk = bstr ''PGRES_TUPLES_CHUNK''"

section \<open>Errors and notices\<close>

definition diag_SEVERITY :: byte where "diag_SEVERITY = chb CHR ''S''"
definition diag_SEVERITY_NONLOCALIZED :: byte where "diag_SEVERITY_NONLOCALIZED = chb CHR ''V''"
definition diag_SQLSTATE :: byte where "diag_SQLSTATE = chb CHR ''C''"
definition diag_MESSAGE_PRIMARY :: byte where "diag_MESSAGE_PRIMARY = chb CHR ''M''"
definition diag_STATEMENT_POSITION :: byte where "diag_STATEMENT_POSITION = chb CHR ''P''"

record result_error =
  re_fields :: "(byte \<times> bytes) list"
  re_err_query :: "bytes option"
  re_client_encoding :: encoding

definition ResultError_new :: "(byte \<times> bytes) list \<Rightarrow> result_error" where
  "ResultError_new fs =
     \<lparr> re_fields = fs, re_err_query = None, re_client_encoding = SqlAscii \<rparr>"

definition with_err_query :: "result_error \<Rightarrow> bytes \<Rightarrow> result_error" where
  "with_err_query e query = e\<lparr> re_err_query := Some query \<rparr>"

definition with_client_encoding :: "result_error \<Rightarrow> encoding \<Rightarrow> result_error" where
  "with_client_encoding e enc = e\<lparr> re_client_encoding := enc \<rparr>"

text \<open>\<open>ResultError::field\<close>: the first field with the code.\<close>

definition re_field :: "result_error \<Rightarrow> byte \<Rightarrow> bytes option" where
  "re_field e code = map_option snd (find (\<lambda>(c, _). c = code) (re_fields e))"

definition re_sqlstate :: "result_error \<Rightarrow> bytes option" where
  "re_sqlstate e = re_field e diag_SQLSTATE"

section \<open>Results\<close>

record field_description =
  fd_name :: bytes
  fd_tableid :: u32
  fd_columnid :: u16
  fd_typid :: u32
  fd_typlen :: u16
  fd_atttypmod :: u32
  fd_format :: u16

type_synonym row = "bytes option list"

text \<open>\<open>CopyFormat\<close> of \<open>message.rs\<close>: the overall format byte and one signed code per column.\<close>

record copy_format =
  cf_overall :: byte
  cf_column_formats :: "u16 list"

record query_result =
  qr_status :: exec_status
  qr_fields :: "field_description list"
  qr_rows :: "row list"
  qr_command_status :: bytes
  qr_error :: "result_error option"
  qr_params :: "u32 list"
  qr_binary :: bool

definition QueryResult_new :: "exec_status \<Rightarrow> query_result" where
  "QueryResult_new st =
     \<lparr> qr_status = st, qr_fields = [], qr_rows = [], qr_command_status = [], qr_error = None,
       qr_params = [], qr_binary = False \<rparr>"

definition with_error :: "exec_status \<Rightarrow> result_error \<Rightarrow> query_result" where
  "with_error st e =
     \<lparr> qr_status = st, qr_fields = [], qr_rows = [], qr_command_status = [], qr_error = Some e,
       qr_params = [], qr_binary = False \<rparr>"

definition QueryResult_copy :: "exec_status \<Rightarrow> copy_format \<Rightarrow> query_result" where
  "QueryResult_copy st f =
     (QueryResult_new st)\<lparr>
       qr_binary := (cf_overall f \<noteq> 0),
       qr_fields := map (\<lambda>fmt. \<lparr> fd_name = [], fd_tableid = 0, fd_columnid = 0, fd_typid = 0,
                                 fd_typlen = 0, fd_atttypmod = 0, fd_format = fmt \<rparr>)
                        (cf_column_formats f) \<rparr>"

definition set_fields :: "query_result \<Rightarrow> field_description list \<Rightarrow> query_result" where
  "set_fields r fs =
     r\<lparr> qr_binary := (fs \<noteq> [] \<and> list_all (\<lambda>f. fd_format f = 1) fs), qr_fields := fs \<rparr>"

definition push_row :: "query_result \<Rightarrow> row \<Rightarrow> query_result" where
  "push_row r row = r\<lparr> qr_rows := qr_rows r @ [row] \<rparr>"

definition set_params :: "query_result \<Rightarrow> u32 list \<Rightarrow> query_result" where
  "set_params r ps = r\<lparr> qr_params := ps \<rparr>"

definition set_command_status :: "query_result \<Rightarrow> bytes \<Rightarrow> query_result" where
  "set_command_status r st = r\<lparr> qr_command_status := st \<rparr>"

text \<open>\<open>slice::get\<close>.\<close>

definition get_opt :: "'a list \<Rightarrow> nat \<Rightarrow> 'a option" where
  "get_opt xs i = (if i < length xs then Some (xs ! i) else None)"

definition nfields :: "query_result \<Rightarrow> nat" where
  "nfields r = length (qr_fields r)"

definition ntuples :: "query_result \<Rightarrow> nat" where
  "ntuples r = length (qr_rows r)"

definition nparams :: "query_result \<Rightarrow> nat" where
  "nparams r = length (qr_params r)"

definition ftype :: "query_result \<Rightarrow> nat \<Rightarrow> u32 option" where
  "ftype r column = map_option fd_typid (get_opt (qr_fields r) column)"

definition fformat :: "query_result \<Rightarrow> nat \<Rightarrow> u16 option" where
  "fformat r column = map_option fd_format (get_opt (qr_fields r) column)"

definition fname :: "query_result \<Rightarrow> nat \<Rightarrow> bytes option" where
  "fname r column = map_option fd_name (get_opt (qr_fields r) column)"

definition paramtype :: "query_result \<Rightarrow> nat \<Rightarrow> u32 option" where
  "paramtype r p = get_opt (qr_params r) p"

definition qr_value :: "query_result \<Rightarrow> nat \<Rightarrow> nat \<Rightarrow> bytes option" where
  "qr_value r row column =
     Option.bind (get_opt (qr_rows r) row) (\<lambda>cells. Option.bind (get_opt cells column) (\<lambda>v. v))"

definition is_null :: "query_result \<Rightarrow> nat \<Rightarrow> nat \<Rightarrow> bool" where
  "is_null r row column =
     (case Option.bind (get_opt (qr_rows r) row) (\<lambda>cells. get_opt cells column) of
        None \<Rightarrow> True | Some v \<Rightarrow> v = None)"

lemmas query_result_defs =
  QueryResult_new_def with_error_def QueryResult_copy_def set_fields_def push_row_def
  set_params_def set_command_status_def

lemma is_null_value: "is_null r row column \<longleftrightarrow> qr_value r row column = None"
  by (auto simp: is_null_def qr_value_def split: option.splits bind_splits)

lemma push_row_sel [simp]:
  "qr_rows (push_row r row) = qr_rows r @ [row]"
  "qr_status (push_row r row) = qr_status r"
  "qr_fields (push_row r row) = qr_fields r"
  "qr_error (push_row r row) = qr_error r"
  "qr_command_status (push_row r row) = qr_command_status r"
  by (simp_all add: push_row_def)

lemma QueryResult_new_sel [simp]:
  "qr_status (QueryResult_new st) = st"
  "qr_rows (QueryResult_new st) = []"
  "qr_fields (QueryResult_new st) = []"
  "qr_error (QueryResult_new st) = None"
  by (simp_all add: QueryResult_new_def)

lemma with_error_sel [simp]:
  "qr_status (with_error st e) = st"
  "qr_rows (with_error st e) = []"
  "qr_error (with_error st e) = Some e"
  by (simp_all add: with_error_def)

lemma set_command_status_sel [simp]:
  "qr_status (set_command_status r c) = qr_status r"
  "qr_rows (set_command_status r c) = qr_rows r"
  "qr_fields (set_command_status r c) = qr_fields r"
  "qr_error (set_command_status r c) = qr_error r"
  "qr_command_status (set_command_status r c) = c"
  by (simp_all add: set_command_status_def)

lemma set_fields_sel [simp]:
  "qr_status (set_fields r fs) = qr_status r"
  "qr_rows (set_fields r fs) = qr_rows r"
  "qr_fields (set_fields r fs) = fs"
  "qr_error (set_fields r fs) = qr_error r"
  by (simp_all add: set_fields_def)

lemma set_params_sel [simp]:
  "qr_status (set_params r ps) = qr_status r"
  "qr_rows (set_params r ps) = qr_rows r"
  "qr_error (set_params r ps) = qr_error r"
  "qr_params (set_params r ps) = ps"
  by (simp_all add: set_params_def)

lemma QueryResult_copy_sel [simp]:
  "qr_status (QueryResult_copy st f) = st"
  "qr_rows (QueryResult_copy st f) = []"
  "qr_error (QueryResult_copy st f) = None"
  by (simp_all add: QueryResult_copy_def)

end
