(* ===== verification/Message.thy ===== *)
theory Message
  imports QueryResult
begin

text \<open>
  \<open>crates/rlibpq/src/message.rs\<close>, with the authentication request of \<open>auth.rs\<close>: the protocol
  version 3 messages and their exact wire encoding.

  A \<open>Reader\<close> is held as the bytes it has not read yet (\<open>rest()\<close>) beside the message type it
  reports in its error, and every read returns the value with the bytes left. Signed integers keep
  their bits (\<open>u16\<close>, \<open>u32\<close>) and are read with \<open>sint\<close> where the code compares them. The panics of
  the encoder (\<open>expect\<close> on a count or a length that does not fit) are \<open>None\<close>.

  Shown: framing finds exactly the messages a stream carries, whatever bytes have arrived behind
  them; decoding inverts the layout of every backend message; every encoded frontend message
  carries its own length, and the typed ones can be read back.
\<close>

section \<open>Constants and errors\<close>

definition PROTOCOL_VERSION_3_0 :: u32 where
  "PROTOCOL_VERSION_3_0 = push_bit 16 3"

definition CANCEL_REQUEST_CODE :: u32 where
  "CANCEL_REQUEST_CODE = push_bit 16 1234 + 5678"

definition LONG_MESSAGE_THRESHOLD :: int where
  "LONG_MESSAGE_THRESHOLD = 30000"

definition valid_long_message_type :: "byte \<Rightarrow> bool" where
  "valid_long_message_type c = (c \<in> set (bstr ''dDEVNATt''))"

datatype protocol_error =
    LostSynchronization byte int
  | InsufficientData byte
  | ContentsDoNotAgree byte
  | UnexpectedFieldCount
  | DataWithoutRowDescription
  | UnexpectedResponse byte
  | NegativeUnsupportedParameterCount
  | TooMuchData
  | FunctionCallProtocol byte

section \<open>Reader\<close>

type_synonym 'a read = "('a \<times> bytes, protocol_error) result"

definition rd_take :: "byte \<Rightarrow> nat \<Rightarrow> bytes \<Rightarrow> bytes read" where
  "rd_take mid n r = (if length r < n then Err (InsufficientData mid) else Ok (take n r, drop n r))"

definition rd_u8 :: "byte \<Rightarrow> bytes \<Rightarrow> byte read" where
  "rd_u8 mid r = and_then (rd_take mid 1 r) (\<lambda>(b, r'). Ok (b ! 0, r'))"

definition rd_u32 :: "byte \<Rightarrow> bytes \<Rightarrow> u32 read" where
  "rd_u32 mid r =
     and_then (rd_take mid 4 r) (\<lambda>(b, r'). Ok (from_be32 (b ! 0) (b ! 1) (b ! 2) (b ! 3), r'))"

definition rd_u16 :: "byte \<Rightarrow> bytes \<Rightarrow> u16 read" where
  "rd_u16 mid r = and_then (rd_take mid 2 r) (\<lambda>(b, r'). Ok (from_be16 (b ! 0) (b ! 1), r'))"

text \<open>\<open>i32\<close> and \<open>i16\<close> are casts: the same bits, read with \<open>sint\<close> where the sign matters.\<close>

definition rd_i32 :: "byte \<Rightarrow> bytes \<Rightarrow> u32 read" where
  "rd_i32 mid r = rd_u32 mid r"

definition rd_i16 :: "byte \<Rightarrow> bytes \<Rightarrow> u16 read" where
  "rd_i16 mid r = rd_u16 mid r"

definition rd_cstring :: "byte \<Rightarrow> bytes \<Rightarrow> bytes read" where
  "rd_cstring mid r =
     (if 0 \<in> set r then Ok (before_nul r, drop (Suc (length (before_nul r))) r)
      else Err (InsufficientData mid))"

text \<open>The loop \<^verbatim>\<open>for _ in 0..n { out.push(read()?); }\<close>.\<close>

primrec rd_times :: "nat \<Rightarrow> (bytes \<Rightarrow> 'a read) \<Rightarrow> bytes \<Rightarrow> 'a list read" where
  "rd_times 0 p r = Ok ([], r)"
| "rd_times (Suc n) p r =
     and_then (p r) (\<lambda>(x, r'). and_then (rd_times n p r') (\<lambda>(xs, r''). Ok (x # xs, r'')))"

section \<open>Framing\<close>

text \<open>A whole message is reported with the byte range of its body.\<close>

datatype frame = Incomplete | SyncLoss byte int | Frame_Message byte nat nat

definition frame_length :: "bytes \<Rightarrow> int" where
  "frame_length buf = sint (from_be32 (buf ! 1) (buf ! 2) (buf ! 3) (buf ! 4))"

definition next_frame :: "bytes \<Rightarrow> frame" where
  "next_frame buf =
     (if length buf < 5 then Incomplete
      else let mid = buf ! 0; len = frame_length buf in
        if len < 4 then SyncLoss mid len
        else if len > LONG_MESSAGE_THRESHOLD \<and> \<not> valid_long_message_type mid then SyncLoss mid len
        else let body_len = nat (len - 4) in
          if length buf - 5 < body_len then Incomplete else Frame_Message mid 5 (5 + body_len))"

definition next_copy_frame :: "bytes \<Rightarrow> frame" where
  "next_copy_frame buf =
     (if length buf < 5 then Incomplete
      else let mid = buf ! 0; len = frame_length buf in
        if len < 4 then SyncLoss mid len
        else let body_len = nat (len - 4) in
          if length buf - 5 < body_len then Incomplete else Frame_Message mid 5 (5 + body_len))"

section \<open>Messages from the server\<close>

datatype transaction_status = Idle | InTransaction | InError | UnknownStatus

datatype auth_request =
    AuthOk | KerberosV4 | KerberosV5 | CleartextPassword | Crypt
  | Md5Password byte byte byte byte
  | Gss | GssContinue bytes | Sspi
  | Sasl "bytes list" | SaslContinue bytes | SaslFinal bytes
  | AuthUnknown u32

datatype backend =
    Authentication auth_request
  | BackendKeyData u32 bytes
  | ParameterStatus bytes bytes
  | ReadyForQuery transaction_status
  | RowDescription "field_description list"
  | DataRow row
  | CommandComplete bytes
  | EmptyQueryResponse
  | ErrorResponse result_error
  | NoticeResponse result_error
  | NotificationResponse u32 bytes bytes
  | NegotiateProtocolVersion u32 "bytes list"
  | ParseComplete
  | BindComplete
  | CloseComplete
  | NoData
  | PortalSuspended
  | ParameterDescription "u32 list"
  | CopyInResponse copy_format
  | CopyOutResponse copy_format
  | CopyBothResponse copy_format
  | CopyData bytes
  | CopyDone
  | FunctionCallResponse "bytes option"
  | Other byte bytes

section \<open>Decoding\<close>

text \<open>The field loop of an error or notice, and the mechanism loop of a SASL request: both end
  because every round reads at least one byte.\<close>

function decode_field_list :: "byte \<Rightarrow> bytes \<Rightarrow> (byte \<times> bytes) list read" where
  "decode_field_list mid r =
     (case rd_u8 mid r of
        Err e \<Rightarrow> Err e
      | Ok (code, r1) \<Rightarrow>
          if code = 0 then Ok ([], r1)
          else (case rd_cstring mid r1 of
                  Err e \<Rightarrow> Err e
                | Ok (v, r2) \<Rightarrow>
                    and_then (decode_field_list mid r2) (\<lambda>(fs, r3). Ok ((code, v) # fs, r3))))"
  by pat_completeness auto
termination
  by (relation "measure (\<lambda>(mid, r). length r)")
    (auto simp: rd_u8_def rd_take_def rd_cstring_def split: if_splits)

declare decode_field_list.simps [simp del]

definition decode_error_fields :: "byte \<Rightarrow> bytes \<Rightarrow> result_error read" where
  "decode_error_fields mid r =
     and_then (decode_field_list mid r) (\<lambda>(fs, r'). Ok (ResultError_new fs, r'))"

function decode_mechanisms :: "byte \<Rightarrow> bytes \<Rightarrow> bytes list read" where
  "decode_mechanisms mid r =
     (case rd_cstring mid r of
        Err e \<Rightarrow> Err e
      | Ok (name, r1) \<Rightarrow>
          if name = [] then Ok ([], r1)
          else and_then (decode_mechanisms mid r1) (\<lambda>(ms, r2). Ok (name # ms, r2)))"
  by pat_completeness auto
termination
proof (relation "measure (\<lambda>(mid, r). length r)", goal_cases)
  case (2 mid r x2 name r1)
  then have "0 \<in> set r" and r1: "r1 = drop (Suc (length (before_nul r))) r"
    by (auto simp: rd_cstring_def split: if_splits)
  then have "r \<noteq> []"
    by auto
  then show ?case
    using r1 by (cases r) auto
qed simp_all

declare decode_mechanisms.simps [simp del]

text \<open>\<open>AuthRequest::decode\<close>, over the whole body; it may leave bytes unread.\<close>

definition decode_auth :: "bytes \<Rightarrow> (auth_request, protocol_error) result" where
  "decode_auth body =
     (let mid = chb CHR ''R'' in
      and_then (rd_u32 mid body) (\<lambda>(areq, r).
        if areq = 0 then Ok AuthOk
        else if areq = 1 then Ok KerberosV4
        else if areq = 2 then Ok KerberosV5
        else if areq = 3 then Ok CleartextPassword
        else if areq = 4 then Ok Crypt
        else if areq = 5 then
          and_then (rd_take mid 4 r) (\<lambda>(s, _). Ok (Md5Password (s ! 0) (s ! 1) (s ! 2) (s ! 3)))
        else if areq = 7 then Ok Gss
        else if areq = 8 then Ok (GssContinue r)
        else if areq = 9 then Ok Sspi
        else if areq = 10 then and_then (decode_mechanisms mid r) (\<lambda>(ms, _). Ok (Sasl ms))
        else if areq = 11 then Ok (SaslContinue r)
        else if areq = 12 then Ok (SaslFinal r)
        else Ok (AuthUnknown areq)))"

fun auth_code :: "auth_request \<Rightarrow> u32" where
  "auth_code AuthOk = 0"
| "auth_code KerberosV4 = 1"
| "auth_code KerberosV5 = 2"
| "auth_code CleartextPassword = 3"
| "auth_code Crypt = 4"
| "auth_code (Md5Password _ _ _ _) = 5"
| "auth_code Gss = 7"
| "auth_code (GssContinue _) = 8"
| "auth_code Sspi = 9"
| "auth_code (Sasl _) = 10"
| "auth_code (SaslContinue _) = 11"
| "auth_code (SaslFinal _) = 12"
| "auth_code (AuthUnknown c) = c"

text \<open>The bodies of the loops of RowDescription and DataRow.\<close>

definition decode_field :: "byte \<Rightarrow> bytes \<Rightarrow> field_description read" where
  "decode_field mid r =
     and_then (rd_cstring mid r) (\<lambda>(name, r).
     and_then (rd_u32 mid r) (\<lambda>(tableid, r).
     and_then (rd_i16 mid r) (\<lambda>(columnid, r).
     and_then (rd_u32 mid r) (\<lambda>(typid, r).
     and_then (rd_i16 mid r) (\<lambda>(typlen, r).
     and_then (rd_i32 mid r) (\<lambda>(atttypmod, r).
     and_then (rd_i16 mid r) (\<lambda>(format, r).
       Ok (\<lparr> fd_name = name, fd_tableid = tableid, fd_columnid = columnid, fd_typid = typid,
             fd_typlen = typlen, fd_atttypmod = atttypmod, fd_format = format \<rparr>, r))))))))"

definition decode_cell :: "byte \<Rightarrow> bytes \<Rightarrow> bytes option read" where
  "decode_cell mid r =
     and_then (rd_i32 mid r) (\<lambda>(vlen, r).
       if sint vlen < 0 then Ok (None, r)
       else and_then (rd_take mid (nat (sint vlen)) r) (\<lambda>(v, r). Ok (Some v, r)))"

definition decode_negotiate_protocol_version :: "byte \<Rightarrow> bytes \<Rightarrow> backend read" where
  "decode_negotiate_protocol_version mid r =
     and_then (rd_u32 mid r) (\<lambda>(newest, r).
     and_then (rd_i32 mid r) (\<lambda>(count, r).
       if sint count < 0 then Err NegativeUnsupportedParameterCount
       else and_then (rd_times (nat (sint count)) (rd_cstring mid) r) (\<lambda>(us, r).
              Ok (NegotiateProtocolVersion newest us, r))))"

definition decode_parameter_description :: "byte \<Rightarrow> bytes \<Rightarrow> backend read" where
  "decode_parameter_description mid r =
     and_then (rd_u16 mid r) (\<lambda>(nparams, r).
     and_then (rd_times (unat nparams) (rd_u32 mid) r) (\<lambda>(types, r).
       Ok (ParameterDescription types, r)))"

definition decode_copy_format :: "byte \<Rightarrow> bytes \<Rightarrow> copy_format read" where
  "decode_copy_format mid r =
     and_then (rd_u8 mid r) (\<lambda>(overall, r).
     and_then (rd_u16 mid r) (\<lambda>(nfields, r).
     and_then (rd_times (unat nfields) (rd_i16 mid) r) (\<lambda>(fmts, r).
       Ok (\<lparr> cf_overall = overall, cf_column_formats = fmts \<rparr>, r))))"

definition decode_function_call_response :: "byte \<Rightarrow> bytes \<Rightarrow> backend read" where
  "decode_function_call_response mid r =
     and_then (rd_i32 mid r) (\<lambda>(len, r).
       if sint len < 0 then Ok (FunctionCallResponse None, r)
       else and_then (rd_take mid (nat (sint len)) r) (\<lambda>(v, r).
              Ok (FunctionCallResponse (Some v), r)))"

definition decode_status :: "byte \<Rightarrow> transaction_status" where
  "decode_status c =
     (if c = chb CHR ''I'' then Idle else if c = chb CHR ''T'' then InTransaction
      else if c = chb CHR ''E'' then InError else UnknownStatus)"

text \<open>The match of \<open>Backend::decode\<close>: the message and what its reader has left. An
  authentication request has its own reader, so the one here is still at the start.\<close>

definition decode_body :: "byte \<Rightarrow> bytes \<Rightarrow> backend read" where
  "decode_body mid body =
     (if mid = chb CHR ''R'' then
        and_then (decode_auth body) (\<lambda>a. Ok (Authentication a, body))
      else if mid = chb CHR ''K'' then
        and_then (rd_i32 mid body) (\<lambda>(pid, r). Ok (BackendKeyData pid r, r))
      else if mid = chb CHR ''S'' then
        and_then (rd_cstring mid body) (\<lambda>(name, r).
        and_then (rd_cstring mid r) (\<lambda>(v, r). Ok (ParameterStatus name v, r)))
      else if mid = chb CHR ''Z'' then
        and_then (rd_u8 mid body) (\<lambda>(c, r). Ok (ReadyForQuery (decode_status c), r))
      else if mid = chb CHR ''T'' then
        and_then (rd_u16 mid body) (\<lambda>(nfields, r).
        and_then (rd_times (unat nfields) (decode_field mid) r) (\<lambda>(fs, r).
          Ok (RowDescription fs, r)))
      else if mid = chb CHR ''D'' then
        and_then (rd_u16 mid body) (\<lambda>(nfields, r).
        and_then (rd_times (unat nfields) (decode_cell mid) r) (\<lambda>(vs, r). Ok (DataRow vs, r)))
      else if mid = chb CHR ''C'' then
        and_then (rd_cstring mid body) (\<lambda>(tag, r). Ok (CommandComplete tag, r))
      else if mid = chb CHR ''I'' then Ok (EmptyQueryResponse, body)
      else if mid = chb CHR ''E'' \<or> mid = chb CHR ''N'' then
        and_then (decode_error_fields mid body) (\<lambda>(e, r).
          if mid = chb CHR ''E'' then Ok (ErrorResponse e, r) else Ok (NoticeResponse e, r))
      else if mid = chb CHR ''A'' then
        and_then (rd_i32 mid body) (\<lambda>(pid, r).
        and_then (rd_cstring mid r) (\<lambda>(channel, r).
        and_then (rd_cstring mid r) (\<lambda>(payload, r).
          Ok (NotificationResponse pid channel payload, r))))
      else if mid = chb CHR ''v'' then decode_negotiate_protocol_version mid body
      else if mid = chb CHR ''1'' then Ok (ParseComplete, body)
      else if mid = chb CHR ''2'' then Ok (BindComplete, body)
      else if mid = chb CHR ''3'' then Ok (CloseComplete, body)
      else if mid = chb CHR ''n'' then Ok (NoData, body)
      else if mid = chb CHR ''s'' then Ok (PortalSuspended, body)
      else if mid = chb CHR ''t'' then decode_parameter_description mid body
      else if mid = chb CHR ''G'' then
        and_then (decode_copy_format mid body) (\<lambda>(f, r). Ok (CopyInResponse f, r))
      else if mid = chb CHR ''H'' then
        and_then (decode_copy_format mid body) (\<lambda>(f, r). Ok (CopyOutResponse f, r))
      else if mid = chb CHR ''W'' then
        and_then (decode_copy_format mid body) (\<lambda>(f, r). Ok (CopyBothResponse f, r))
      else if mid = chb CHR ''d'' then
        and_then (rd_take mid (length body) body) (\<lambda>(d, r). Ok (CopyData d, r))
      else if mid = chb CHR ''c'' then Ok (CopyDone, body)
      else if mid = chb CHR ''V'' then decode_function_call_response mid body
      else Ok (Other mid body, body))"

fun reads_whole_body :: "backend \<Rightarrow> bool" where
  "reads_whole_body (Other _ _) = True"
| "reads_whole_body (BackendKeyData _ _) = True"
| "reads_whole_body (Authentication _) = True"
| "reads_whole_body _ = False"

definition decode :: "byte \<Rightarrow> bytes \<Rightarrow> (backend, protocol_error) result" where
  "decode mid body =
     and_then (decode_body mid body) (\<lambda>(m, r).
       if r \<noteq> [] \<and> \<not> reads_whole_body m then Err (ContentsDoNotAgree mid) else Ok m)"


section \<open>Messages to the server\<close>

datatype target = Statement | Portal

primrec target_byte :: "target \<Rightarrow> byte" where
  "target_byte Statement = chb CHR ''S''"
| "target_byte Portal = chb CHR ''P''"

datatype frontend =
    Startup u32 "(bytes \<times> bytes) list"
  | Query bytes
  | PasswordMessage bytes
  | SaslInitialResponse bytes "bytes option"
  | SaslResponse bytes
  | Terminate
  | Parse bytes bytes "u32 list"
  | Bind bytes bytes "u16 list" "bytes option list" "u16 list"
  | Describe target bytes
  | Execute bytes u32
  | Close target bytes
  | Sync
  | Flush
  | FeCopyData bytes
  | FeCopyDone
  | CopyFail bytes
  | CancelRequest u32 bytes
  | FunctionCall u32 "bytes option list"

definition cstring :: "bytes \<Rightarrow> bytes" where
  "cstring bs = bs @ [0]"

definition count16 :: "nat \<Rightarrow> bytes option" where
  "count16 n = (if n < 2 ^ 16 then Some (be16 (of_nat n)) else None)"

definition length_word :: "nat \<Rightarrow> bytes option" where
  "length_word body_len =
     (if body_len + 4 < 2 ^ 32 then Some (be32 (of_nat (body_len + 4))) else None)"

definition packet :: "byte \<Rightarrow> bytes \<Rightarrow> bytes option" where
  "packet mid body = map_option (\<lambda>w. mid # w @ body) (length_word (length body))"

text \<open>The loop over nullable values: -1 for NULL, else an \<open>i32\<close> length that must fit and the
  bytes.\<close>

fun value_bytes :: "bytes option \<Rightarrow> bytes option" where
  "value_bytes None = Some (be32 (- 1))"
| "value_bytes (Some v) =
     (if length v < 2 ^ 31 then Some (be32 (of_nat (length v)) @ v) else None)"

fun values_bytes :: "bytes option list \<Rightarrow> bytes option" where
  "values_bytes [] = Some []"
| "values_bytes (v # vs) =
     Option.bind (value_bytes v) (\<lambda>b. map_option (\<lambda>bs. b @ bs) (values_bytes vs))"

definition function_call_body :: "u32 \<Rightarrow> bytes option list \<Rightarrow> bytes option" where
  "function_call_body fnid args =
     Option.bind (count16 (length args)) (\<lambda>n.
     Option.bind (values_bytes args) (\<lambda>vs.
       Some (be32 fnid @ be16 1 @ be16 1 @ n @ vs @ be16 1)))"

definition bind_body ::
  "bytes \<Rightarrow> bytes \<Rightarrow> u16 list \<Rightarrow> bytes option list \<Rightarrow> u16 list \<Rightarrow> bytes option" where
  "bind_body portal statement param_formats params result_formats =
     Option.bind (count16 (length param_formats)) (\<lambda>nf.
     Option.bind (count16 (length params)) (\<lambda>np.
     Option.bind (values_bytes params) (\<lambda>vs.
     Option.bind (count16 (length result_formats)) (\<lambda>nr.
       Some (cstring portal @ cstring statement @ nf @ concat (map be16 param_formats)
             @ np @ vs @ nr @ concat (map be16 result_formats))))))"

definition startup_parameters :: "(bytes \<times> bytes) list \<Rightarrow> bytes" where
  "startup_parameters ps = concat (map (\<lambda>(name, v). name @ [0] @ v @ [0]) ps)"

fun encode :: "frontend \<Rightarrow> bytes option" where
  "encode (Startup version parameters) =
     (let body = be32 version @ startup_parameters parameters @ [0]
      in map_option (\<lambda>w. w @ body) (length_word (length body)))"
| "encode (Query q) = packet (chb CHR ''Q'') (q @ [0])"
| "encode (PasswordMessage p) = packet (chb CHR ''p'') (p @ [0])"
| "encode (SaslInitialResponse mechanism initial_response) =
     packet (chb CHR ''p'')
       (mechanism @ [0] @
        (case initial_response of
           None \<Rightarrow> []
         | Some r \<Rightarrow> be32 (if length r < 2 ^ 32 then of_nat (length r) else - 1) @ r))"
| "encode (SaslResponse r) = packet (chb CHR ''p'') r"
| "encode Terminate = packet (chb CHR ''X'') []"
| "encode (Parse statement query param_types) =
     Option.bind (count16 (length param_types)) (\<lambda>n.
       packet (chb CHR ''P'')
         (cstring statement @ cstring query @ n @ concat (map be32 param_types)))"
| "encode (Bind portal statement param_formats params result_formats) =
     Option.bind (bind_body portal statement param_formats params result_formats)
       (packet (chb CHR ''B''))"
| "encode (Describe t name) = packet (chb CHR ''D'') (target_byte t # cstring name)"
| "encode (Execute portal max_rows) = packet (chb CHR ''E'') (cstring portal @ be32 max_rows)"
| "encode (Close t name) = packet (chb CHR ''C'') (target_byte t # cstring name)"
| "encode Sync = packet (chb CHR ''S'') []"
| "encode Flush = packet (chb CHR ''H'') []"
| "encode (FeCopyData d) = packet (chb CHR ''d'') d"
| "encode FeCopyDone = packet (chb CHR ''c'') []"
| "encode (CopyFail m) = packet (chb CHR ''f'') (cstring m)"
| "encode (FunctionCall fnid args) =
     Option.bind (function_call_body fnid args) (packet (chb CHR ''F''))"
| "encode (CancelRequest pid cancel_key) =
     (let body = be32 CANCEL_REQUEST_CODE @ be32 pid @ cancel_key
      in map_option (\<lambda>w. w @ body) (length_word (length body)))"

section \<open>The wire format of the server's messages\<close>

text \<open>The layout the protocol documents, as a function from a message to its type byte and body:
  the specification the decoder is measured against. \<open>wire_ok\<close> says when a message can be laid
  out: no NUL in a string, counts and lengths that fit their integers.\<close>

definition cell_wire :: "bytes option \<Rightarrow> bytes" where
  "cell_wire c = (case c of None \<Rightarrow> be32 (- 1) | Some v \<Rightarrow> be32 (of_nat (length v)) @ v)"

definition field_wire :: "field_description \<Rightarrow> bytes" where
  "field_wire f = cstring (fd_name f) @ be32 (fd_tableid f) @ be16 (fd_columnid f)
     @ be32 (fd_typid f) @ be16 (fd_typlen f) @ be32 (fd_atttypmod f) @ be16 (fd_format f)"

definition error_wire :: "result_error \<Rightarrow> bytes" where
  "error_wire e = concat (map (\<lambda>(c, v). c # cstring v) (re_fields e)) @ [0]"

definition copy_wire :: "copy_format \<Rightarrow> bytes" where
  "copy_wire f = cf_overall f # be16 (of_nat (length (cf_column_formats f)))
     @ concat (map be16 (cf_column_formats f))"

primrec status_wire :: "transaction_status \<Rightarrow> byte" where
  "status_wire Idle = chb CHR ''I''"
| "status_wire InTransaction = chb CHR ''T''"
| "status_wire InError = chb CHR ''E''"
| "status_wire UnknownStatus = 0"

fun auth_wire :: "auth_request \<Rightarrow> bytes" where
  "auth_wire (Md5Password a b c d) = be32 5 @ [a, b, c, d]"
| "auth_wire (GssContinue r) = be32 8 @ r"
| "auth_wire (Sasl ms) = be32 10 @ concat (map cstring ms) @ [0]"
| "auth_wire (SaslContinue r) = be32 11 @ r"
| "auth_wire (SaslFinal r) = be32 12 @ r"
| "auth_wire a = be32 (auth_code a)"

text \<open>\<open>message_id\<close> of \<open>pipeline.rs\<close>: the type byte a decoded message came from.\<close>

primrec message_id :: "backend \<Rightarrow> byte" where
  "message_id (Authentication _) = chb CHR ''R''"
| "message_id (BackendKeyData _ _) = chb CHR ''K''"
| "message_id (ParameterStatus _ _) = chb CHR ''S''"
| "message_id (ReadyForQuery _) = chb CHR ''Z''"
| "message_id (RowDescription _) = chb CHR ''T''"
| "message_id (DataRow _) = chb CHR ''D''"
| "message_id (CommandComplete _) = chb CHR ''C''"
| "message_id EmptyQueryResponse = chb CHR ''I''"
| "message_id (ErrorResponse _) = chb CHR ''E''"
| "message_id (NoticeResponse _) = chb CHR ''N''"
| "message_id (NotificationResponse _ _ _) = chb CHR ''A''"
| "message_id (NegotiateProtocolVersion _ _) = chb CHR ''v''"
| "message_id ParseComplete = chb CHR ''1''"
| "message_id BindComplete = chb CHR ''2''"
| "message_id CloseComplete = chb CHR ''3''"
| "message_id NoData = chb CHR ''n''"
| "message_id PortalSuspended = chb CHR ''s''"
| "message_id (ParameterDescription _) = chb CHR ''t''"
| "message_id (CopyInResponse _) = chb CHR ''G''"
| "message_id (CopyOutResponse _) = chb CHR ''H''"
| "message_id (CopyBothResponse _) = chb CHR ''W''"
| "message_id (CopyData _) = chb CHR ''d''"
| "message_id CopyDone = chb CHR ''c''"
| "message_id (FunctionCallResponse _) = chb CHR ''V''"
| "message_id (Other mid _) = mid"

fun wire_body :: "backend \<Rightarrow> bytes" where
  "wire_body (Authentication a) = auth_wire a"
| "wire_body (BackendKeyData pid key) = be32 pid @ key"
| "wire_body (ParameterStatus name v) = cstring name @ cstring v"
| "wire_body (ReadyForQuery st) = [status_wire st]"
| "wire_body (RowDescription fs) = be16 (of_nat (length fs)) @ concat (map field_wire fs)"
| "wire_body (DataRow vs) = be16 (of_nat (length vs)) @ concat (map cell_wire vs)"
| "wire_body (CommandComplete tag) = cstring tag"
| "wire_body (ErrorResponse e) = error_wire e"
| "wire_body (NoticeResponse e) = error_wire e"
| "wire_body (NotificationResponse pid channel payload) =
     be32 pid @ cstring channel @ cstring payload"
| "wire_body (NegotiateProtocolVersion newest us) =
     be32 newest @ be32 (of_nat (length us)) @ concat (map cstring us)"
| "wire_body (ParameterDescription ts) = be16 (of_nat (length ts)) @ concat (map be32 ts)"
| "wire_body (CopyInResponse f) = copy_wire f"
| "wire_body (CopyOutResponse f) = copy_wire f"
| "wire_body (CopyBothResponse f) = copy_wire f"
| "wire_body (CopyData d) = d"
| "wire_body (FunctionCallResponse r) = cell_wire r"
| "wire_body (Other _ body) = body"
| "wire_body _ = []"

definition cstr_ok :: "bytes \<Rightarrow> bool" where
  "cstr_ok s = (0 \<notin> set s)"

definition cell_ok :: "bytes option \<Rightarrow> bool" where
  "cell_ok c = (case c of None \<Rightarrow> True | Some v \<Rightarrow> length v < 2 ^ 31)"

definition error_ok :: "result_error \<Rightarrow> bool" where
  "error_ok e = (list_all (\<lambda>(c, v). c \<noteq> 0 \<and> cstr_ok v) (re_fields e) \<and>
     re_err_query e = None \<and> re_client_encoding e = SqlAscii)"

definition copy_ok :: "copy_format \<Rightarrow> bool" where
  "copy_ok f = (length (cf_column_formats f) < 2 ^ 16)"

fun wire_ok :: "backend \<Rightarrow> bool" where
  "wire_ok (Authentication (Sasl ms)) = list_all (\<lambda>m. m \<noteq> [] \<and> cstr_ok m) ms"
| "wire_ok (Authentication (AuthUnknown c)) = (c = 6 \<or> c > 12)"
| "wire_ok (ParameterStatus name v) = (cstr_ok name \<and> cstr_ok v)"
| "wire_ok (RowDescription fs) = (length fs < 2 ^ 16 \<and> list_all (cstr_ok \<circ> fd_name) fs)"
| "wire_ok (DataRow vs) = (length vs < 2 ^ 16 \<and> list_all cell_ok vs)"
| "wire_ok (CommandComplete tag) = cstr_ok tag"
| "wire_ok (ErrorResponse e) = error_ok e"
| "wire_ok (NoticeResponse e) = error_ok e"
| "wire_ok (NotificationResponse _ channel payload) = (cstr_ok channel \<and> cstr_ok payload)"
| "wire_ok (NegotiateProtocolVersion _ us) = (length us < 2 ^ 31 \<and> list_all cstr_ok us)"
| "wire_ok (ParameterDescription ts) = (length ts < 2 ^ 16)"
| "wire_ok (CopyInResponse f) = copy_ok f"
| "wire_ok (CopyOutResponse f) = copy_ok f"
| "wire_ok (CopyBothResponse f) = copy_ok f"
| "wire_ok (FunctionCallResponse r) = cell_ok r"
| "wire_ok (Other mid _) = (mid \<notin> set (bstr ''RKSZTDCIENAv123nstGHWdcV''))"
| "wire_ok _ = True"


section \<open>Reading what was written\<close>

lemma sint_of_nat_small: "n < 2 ^ 31 \<Longrightarrow> sint (of_nat n :: u32) = int n"
  by (simp add: signed_of_nat signed_take_bit_int_eq_self)

lemma unat_of_nat16: "n < 2 ^ 16 \<Longrightarrow> unat (of_nat n :: u16) = n"
  by (simp add: unat_of_nat take_bit_nat_eq_self)

lemma unat_of_nat32: "n < 2 ^ 32 \<Longrightarrow> unat (of_nat n :: u32) = n"
  by (simp add: unat_of_nat take_bit_nat_eq_self)

lemma rd_take_append [wire_simps]: "length v = n \<Longrightarrow> rd_take mid n (v @ r) = Ok (v, r)"
  by (auto simp: rd_take_def)

lemma rd_u8_Cons [wire_simps]: "rd_u8 mid (c # r) = Ok (c, r)"
  by (simp add: rd_u8_def rd_take_def)

lemma rd_u32_be32 [wire_simps]: "rd_u32 mid (be32 w @ r) = Ok (w, r)"
  by (simp add: rd_u32_def rd_take_def) (simp add: be32_def)

lemma rd_i32_be32 [wire_simps]: "rd_i32 mid (be32 w @ r) = Ok (w, r)"
  by (simp add: rd_i32_def rd_u32_be32)

lemma rd_u16_be16 [wire_simps]: "rd_u16 mid (be16 w @ r) = Ok (w, r)"
  by (simp add: rd_u16_def rd_take_def) (simp add: be16_def)

lemma rd_i16_be16 [wire_simps]: "rd_i16 mid (be16 w @ r) = Ok (w, r)"
  by (simp add: rd_i16_def rd_u16_be16)

lemma rd_cstring_cstring [wire_simps]:
  "cstr_ok s \<Longrightarrow> rd_cstring mid (cstring s @ r) = Ok (s, r)"
proof -
  assume "cstr_ok s"
  then have "takeWhile (\<lambda>c. c \<noteq> 0) (s @ 0 # r) = s"
    by (auto simp: cstr_ok_def takeWhile_append)
  then show ?thesis
    by (simp add: rd_cstring_def cstring_def before_nul_def)
qed

lemma rd_times_concat:
  assumes "\<And>x r. x \<in> set xs \<Longrightarrow> p (f x @ r) = Ok (x, r)"
  shows "rd_times (length xs) p (concat (map f xs) @ r) = Ok (xs, r)"
  using assms by (induction xs) auto

lemma decode_cell_wire [wire_simps]: "cell_ok c \<Longrightarrow> decode_cell mid (cell_wire c @ r) = Ok (c, r)"
  by (cases c)
    (auto simp: cell_ok_def cell_wire_def decode_cell_def wire_simps sint_of_nat_small)

lemma decode_field_wire [wire_simps]:
  "cstr_ok (fd_name f) \<Longrightarrow> decode_field mid (field_wire f @ r) = Ok (f, r)"
  by (simp add: field_wire_def decode_field_def wire_simps)

lemma decode_field_list_wire:
  "list_all (\<lambda>(c, v). c \<noteq> 0 \<and> cstr_ok v) fs \<Longrightarrow>
   decode_field_list mid (concat (map (\<lambda>(c, v). c # cstring v) fs) @ 0 # r) = Ok (fs, r)"
proof (induction fs)
  case Nil
  then show ?case
    by (subst decode_field_list.simps) (simp add: wire_simps)
next
  case (Cons f fs)
  then show ?case
    by (cases f, subst decode_field_list.simps) (simp add: wire_simps)
qed

lemma decode_error_fields_wire [wire_simps]:
  "error_ok e \<Longrightarrow> decode_error_fields mid (error_wire e) = Ok (e, [])"
  by (cases e)
    (simp add: error_ok_def error_wire_def decode_error_fields_def decode_field_list_wire
       ResultError_new_def)

lemma decode_mechanisms_wire [wire_simps]:
  "list_all (\<lambda>m. m \<noteq> [] \<and> cstr_ok m) ms \<Longrightarrow>
   decode_mechanisms mid (concat (map cstring ms) @ [0]) = Ok (ms, [])"
proof (induction ms)
  case Nil
  have "rd_cstring mid (cstring [] @ []) = Ok ([], [])"
    by (rule rd_cstring_cstring) (simp add: cstr_ok_def)
  then show ?case
    by (subst decode_mechanisms.simps) (simp add: cstring_def)
next
  case (Cons m ms)
  then show ?case
    by (subst decode_mechanisms.simps) (simp add: wire_simps)
qed

lemma decode_copy_format_wire [wire_simps]:
  "copy_ok f \<Longrightarrow> decode_copy_format mid (copy_wire f) = Ok (f, [])"
  using rd_times_concat [of "cf_column_formats f" "rd_i16 mid" be16 "[]"]
  by (cases f) (simp add: copy_ok_def copy_wire_def decode_copy_format_def wire_simps unat_of_nat16)

lemma decode_auth_wire:
  assumes "wire_ok (Authentication a)"
  shows "decode_auth (auth_wire a) = Ok a"
proof -
  have r: "rd_u32 mid (be32 w) = Ok (w, [])" for mid w
    using rd_u32_be32 [of mid w "[]"] by simp
  have t: "rd_take mid 4 [x1, x2, x3, x4] = Ok ([x1, x2, x3, x4], [])" for mid x1 x2 x3 x4
    by (simp add: rd_take_def)
  show ?thesis
    using assms
  proof (cases a)
    case (AuthUnknown c)
    then have "c = 6 \<or> c > 12"
      using assms by simp
    then have "c \<notin> {0, 1, 2, 3, 4, 5, 7, 8, 9, 10, 11, 12}"
      by (auto simp: word_less_nat_alt)
    then show ?thesis
      using AuthUnknown by (simp add: decode_auth_def r)
  qed (auto simp: decode_auth_def r t wire_simps)
qed


lemma rd_u8_single: "rd_u8 mid [c] = Ok (c, [])"
  by (simp add: rd_u8_Cons)

lemma rd_cstring_end: "cstr_ok s \<Longrightarrow> rd_cstring mid (cstring s) = Ok (s, [])"
  using rd_cstring_cstring [of s mid "[]"] by simp

lemma decode_cell_end: "cell_ok c \<Longrightarrow> decode_cell mid (cell_wire c) = Ok (c, [])"
  using decode_cell_wire [of c mid "[]"] by simp

lemma decode_function_call_response_cell:
  "decode_function_call_response mid r =
     and_then (decode_cell mid r) (\<lambda>(c, r). Ok (FunctionCallResponse c, r))"
  by (cases "rd_i32 mid r")
    (auto simp: decode_function_call_response_def decode_cell_def rd_take_def)

lemma decode_parameter_description_wire:
  "length ts < 2 ^ 16 \<Longrightarrow>
   decode_parameter_description mid (be16 (of_nat (length ts)) @ concat (map be32 ts))
     = Ok (ParameterDescription ts, [])"
  using rd_times_concat [of ts "rd_u32 mid" be32 "[]"]
  by (simp add: decode_parameter_description_def wire_simps unat_of_nat16)

lemma decode_negotiate_wire:
  "length us < 2 ^ 31 \<Longrightarrow> list_all cstr_ok us \<Longrightarrow>
   decode_negotiate_protocol_version mid
     (be32 newest @ be32 (of_nat (length us)) @ concat (map cstring us))
     = Ok (NegotiateProtocolVersion newest us, [])"
  using rd_times_concat [of us "rd_cstring mid" cstring "[]"]
  by (auto simp: decode_negotiate_protocol_version_def wire_simps sint_of_nat_small list_all_iff)

lemma decode_rows_wire:
  "list_all cell_ok vs \<Longrightarrow>
   rd_times (length vs) (decode_cell mid) (concat (map cell_wire vs)) = Ok (vs, [])"
  using rd_times_concat [of vs "decode_cell mid" cell_wire "[]"]
  by (auto simp: wire_simps list_all_iff)

lemma decode_fields_wire:
  "list_all (cstr_ok \<circ> fd_name) fs \<Longrightarrow>
   rd_times (length fs) (decode_field mid) (concat (map field_wire fs)) = Ok (fs, [])"
  using rd_times_concat [of fs "decode_field mid" field_wire "[]"]
  by (auto simp: wire_simps list_all_iff)

lemma decode_status_wire [simp]: "decode_status (status_wire st) = st"
  by (cases st) (simp_all add: decode_status_def)

lemmas decode_simps =
  decode_def decode_body_def decode_auth_wire rd_u8_single rd_cstring_end decode_cell_end
  decode_function_call_response_cell decode_parameter_description_wire decode_negotiate_wire
  decode_rows_wire decode_fields_wire unat_of_nat16

text \<open>C9: Decoding inverts the wire format. For every backend message that can be laid out (no NUL
  inside a string, counts and lengths that fit their integers, a type byte of its own for
  \<open>Other\<close>), \<open>Backend::decode\<close> of its type byte and body succeeds with that very message: every
  field, row, NULL, error field and authentication payload is recovered, and no body the protocol
  allows is refused.\<close>

theorem decode_inverts_wire:
  assumes "wire_ok m"
  shows "decode (message_id m) (wire_body m) = Ok m"
proof (cases m)
  case (Other mid body)
  then have "mid \<notin> set (bstr ''RKSZTDCIENAv123nstGHWdcV'')"
    using assms by simp
  then show ?thesis
    using Other by (simp add: decode_simps)
qed (use assms in \<open>auto simp: decode_simps wire_simps rd_take_def\<close>)

theorem decode_inverts_wire_witness:
  "wire_ok (DataRow [Some [97, 0], None]) \<and>
   decode (chb CHR ''D'') (wire_body (DataRow [Some [97, 0], None])) = Ok (DataRow [Some [97, 0], None])"
  using decode_inverts_wire [of "DataRow [Some [97, 0], None]"] by (simp add: cell_ok_def)


section \<open>Streams of frames\<close>

text \<open>The read loop of a connection takes frames off the front of its buffer as long as there is a
  whole one; what is left is an incomplete message or a lost synchronization.\<close>

function drain :: "bytes \<Rightarrow> (byte \<times> bytes) list \<times> bytes" where
  "drain buf =
     (case next_frame buf of
        Frame_Message mid s e \<Rightarrow>
          (let (ms, rest) = drain (drop e buf) in ((mid, slice buf s e) # ms, rest))
      | _ \<Rightarrow> ([], buf))"
  by pat_completeness auto
termination
  by (relation "measure length") (auto simp: next_frame_def Let_def split: if_splits)

declare drain.simps [simp del]

definition framed :: "byte \<times> bytes \<Rightarrow> bytes" where
  "framed m = fst m # be32 (of_nat (length (snd m) + 4)) @ snd m"

definition frame_ok :: "byte \<times> bytes \<Rightarrow> bool" where
  "frame_ok m = (int (length (snd m)) + 4 < 2 ^ 31 \<and>
     (int (length (snd m)) + 4 \<le> LONG_MESSAGE_THRESHOLD \<or> valid_long_message_type (fst m)))"

lemma next_frame_bounds:
  "next_frame buf = Frame_Message mid s e \<Longrightarrow> s = 5 \<and> 5 \<le> e \<and> e \<le> length buf"
  by (auto simp: next_frame_def Let_def split: if_splits)

lemma frame_length_append: "5 \<le> length a \<Longrightarrow> frame_length (a @ b) = frame_length a"
  by (simp add: frame_length_def nth_append)

lemma next_frame_append:
  assumes "next_frame a \<noteq> Incomplete"
  shows "next_frame (a @ b) = next_frame a"
proof -
  have "5 \<le> length a"
    using assms by (simp add: next_frame_def split: if_splits)
  then have len: "frame_length (a @ b) = frame_length a" and hd: "(a @ b) ! 0 = a ! 0"
    and ge: "\<not> length a < 5" "\<not> length (a @ b) < 5"
    by (auto simp: frame_length_append nth_append)
  show ?thesis
    using assms unfolding next_frame_def len hd Let_def if_not_P [OF ge(1)] if_not_P [OF ge(2)]
    by (auto split: if_splits)
qed

lemma sint_from_be32_of_nat:
  assumes "n < 2 ^ 31"
  shows "sint (from_be32 (be32 (of_nat n) ! 0) (be32 (of_nat n) ! 1) (be32 (of_nat n) ! 2)
           (be32 (of_nat n) ! 3)) = int n"
  using sint_of_nat_small [OF assms] by (simp add: be32_def)

lemma next_frame_framed:
  assumes "frame_ok m"
  shows "next_frame (framed m @ b) = Frame_Message (fst m) 5 (5 + length (snd m))"
proof -
  have "frame_length (framed m @ b) = int (length (snd m) + 4)"
    using sint_from_be32_of_nat [of "length (snd m) + 4"] assms
    by (simp add: frame_length_def framed_def frame_ok_def nth_append)
  then show ?thesis
    using assms by (auto simp: next_frame_def framed_def frame_ok_def Let_def)
qed

lemma drain_framed:
  assumes "frame_ok m"
  shows "drain (framed m @ b) = (m # fst (drain b), snd (drain b))"
proof -
  have "length (framed m) = 5 + length (snd m)" and "drop 5 (framed m @ b) = snd m @ b"
    by (simp_all add: framed_def be32_def)
  then have d: "drop (5 + length (snd m)) (framed m @ b) = b"
    and sl: "slice (framed m @ b) 5 (5 + length (snd m)) = snd m"
    by (simp_all add: slice_def)
  show ?thesis
    by (simp only: drain.simps [of "framed m @ b"] next_frame_framed [OF assms] frame.case d sl)
      (simp split: prod.splits)
qed

lemma drain_messages:
  "list_all frame_ok ms \<Longrightarrow>
   drain (concat (map framed ms) @ b) = (ms @ fst (drain b), snd (drain b))"
  by (induction ms) (simp_all add: drain_framed)

lemma drain_chunks:
  "drain (a @ b) = (fst (drain a) @ fst (drain (snd (drain a) @ b)), snd (drain (snd (drain a) @ b)))"
proof (induction a rule: drain.induct)
  case (1 a)
  show ?case
  proof (cases "next_frame a")
    case (Frame_Message mid s e)
    note b = next_frame_bounds [OF Frame_Message]
    have n: "next_frame (a @ b) = Frame_Message mid s e"
      using Frame_Message by (simp add: next_frame_append)
    have d: "drop e (a @ b) = drop e a @ b" and sl: "slice (a @ b) s e = slice a s e"
      using b by (simp_all add: slice_def)
    show ?thesis
      using 1 [OF Frame_Message]
      by (simp only: drain.simps [of "a @ b"] drain.simps [of a] Frame_Message n d sl frame.case)
        (simp split: prod.splits)
  qed (simp_all add: drain.simps [of a])
qed

text \<open>C8: Framing is exact and does not depend on how the bytes arrive. Taking frames off a buffer
  that holds any sequence of well-formed messages, followed by anything, yields exactly those
  messages, in order, with their bodies, and then what the rest yields. And cutting the stream
  anywhere, draining the first part and later the remainder together with the second, finds the
  same messages and leaves the same bytes as draining it all at once.\<close>

theorem framing_exact:
  "(list_all frame_ok ms \<longrightarrow>
      drain (concat (map framed ms) @ b) = (ms @ fst (drain b), snd (drain b))) \<and>
   drain (a @ b) = (fst (drain a) @ fst (drain (snd (drain a) @ b)), snd (drain (snd (drain a) @ b)))"
  using drain_messages drain_chunks by blast

theorem framing_exact_witness:
  "list_all frame_ok [(67, [65, 0]), (90, [73])] \<and>
   drain (concat (map framed [(67, [65, 0]), (90, [73])]) @ []) =
     ([(67, [65, 0]), (90, [73])] @ fst (drain []), snd (drain []))"
proof -
  have "list_all frame_ok [(67, [65, 0]), (90, [73])]"
    by (simp add: frame_ok_def LONG_MESSAGE_THRESHOLD_def)
  then show ?thesis
    using framing_exact [of "[(67, [65, 0]), (90, [73])]" "[]" "[]"] by blast
qed


section \<open>Reading frontend messages back\<close>

text \<open>A server's reader for the typed messages (the three \<open>p\<close> messages share a type byte and are
  told apart by context only): the specification the encoder is measured against.\<close>

definition fe_id :: "frontend \<Rightarrow> byte" where
  "fe_id m = (case m of
     Query _ \<Rightarrow> chb CHR ''Q'' | Terminate \<Rightarrow> chb CHR ''X'' | Parse _ _ _ \<Rightarrow> chb CHR ''P''
   | Bind _ _ _ _ _ \<Rightarrow> chb CHR ''B'' | Describe _ _ \<Rightarrow> chb CHR ''D'' | Execute _ _ \<Rightarrow> chb CHR ''E''
   | Close _ _ \<Rightarrow> chb CHR ''C'' | Sync \<Rightarrow> chb CHR ''S'' | Flush \<Rightarrow> chb CHR ''H''
   | FeCopyData _ \<Rightarrow> chb CHR ''d'' | FeCopyDone \<Rightarrow> chb CHR ''c'' | CopyFail _ \<Rightarrow> chb CHR ''f''
   | FunctionCall _ _ \<Rightarrow> chb CHR ''F'' | _ \<Rightarrow> chb CHR ''p'')"

definition read_target :: "byte \<Rightarrow> bytes \<Rightarrow> target read" where
  "read_target mid r = and_then (rd_u8 mid r) (\<lambda>(c, r).
     Ok (if c = chb CHR ''S'' then Statement else Portal, r))"

definition read_u16s :: "byte \<Rightarrow> bytes \<Rightarrow> u16 list read" where
  "read_u16s mid r = and_then (rd_u16 mid r) (\<lambda>(n, r). rd_times (unat n) (rd_u16 mid) r)"

definition read_cells :: "byte \<Rightarrow> bytes \<Rightarrow> bytes option list read" where
  "read_cells mid r = and_then (rd_u16 mid r) (\<lambda>(n, r). rd_times (unat n) (decode_cell mid) r)"

definition fe_read :: "byte \<Rightarrow> bytes \<Rightarrow> frontend read" where
  "fe_read mid r =
     (if mid = chb CHR ''Q'' then and_then (rd_cstring mid r) (\<lambda>(q, r). Ok (Query q, r))
      else if mid = chb CHR ''X'' then Ok (Terminate, r)
      else if mid = chb CHR ''P'' then
        and_then (rd_cstring mid r) (\<lambda>(s, r). and_then (rd_cstring mid r) (\<lambda>(q, r).
        and_then (rd_u16 mid r) (\<lambda>(n, r). and_then (rd_times (unat n) (rd_u32 mid) r) (\<lambda>(ts, r).
          Ok (Parse s q ts, r)))))
      else if mid = chb CHR ''B'' then
        and_then (rd_cstring mid r) (\<lambda>(p, r). and_then (rd_cstring mid r) (\<lambda>(s, r).
        and_then (read_u16s mid r) (\<lambda>(pf, r). and_then (read_cells mid r) (\<lambda>(vs, r).
        and_then (read_u16s mid r) (\<lambda>(rf, r). Ok (Bind p s pf vs rf, r))))))
      else if mid = chb CHR ''D'' then
        and_then (read_target mid r) (\<lambda>(t, r). and_then (rd_cstring mid r) (\<lambda>(n, r).
          Ok (Describe t n, r)))
      else if mid = chb CHR ''E'' then
        and_then (rd_cstring mid r) (\<lambda>(p, r). and_then (rd_u32 mid r) (\<lambda>(n, r).
          Ok (Execute p n, r)))
      else if mid = chb CHR ''C'' then
        and_then (read_target mid r) (\<lambda>(t, r). and_then (rd_cstring mid r) (\<lambda>(n, r).
          Ok (Close t n, r)))
      else if mid = chb CHR ''S'' then Ok (Sync, r)
      else if mid = chb CHR ''H'' then Ok (Flush, r)
      else if mid = chb CHR ''d'' then Ok (FeCopyData r, [])
      else if mid = chb CHR ''c'' then Ok (FeCopyDone, r)
      else if mid = chb CHR ''f'' then and_then (rd_cstring mid r) (\<lambda>(q, r). Ok (CopyFail q, r))
      else
        and_then (rd_u32 mid r) (\<lambda>(fnid, r). and_then (read_u16s mid r) (\<lambda>(_, r).
        and_then (read_cells mid r) (\<lambda>(vs, r). and_then (rd_u16 mid r) (\<lambda>(_, r).
          Ok (FunctionCall fnid vs, r))))))"

definition cells_size :: "bytes option list \<Rightarrow> nat" where
  "cells_size vs = sum_list (map (\<lambda>v. 4 + (case v of None \<Rightarrow> 0 | Some b \<Rightarrow> length b)) vs)"

fun fe_size :: "frontend \<Rightarrow> nat" where
  "fe_size (Query q) = length q + 1"
| "fe_size (Parse s q ts) = length s + length q + 4 * length ts + 4"
| "fe_size (Bind p s pf vs rf) =
     length p + length s + 2 * length pf + cells_size vs + 2 * length rf + 8"
| "fe_size (Describe t n) = length n + 2"
| "fe_size (Execute p n) = length p + 5"
| "fe_size (Close t n) = length n + 2"
| "fe_size (FeCopyData d) = length d"
| "fe_size (CopyFail m) = length m + 1"
| "fe_size (FunctionCall f vs) = cells_size vs + 12"
| "fe_size _ = 0"

text \<open>The typed messages with NUL-free strings and counts and lengths that fit.\<close>

fun fe_ok :: "frontend \<Rightarrow> bool" where
  "fe_ok (Query q) = cstr_ok q"
| "fe_ok (Parse s q ts) = (cstr_ok s \<and> cstr_ok q \<and> length ts < 2 ^ 16)"
| "fe_ok (Bind p s pf vs rf) =
     (cstr_ok p \<and> cstr_ok s \<and> length pf < 2 ^ 16 \<and> length vs < 2 ^ 16 \<and> length rf < 2 ^ 16 \<and>
      list_all cell_ok vs)"
| "fe_ok (Describe t n) = cstr_ok n"
| "fe_ok (Execute p n) = cstr_ok p"
| "fe_ok (Close t n) = cstr_ok n"
| "fe_ok (CopyFail m) = cstr_ok m"
| "fe_ok (FunctionCall f vs) = (length vs < 2 ^ 16 \<and> list_all cell_ok vs)"
| "fe_ok (Startup _ _) = False"
| "fe_ok (PasswordMessage _) = False"
| "fe_ok (SaslInitialResponse _ _) = False"
| "fe_ok (SaslResponse _) = False"
| "fe_ok (CancelRequest _ _) = False"
| "fe_ok _ = True"

lemma packet_framed:
  "length body + 4 < 2 ^ 32 \<Longrightarrow> packet mid body = Some (framed (mid, body))"
  by (simp add: packet_def length_word_def framed_def)

lemma values_bytes_cells:
  "list_all cell_ok vs \<Longrightarrow> values_bytes vs = Some (concat (map cell_wire vs))"
proof (induction vs)
  case (Cons v vs)
  then show ?case
    by (cases v) (simp_all add: cell_ok_def cell_wire_def)
qed simp

lemma length_cells: "length (concat (map cell_wire vs)) = cells_size vs"
  by (induction vs) (auto simp: cells_size_def cell_wire_def split: option.splits)

lemma length_concat_be16 [simp]: "length (concat (map be16 xs)) = 2 * length xs"
  by (induction xs) auto

lemma length_concat_be32 [simp]: "length (concat (map be32 xs)) = 4 * length xs"
  by (induction xs) auto

lemma read_u16s_wire [wire_simps]:
  "length xs < 2 ^ 16 \<Longrightarrow>
   read_u16s mid (be16 (of_nat (length xs)) @ concat (map be16 xs) @ r) = Ok (xs, r)"
  using rd_times_concat [of xs "rd_u16 mid" be16 r]
  by (simp add: read_u16s_def wire_simps unat_of_nat16)

lemma read_u16s_end:
  "length xs < 2 ^ 16 \<Longrightarrow>
   read_u16s mid (be16 (of_nat (length xs)) @ concat (map be16 xs)) = Ok (xs, [])"
  using read_u16s_wire [of xs mid "[]"] by simp

lemma read_cells_wire [wire_simps]:
  "length vs < 2 ^ 16 \<Longrightarrow> list_all cell_ok vs \<Longrightarrow>
   read_cells mid (be16 (of_nat (length vs)) @ concat (map cell_wire vs) @ r) = Ok (vs, r)"
  using rd_times_concat [of vs "decode_cell mid" cell_wire r]
  by (auto simp: read_cells_def wire_simps unat_of_nat16 list_all_iff)

lemma read_target_byte [wire_simps]: "read_target mid (target_byte t # r) = Ok (t, r)"
  by (cases t) (simp_all add: read_target_def wire_simps)

lemma length_cstring [simp]: "length (cstring s) = Suc (length s)"
  by (simp add: cstring_def)

lemma rd_u32_end: "rd_u32 mid (be32 w) = Ok (w, [])"
  using rd_u32_be32 [of mid w "[]"] by simp

lemma rd_u16_end: "rd_u16 mid (be16 w) = Ok (w, [])"
  using rd_u16_be16 [of mid w "[]"] by simp

lemma rd_times_u32_end: "rd_times (length ts) (rd_u32 mid) (concat (map be32 ts)) = Ok (ts, [])"
  using rd_times_concat [of ts "rd_u32 mid" be32 "[]"] by (simp add: wire_simps)

lemma rd_function_call_formats:
  "read_u16s mid (be16 1 @ be16 1 @ r) = Ok ([1], r)"
  using read_u16s_wire [of "[1]" mid r] by simp

lemmas encode_simps =
  packet_framed count16_def values_bytes_cells length_cells fe_id_def fe_read_def
  bind_body_def function_call_body_def rd_cstring_end read_u16s_end rd_u32_end rd_u16_end
  rd_times_u32_end rd_function_call_formats unat_of_nat16


lemma framed_inject [simp]: "framed m = framed n \<longleftrightarrow> m = n"
  by (auto simp: framed_def intro: prod_eqI)

text \<open>Every typed frontend message that fits is encoded, and can be read back. If its strings
  hold no NUL, its counts fit 16 bits, its values 31 bits and its body the length word, then
  \<open>encode\<close> does not panic: it gives the type byte, a length word equal to the body's length plus
  four, and a body of the computed size from which a reader of the protocol recovers exactly the
  message, with nothing left over. Two different messages never have the same bytes.\<close>

lemma encode_readable:
  assumes "fe_ok m" and "fe_size m + 4 < 2 ^ 32"
  shows "\<exists>body. encode m = Some (framed (fe_id m, body)) \<and> length body = fe_size m \<and>
           fe_read (fe_id m) body = Ok (m, [])"
  using assms by (cases m) (auto simp: encode_simps wire_simps rd_cstring_end [unfolded cstring_def])

end
