(* ===== verification/Pipeline.thy ===== *)
theory Pipeline
  imports Message
begin

text \<open>
  \<open>crates/rlibpq/src/pipeline.rs\<close>: the query-execution state of a connection, as the source has
  it: the asynchronous status, the pipeline status, the command queue, the result being built, the
  parked result of the partial row modes, and every operation of \<open>PipelineState\<close> and
  \<open>QueryRunner\<close> on them. An operation that takes \<open>&mut self\<close> returns the new state beside its
  value, also when it fails, since a refused DataRow has already moved the results around.

  Shown: the invariant of every state a client and any server can reach; what an aborted pipeline
  reports up to its Sync; that rows are delivered once and in order in each row mode; that a
  runner always returns; that leaving pipeline mode needs everything collected.
\<close>

section \<open>Types\<close>

datatype query_class = Q_Simple | Q_Extended | Q_Prepare | Q_Describe | Q_Sync | Q_Close

datatype pipeline_status = P_Off | P_On | P_Aborted

datatype async_status =
  A_Idle | A_Busy | A_Ready | A_ReadyMore | A_PipelineIdle | A_CopyIn | A_CopyOut | A_CopyBoth

definition is_copy :: "async_status \<Rightarrow> bool" where
  "is_copy st = (st \<in> {A_CopyIn, A_CopyOut, A_CopyBoth})"

fun copy_status :: "async_status \<Rightarrow> exec_status option" where
  "copy_status A_CopyIn = Some CopyIn"
| "copy_status A_CopyOut = Some CopyOut"
| "copy_status A_CopyBoth = Some CopyBoth"
| "copy_status _ = None"

datatype row_mode = RM_All | RM_Single | RM_Chunked nat

fun chunk_size :: "row_mode \<Rightarrow> nat option" where
  "chunk_size RM_All = None"
| "chunk_size RM_Single = Some 1"
| "chunk_size (RM_Chunked n) = Some n"

datatype pipeline_error =
    NotIdle | UncollectedResults | PE_Busy | NotInPipelineMode | CommandInProgress
  | NotAllowedInPipelineMode string | SynchronousInPipelineMode | QueueDuringCopy
  | NoCopyInProgress | ExecDuringCopyBoth | ExitDuringCopy | SyncDuringCopy | WrongState

datatype admit_answer = Process | Wait

datatype event =
    Ev_Notice result_error
  | Ev_Notification u32 bytes bytes
  | Ev_ParameterStatus bytes bytes
  | Ev_ReadyForQuery transaction_status

datatype copy_step = CS_Async | CS_Data | CS_End

datatype next_step = N_Result query_result | N_Null | N_Block

record cmd_queue_entry =
  ce_class :: query_class
  ce_query :: "bytes option"

record pipeline_state =
  ps_status :: async_status
  ps_pipeline :: pipeline_status
  ps_queue :: "cmd_queue_entry list"
  ps_client_encoding :: encoding
  ps_result :: "query_result option"
  ps_saved_result :: "query_result option"
  ps_row_mode :: row_mode

definition PipelineState_new :: pipeline_state where
  "PipelineState_new =
     \<lparr> ps_status = A_Idle, ps_pipeline = P_Off, ps_queue = [], ps_client_encoding = SqlAscii,
       ps_result = None, ps_saved_result = None, ps_row_mode = RM_All \<rparr>"

definition OUTBUFFER_THRESHOLD :: nat where
  "OUTBUFFER_THRESHOLD = 65536"

section \<open>Helpers\<close>

definition queue_classes :: "pipeline_state \<Rightarrow> query_class list" where
  "queue_classes s = map ce_class (ps_queue s)"

definition queue_head :: "pipeline_state \<Rightarrow> query_class option" where
  "queue_head s = (case ps_queue s of [] \<Rightarrow> None | e # _ \<Rightarrow> Some (ce_class e))"

definition save_parameter_status :: "pipeline_state \<Rightarrow> bytes \<Rightarrow> bytes \<Rightarrow> pipeline_state" where
  "save_parameter_status s name v =
     (if name = bstr ''client_encoding''
      then s\<lparr> ps_client_encoding := (case enc_from_name v of Some e \<Rightarrow> e | None \<Rightarrow> SqlAscii) \<rparr>
      else s)"

definition stamp :: "pipeline_state \<Rightarrow> result_error \<Rightarrow> result_error" where
  "stamp s err =
     (let err = with_client_encoding err (ps_client_encoding s) in
      case (case ps_queue s of [] \<Rightarrow> None | e # _ \<Rightarrow> ce_query e) of
        Some q \<Rightarrow> if re_field err diag_STATEMENT_POSITION \<noteq> None then with_err_query err q else err
      | None \<Rightarrow> err)"

definition is_busy :: "pipeline_state \<Rightarrow> bool" where
  "is_busy s = (ps_status s = A_Busy)"

definition clear_async_result :: "pipeline_state \<Rightarrow> pipeline_state" where
  "clear_async_result s = s\<lparr> ps_result := None, ps_saved_result := None \<rparr>"

definition prepare_async_result :: "pipeline_state \<Rightarrow> query_result \<times> pipeline_state" where
  "prepare_async_result s =
     (case ps_result s of Some r \<Rightarrow> r | None \<Rightarrow> QueryResult_new FatalError,
      s\<lparr> ps_result := ps_saved_result s, ps_saved_result := None \<rparr>)"

text \<open>\<open>self.result.get_or_insert_with(|| QueryResult::new(st))\<close> followed by a change of it.\<close>

definition update_result ::
  "exec_status \<Rightarrow> (query_result \<Rightarrow> query_result) \<Rightarrow> pipeline_state \<Rightarrow> pipeline_state" where
  "update_result st f s =
     s\<lparr> ps_result := Some (f (case ps_result s of Some r \<Rightarrow> r | None \<Rightarrow> QueryResult_new st)) \<rparr>"

definition command_ok_ready :: "pipeline_state \<Rightarrow> pipeline_state" where
  "command_ok_ready s = (update_result CommandOk (\<lambda>r. r) s)\<lparr> ps_status := A_Ready \<rparr>"

definition advance :: "bool \<Rightarrow> bool \<Rightarrow> pipeline_state \<Rightarrow> pipeline_state" where
  "advance is_ready_for_query got_sync s =
     (case queue_head s of
        None \<Rightarrow> s
      | Some c \<Rightarrow>
          if c = Q_Simple \<and> \<not> is_ready_for_query then s
          else if c = Q_Sync \<and> \<not> got_sync then s
          else s\<lparr> ps_queue := tl (ps_queue s) \<rparr>)"

definition process_queue :: "pipeline_state \<Rightarrow> pipeline_state" where
  "process_queue s =
     (if ps_status s \<in> {A_Ready, A_ReadyMore, A_Busy, A_CopyIn, A_CopyOut, A_CopyBoth} then s
      else if ps_status s = A_Idle \<and> ps_queue s = [] then s
      else let s = s\<lparr> ps_row_mode := RM_All \<rparr> in
        case queue_head s of
          None \<Rightarrow> s\<lparr> ps_status := A_Idle \<rparr>
        | Some head \<Rightarrow>
            let s = clear_async_result s in
            if ps_pipeline s = P_Aborted \<and> head \<noteq> Q_Sync
            then s\<lparr> ps_result := Some (QueryResult_new PipelineAborted), ps_status := A_Ready \<rparr>
            else s\<lparr> ps_status := A_Busy \<rparr>)"

section \<open>What the client asks\<close>

type_synonym 'a op = "('a, pipeline_error) result \<times> pipeline_state"

definition begin_send :: "query_class \<Rightarrow> pipeline_state \<Rightarrow> unit op" where
  "begin_send c s =
     (if ps_status s \<noteq> A_Idle \<and> ps_pipeline s = P_Off then (Err CommandInProgress, s)
      else if ps_pipeline s \<noteq> P_Off \<and> is_copy (ps_status s) then (Err QueueDuringCopy, s)
      else let s = (if ps_pipeline s = P_Off
                    then (clear_async_result s)\<lparr> ps_row_mode := RM_All \<rparr> else s) in
        if c = Q_Simple \<and> ps_pipeline s \<noteq> P_Off
        then (Err (NotAllowedInPipelineMode ''PQsendQuery''), s)
        else (Ok (), s))"

definition begin_exec :: "pipeline_state \<Rightarrow> (unit, pipeline_error) result" where
  "begin_exec s = (if ps_pipeline s = P_Off then Ok () else Err SynchronousInPipelineMode)"

definition begin_fn :: "pipeline_state \<Rightarrow> (unit, pipeline_error) result" where
  "begin_fn s =
     (if ps_pipeline s \<noteq> P_Off then Err (NotAllowedInPipelineMode ''PQfn'')
      else if ps_status s \<noteq> A_Idle \<or> ps_result s \<noteq> None then Err WrongState
      else Ok ())"

definition sends_own_sync :: "pipeline_state \<Rightarrow> bool" where
  "sends_own_sync s = (ps_pipeline s = P_Off)"

definition flushes_now :: "pipeline_state \<Rightarrow> nat \<Rightarrow> bool" where
  "flushes_now s pending = (ps_pipeline s \<noteq> P_On \<or> pending \<ge> OUTBUFFER_THRESHOLD)"

definition append_command ::
  "query_class \<Rightarrow> bytes option \<Rightarrow> pipeline_state \<Rightarrow> pipeline_state" where
  "append_command c q s =
     (let s = s\<lparr> ps_queue := ps_queue s @ [\<lparr> ce_class = c, ce_query = q \<rparr>] \<rparr> in
      if ps_pipeline s = P_Aborted
      then (if ps_status s \<in> {A_Idle, A_PipelineIdle} then process_queue s else s)
      else (if ps_status s = A_Idle then s\<lparr> ps_status := A_Busy \<rparr> else s))"

definition ps_append :: "query_class \<Rightarrow> pipeline_state \<Rightarrow> pipeline_state" where
  "ps_append c s = append_command c None s"

definition enter_pipeline_mode :: "pipeline_state \<Rightarrow> unit op" where
  "enter_pipeline_mode s =
     (if ps_pipeline s \<noteq> P_Off then (Ok (), s)
      else if ps_status s \<noteq> A_Idle then (Err NotIdle, s)
      else (Ok (), s\<lparr> ps_pipeline := P_On \<rparr>))"

definition exit_pipeline_mode :: "pipeline_state \<Rightarrow> bool op" where
  "exit_pipeline_mode s =
     (if ps_pipeline s = P_Off \<and> ps_status s \<in> {A_Idle, A_PipelineIdle} \<and> ps_queue s = []
      then (Ok False, s)
      else if ps_status s \<in> {A_Ready, A_ReadyMore} then (Err UncollectedResults, s)
      else if ps_status s = A_Busy then (Err PE_Busy, s)
      else if is_copy (ps_status s) \<and> ps_queue s \<noteq> [] then (Err ExitDuringCopy, s)
      else if ps_queue s \<noteq> [] then (Err UncollectedResults, s)
      else (Ok True, s\<lparr> ps_pipeline := P_Off, ps_status := A_Idle \<rparr>))"

definition begin_pipeline_sync :: "pipeline_state \<Rightarrow> (unit, pipeline_error) result" where
  "begin_pipeline_sync s =
     (if ps_pipeline s = P_Off then Err NotInPipelineMode
      else if is_copy (ps_status s) then Err SyncDuringCopy else Ok ())"

definition begin_flush_request :: "pipeline_state \<Rightarrow> (unit, pipeline_error) result" where
  "begin_flush_request s =
     (if ps_status s \<noteq> A_Idle \<and> ps_pipeline s = P_Off then Err CommandInProgress else Ok ())"

definition can_change_result_mode :: "pipeline_state \<Rightarrow> bool" where
  "can_change_result_mode s =
     (ps_status s = A_Busy \<and> queue_head s \<in> {Some Q_Simple, Some Q_Extended} \<and> ps_result s = None)"

definition set_single_row_mode :: "pipeline_state \<Rightarrow> bool \<times> pipeline_state" where
  "set_single_row_mode s =
     (if can_change_result_mode s then (True, s\<lparr> ps_row_mode := RM_Single \<rparr>) else (False, s))"

definition set_chunked_rows_mode :: "nat \<Rightarrow> pipeline_state \<Rightarrow> bool \<times> pipeline_state" where
  "set_chunked_rows_mode n s =
     (if n > 0 \<and> can_change_result_mode s then (True, s\<lparr> ps_row_mode := RM_Chunked n \<rparr>)
      else (False, s))"

definition begin_put_copy :: "pipeline_state \<Rightarrow> (unit, pipeline_error) result" where
  "begin_put_copy s =
     (if ps_status s \<in> {A_CopyIn, A_CopyBoth} then Ok () else Err NoCopyInProgress)"

definition put_copy_end :: "pipeline_state \<Rightarrow> bool op" where
  "put_copy_end s =
     (case begin_put_copy s of
        Err e \<Rightarrow> (Err e, s)
      | Ok _ \<Rightarrow>
          (Ok (case queue_head s of None \<Rightarrow> False | Some c \<Rightarrow> c \<noteq> Q_Simple),
           s\<lparr> ps_status := (if ps_status s = A_CopyBoth then A_CopyOut else A_Busy) \<rparr>))"

definition begin_get_copy :: "pipeline_state \<Rightarrow> (unit, pipeline_error) result" where
  "begin_get_copy s =
     (if ps_status s \<in> {A_CopyOut, A_CopyBoth} then Ok () else Err NoCopyInProgress)"

definition copy_message :: "byte \<Rightarrow> pipeline_state \<Rightarrow> copy_step \<times> pipeline_state" where
  "copy_message mid s =
     (if mid \<in> set (bstr ''ANS'') then (CS_Async, s)
      else if mid = chb CHR ''d'' then (CS_Data, s)
      else if mid = chb CHR ''c'' then
        (CS_End, s\<lparr> ps_status := (if ps_status s = A_CopyBoth then A_CopyIn else A_Busy) \<rparr>)
      else (CS_End, s\<lparr> ps_status := A_Busy \<rparr>))"

definition has_pending_result :: "pipeline_state \<Rightarrow> bool" where
  "has_pending_result s = (ps_result s \<noteq> None)"

definition abandon_copy_out :: "pipeline_state \<Rightarrow> pipeline_state" where
  "abandon_copy_out s = (if ps_status s = A_CopyOut then s\<lparr> ps_status := A_Busy \<rparr> else s)"

section \<open>What the server sends\<close>

definition second_row_description :: "pipeline_state \<Rightarrow> bool" where
  "second_row_description s =
     (case ps_result s of
        None \<Rightarrow> False
      | Some r \<Rightarrow> if qr_status r = FatalError then False else queue_head s \<noteq> Some Q_Describe)"

definition admit :: "byte \<Rightarrow> pipeline_state \<Rightarrow> admit_answer \<times> pipeline_state" where
  "admit mid s =
     (if mid = chb CHR ''A'' \<or> mid = chb CHR ''N'' then (Process, s)
      else if ps_status s = A_Idle then (Process, s)
      else if ps_status s = A_Busy then
        (if mid = chb CHR ''T'' \<and> second_row_description s
         then (Wait, s\<lparr> ps_status := A_Ready \<rparr>) else (Process, s))
      else (Wait, s))"

definition copy_start :: "exec_status \<Rightarrow> copy_format \<Rightarrow> pipeline_state \<Rightarrow> pipeline_state" where
  "copy_start st f s =
     s\<lparr> ps_result := Some (QueryResult_copy st f),
        ps_status := (if st = CopyIn then A_CopyIn else if st = CopyOut then A_CopyOut
                      else A_CopyBoth) \<rparr>"

definition partial_result :: "pipeline_state \<Rightarrow> query_result \<Rightarrow> query_result" where
  "partial_result s r =
     set_fields (QueryResult_new (if ps_row_mode s = RM_Single then SingleTuple else TuplesChunk))
       (qr_fields r)"

text \<open>The row processor. The parked result and the fresh partial one are installed before the
  field count is checked.\<close>

definition data_row ::
  "row \<Rightarrow> pipeline_state \<Rightarrow> (unit, protocol_error) result \<times> pipeline_state" where
  "data_row values s =
     (case ps_result s of
        None \<Rightarrow> (Err DataWithoutRowDescription, s)
      | Some r \<Rightarrow>
          if qr_status r = FatalError then (Ok (), s)
          else if qr_status r \<notin> {TuplesOk, TuplesChunk} then (Err DataWithoutRowDescription, s)
          else
            let part = chunk_size (ps_row_mode s) \<noteq> None \<and> ps_saved_result s = None;
                r1 = (if part then partial_result s r else r);
                s1 = (if part then s\<lparr> ps_saved_result := Some r, ps_result := Some r1 \<rparr> else s)
            in if length values \<noteq> nfields r1 then (Err UnexpectedFieldCount, s1)
               else
                 let r2 = push_row r1 values; s2 = s1\<lparr> ps_result := Some r2 \<rparr> in
                 (Ok (), case chunk_size (ps_row_mode s2) of
                           Some n \<Rightarrow> if ntuples r2 \<ge> n then s2\<lparr> ps_status := A_ReadyMore \<rparr> else s2
                         | None \<Rightarrow> s2))"

text \<open>\<open>format!("{:02x}")\<close> of a byte.\<close>

definition hex_digit :: "nat \<Rightarrow> byte" where
  "hex_digit n = of_nat (if n < 10 then 48 + n else 87 + n)"

definition hex2 :: "byte \<Rightarrow> bytes" where
  "hex2 b = [hex_digit (unat b div 16), hex_digit (unat b mod 16)]"

definition internal_notice :: "bytes \<Rightarrow> result_error" where
  "internal_notice m =
     ResultError_new [(diag_MESSAGE_PRIMARY, m), (diag_SEVERITY, bstr ''NOTICE''),
                      (diag_SEVERITY_NONLOCALIZED, bstr ''NOTICE'')]"

definition apply_idle :: "backend \<Rightarrow> event" where
  "apply_idle m =
     (case m of
        ErrorResponse e \<Rightarrow> Ev_Notice e
      | ParameterStatus name v \<Rightarrow> Ev_ParameterStatus name v
      | _ \<Rightarrow> Ev_Notice (internal_notice (bstr ''message type 0x'' @ hex2 (message_id m)
                                          @ bstr '' arrived from server while idle'')))"

type_synonym applied = "(event option, protocol_error) result \<times> pipeline_state"

definition apply_row_description ::
  "field_description list \<Rightarrow> pipeline_state \<Rightarrow> pipeline_state" where
  "apply_row_description fs s =
     (if (case ps_result s of Some r \<Rightarrow> qr_status r = FatalError | None \<Rightarrow> False) then s
      else if queue_head s = Some Q_Describe
      then (update_result CommandOk (\<lambda>r. set_fields r fs) s)\<lparr> ps_status := A_Ready \<rparr>
      else s\<lparr> ps_result := Some (set_fields (QueryResult_new TuplesOk) fs) \<rparr>)"

definition apply_error :: "result_error \<Rightarrow> pipeline_state \<Rightarrow> pipeline_state" where
  "apply_error e s =
     (clear_async_result
        (s\<lparr> ps_pipeline := (if ps_pipeline s \<noteq> P_Off then P_Aborted else P_Off) \<rparr>))
       \<lparr> ps_result := Some (with_error FatalError e), ps_status := A_Ready \<rparr>"

definition apply_ready_for_query :: "pipeline_state \<Rightarrow> pipeline_state" where
  "apply_ready_for_query s =
     (if ps_pipeline s = P_Off then (advance True False s)\<lparr> ps_status := A_Idle \<rparr>
      else s\<lparr> ps_result := Some (QueryResult_new PipelineSync), ps_pipeline := P_On,
              ps_status := A_Ready \<rparr>)"

text \<open>The switch of the busy state. Its last arm is \<open>unreachable!\<close>: \<open>apply\<close> deals with a
  notification and a notice before it; the model leaves the state alone there.\<close>

primrec apply_busy :: "backend \<Rightarrow> pipeline_state \<Rightarrow> applied" where
  "apply_busy (CommandComplete tag) s =
     (Ok None,
      (update_result CommandOk (\<lambda>r. set_command_status r tag) s)\<lparr> ps_status := A_Ready \<rparr>)"
| "apply_busy (ErrorResponse e) s = (Ok None, apply_error e s)"
| "apply_busy (ReadyForQuery x) s = (Ok (Some (Ev_ReadyForQuery x)), apply_ready_for_query s)"
| "apply_busy EmptyQueryResponse s =
     (Ok None, (update_result EmptyQuery (\<lambda>r. r) s)\<lparr> ps_status := A_Ready \<rparr>)"
| "apply_busy ParseComplete s =
     (Ok None, if queue_head s = Some Q_Prepare then command_ok_ready s else s)"
| "apply_busy CloseComplete s =
     (Ok None, if queue_head s = Some Q_Close then command_ok_ready s else s)"
| "apply_busy NoData s =
     (Ok None, if queue_head s = Some Q_Describe then command_ok_ready s else s)"
| "apply_busy BindComplete s = (Ok None, s)"
| "apply_busy (CopyData _) s = (Ok None, s)"
| "apply_busy CopyDone s = (Ok None, s)"
| "apply_busy (ParameterStatus name v) s = (Ok (Some (Ev_ParameterStatus name v)), s)"
| "apply_busy (RowDescription fs) s = (Ok None, apply_row_description fs s)"
| "apply_busy (ParameterDescription types) s =
     (Ok None, s\<lparr> ps_result := Some (set_params (QueryResult_new CommandOk) types) \<rparr>)"
| "apply_busy (DataRow values) s =
     (let (r, s') = data_row values s in (and_then r (\<lambda>_. Ok None), s'))"
| "apply_busy (CopyInResponse f) s = (Ok None, copy_start CopyIn f s)"
| "apply_busy (CopyOutResponse f) s = (Ok None, copy_start CopyOut f s)"
| "apply_busy (CopyBothResponse f) s = (Ok None, copy_start CopyBoth f s)"
| "apply_busy (Authentication _) s = (Err (UnexpectedResponse (chb CHR ''R'')), s)"
| "apply_busy (BackendKeyData _ _) s = (Err (UnexpectedResponse (chb CHR ''K'')), s)"
| "apply_busy (NotificationResponse _ _ _) s = (Ok None, s)"
| "apply_busy (NoticeResponse _) s = (Ok None, s)"
| "apply_busy PortalSuspended s = (Err (UnexpectedResponse (message_id PortalSuspended)), s)"
| "apply_busy (NegotiateProtocolVersion v us) s =
     (Err (UnexpectedResponse (message_id (NegotiateProtocolVersion v us))), s)"
| "apply_busy (FunctionCallResponse r) s =
     (Err (UnexpectedResponse (message_id (FunctionCallResponse r))), s)"
| "apply_busy (Other mid body) s = (Err (UnexpectedResponse (message_id (Other mid body))), s)"

text \<open>\<open>PipelineState::apply\<close>: errors and notices are stamped, a parameter is saved, and then the
  message goes to the switch of the state.\<close>

definition stamp_message :: "pipeline_state \<Rightarrow> backend \<Rightarrow> backend" where
  "stamp_message s m =
     (case m of
        ErrorResponse e \<Rightarrow> ErrorResponse (stamp s e)
      | NoticeResponse e \<Rightarrow> NoticeResponse (stamp s e)
      | _ \<Rightarrow> m)"

definition save_message :: "backend \<Rightarrow> pipeline_state \<Rightarrow> pipeline_state" where
  "save_message m s =
     (case m of ParameterStatus name v \<Rightarrow> save_parameter_status s name v | _ \<Rightarrow> s)"

definition ps_apply :: "backend \<Rightarrow> pipeline_state \<Rightarrow> applied" where
  "ps_apply m s =
     (let m' = stamp_message s m; s' = save_message m s in
      case m' of
        NotificationResponse pid channel payload \<Rightarrow>
          (Ok (Some (Ev_Notification pid channel payload)), s')
      | NoticeResponse e \<Rightarrow> (Ok (Some (Ev_Notice e)), s')
      | _ \<Rightarrow> if ps_status s' = A_Idle then (Ok (Some (apply_idle m')), s') else apply_busy m' s')"

section \<open>Handing results over\<close>

definition copy_result :: "pipeline_state \<Rightarrow> exec_status \<Rightarrow> query_result \<times> pipeline_state" where
  "copy_result s st =
     (if map_option qr_status (ps_result s) = Some st then prepare_async_result s
      else (QueryResult_new st, s))"

definition next_ready :: "pipeline_state \<Rightarrow> next_step \<times> pipeline_state" where
  "next_ready s =
     (let (r, s) = prepare_async_result s in
      if ps_result s \<noteq> None then (N_Result r, s)
      else
        let got_sync = (qr_status r = PipelineSync); s = advance False got_sync s in
        if ps_pipeline s = P_Off then (N_Result r, s\<lparr> ps_status := A_Busy \<rparr>)
        else
          let s = s\<lparr> ps_status := A_PipelineIdle \<rparr> in
          (N_Result r, if got_sync then process_queue s else s))"

definition next_result :: "pipeline_state \<Rightarrow> next_step \<times> pipeline_state" where
  "next_result s =
     (case ps_status s of
        A_Busy \<Rightarrow> (N_Block, s)
      | A_Idle \<Rightarrow> (N_Null, s)
      | A_PipelineIdle \<Rightarrow> (N_Null, process_queue s)
      | A_Ready \<Rightarrow> next_ready s
      | A_ReadyMore \<Rightarrow> (let (r, s) = prepare_async_result s in (N_Result r, s\<lparr> ps_status := A_Busy \<rparr>))
      | A_CopyIn \<Rightarrow> (let (r, s) = copy_result s CopyIn in (N_Result r, s))
      | A_CopyOut \<Rightarrow> (let (r, s) = copy_result s CopyOut in (N_Result r, s))
      | A_CopyBoth \<Rightarrow> (let (r, s) = copy_result s CopyBoth in (N_Result r, s)))"

section \<open>The query runner\<close>

datatype flow = Continue | Done

record query_runner =
  qu_state :: pipeline_state
  qu_results :: "query_result list"
  qu_notices :: "result_error list"
  qu_notifications :: "(u32 \<times> bytes \<times> bytes) list"
  qu_parameters :: "(bytes \<times> bytes) list"
  qu_transaction_status :: "transaction_status option"

definition for_class :: "query_class \<Rightarrow> query_runner" where
  "for_class c =
     \<lparr> qu_state = ps_append c (snd (begin_send c PipelineState_new)), qu_results = [],
       qu_notices = [], qu_notifications = [], qu_parameters = [], qu_transaction_status = None \<rparr>"

definition QueryRunner_new :: query_runner where
  "QueryRunner_new = for_class Q_Simple"

text \<open>One turn of \<open>collect\<close>: take the next result and keep it.\<close>

definition take_result :: "query_runner \<Rightarrow> query_runner" where
  "take_result q =
     (let (n, s) = next_result (qu_state q); q = q\<lparr> qu_state := s \<rparr> in
      case n of N_Result r \<Rightarrow> q\<lparr> qu_results := qu_results q @ [r] \<rparr> | _ \<Rightarrow> q)"

text \<open>The loop of \<open>collect\<close> ends: a ready state holds at most a parked result behind the one it
  hands over, and a Sync result restarts the queue at most once.\<close>

definition collect_measure :: "pipeline_state \<Rightarrow> nat" where
  "collect_measure s =
     (if ps_status s = A_ReadyMore then 1
      else if ps_status s = A_Ready
      then 1 + (if ps_saved_result s \<noteq> None then 3 else 0)
             + (if map_option qr_status (ps_result s) = Some PipelineSync then 1 else 0)
      else 0)"

lemma take_result_state [simp]: "qu_state (take_result q) = snd (next_result (qu_state q))"
  by (simp add: take_result_def Let_def split: prod.splits next_step.splits)

lemma advance_sel [simp]:
  "ps_status (advance a b s) = ps_status s"
  "ps_pipeline (advance a b s) = ps_pipeline s"
  "ps_result (advance a b s) = ps_result s"
  "ps_saved_result (advance a b s) = ps_saved_result s"
  "ps_row_mode (advance a b s) = ps_row_mode s"
  "ps_client_encoding (advance a b s) = ps_client_encoding s"
  by (simp_all add: advance_def split: option.splits)

lemma process_queue_idle:
  "ps_status s = A_PipelineIdle \<Longrightarrow>
   process_queue s =
     (case ps_queue s of
        [] \<Rightarrow> s\<lparr> ps_row_mode := RM_All, ps_status := A_Idle \<rparr>
      | e # _ \<Rightarrow>
          if ps_pipeline s = P_Aborted \<and> ce_class e \<noteq> Q_Sync
          then s\<lparr> ps_row_mode := RM_All, ps_saved_result := None,
                  ps_result := Some (QueryResult_new PipelineAborted), ps_status := A_Ready \<rparr>
          else s\<lparr> ps_row_mode := RM_All, ps_saved_result := None, ps_result := None,
                  ps_status := A_Busy \<rparr>)"
  by (simp add: process_queue_def queue_head_def clear_async_result_def Let_def split: list.splits)

lemma next_ready_measure:
  assumes "ps_status s = A_Ready"
  shows "collect_measure (snd (next_ready s)) < collect_measure s"
proof (cases "ps_saved_result s")
  case None
  define r where "r = fst (prepare_async_result s)"
  define t where "t = advance False (qr_status r = PipelineSync)
    (s\<lparr> ps_result := None, ps_saved_result := None \<rparr>)"
  have p: "prepare_async_result s = (r, s\<lparr> ps_result := None, ps_saved_result := None \<rparr>)"
    using None by (simp add: r_def prepare_async_result_def)
  have n: "snd (next_ready s) =
      (if ps_pipeline t = P_Off then t\<lparr> ps_status := A_Busy \<rparr>
       else if qr_status r = PipelineSync then process_queue (t\<lparr> ps_status := A_PipelineIdle \<rparr>)
       else t\<lparr> ps_status := A_PipelineIdle \<rparr>)"
    unfolding next_ready_def p by (simp add: Let_def t_def)
  have "qr_status r = PipelineSync \<Longrightarrow> collect_measure s = 2"
    using None assms
    by (auto simp: collect_measure_def r_def prepare_async_result_def split: option.splits)
  moreover have "collect_measure s \<ge> 1"
    using assms by (simp add: collect_measure_def)
  moreover have "collect_measure (process_queue (t\<lparr> ps_status := A_PipelineIdle \<rparr>)) \<le> 1"
    by (simp add: process_queue_idle collect_measure_def split: list.split)
  ultimately show ?thesis
    unfolding n by (auto simp: collect_measure_def [of "t\<lparr>ps_status := x\<rparr>" for x])
next
  case (Some r)
  then show ?thesis
    using assms by (simp add: next_ready_def prepare_async_result_def Let_def collect_measure_def)
qed

lemma next_result_measure:
  "ps_status s \<in> {A_Ready, A_ReadyMore} \<Longrightarrow>
   collect_measure (snd (next_result s)) < collect_measure s"
  by (auto simp: next_result_def next_ready_measure)
    (simp add: prepare_async_result_def collect_measure_def)

function collect_ready :: "query_runner \<Rightarrow> query_runner" where
  "collect_ready q =
     (if ps_status (qu_state q) \<in> {A_Ready, A_ReadyMore} then collect_ready (take_result q) else q)"
  by pat_completeness auto
termination
  by (relation "measure (collect_measure \<circ> qu_state)")
    (simp_all add: next_result_measure)

declare collect_ready.simps [simp del]

definition collect :: "query_runner \<Rightarrow> query_runner" where
  "collect q =
     (let q = collect_ready q in
      if is_copy (ps_status (qu_state q)) \<and> has_pending_result (qu_state q)
      then take_result q else q)"

text \<open>The loop that waits for a message to be admitted: \<open>None\<close> is a loop that never ends (a state
  between two commands of a pipeline, where \<open>collect\<close> changes nothing). \<open>Inl\<close> is the early return
  in a COPY state.\<close>

partial_function (option) push_wait ::
  "byte \<Rightarrow> query_runner \<Rightarrow> (query_runner + query_runner) option" where
  "push_wait mid q =
     (let (a, s) = admit mid (qu_state q); q = q\<lparr> qu_state := s \<rparr> in
      if a = Process then Some (Inr q)
      else if is_copy (ps_status s) then Some (Inl q)
      else push_wait mid (collect q))"

fun record_event :: "event option \<Rightarrow> query_runner \<Rightarrow> query_runner" where
  "record_event None q = q"
| "record_event (Some (Ev_Notice e)) q = q\<lparr> qu_notices := qu_notices q @ [e] \<rparr>"
| "record_event (Some (Ev_Notification pid ch pl)) q =
     q\<lparr> qu_notifications := qu_notifications q @ [(pid, ch, pl)] \<rparr>"
| "record_event (Some (Ev_ParameterStatus name v)) q =
     q\<lparr> qu_parameters := qu_parameters q @ [(name, v)] \<rparr>"
| "record_event (Some (Ev_ReadyForQuery x)) q = q\<lparr> qu_transaction_status := Some x \<rparr>"

definition push_apply :: "backend \<Rightarrow> query_runner \<Rightarrow> (flow, protocol_error) result \<times> query_runner" where
  "push_apply m q =
     (let (r, s) = ps_apply m (qu_state q); q = q\<lparr> qu_state := s \<rparr> in
      case r of
        Err e \<Rightarrow> (Err e, q)
      | Ok ev \<Rightarrow>
          let q = collect (record_event ev q); st = ps_status (qu_state q) in
          (Ok (if st = A_Idle \<or> is_copy st then Done else Continue), q))"

definition push ::
  "backend \<Rightarrow> query_runner \<Rightarrow> ((flow, protocol_error) result \<times> query_runner) option" where
  "push m q =
     map_option (\<lambda>w. case w of Inl q \<Rightarrow> (Ok Done, q) | Inr q \<Rightarrow> push_apply m q)
       (push_wait (message_id m) q)"


section \<open>Reachable states\<close>

text \<open>What the connection does with its state: a command is appended only after its \<open>begin_\<close>
  check succeeded, a Sync only through \<open>begin_pipeline_sync\<close>, and a message is applied only when it
  is admitted. A send may be given up after its check, when its arguments are refused or the socket
  fails. The server is not constrained: any message may come at any time.\<close>

inductive ps_step :: "pipeline_state \<Rightarrow> pipeline_state \<Rightarrow> bool" where
  send: "begin_send c s = (Ok (), s') \<Longrightarrow> c \<noteq> Q_Sync \<Longrightarrow> ps_step s (append_command c q s')"
| send_given_up: "ps_step s (snd (begin_send c s))"
| pipeline_sync: "begin_pipeline_sync s = Ok () \<Longrightarrow> ps_step s (ps_append Q_Sync s)"
| enter: "ps_step s (snd (enter_pipeline_mode s))"
| leave: "ps_step s (snd (exit_pipeline_mode s))"
| single_row: "ps_step s (snd (set_single_row_mode s))"
| chunked: "ps_step s (snd (set_chunked_rows_mode n s))"
| server: "admit (message_id m) s = (Process, s') \<Longrightarrow> ps_step s (snd (ps_apply m s'))"
| server_waits: "admit mid s = (Wait, s') \<Longrightarrow> ps_step s s'"
| next_res: "ps_step s (snd (next_result s))"
| end_copy_in: "ps_step s (snd (put_copy_end s))"
| copy_out: "begin_get_copy s = Ok () \<Longrightarrow> ps_step s (snd (copy_message mid s))"
| copy_async:
    "begin_get_copy s = Ok () \<Longrightarrow> message_id m \<in> set (bstr ''ANS'') \<Longrightarrow> ps_step s (snd (ps_apply m s))"
| abandon: "ps_step s (abandon_copy_out s)"
| parameter: "ps_step s (save_parameter_status s name v)"

definition ps_init :: "pipeline_state \<Rightarrow> bool" where
  "ps_init s = (s = PipelineState_new)"

text \<open>The invariant, part by part: a ready state has a result to hand over; a result is parked only
  behind another; outside pipeline mode there is at most one command, never a bare Sync; nothing
  is queued when idle; in pipeline mode there are no simple queries, and a state that waits for
  the server or the client has a command it is about; once the pipeline is aborted the server is
  waited for only with a Sync at the head.\<close>

definition inv_results :: "pipeline_state \<Rightarrow> bool" where
  "inv_results s =
     ((ps_status s \<in> {A_Ready, A_ReadyMore} \<longrightarrow> ps_result s \<noteq> None) \<and>
      (ps_saved_result s \<noteq> None \<longrightarrow> ps_result s \<noteq> None))"

definition inv_off :: "pipeline_state \<Rightarrow> bool" where
  "inv_off s =
     (ps_pipeline s = P_Off \<longrightarrow>
        ps_status s \<noteq> A_PipelineIdle \<and> length (ps_queue s) \<le> 1 \<and> queue_head s \<noteq> Some Q_Sync)"

definition inv_queue :: "pipeline_state \<Rightarrow> bool" where
  "inv_queue s =
     ((ps_status s = A_Idle \<longrightarrow> ps_queue s = []) \<and>
      (ps_pipeline s \<noteq> P_Off \<longrightarrow> Q_Simple \<notin> set (queue_classes s)) \<and>
      (ps_pipeline s \<noteq> P_Off \<and> ps_status s \<notin> {A_Idle, A_PipelineIdle} \<longrightarrow> ps_queue s \<noteq> []))"

definition inv_aborted :: "pipeline_state \<Rightarrow> bool" where
  "inv_aborted s =
     (ps_pipeline s = P_Aborted \<and> ps_status s \<notin> {A_Idle, A_PipelineIdle, A_Ready} \<longrightarrow>
        queue_head s = Some Q_Sync)"

definition inv_mode :: "pipeline_state \<Rightarrow> bool" where
  "inv_mode s = (ps_row_mode s \<noteq> RM_Chunked 0)"

definition ps_inv :: "pipeline_state \<Rightarrow> bool" where
  "ps_inv s = (inv_results s \<and> inv_off s \<and> inv_queue s \<and> inv_aborted s \<and> inv_mode s)"

lemmas ps_inv_defs =
  ps_inv_def inv_results_def inv_off_def inv_queue_def inv_aborted_def inv_mode_def
  queue_classes_def queue_head_def

lemma inv_new: "ps_inv PipelineState_new"
  by (simp add: ps_inv_defs PipelineState_new_def)

lemma inv_begin_send: "ps_inv s \<Longrightarrow> ps_inv (snd (begin_send c s))"
  by (auto simp: begin_send_def clear_async_result_def Let_def ps_inv_defs)

lemma inv_enter: "ps_inv s \<Longrightarrow> ps_inv (snd (enter_pipeline_mode s))"
  by (auto simp: enter_pipeline_mode_def ps_inv_defs)

lemma inv_leave: "ps_inv s \<Longrightarrow> ps_inv (snd (exit_pipeline_mode s))"
  by (auto simp: exit_pipeline_mode_def ps_inv_defs is_copy_def)

lemma inv_modes:
  "ps_inv s \<Longrightarrow> ps_inv (snd (set_single_row_mode s))"
  "ps_inv s \<Longrightarrow> ps_inv (snd (set_chunked_rows_mode n s))"
  by (auto simp: set_single_row_mode_def set_chunked_rows_mode_def ps_inv_defs)

lemma inv_admit: "ps_inv s \<Longrightarrow> ps_inv (snd (admit mid s))"
  by (auto simp: admit_def second_row_description_def ps_inv_defs split: option.splits)

text \<open>Moves of the status alone: between the states that wait for the server or the client, and
  from one of them to a ready state once there is a result.\<close>

definition waiting :: "async_status \<Rightarrow> bool" where
  "waiting st = (st = A_Busy \<or> is_copy st)"

lemma waiting_simps [simp]:
  "waiting A_Busy" "waiting A_CopyIn" "waiting A_CopyOut" "waiting A_CopyBoth"
  by (simp_all add: waiting_def is_copy_def)

lemma waiting_cases:
  "waiting st \<longleftrightarrow> st \<notin> {A_Idle, A_PipelineIdle, A_Ready, A_ReadyMore}"
  by (cases st) (simp_all add: waiting_def is_copy_def)

lemma inv_to_waiting:
  assumes "ps_inv s" and "waiting (ps_status s)" and "waiting st"
  shows "ps_inv (s\<lparr> ps_status := st \<rparr>)"
proof -
  have "inv_results (s\<lparr> ps_status := st \<rparr>)" "inv_off (s\<lparr> ps_status := st \<rparr>)"
    "inv_queue (s\<lparr> ps_status := st \<rparr>)" "inv_aborted (s\<lparr> ps_status := st \<rparr>)"
    "inv_mode (s\<lparr> ps_status := st \<rparr>)"
    using assms unfolding ps_inv_def waiting_cases
    by (auto simp: inv_results_def inv_off_def inv_queue_def inv_aborted_def inv_mode_def
        queue_head_def queue_classes_def)
  then show ?thesis
    by (simp add: ps_inv_def)
qed

lemma inv_copy:
  "ps_inv s \<Longrightarrow> ps_inv (snd (put_copy_end s))"
  "ps_inv s \<Longrightarrow> begin_get_copy s = Ok () \<Longrightarrow> ps_inv (snd (copy_message mid s))"
  "ps_inv s \<Longrightarrow> ps_inv (abandon_copy_out s)"
proof -
  show "ps_inv s \<Longrightarrow> ps_inv (snd (put_copy_end s))"
    by (auto simp: put_copy_end_def begin_put_copy_def intro!: inv_to_waiting)
  show "ps_inv s \<Longrightarrow> begin_get_copy s = Ok () \<Longrightarrow> ps_inv (snd (copy_message mid s))"
    by (auto simp: copy_message_def begin_get_copy_def intro!: inv_to_waiting split: if_splits)
  show "ps_inv s \<Longrightarrow> ps_inv (abandon_copy_out s)"
    by (auto simp: abandon_copy_out_def intro!: inv_to_waiting)
qed

lemma ps_inv_idle: "ps_inv s \<Longrightarrow> ps_status s = A_Idle \<Longrightarrow> ps_queue s = []"
  by (simp add: ps_inv_def inv_queue_def)

lemma begin_send_Ok:
  assumes "begin_send c s = (Ok (), s')"
  shows "ps_pipeline s' = ps_pipeline s" "ps_queue s' = ps_queue s" "ps_status s' = ps_status s"
    and "ps_pipeline s = P_Off \<Longrightarrow> ps_status s = A_Idle"
    and "ps_pipeline s \<noteq> P_Off \<Longrightarrow> c \<noteq> Q_Simple"
    and "ps_pipeline s \<noteq> P_Off \<Longrightarrow> \<not> is_copy (ps_status s)"
  using assms
  by (auto simp: begin_send_def Let_def clear_async_result_def split: if_splits)

text \<open>Appending a command keeps the invariant when the state is idle and empty or in pipeline
  mode outside COPY.\<close>

lemma inv_append_command:
  assumes "ps_inv s" and "ps_pipeline s = P_Off \<Longrightarrow> ps_status s = A_Idle \<and> c \<noteq> Q_Sync"
    and "ps_pipeline s \<noteq> P_Off \<Longrightarrow> c \<noteq> Q_Simple \<and> \<not> is_copy (ps_status s)"
  shows "ps_inv (append_command c q s)"
proof (cases "ps_pipeline s")
  case P_Off
  then have "ps_status s = A_Idle" "ps_queue s = []" "c \<noteq> Q_Sync"
    using assms ps_inv_idle by blast+
  then show ?thesis
    using P_Off assms(1) by (simp add: append_command_def ps_inv_defs)
next
  case P_On
  then show ?thesis
    using assms
    by (cases "ps_status s"; cases "ps_queue s")
      (simp_all add: append_command_def ps_inv_defs is_copy_def)
next
  case P_Aborted
  then have c: "c \<noteq> Q_Simple" "\<not> is_copy (ps_status s)"
    using assms by simp_all
  show ?thesis
  proof (cases "ps_status s \<in> {A_Idle, A_PipelineIdle}")
    case True
    then show ?thesis
      using P_Aborted c assms(1)
      by (cases "ps_queue s")
        (auto simp: append_command_def process_queue_def clear_async_result_def Let_def ps_inv_defs)
  next
    case False
    then show ?thesis
      using P_Aborted c assms(1)
      by (cases "ps_queue s") (auto simp: append_command_def ps_inv_defs is_copy_def)
  qed
qed

lemma inv_send:
  assumes "ps_inv s" and b: "begin_send c s = (Ok (), s')" and "c \<noteq> Q_Sync"
  shows "ps_inv (append_command c q s')"
proof -
  have "ps_inv s'"
    using inv_begin_send [OF assms(1), of c] b by simp
  then show ?thesis
    using begin_send_Ok [OF b] assms(3) by (intro inv_append_command) auto
qed

lemma inv_pipeline_sync:
  "ps_inv s \<Longrightarrow> begin_pipeline_sync s = Ok () \<Longrightarrow> ps_inv (ps_append Q_Sync s)"
  unfolding ps_append_def
  by (rule inv_append_command) (auto simp: begin_pipeline_sync_def split: if_splits)

lemma inv_set_result: "ps_inv s \<Longrightarrow> ps_inv (s\<lparr> ps_result := Some r \<rparr>)"
  by (simp add: ps_inv_defs)

lemma inv_to_ready:
  assumes "ps_inv s" and "waiting (ps_status s)" and "ps_result s \<noteq> None"
    and "st = A_Ready \<or> st = A_ReadyMore"
  shows "ps_inv (s\<lparr> ps_status := st \<rparr>)"
proof -
  have "inv_results (s\<lparr> ps_status := st \<rparr>)" "inv_off (s\<lparr> ps_status := st \<rparr>)"
    "inv_queue (s\<lparr> ps_status := st \<rparr>)" "inv_aborted (s\<lparr> ps_status := st \<rparr>)"
    "inv_mode (s\<lparr> ps_status := st \<rparr>)"
    using assms unfolding ps_inv_def waiting_cases
    by (auto simp: inv_results_def inv_off_def inv_queue_def inv_aborted_def inv_mode_def
        queue_head_def queue_classes_def)
  then show ?thesis
    by (simp add: ps_inv_def)
qed

lemma inv_finish:
  "ps_inv s \<Longrightarrow> ps_status s = A_Busy \<Longrightarrow> ps_inv ((update_result st f s)\<lparr> ps_status := A_Ready \<rparr>)"
  by (rule inv_to_ready) (simp_all add: update_result_def inv_set_result)

lemma inv_apply_error:
  assumes "ps_inv s" and "ps_status s = A_Busy"
  shows "ps_inv (apply_error e s)"
  using assms
  by (cases "ps_pipeline s"; cases "ps_queue s")
    (simp_all add: apply_error_def clear_async_result_def ps_inv_defs)

lemma inv_apply_ready_for_query:
  assumes "ps_inv s" and "ps_status s = A_Busy"
  shows "ps_inv (apply_ready_for_query s)"
proof (cases "ps_pipeline s = P_Off")
  case True
  then have "ps_queue s = [] \<or> (\<exists>e. ps_queue s = [e] \<and> ce_class e \<noteq> Q_Sync)"
    using assms by (cases "ps_queue s") (auto simp: ps_inv_def inv_off_def queue_head_def)
  then show ?thesis
    using True assms(1)
    by (auto simp: apply_ready_for_query_def advance_def queue_head_def ps_inv_defs)
next
  case False
  then show ?thesis
    using assms
    by (cases "ps_queue s") (simp_all add: apply_ready_for_query_def ps_inv_defs)
qed

lemma inv_apply_row_description:
  "ps_inv s \<Longrightarrow> ps_status s = A_Busy \<Longrightarrow> ps_inv (apply_row_description fs s)"
  by (simp add: apply_row_description_def inv_finish inv_set_result)

lemma inv_copy_start:
  "ps_inv s \<Longrightarrow> ps_status s = A_Busy \<Longrightarrow> ps_inv (copy_start st f s)"
  using inv_to_waiting [of "s\<lparr> ps_result := Some (QueryResult_copy st f) \<rparr>"]
  by (simp add: copy_start_def inv_set_result)

lemma inv_data_row:
  assumes "ps_inv s" and "ps_status s = A_Busy"
  shows "ps_inv (snd (data_row v s))"
proof (cases "ps_result s")
  case None
  then show ?thesis
    using assms by (simp add: data_row_def)
next
  case (Some r)
  let ?s1 = "s\<lparr> ps_saved_result := Some r, ps_result := Some (partial_result s r) \<rparr>"
  have s1: "ps_inv ?s1"
    using assms(1) by (simp add: ps_inv_defs)
  have more: "ps_inv (t\<lparr> ps_result := Some r2, ps_status := A_ReadyMore \<rparr>)"
    if "ps_inv t" "ps_status t = A_Busy" for t r2
    using inv_to_ready [of "t\<lparr> ps_result := Some r2 \<rparr>" A_ReadyMore] that
    by (simp add: inv_set_result)
  show ?thesis
    using assms s1 Some more [OF s1] more [OF assms(1)] inv_set_result [OF s1]
      inv_set_result [OF assms(1)]
    by (simp add: data_row_def Let_def split: option.split)
qed

lemma inv_apply_busy:
  "ps_inv s \<Longrightarrow> ps_status s = A_Busy \<Longrightarrow> ps_inv (snd (apply_busy m s))"
  by (cases m)
    (simp_all add: inv_finish inv_apply_error inv_apply_ready_for_query inv_apply_row_description
      inv_set_result inv_copy_start inv_data_row command_ok_ready_def split: prod.split,
     use inv_data_row [of s] in \<open>metis snd_conv\<close>)


lemma inv_save_parameter: "ps_inv s \<Longrightarrow> ps_inv (save_parameter_status s name v)"
  by (simp add: save_parameter_status_def ps_inv_defs)

lemma inv_save_message: "ps_inv s \<Longrightarrow> ps_inv (save_message m s)"
  by (cases m) (simp_all add: save_message_def save_parameter_status_def ps_inv_defs)

lemma save_message_sel [simp]:
  "ps_status (save_message m s) = ps_status s"
  "ps_pipeline (save_message m s) = ps_pipeline s"
  "ps_queue (save_message m s) = ps_queue s"
  "ps_result (save_message m s) = ps_result s"
  "ps_saved_result (save_message m s) = ps_saved_result s"
  "ps_row_mode (save_message m s) = ps_row_mode s"
  by (cases m; simp add: save_message_def save_parameter_status_def)+

text \<open>\<open>ps_apply\<close> either only saves a parameter or runs the switch of the busy state; an
  asynchronous message never reaches the switch, whatever the state.\<close>

lemma ps_apply_state:
  "snd (ps_apply m s) = save_message m s \<or>
   ps_status s \<noteq> A_Idle \<and>
   snd (ps_apply m s) = snd (apply_busy (stamp_message s m) (save_message m s))"
  by (cases m) (simp_all add: ps_apply_def Let_def stamp_message_def)

lemma ps_apply_async:
  "message_id m \<in> set (bstr ''ANS'') \<Longrightarrow> snd (ps_apply m s) = save_message m s"
  by (cases m) (simp_all add: ps_apply_def Let_def stamp_message_def)

lemma admit_Process:
  assumes "admit mid s = (Process, s')"
  shows "s' = s" and "ps_status s \<noteq> A_Idle \<Longrightarrow> mid \<notin> set (bstr ''ANS'') \<Longrightarrow> ps_status s = A_Busy"
  using assms by (auto simp: admit_def split: if_splits)

lemma inv_ps_apply:
  assumes "ps_inv s" and a: "admit (message_id m) s = (Process, s')"
  shows "ps_inv (snd (ps_apply m s'))"
proof (cases "message_id m \<in> set (bstr ''ANS'')")
  case True
  then show ?thesis
    using assms(1) admit_Process(1) [OF a] by (simp only: ps_apply_async inv_save_message)
next
  case False
  then show ?thesis
    using assms(1) admit_Process [OF a] ps_apply_state [of m s]
    by (metis inv_apply_busy inv_save_message save_message_sel(1))
qed

lemma inv_process_queue:
  assumes "ps_inv s" and "ps_status s = A_PipelineIdle"
  shows "ps_inv (process_queue s)"
  using assms
  by (cases "ps_queue s"; cases "ps_pipeline s")
    (simp_all add: process_queue_idle ps_inv_defs)

lemma inv_next_ready:
  assumes "ps_inv s" and "ps_status s = A_Ready"
  shows "ps_inv (snd (next_ready s))"
proof (cases "ps_saved_result s")
  case (Some r)
  then show ?thesis
    using assms by (simp add: next_ready_def prepare_async_result_def ps_inv_defs)
next
  case None
  define r where "r = fst (prepare_async_result s)"
  let ?t = "advance False (qr_status r = PipelineSync) (s\<lparr> ps_result := None \<rparr>)"
  have p: "prepare_async_result s = (r, s\<lparr> ps_result := None \<rparr>)"
    using None by (simp add: r_def prepare_async_result_def)
  have q: "ps_queue ?t = ps_queue s \<or> ps_queue ?t = tl (ps_queue s)"
    by (simp add: advance_def split: option.split)
  have off: "ps_inv (?t\<lparr> ps_status := A_Busy \<rparr>)" if "ps_pipeline s = P_Off"
    using q that assms None by (cases "ps_queue s") (auto simp: ps_inv_defs)
  have on: "ps_inv (?t\<lparr> ps_status := A_PipelineIdle \<rparr>)" if "ps_pipeline s \<noteq> P_Off"
    using q that assms None by (cases "ps_queue s") (auto simp: ps_inv_defs)
  show ?thesis
    unfolding next_ready_def p
    using off on inv_process_queue by (auto simp: Let_def None)
qed

lemma inv_next_result:
  assumes "ps_inv s"
  shows "ps_inv (snd (next_result s))"
proof (cases "ps_status s")
  case A_PipelineIdle
  then show ?thesis
    using assms inv_process_queue by (simp add: next_result_def)
next
  case A_Ready
  then show ?thesis
    using assms inv_next_ready by (simp add: next_result_def)
next
  case A_ReadyMore
  then show ?thesis
    using assms
    by (cases "ps_pipeline s"; cases "ps_queue s")
      (simp_all add: next_result_def prepare_async_result_def ps_inv_defs)
qed (use assms in \<open>auto simp: next_result_def copy_result_def prepare_async_result_def ps_inv_defs\<close>)

interpretation pipeline: machine ps_init ps_step ps_inv
proof unfold_locales
  fix s
  show "ps_init s \<Longrightarrow> ps_inv s"
    by (simp add: ps_init_def inv_new)
next
  fix s t
  assume "ps_inv s" and "ps_step s t"
  from this(2,1) show "ps_inv t"
  proof cases
    case (server_waits mid)
    then show ?thesis
      using \<open>ps_inv s\<close> inv_admit [of s mid] by simp
  next
    case (copy_async m)
    then show ?thesis
      using \<open>ps_inv s\<close> by (simp only: ps_apply_async inv_save_message)
  qed (auto intro: inv_send inv_begin_send inv_save_parameter inv_pipeline_sync inv_enter inv_leave inv_modes inv_ps_apply
        inv_next_result inv_copy)
qed

text \<open>C1: In every state that a client obeying the interface can reach, whatever the server sends:
  a ready state has a result to hand over (so the "no error text available" result is never made);
  a result is parked only behind another; outside pipeline mode at most one command is queued,
  never a bare Sync, and the state between two commands does not occur; an idle connection has an
  empty queue; in pipeline mode no simple query is queued and a state that waits has a command it
  waits for; and once an error has aborted the pipeline, the client waits for the server only with
  a Sync at the head of the queue.\<close>

theorem pipeline_reachable_invariant:
  assumes "reach ps_init ps_step s"
  shows "(ps_status s \<in> {A_Ready, A_ReadyMore} \<longrightarrow> ps_result s \<noteq> None) \<and>
         (ps_saved_result s \<noteq> None \<longrightarrow> ps_result s \<noteq> None) \<and>
         (ps_pipeline s = P_Off \<longrightarrow> ps_status s \<noteq> A_PipelineIdle \<and> length (ps_queue s) \<le> 1 \<and>
            queue_head s \<noteq> Some Q_Sync) \<and>
         (ps_status s = A_Idle \<longrightarrow> ps_queue s = []) \<and>
         (ps_pipeline s \<noteq> P_Off \<longrightarrow> Q_Simple \<notin> set (queue_classes s) \<and>
            (ps_status s \<notin> {A_Idle, A_PipelineIdle} \<longrightarrow> ps_queue s \<noteq> [])) \<and>
         (ps_pipeline s = P_Aborted \<and> ps_status s \<notin> {A_Idle, A_PipelineIdle, A_Ready} \<longrightarrow>
            queue_head s = Some Q_Sync)"
  using pipeline.reach_inv [OF assms]
  by (simp add: ps_inv_def inv_results_def inv_off_def inv_queue_def inv_aborted_def)

theorem pipeline_reachable_invariant_witness:
  "reach ps_init ps_step PipelineState_new \<and> ps_queue PipelineState_new = []"
proof -
  have "reach ps_init ps_step PipelineState_new"
    by (rule reach_init) (simp add: ps_init_def)
  then show ?thesis
    using pipeline_reachable_invariant [of PipelineState_new]
    by (simp add: PipelineState_new_def)
qed


section \<open>An aborted pipeline\<close>

primrec run_next :: "nat \<Rightarrow> pipeline_state \<Rightarrow> next_step list \<times> pipeline_state" where
  "run_next 0 s = ([], s)"
| "run_next (Suc n) s =
     (let (x, s') = next_result s; (xs, s'') = run_next n s' in (x # xs, s''))"

definition aborts :: "cmd_queue_entry list \<Rightarrow> bool" where
  "aborts cs = list_all (\<lambda>e. ce_class e \<noteq> Q_Sync \<and> ce_class e \<noteq> Q_Simple) cs"

definition aborted_report :: "'a list \<Rightarrow> next_step list" where
  "aborted_report cs =
     concat (map (\<lambda>_. [N_Null, N_Result (QueryResult_new PipelineAborted)]) cs) @ [N_Null]"

lemma run_next_aborted:
  assumes "ps_pipeline s = P_Aborted" and "ps_status s = A_PipelineIdle"
    and "ps_queue s = cs @ e # rest" and "aborts cs" and "ce_class e = Q_Sync"
  shows "run_next (2 * length cs + 1) s =
    (aborted_report cs,
     s\<lparr> ps_queue := e # rest, ps_status := A_Busy, ps_result := None, ps_saved_result := None,
        ps_row_mode := RM_All \<rparr>)"
  using assms
proof (induction cs arbitrary: s)
  case Nil
  then show ?case
    by (simp add: next_result_def process_queue_idle aborted_report_def)
next
  case (Cons c cs)
  let ?s1 = "s\<lparr> ps_row_mode := RM_All, ps_saved_result := None,
                 ps_result := Some (QueryResult_new PipelineAborted), ps_status := A_Ready \<rparr>"
  let ?s2 = "s\<lparr> ps_row_mode := RM_All, ps_saved_result := None, ps_result := None,
                 ps_queue := cs @ e # rest, ps_status := A_PipelineIdle \<rparr>"
  have c: "ce_class c \<noteq> Q_Sync" "ce_class c \<noteq> Q_Simple"
    using Cons.prems(4) by (simp_all add: aborts_def)
  have 1: "next_result s = (N_Null, ?s1)"
    using Cons.prems c by (simp add: next_result_def process_queue_idle)
  have 2: "next_result ?s1 = (N_Result (QueryResult_new PipelineAborted), ?s2)"
    using Cons.prems c
    by (simp add: next_result_def next_ready_def prepare_async_result_def advance_def queue_head_def)
  have 3: "run_next (2 * length cs + 1) ?s2 = (aborted_report cs, s\<lparr> ps_queue := e # rest,
      ps_status := A_Busy, ps_result := None, ps_saved_result := None, ps_row_mode := RM_All \<rparr>)"
    using Cons.IH [of ?s2] Cons.prems by (simp add: aborts_def)
  have "2 * length (c # cs) + 1 = Suc (Suc (2 * length cs + 1))"
    by simp
  then show ?case
    by (simp only: run_next.simps 1 2 3 Let_def prod.case) (simp add: aborted_report_def)
qed

lemma apply_error_Busy:
  "ps_status s = A_Busy \<Longrightarrow>
   ps_apply (ErrorResponse err) s = (Ok None, apply_error (stamp s err) s)"
  by (simp add: ps_apply_def stamp_message_def save_message_def)

lemma apply_ready_Busy:
  "ps_status s = A_Busy \<Longrightarrow>
   ps_apply (ReadyForQuery x) s = (Ok (Some (Ev_ReadyForQuery x)), apply_ready_for_query s)"
  by (simp add: ps_apply_def stamp_message_def save_message_def)

text \<open>C2: What an aborted pipeline reports. Let a pipeline command be running with further commands
  \<open>cs\<close> queued before a Sync, and let the server send an error. Then, without anything more from the
  server, \<open>PQgetResult\<close> returns the error (with the query and the encoding stamped on it), and for
  each command of \<open>cs\<close>, in order, a NULL and one PGRES_PIPELINE_ABORTED result; then it waits, with
  the Sync at the head. The server's ReadyForQuery then gives exactly one PGRES_PIPELINE_SYNC, puts
  the pipeline back on, and goes on with the commands behind the Sync, or to idle if there are
  none.\<close>

theorem aborted_pipeline_report:
  assumes "ps_status s = A_Busy" and "ps_pipeline s \<noteq> P_Off"
    and "ps_queue s = c # cs @ e # rest" and "aborts (c # cs)" and "ce_class e = Q_Sync"
  shows "\<exists>t u. run_next (2 * length cs + 2) (snd (ps_apply (ErrorResponse err) s)) =
             (N_Result (with_error FatalError (stamp s err)) # aborted_report cs, t) \<and>
           ps_status t = A_Busy \<and> ps_pipeline t = P_Aborted \<and> ps_queue t = e # rest \<and>
           next_result (snd (ps_apply (ReadyForQuery x) t)) =
             (N_Result (QueryResult_new PipelineSync), u) \<and>
           ps_pipeline u = P_On \<and> ps_queue u = rest \<and>
           ps_status u = (if rest = [] then A_Idle else A_Busy)"
proof -
  let ?s1 = "snd (ps_apply (ErrorResponse err) s)"
  let ?s2 = "s\<lparr> ps_pipeline := P_Aborted, ps_result := None, ps_saved_result := None,
                 ps_queue := cs @ e # rest, ps_status := A_PipelineIdle \<rparr>"
  let ?t = "?s2\<lparr> ps_queue := e # rest, ps_status := A_Busy, ps_row_mode := RM_All \<rparr>"
  have c: "ce_class c \<noteq> Q_Sync" "ce_class c \<noteq> Q_Simple" and cs: "aborts cs"
    using assms(4) by (simp_all add: aborts_def)
  have 1: "next_result ?s1 = (N_Result (with_error FatalError (stamp s err)), ?s2)"
    using assms c
    by (simp add: apply_error_Busy apply_error_def clear_async_result_def next_result_def
        next_ready_def prepare_async_result_def advance_def queue_head_def)
  have 2: "run_next (2 * length cs + 1) ?s2 = (aborted_report cs, ?t)"
    using run_next_aborted [of ?s2 cs e rest] cs assms(5) by simp
  have 3: "run_next (2 * length cs + 2) ?s1 =
      (N_Result (with_error FatalError (stamp s err)) # aborted_report cs, ?t)"
  proof -
    have "2 * length cs + 2 = Suc (2 * length cs + 1)"
      by simp
    then show ?thesis
      by (simp only: run_next.simps 1 2 Let_def prod.case)
  qed
  have 4: "\<exists>u. next_result (snd (ps_apply (ReadyForQuery x) ?t)) =
             (N_Result (QueryResult_new PipelineSync), u) \<and>
           ps_pipeline u = P_On \<and> ps_queue u = rest \<and>
           ps_status u = (if rest = [] then A_Idle else A_Busy)"
    using assms(5)
    by (simp add: apply_ready_Busy apply_ready_for_query_def next_result_def next_ready_def
        prepare_async_result_def advance_def queue_head_def process_queue_idle split: list.split)
  have "ps_status ?t = A_Busy \<and> ps_pipeline ?t = P_Aborted \<and> ps_queue ?t = e # rest"
    by simp
  then show ?thesis
    using 3 4 by blast
qed

theorem aborted_pipeline_report_witness:
  "\<exists>t. run_next 4 (snd (ps_apply (ErrorResponse (ResultError_new []))
        \<lparr> ps_status = A_Busy, ps_pipeline = P_On,
          ps_queue = [\<lparr> ce_class = Q_Extended, ce_query = None \<rparr>,
                      \<lparr> ce_class = Q_Prepare, ce_query = None \<rparr>,
                      \<lparr> ce_class = Q_Sync, ce_query = None \<rparr>],
          ps_client_encoding = Utf8, ps_result = None, ps_saved_result = None,
          ps_row_mode = RM_All \<rparr>)) =
      ([N_Result (with_error FatalError (with_client_encoding (ResultError_new []) Utf8)), N_Null,
        N_Result (QueryResult_new PipelineAborted), N_Null], t)"
  using aborted_pipeline_report
    [of "\<lparr> ps_status = A_Busy, ps_pipeline = P_On,
          ps_queue = [\<lparr> ce_class = Q_Extended, ce_query = None \<rparr>,
                      \<lparr> ce_class = Q_Prepare, ce_query = None \<rparr>,
                      \<lparr> ce_class = Q_Sync, ce_query = None \<rparr>],
          ps_client_encoding = Utf8, ps_result = None, ps_saved_result = None,
          ps_row_mode = RM_All \<rparr>"
      "\<lparr> ce_class = Q_Extended, ce_query = None \<rparr>" "[\<lparr> ce_class = Q_Prepare, ce_query = None \<rparr>]"
      "\<lparr> ce_class = Q_Sync, ce_query = None \<rparr>" "[]" "ResultError_new []" Idle]
  by (auto simp: aborts_def aborted_report_def stamp_def with_client_encoding_def numeral_eq_Suc
      simp del: run_next.simps)


section \<open>A runner always returns\<close>

lemma next_result_off:
  assumes "ps_pipeline s = P_Off" and "ps_status s \<in> {A_Ready, A_ReadyMore}"
  shows "ps_pipeline (snd (next_result s)) = P_Off" "ps_status (snd (next_result s)) \<in> {A_Ready, A_Busy}"
  using assms
  by (cases "ps_saved_result s";
      force simp: next_result_def next_ready_def prepare_async_result_def Let_def)+

lemma collect_ready_stops: "ps_status (qu_state (collect_ready q)) \<notin> {A_Ready, A_ReadyMore}"
proof (induction q rule: collect_ready.induct)
  case (1 q)
  then show ?case
    by (cases "ps_status (qu_state q) \<in> {A_Ready, A_ReadyMore}")
      (simp_all add: collect_ready.simps [of q])
qed

lemma collect_ready_off:
  assumes "ps_pipeline (qu_state q) = P_Off"
  shows "ps_pipeline (qu_state (collect_ready q)) = P_Off \<and>
    ps_status (qu_state (collect_ready q)) =
      (if ps_status (qu_state q) \<in> {A_Ready, A_ReadyMore} then A_Busy else ps_status (qu_state q))"
  using assms
proof (induction q rule: collect_ready.induct)
  case (1 q)
  show ?case
  proof (cases "ps_status (qu_state q) \<in> {A_Ready, A_ReadyMore}")
    case True
    then show ?thesis
      using 1 next_result_off [of "qu_state q"] by (auto simp: collect_ready.simps [of q])
  next
    case False
    then show ?thesis
      using 1 by (simp add: collect_ready.simps [of q])
  qed
qed

lemma collect_off:
  assumes "ps_pipeline (qu_state q) = P_Off"
  shows "ps_pipeline (qu_state (collect q)) = P_Off \<and>
    ps_status (qu_state (collect q)) =
      (if ps_status (qu_state q) \<in> {A_Ready, A_ReadyMore} then A_Busy else ps_status (qu_state q))"
  using collect_ready_off [OF assms]
  by (auto simp: collect_def Let_def is_copy_def next_result_def copy_result_def
      prepare_async_result_def)

lemma collect_ready_result:
  assumes "ps_pipeline (qu_state q) = P_Off" and "ps_status (qu_state q) = A_Ready"
  shows "ps_result (qu_state (collect q)) = None"
proof -
  have one: "ps_result (qu_state (collect_ready q)) = None"
    if "ps_saved_result (qu_state q) = None" "ps_pipeline (qu_state q) = P_Off"
      "ps_status (qu_state q) = A_Ready" for q
    using that
    by (simp add: collect_ready.simps [of q] collect_ready.simps [of "take_result q"]
        next_result_def next_ready_def prepare_async_result_def Let_def)
  have "ps_result (qu_state (collect_ready q)) = None"
  proof (cases "ps_saved_result (qu_state q)")
    case None
    then show ?thesis
      using one assms by blast
  next
    case (Some r)
    then have t: "snd (next_result (qu_state q)) =
        (qu_state q)\<lparr> ps_result := Some r, ps_saved_result := None \<rparr>"
      using assms by (simp add: next_result_def next_ready_def prepare_async_result_def)
    then show ?thesis
      using one [of "take_result q"] assms by (simp add: collect_ready.simps [of q])
  qed
  moreover have "collect q = collect_ready q"
    using collect_ready_off [OF assms(1)] assms(2) by (simp add: collect_def is_copy_def)
  ultimately show ?thesis
    by simp
qed

lemma push_wait_fresh:
  assumes "ps_status (qu_state q) = A_Busy" and "ps_result (qu_state q) = None"
  shows "push_wait mid q = Some (Inr q)"
  using assms
  by (subst push_wait.simps) (simp add: admit_def second_row_description_def)

lemma push_wait_busy:
  assumes "ps_pipeline (qu_state q) = P_Off" and "ps_status (qu_state q) = A_Busy"
  shows "\<exists>q'. push_wait mid q = Some (Inr q') \<and> ps_pipeline (qu_state q') = P_Off \<and>
    ps_status (qu_state q') = A_Busy"
proof (cases "mid = chb CHR ''T'' \<and> second_row_description (qu_state q)")
  case True
  let ?q = "q\<lparr> qu_state := (qu_state q)\<lparr> ps_status := A_Ready \<rparr> \<rparr>"
  have "ps_result (qu_state (collect ?q)) = None"
    by (rule collect_ready_result) (simp_all add: assms)
  moreover have "ps_pipeline (qu_state (collect ?q)) = P_Off" "ps_status (qu_state (collect ?q)) = A_Busy"
    using collect_off [of ?q] assms by simp_all
  ultimately show ?thesis
    using True assms
    by (subst push_wait.simps) (simp add: admit_def is_copy_def push_wait_fresh)
next
  case False
  then show ?thesis
    using assms by (subst push_wait.simps) (auto simp: admit_def)
qed

definition runner_ok :: "query_runner \<Rightarrow> bool" where
  "runner_ok q = (ps_pipeline (qu_state q) = P_Off \<and>
     (ps_status (qu_state q) = A_Idle \<or> waiting (ps_status (qu_state q))))"

lemma push_wait_returns:
  assumes "runner_ok q"
  shows "(\<exists>q'. push_wait mid q = Some (Inr q') \<and> runner_ok q') \<or> push_wait mid q = Some (Inl q)"
proof (cases "ps_status (qu_state q) = A_Busy")
  case True
  then show ?thesis
    using assms push_wait_busy [of q mid] by (auto simp: runner_ok_def)
next
  case False
  then show ?thesis
    using assms
    by (subst (1 2) push_wait.simps) (auto simp: runner_ok_def waiting_def admit_def is_copy_def)
qed

lemma apply_busy_off:
  assumes "ps_pipeline s = P_Off"
  shows "ps_pipeline (snd (apply_busy m s)) = P_Off"
  using assms
  by (cases m)
    (auto simp: update_result_def apply_error_def clear_async_result_def apply_ready_for_query_def
      command_ok_ready_def apply_row_description_def data_row_def copy_start_def Let_def
      split: option.splits)

lemma apply_busy_status:
  assumes "ps_status s = A_Busy"
  shows "ps_status (snd (apply_busy m s)) \<noteq> A_PipelineIdle"
    and "fst (apply_busy m s) = Err e \<Longrightarrow> ps_status (snd (apply_busy m s)) = A_Busy"
  using assms
  by (cases m;
      auto simp: update_result_def apply_error_def clear_async_result_def apply_ready_for_query_def
      command_ok_ready_def apply_row_description_def data_row_def copy_start_def Let_def
      split: option.splits)+


lemma ps_apply_off: "ps_pipeline s = P_Off \<Longrightarrow> ps_pipeline (snd (ps_apply m s)) = P_Off"
  using ps_apply_state [of m s] apply_busy_off [of "save_message m s" "stamp_message s m"]
  by auto

lemma ps_apply_busy_eq:
  assumes "ps_status s = A_Busy" and "message_id m \<notin> set (bstr ''ANS'')"
  shows "ps_apply m s = apply_busy (stamp_message s m) (save_message m s)"
  using assms by (cases m) (simp_all add: ps_apply_def Let_def stamp_message_def)

lemma ps_apply_status:
  assumes "ps_status s = A_Idle \<or> ps_status s = A_Busy \<or> message_id m \<in> set (bstr ''ANS'')"
    and "ps_status s \<noteq> A_PipelineIdle"
  shows "ps_status (snd (ps_apply m s)) \<noteq> A_PipelineIdle"
    and "fst (ps_apply m s) = Err e \<Longrightarrow> ps_status (snd (ps_apply m s)) = ps_status s"
proof (atomize (full), cases "message_id m \<in> set (bstr ''ANS'') \<or> ps_status s \<noteq> A_Busy")
  case True
  then have "snd (ps_apply m s) = save_message m s"
    using assms(1) ps_apply_state [of m s] ps_apply_async by metis
  then show "ps_status (snd (ps_apply m s)) \<noteq> A_PipelineIdle \<and>
      (fst (ps_apply m s) = Err e \<longrightarrow> ps_status (snd (ps_apply m s)) = ps_status s)"
    using assms(2) by simp
next
  case False
  then have b: "ps_status (save_message m s) = A_Busy"
    and eq: "ps_apply m s = apply_busy (stamp_message s m) (save_message m s)"
    using ps_apply_busy_eq [of s m] by simp_all
  show "ps_status (snd (ps_apply m s)) \<noteq> A_PipelineIdle \<and>
      (fst (ps_apply m s) = Err e \<longrightarrow> ps_status (snd (ps_apply m s)) = ps_status s)"
    unfolding eq using apply_busy_status [OF b] b by simp
qed

lemma record_event_state [simp]: "qu_state (record_event ev q) = qu_state q"
  by (cases "(ev, q)" rule: record_event.cases) simp_all

text \<open>A message is applied to a runner that is idle or busy, or in a COPY state when it is
  asynchronous.\<close>

lemma push_apply_ok:
  assumes "runner_ok q"
    and "ps_status (qu_state q) = A_Idle \<or> ps_status (qu_state q) = A_Busy \<or>
         message_id m \<in> set (bstr ''ANS'')"
  shows "runner_ok (snd (push_apply m q))"
proof -
  let ?s = "snd (ps_apply m (qu_state q))"
  have "ps_status (qu_state q) \<noteq> A_PipelineIdle"
    using assms(1) by (auto simp: runner_ok_def waiting_def is_copy_def)
  note st = ps_apply_status [OF assms(2) this]
  have off: "ps_pipeline ?s = P_Off"
    using assms(1) ps_apply_off by (simp add: runner_ok_def)
  show ?thesis
  proof (cases "fst (ps_apply m (qu_state q))")
    case (Err e)
    then show ?thesis
      using st(2) off assms(1)
      by (simp add: push_apply_def runner_ok_def split: prod.split result.split) force
  next
    case (Ok ev)
    let ?q = "record_event ev (q\<lparr> qu_state := ?s \<rparr>)"
    have "snd (push_apply m q) = collect ?q"
      using Ok by (cases "ps_apply m (qu_state q)") (simp add: push_apply_def Let_def)
    then show ?thesis
      using collect_off [of ?q] off st(1)
      by (auto simp: runner_ok_def waiting_cases)
  qed
qed

lemma push_wait_admitted:
  assumes "runner_ok q" and "push_wait mid q = Some (Inr q')"
  shows "runner_ok q' \<and> (ps_status (qu_state q') = A_Idle \<or> ps_status (qu_state q') = A_Busy \<or>
    mid \<in> set (bstr ''ANS''))"
proof (cases "ps_status (qu_state q) = A_Busy")
  case True
  then show ?thesis
    using assms push_wait_busy [of q mid] by (auto simp: runner_ok_def)
next
  case False
  then show ?thesis
    using assms
    by (subst (asm) push_wait.simps)
      (auto simp: runner_ok_def waiting_def admit_def is_copy_def split: if_splits)
qed

lemma push_returns:
  assumes "runner_ok q"
  shows "\<exists>r q'. push m q = Some (r, q') \<and> runner_ok q'"
  using push_wait_returns [OF assms, of "message_id m"]
proof
  assume "\<exists>q'. push_wait (message_id m) q = Some (Inr q') \<and> runner_ok q'"
  then obtain q' where q': "push_wait (message_id m) q = Some (Inr q')"
    by blast
  then have "runner_ok (snd (push_apply m q'))"
    using push_wait_admitted [OF assms q'] push_apply_ok by blast
  then show ?thesis
    using q' by (cases "push_apply m q'") (simp add: push_def)
next
  assume "push_wait (message_id m) q = Some (Inl q)"
  then show ?thesis
    using assms by (simp add: push_def)
qed

definition runner_init :: "query_runner \<Rightarrow> bool" where
  "runner_init q = (\<exists>c. q = for_class c)"

definition runner_step :: "query_runner \<Rightarrow> query_runner \<Rightarrow> bool" where
  "runner_step q q' = (\<exists>m r. push m q = Some (r, q'))"

interpretation runner: machine runner_init runner_step runner_ok
proof unfold_locales
  show "runner_init q \<Longrightarrow> runner_ok q" for q
    by (auto simp: runner_init_def for_class_def begin_send_def PipelineState_new_def ps_append_def
        append_command_def clear_async_result_def runner_ok_def Let_def)
  show "runner_ok q \<Longrightarrow> runner_step q q' \<Longrightarrow> runner_ok q'" for q q'
    unfolding runner_step_def using push_returns by (metis option.inject prod.inject)
qed

text \<open>C7: A query runner always returns. Whatever class of command it was made for and whatever
  messages it was given before, pushing any further message ends: the loop that collects results
  until the message is admitted does not run forever, and afterwards the runner is idle, busy or
  in a COPY, with every result that was ready taken.\<close>

theorem runner_push_returns:
  assumes "reach runner_init runner_step q"
  shows "\<exists>r q'. push m q = Some (r, q') \<and> reach runner_init runner_step q' \<and>
           ps_status (qu_state q') \<notin> {A_Ready, A_ReadyMore, A_PipelineIdle}"
proof -
  obtain r q' where q': "push m q = Some (r, q')" "runner_ok q'"
    using push_returns [OF runner.reach_inv [OF assms]] by blast
  then have "reach runner_init runner_step q'"
    using reach_step [OF assms] by (auto simp: runner_step_def)
  moreover have "ps_status (qu_state q') \<notin> {A_Ready, A_ReadyMore, A_PipelineIdle}"
    using q'(2) by (auto simp: runner_ok_def waiting_cases)
  ultimately show ?thesis
    using q'(1) by blast
qed

theorem runner_push_returns_witness:
  "\<exists>r q'. push (CommandComplete []) (for_class Q_Simple) = Some (r, q')"
proof -
  have "reach runner_init runner_step (for_class Q_Simple)"
    by (rule reach_init) (auto simp: runner_init_def)
  then show ?thesis
    using runner_push_returns [of "for_class Q_Simple" "CommandComplete []"] by blast
qed

section \<open>Rows are delivered once and in order\<close>

text \<open>Messages pushed one after the other, each accepted.\<close>

fun push_all :: "backend list \<Rightarrow> query_runner \<Rightarrow> query_runner option" where
  "push_all [] q = Some q"
| "push_all (m # ms) q =
     (case push m q of Some (Ok _, q') \<Rightarrow> push_all ms q' | _ \<Rightarrow> None)"

definition tuples_ok :: "field_description list \<Rightarrow> row list \<Rightarrow> query_result" where
  "tuples_ok fs rows = (set_fields (QueryResult_new TuplesOk) fs)\<lparr> qr_rows := rows \<rparr>"

definition tuples_part :: "row_mode \<Rightarrow> field_description list \<Rightarrow> row list \<Rightarrow> query_result" where
  "tuples_part m fs rows =
     (set_fields (QueryResult_new (if m = RM_Single then SingleTuple else TuplesChunk)) fs)
       \<lparr> qr_rows := rows \<rparr>"

text \<open>The runner while the rows of a command come in: \<open>rs\<close> are the results handed over since the
  command started, \<open>p\<close> the rows still held.\<close>

definition receiving ::
  "row_mode \<Rightarrow> field_description list \<Rightarrow> query_result list \<Rightarrow> row list \<Rightarrow> query_result list
   \<Rightarrow> query_runner \<Rightarrow> bool" where
  "receiving m fs rs p base q =
     (ps_status (qu_state q) = A_Busy \<and> ps_pipeline (qu_state q) = P_Off \<and>
      ps_row_mode (qu_state q) = m \<and> qu_results q = base @ rs \<and>
      (\<forall>r \<in> set rs. \<exists>rows n. r = tuples_part m fs rows \<and> chunk_size m = Some n \<and> length rows = n) \<and>
      (case chunk_size m of
         None \<Rightarrow> rs = [] \<and> ps_saved_result (qu_state q) = None \<and>
                 ps_result (qu_state q) = Some (tuples_ok fs p)
       | Some n \<Rightarrow> length p < n \<and>
           (if p = [] then ps_saved_result (qu_state q) = None \<and>
                           ps_result (qu_state q) = Some (tuples_ok fs [])
            else m \<noteq> RM_Single \<and> ps_saved_result (qu_state q) = Some (tuples_ok fs []) \<and>
                 ps_result (qu_state q) = Some (tuples_part m fs p))))"

lemma push_busy:
  assumes "ps_status (qu_state q) = A_Busy" and "message_id m \<noteq> chb CHR ''T''"
  shows "push m q = Some (push_apply m q)"
  using assms by (simp add: push_def push_wait.simps [of "message_id m" q] admit_def)

lemma collect_busy: "ps_status (qu_state q) = A_Busy \<Longrightarrow> collect q = q"
  by (simp add: collect_def collect_ready.simps [of q] is_copy_def)

lemma collect_step:
  "ps_status (qu_state q) \<in> {A_Ready, A_ReadyMore} \<Longrightarrow> collect q = collect (take_result q)"
  by (simp add: collect_def collect_ready.simps [of q])

lemma collect_ready_more:
  assumes "ps_status (qu_state q) = A_ReadyMore" and "ps_result (qu_state q) = Some r"
  shows "collect q = q\<lparr> qu_state := (qu_state q)\<lparr> ps_result := ps_saved_result (qu_state q),
    ps_saved_result := None, ps_status := A_Busy \<rparr>, qu_results := qu_results q @ [r] \<rparr>"
proof -
  have "take_result q = q\<lparr> qu_state := (qu_state q)\<lparr> ps_result := ps_saved_result (qu_state q),
    ps_saved_result := None, ps_status := A_Busy \<rparr>, qu_results := qu_results q @ [r] \<rparr>"
    using assms by (simp add: take_result_def next_result_def prepare_async_result_def)
  then show ?thesis
    using assms collect_step [of q] collect_busy [of "take_result q"] by simp
qed

lemma tuples_sel [simp]:
  "qr_status (tuples_ok fs p) = TuplesOk" "qr_fields (tuples_ok fs p) = fs"
  "qr_rows (tuples_ok fs p) = p" "push_row (tuples_ok fs p) v = tuples_ok fs (p @ [v])"
  "qr_status (tuples_part m fs p) = (if m = RM_Single then SingleTuple else TuplesChunk)"
  "qr_fields (tuples_part m fs p) = fs" "qr_rows (tuples_part m fs p) = p"
  "push_row (tuples_part m fs p) v = tuples_part m fs (p @ [v])"
  by (simp_all add: tuples_ok_def tuples_part_def push_row_def)

lemma partial_result_tuples: "partial_result s (tuples_ok fs p) = tuples_part (ps_row_mode s) fs []"
  by (simp add: partial_result_def tuples_part_def tuples_ok_def QueryResult_new_def set_fields_def)

lemma push_apply_DataRow:
  assumes "ps_status (qu_state q) = A_Busy" and "data_row v (qu_state q) = (Ok (), s')"
  shows "snd (push_apply (DataRow v) q) = collect (q\<lparr> qu_state := s' \<rparr>)"
    and "is_ok (fst (push_apply (DataRow v) q))"
  using assms
  by (simp_all add: push_apply_def ps_apply_def stamp_message_def save_message_def Let_def)


lemma push_DataRow:
  assumes b: "ps_status (qu_state q) = A_Busy" and d: "data_row v (qu_state q) = (Ok (), s')"
  shows "\<exists>f. push (DataRow v) q = Some (Ok f, collect (q\<lparr> qu_state := s' \<rparr>))"
  using push_apply_DataRow [OF assms] push_busy [OF b, of "DataRow v"]
  by (cases "push_apply (DataRow v) q"; cases "fst (push_apply (DataRow v) q)") auto

text \<open>One more row: it is kept, or completes a partial result that is handed over.\<close>

lemma receiving_row:
  assumes rcv: "receiving m fs rs p base q" and v: "length v = length fs"
  shows "\<exists>f q' rs' p'. push (DataRow v) q = Some (Ok f, q') \<and> receiving m fs rs' p' base q' \<and>
    concat (map qr_rows rs') @ p' = concat (map qr_rows rs) @ p @ [v]"
proof -
  let ?s = "qu_state q"
  have b: "ps_status ?s = A_Busy"
    using rcv by (simp add: receiving_def)
  show ?thesis
  proof (cases "chunk_size m")
    case None
    let ?s' = "?s\<lparr> ps_result := Some (tuples_ok fs (p @ [v])) \<rparr>"
    have "data_row v ?s = (Ok (), ?s')"
      using rcv v None by (simp add: receiving_def data_row_def nfields_def Let_def)
    from push_DataRow [OF b this]
    obtain f where "push (DataRow v) q = Some (Ok f, collect (q\<lparr> qu_state := ?s' \<rparr>))"
      by blast
    moreover have "receiving m fs rs (p @ [v]) base (q\<lparr> qu_state := ?s' \<rparr>)"
      using rcv None by (simp add: receiving_def)
    ultimately show ?thesis
      using b collect_busy [of "q\<lparr> qu_state := ?s' \<rparr>"] by fastforce
  next
    case (Some n)
    let ?t = "?s\<lparr> ps_saved_result := Some (tuples_ok fs []),
                  ps_result := Some (tuples_part m fs (p @ [v])) \<rparr>"
    let ?s' = "if length p + 1 \<ge> n then ?t\<lparr> ps_status := A_ReadyMore \<rparr> else ?t"
    have d: "data_row v ?s = (Ok (), ?s')"
      using rcv v Some
      by (cases "p = []")
        (auto simp: receiving_def data_row_def nfields_def ntuples_def Let_def
          partial_result_tuples)
    from push_DataRow [OF b d]
    obtain f where f: "push (DataRow v) q = Some (Ok f, collect (q\<lparr> qu_state := ?s' \<rparr>))"
      by blast
    show ?thesis
    proof (cases "length p + 1 \<ge> n")
      case True
      let ?q' = "q\<lparr> qu_state := ?s\<lparr> ps_result := Some (tuples_ok fs []), ps_saved_result := None,
                     ps_status := A_Busy \<rparr>, qu_results := qu_results q @ [tuples_part m fs (p @ [v])] \<rparr>"
      have "collect (q\<lparr> qu_state := ?s' \<rparr>) = ?q'"
        using True by (subst collect_ready_more [of _ "tuples_part m fs (p @ [v])"]) simp_all
      moreover have "receiving m fs (rs @ [tuples_part m fs (p @ [v])]) [] base ?q'"
        using rcv Some True by (auto simp: receiving_def)
      ultimately show ?thesis
        using f by fastforce
    next
      case False
      then have "receiving m fs rs (p @ [v]) base (q\<lparr> qu_state := ?t \<rparr>)"
        using rcv Some by (auto simp: receiving_def)
      moreover have "collect (q\<lparr> qu_state := ?t \<rparr>) = q\<lparr> qu_state := ?t \<rparr>"
        using b by (intro collect_busy) simp
      ultimately show ?thesis
        using f False by fastforce
    qed
  qed
qed

lemma receiving_rows:
  assumes "receiving m fs rs p base q" and "\<forall>v \<in> set rows. length v = length fs"
  shows "\<exists>q' rs' p'. push_all (map DataRow rows) q = Some q' \<and> receiving m fs rs' p' base q' \<and>
    concat (map qr_rows rs') @ p' = concat (map qr_rows rs) @ p @ rows"
  using assms
proof (induction rows arbitrary: rs p q)
  case Nil
  then show ?case
    by auto
next
  case (Cons v rows)
  from receiving_row [OF Cons.prems(1), of v] Cons.prems(2)
  obtain f q1 rs1 p1 where 1: "push (DataRow v) q = Some (Ok f, q1)" "receiving m fs rs1 p1 base q1"
      "concat (map qr_rows rs1) @ p1 = concat (map qr_rows rs) @ p @ [v]"
    by auto
  from Cons.IH [OF 1(2)] Cons.prems(2)
  obtain q' rs' p' where 2: "push_all (map DataRow rows) q1 = Some q'" "receiving m fs rs' p' base q'"
      "concat (map qr_rows rs') @ p' = concat (map qr_rows rs1) @ p1 @ rows"
    by auto
  have "concat (map qr_rows rs') @ p' = concat (map qr_rows rs) @ p @ v # rows"
    using 1(3) 2(3) by (metis append.assoc append_Cons append_Nil)
  then show ?case
    using 1(1) 2(1,2) by auto
qed


lemma push_all_append: "push_all (xs @ ys) q = Option.bind (push_all xs q) (push_all ys)"
  by (induction xs q rule: push_all.induct) (auto split: option.split result.split)

lemma receiving_start:
  assumes "ps_status (qu_state q) = A_Busy" and "ps_pipeline (qu_state q) = P_Off"
    and "ps_result (qu_state q) = None" and "ps_saved_result (qu_state q) = None"
    and "queue_head (qu_state q) \<noteq> Some Q_Describe" and "ps_row_mode (qu_state q) \<noteq> RM_Chunked 0"
  shows "\<exists>f q'. push (RowDescription fs) q = Some (Ok f, q') \<and>
    receiving (ps_row_mode (qu_state q)) fs [] [] (qu_results q) q'"
proof -
  let ?q' = "q\<lparr> qu_state := (qu_state q)\<lparr> ps_result := Some (tuples_ok fs []) \<rparr> \<rparr>"
  have t: "set_fields (QueryResult_new TuplesOk) fs = tuples_ok fs []"
    by (simp add: tuples_ok_def set_fields_def QueryResult_new_def)
  have "ps_apply (RowDescription fs) (qu_state q) =
      (Ok None, (qu_state q)\<lparr> ps_result := Some (tuples_ok fs []) \<rparr>)"
    using assms
    by (simp add: ps_apply_def stamp_message_def save_message_def apply_row_description_def t)
  then have "push (RowDescription fs) q = Some (Ok Continue, ?q')"
    using assms collect_busy [of ?q']
    by (simp add: push_def push_wait_fresh push_apply_def Let_def is_copy_def)
  moreover have "receiving (ps_row_mode (qu_state q)) fs [] [] (qu_results q) ?q'"
    using assms by (cases "ps_row_mode (qu_state q)") (simp_all add: receiving_def)
  ultimately show ?thesis
    by blast
qed

lemma take_result_ready:
  assumes "ps_status (qu_state q) = A_Ready" and "ps_result (qu_state q) = Some r"
    and "ps_pipeline (qu_state q) = P_Off"
  shows "qu_results (take_result q) = qu_results q @ [r]"
    and "ps_saved_result (qu_state (take_result q)) = None"
    and "ps_result (qu_state (take_result q)) = ps_saved_result (qu_state q)"
    and "ps_pipeline (qu_state (take_result q)) = P_Off"
    and "ps_status (qu_state (take_result q)) =
      (if ps_saved_result (qu_state q) = None then A_Busy else A_Ready)"
  using assms
  by (auto simp: take_result_def next_result_def next_ready_def prepare_async_result_def Let_def)

lemma collect_results:
  assumes "ps_status (qu_state q) = A_Ready" and "ps_result (qu_state q) = Some r"
    and "ps_pipeline (qu_state q) = P_Off"
  shows "qu_results (collect q) =
    qu_results q @ r # (case ps_saved_result (qu_state q) of None \<Rightarrow> [] | Some r' \<Rightarrow> [r'])"
proof (cases "ps_saved_result (qu_state q)")
  case None
  then show ?thesis
    using take_result_ready [OF assms] collect_step [of q] collect_busy [of "take_result q"] assms(1)
    by simp
next
  case (Some r')
  let ?q = "take_result q"
  have "collect q = collect (take_result ?q)"
    using take_result_ready [OF assms] Some assms(1) collect_step [of q] collect_step [of ?q] by simp
  moreover have "collect (take_result ?q) = take_result ?q"
    using take_result_ready [OF assms] Some take_result_ready [of ?q r'] collect_busy by simp
  ultimately show ?thesis
    using take_result_ready [OF assms] Some take_result_ready(1) [of ?q r'] by simp
qed

lemma receiving_end:
  assumes rcv: "receiving m fs rs p base q"
  shows "\<exists>f q'. push (CommandComplete tag) q = Some (Ok f, q') \<and>
    qu_results q' = base @ rs @
      (if chunk_size m \<noteq> None \<and> p \<noteq> []
       then [set_command_status (tuples_part m fs p) tag, tuples_ok fs []]
       else [set_command_status (tuples_ok fs p) tag])"
proof -
  have b: "ps_status (qu_state q) = A_Busy" and off: "ps_pipeline (qu_state q) = P_Off"
    and qr: "qu_results q = base @ rs"
    using rcv by (simp_all add: receiving_def)
  let ?s = "(update_result CommandOk (\<lambda>r. set_command_status r tag) (qu_state q))
              \<lparr> ps_status := A_Ready \<rparr>"
  have "ps_apply (CommandComplete tag) (qu_state q) = (Ok None, ?s)"
    using b by (simp add: ps_apply_def stamp_message_def save_message_def)
  then have "\<exists>f. push (CommandComplete tag) q = Some (Ok f, collect (q\<lparr> qu_state := ?s \<rparr>))"
    using b push_busy [of q "CommandComplete tag"] by (simp add: push_apply_def Let_def)
  moreover obtain r where "ps_result (qu_state q) = Some r"
    using rcv by (auto simp: receiving_def split: option.splits if_splits)
  then have "qu_results (collect (q\<lparr> qu_state := ?s \<rparr>)) = base @ rs @ set_command_status r tag #
      (case ps_saved_result (qu_state q) of None \<Rightarrow> [] | Some r' \<Rightarrow> [r'])"
    using off qr
    by (subst collect_results [of _ "set_command_status r tag"]) (simp_all add: update_result_def)
  moreover have "set_command_status r tag #
      (case ps_saved_result (qu_state q) of None \<Rightarrow> [] | Some r' \<Rightarrow> [r']) =
      (if chunk_size m \<noteq> None \<and> p \<noteq> []
       then [set_command_status (tuples_part m fs p) tag, tuples_ok fs []]
       else [set_command_status (tuples_ok fs p) tag])"
    using rcv \<open>ps_result (qu_state q) = Some r\<close>
    by (auto simp: receiving_def split: option.splits if_splits)
  ultimately show ?thesis
    by fastforce
qed


text \<open>C3: Rows are delivered exactly once and in order, in each row mode. A busy runner outside
  pipeline mode that receives a row description, any number of rows of that width and the end of
  the command hands over results whose rows, put together, are exactly the rows sent; every result
  has the columns announced; the last has status PGRES_TUPLES_OK. With all rows in one result it
  is the only one; in single-row mode each earlier result holds one row, in chunked mode between
  one row and the chunk size, and the last one holds none.\<close>

theorem rows_delivered_in_order:
  assumes "ps_status (qu_state q) = A_Busy" and "ps_pipeline (qu_state q) = P_Off"
    and "ps_result (qu_state q) = None" and "ps_saved_result (qu_state q) = None"
    and "queue_head (qu_state q) \<noteq> Some Q_Describe" and "ps_row_mode (qu_state q) \<noteq> RM_Chunked 0"
    and "\<forall>v \<in> set rows. length v = length fs"
  shows "\<exists>q' rs r.
    push_all (RowDescription fs # map DataRow rows @ [CommandComplete tag]) q = Some q' \<and>
    qu_results q' = qu_results q @ rs @ [r] \<and>
    concat (map qr_rows (rs @ [r])) = rows \<and> qr_status r = TuplesOk \<and>
    (\<forall>r \<in> set (rs @ [r]). qr_fields r = fs) \<and>
    (case chunk_size (ps_row_mode (qu_state q)) of
       None \<Rightarrow> rs = []
     | Some n \<Rightarrow> qr_rows r = [] \<and>
         (\<forall>r \<in> set rs. 1 \<le> length (qr_rows r) \<and> length (qr_rows r) \<le> n \<and>
            qr_status r = (if ps_row_mode (qu_state q) = RM_Single then SingleTuple else TuplesChunk)))"
proof -
  define m where "m = ps_row_mode (qu_state q)"
  obtain f q1 where 1: "push (RowDescription fs) q = Some (Ok f, q1)"
      "receiving m fs [] [] (qu_results q) q1"
    using receiving_start [OF assms(1-6), of fs] unfolding m_def by blast
  obtain q2 rs p where 2: "push_all (map DataRow rows) q1 = Some q2"
      "receiving m fs rs p (qu_results q) q2" "concat (map qr_rows rs) @ p = rows"
    using receiving_rows [OF 1(2) assms(7)] by auto
  define es where "es = (if chunk_size m \<noteq> None \<and> p \<noteq> []
       then [set_command_status (tuples_part m fs p) tag, tuples_ok fs []]
       else [set_command_status (tuples_ok fs p) tag])"
  obtain g q3 where 3: "push (CommandComplete tag) q2 = Some (Ok g, q3)"
      "qu_results q3 = qu_results q @ rs @ es"
    using receiving_end [OF 2(2), of tag] unfolding es_def by blast
  have run: "push_all (RowDescription fs # map DataRow rows @ [CommandComplete tag]) q = Some q3"
    using 1(1) 2(1) 3(1) by (simp add: push_all_append)
  have pos: "chunk_size m = Some n \<Longrightarrow> n > 0" for n
    using assms(6) by (cases m) (auto simp: m_def)
  have rs: "\<exists>rows. r = tuples_part m fs rows \<and> chunk_size m = Some (length rows)"
    if "r \<in> set rs" for r
    using 2(2) that by (fastforce simp: receiving_def)
  have p: "chunk_size m = Some n \<Longrightarrow> length p < n" "chunk_size m = None \<Longrightarrow> rs = []" for n
    using 2(2) by (simp_all add: receiving_def)
  have es: "es = butlast es @ [last es]" "concat (map qr_rows es) = p" "qr_status (last es) = TuplesOk"
    "\<forall>r \<in> set es. qr_fields r = fs"
    by (auto simp: es_def)
  have part: "case chunk_size m of
       None \<Rightarrow> rs @ butlast es = []
     | Some n \<Rightarrow> qr_rows (last es) = [] \<and>
         (\<forall>r \<in> set (rs @ butlast es). 1 \<le> length (qr_rows r) \<and> length (qr_rows r) \<le> n \<and>
            qr_status r = (if m = RM_Single then SingleTuple else TuplesChunk))"
  proof (cases "chunk_size m")
    case None
    then show ?thesis
      using p by (simp add: es_def)
  next
    case (Some n)
    have "1 \<le> length (qr_rows r) \<and> length (qr_rows r) \<le> n \<and>
        qr_status r = (if m = RM_Single then SingleTuple else TuplesChunk)" if "r \<in> set rs" for r
      using rs [OF that] Some pos by fastforce
    moreover have "length p \<ge> 1 \<and> length p \<le> n" if "p \<noteq> []"
      using p(1) [OF Some] that by (cases p) simp_all
    ultimately show ?thesis
      using Some by (auto simp: es_def)
  qed
  have "qu_results q3 = qu_results q @ (rs @ butlast es) @ [last es]"
    using 3(2) es(1) by simp
  moreover have "concat (map qr_rows ((rs @ butlast es) @ [last es])) = rows"
    using 2(3) es(1,2) by (metis append.assoc concat_append map_append)
  moreover have "\<forall>r \<in> set ((rs @ butlast es) @ [last es]). qr_fields r = fs"
    using rs es(1,4) by (metis Un_iff append.assoc set_append tuples_sel(6))
  ultimately show ?thesis
    using run es(3) part unfolding m_def by blast
qed

theorem rows_delivered_in_order_witness:
  "\<exists>q' rs r. push_all (RowDescription [] # map DataRow [[], []] @ [CommandComplete []])
     QueryRunner_new = Some q' \<and> qu_results q' = rs @ [r] \<and>
     concat (map qr_rows (rs @ [r])) = [[], []]"
proof -
  have 1: "ps_status (qu_state QueryRunner_new) = A_Busy"
    "ps_pipeline (qu_state QueryRunner_new) = P_Off" "ps_result (qu_state QueryRunner_new) = None"
    "ps_saved_result (qu_state QueryRunner_new) = None"
    "queue_head (qu_state QueryRunner_new) \<noteq> Some Q_Describe"
    "ps_row_mode (qu_state QueryRunner_new) \<noteq> RM_Chunked 0" "qu_results QueryRunner_new = []"
    by (simp_all add: QueryRunner_new_def for_class_def ps_append_def append_command_def
        begin_send_def PipelineState_new_def clear_async_result_def queue_head_def Let_def)
  show ?thesis
    using rows_delivered_in_order [OF 1(1-6), of "[[], []]" "[]" "[]"] 1(7) by auto
qed

section \<open>Leaving pipeline mode, and errors\<close>

text \<open>Leaving pipeline mode. From a reachable state, \<open>exit_pipeline_mode\<close> succeeds exactly when
  nothing is queued and the connection is idle or between commands; then it leaves the connection
  idle outside pipeline mode with nothing queued. Otherwise it reports why and changes nothing.\<close>

lemma exit_pipeline_mode_exact:
  assumes "reach ps_init ps_step s" and "ps_pipeline s \<noteq> P_Off"
  shows "(is_ok (fst (exit_pipeline_mode s)) \<longleftrightarrow>
            ps_queue s = [] \<and> ps_status s \<in> {A_Idle, A_PipelineIdle}) \<and>
         (case exit_pipeline_mode s of
            (Ok b, t) \<Rightarrow> b \<and> ps_pipeline t = P_Off \<and> ps_status t = A_Idle \<and> ps_queue t = []
          | (Err e, t) \<Rightarrow> t = s)"
proof -
  have "ps_status s \<notin> {A_Idle, A_PipelineIdle} \<Longrightarrow> ps_queue s \<noteq> []"
    using pipeline.reach_inv [OF assms(1)] assms(2) by (auto simp: ps_inv_def inv_queue_def)
  then show ?thesis
    using assms(2) by (auto simp: exit_pipeline_mode_def is_copy_def)
qed

end
