(* ===== verification/Extended.thy ===== *)
theory Extended
  imports Pipeline
begin

text \<open>
  The extended-query commands as plans, \<open>crates/rlibpq/src/extended.rs\<close>: which messages a command
  puts on the wire and the argument checks made first. The text of the errors is not modelled.

  Shown: the checks are what the encoder needs. A plan that is produced has only messages whose
  counts fit their two bytes, so that it can be encoded whenever its strings hold no NUL and its
  values fit their length words; and a plan sends Parse, Bind, Describe, Execute and Sync in the order
  the protocol asks for.
\<close>

definition PQ_QUERY_PARAM_MAX_LIMIT :: nat where
  "PQ_QUERY_PARAM_MAX_LIMIT = 65535"

datatype format = Text | Binary

fun format_code :: "format \<Rightarrow> u16" where
  "format_code Text = 0"
| "format_code Binary = 1"

record params =
  pa_values :: "bytes option list"
  pa_formats :: "format list"
  pa_result_format :: format

definition Params_text :: "bytes option list \<Rightarrow> params" where
  "Params_text values = \<lparr> pa_values = values, pa_formats = [], pa_result_format = Text \<rparr>"

datatype argument_error = TooManyParameters | LengthMismatch string nat nat

record plan =
  pl_messages :: "frontend list"
  pl_class :: query_class
  pl_query :: "bytes option"

definition without_sync :: "plan \<Rightarrow> plan" where
  "without_sync p =
     (if pl_messages p \<noteq> [] \<and> last (pl_messages p) = Sync
      then p\<lparr> pl_messages := butlast (pl_messages p) \<rparr> else p)"

definition check_count :: "nat \<Rightarrow> (unit, argument_error) result" where
  "check_count n_params = (if n_params > PQ_QUERY_PARAM_MAX_LIMIT then Err TooManyParameters else Ok ())"

definition check_array :: "string \<Rightarrow> nat \<Rightarrow> nat \<Rightarrow> (unit, argument_error) result" where
  "check_array array len n_params =
     (if len \<noteq> 0 \<and> len \<noteq> n_params then Err (LengthMismatch array len n_params) else Ok ())"

definition query_guts ::
  "(bytes \<times> u32 list) option \<Rightarrow> bytes \<Rightarrow> params \<Rightarrow> (plan, argument_error) result" where
  "query_guts parse statement p =
     (let n_params = length (pa_values p) in
      and_then (check_array ''paramFormats'' (length (pa_formats p)) n_params) (\<lambda>_.
        Ok \<lparr> pl_messages =
               (case parse of
                  Some (command, param_types) \<Rightarrow>
                    [Parse statement command (if n_params > 0 then param_types else [])]
                | None \<Rightarrow> []) @
               [Bind [] statement (if n_params > 0 then map format_code (pa_formats p) else [])
                  (pa_values p) [format_code (pa_result_format p)],
                Describe Portal [],
                Execute [] 0,
                Sync],
             pl_class = Q_Extended, pl_query = map_option fst parse \<rparr>))"

definition query_params :: "bytes \<Rightarrow> u32 list \<Rightarrow> params \<Rightarrow> (plan, argument_error) result" where
  "query_params command param_types p =
     and_then (check_count (length (pa_values p))) (\<lambda>_.
     and_then (check_array ''paramTypes'' (length param_types) (length (pa_values p))) (\<lambda>_.
       query_guts (Some (command, param_types)) [] p))"

definition query_prepared :: "bytes \<Rightarrow> params \<Rightarrow> (plan, argument_error) result" where
  "query_prepared statement p =
     and_then (check_count (length (pa_values p))) (\<lambda>_. query_guts None statement p)"

definition prepare :: "bytes \<Rightarrow> bytes \<Rightarrow> u32 list \<Rightarrow> (plan, argument_error) result" where
  "prepare statement query param_types =
     and_then (check_count (length param_types)) (\<lambda>_.
       Ok \<lparr> pl_messages = [Parse statement query param_types, Sync],
            pl_class = Q_Prepare, pl_query = Some query \<rparr>)"

datatype typed_command = T_Describe | T_Close

definition typed_command_plan :: "typed_command \<Rightarrow> target \<Rightarrow> bytes \<Rightarrow> plan" where
  "typed_command_plan c t name =
     (case c of
        T_Describe \<Rightarrow> \<lparr> pl_messages = [Describe t name, Sync], pl_class = Q_Describe, pl_query = None \<rparr>
      | T_Close \<Rightarrow> \<lparr> pl_messages = [Close t name, Sync], pl_class = Q_Close, pl_query = None \<rparr>)"

section \<open>The checks are what the encoder needs\<close>

lemma encodes:
  "length q + length s < 2 ^ 31 \<Longrightarrow> length types < 2 ^ 16 \<Longrightarrow> encode (Parse s q types) \<noteq> None"
  "length s + cells_size vs < 2 ^ 31 \<Longrightarrow> length vs < 2 ^ 16 \<Longrightarrow> length fs < 2 ^ 16 \<Longrightarrow> length rs < 2 ^ 16 \<Longrightarrow>
     list_all cell_ok vs \<Longrightarrow> encode (Bind [] s fs vs rs) \<noteq> None"
  by (simp_all add: packet_def length_word_def count16_def bind_body_def values_bytes_cells length_cells)

lemma cells_ok: "cells_size vs < 2 ^ 31 \<Longrightarrow> list_all cell_ok vs"
  by (induction vs) (auto simp: cells_size_def cell_ok_def split: option.splits)

lemma query_guts_messages:
  assumes "query_guts parse statement p = Ok pl" and "length (pa_values p) \<le> PQ_QUERY_PARAM_MAX_LIMIT"
    and "case parse of None \<Rightarrow> True | Some (command, types) \<Rightarrow>
      length command + length statement < 2 ^ 31 \<and> (types = [] \<or> length types = length (pa_values p))"
    and "length statement + cells_size (pa_values p) < 2 ^ 31"
  shows "list_all (\<lambda>m. encode m \<noteq> None) (pl_messages pl) \<and> last (pl_messages pl) = Sync"
proof -
  have n: "length (pa_values p) < 2 ^ 16" "length (pa_formats p) < 2 ^ 16"
    using assms(1,2) by (auto simp: query_guts_def check_array_def PQ_QUERY_PARAM_MAX_LIMIT_def Let_def split: if_splits)
  have cells: "list_all cell_ok (pa_values p)"
    using assms(4) by (intro cells_ok) simp
  have bind: "encode (Bind [] statement (if length (pa_values p) > 0 then map format_code (pa_formats p) else [])
      (pa_values p) [format_code (pa_result_format p)]) \<noteq> None"
    using n cells assms(4) by (intro encodes(2)) auto
  have parse: "encode (Parse statement command (if length (pa_values p) > 0 then types else [])) \<noteq> None"
    if "parse = Some (command, types)" for command types
    using that assms(3) n by (intro encodes(1)) auto
  have rest: "encode (Describe Portal []) \<noteq> None" "encode (Execute [] 0) \<noteq> None" "encode Sync \<noteq> None"
    by (simp_all add: packet_def length_word_def)
  have "pl_messages pl = (case parse of
        Some (command, types) \<Rightarrow> [Parse statement command (if length (pa_values p) > 0 then types else [])] | None \<Rightarrow> []) @
      [Bind [] statement (if length (pa_values p) > 0 then map format_code (pa_formats p) else []) (pa_values p)
         [format_code (pa_result_format p)], Describe Portal [], Execute [] 0, Sync]"
    using assms(1) by (auto simp: query_guts_def Let_def)
  then show ?thesis
    using bind parse rest by (cases parse) (auto simp del: encode.simps)
qed

text \<open>What the checks let through.\<close>

lemma query_params_ok_iff:
  "(\<exists>pl. query_params command types p = Ok pl) \<longleftrightarrow> length (pa_values p) \<le> 65535 \<and>
     length types \<in> {0, length (pa_values p)} \<and> length (pa_formats p) \<in> {0, length (pa_values p)}"
  by (auto simp: query_params_def query_guts_def check_count_def check_array_def
      PQ_QUERY_PARAM_MAX_LIMIT_def Let_def split: if_splits)

lemma query_prepared_ok_iff:
  "(\<exists>pl. query_prepared statement p = Ok pl) \<longleftrightarrow> length (pa_values p) \<le> 65535 \<and>
     length (pa_formats p) \<in> {0, length (pa_values p)}"
  by (auto simp: query_prepared_def query_guts_def check_count_def check_array_def
      PQ_QUERY_PARAM_MAX_LIMIT_def Let_def split: if_splits)

text \<open>C20: Exactly the arguments that fit are accepted, and those never make the encoder panic. A query
  with parameters is accepted exactly if it has at most 65535 parameters and its types and its formats
  are either absent or one per parameter; a prepared one likewise, without types. If the arguments
  are accepted, every message of the plan can be encoded and the last one is the Sync, provided only
  that the texts and values are together smaller than two gigabytes: all counts fit their sixteen
  bits because of the checks.\<close>

theorem accepted_arguments_encode:
  assumes "length command + length statement + cells_size (pa_values p) < 2 ^ 31"
  shows "(case query_params command types p of
            Ok pl \<Rightarrow> length (pa_values p) \<le> 65535 \<and> length types \<in> {0, length (pa_values p)} \<and>
              length (pa_formats p) \<in> {0, length (pa_values p)} \<and>
              list_all (\<lambda>m. encode m \<noteq> None) (pl_messages pl) \<and> last (pl_messages pl) = Sync
          | Err _ \<Rightarrow> length (pa_values p) > 65535 \<or> length types \<notin> {0, length (pa_values p)} \<or>
              length (pa_formats p) \<notin> {0, length (pa_values p)}) \<and>
         (case query_prepared statement p of
            Ok pl \<Rightarrow> length (pa_values p) \<le> 65535 \<and> length (pa_formats p) \<in> {0, length (pa_values p)} \<and>
              list_all (\<lambda>m. encode m \<noteq> None) (pl_messages pl) \<and> last (pl_messages pl) = Sync
          | Err _ \<Rightarrow> length (pa_values p) > 65535 \<or> length (pa_formats p) \<notin> {0, length (pa_values p)})"
proof -
  have "list_all (\<lambda>m. encode m \<noteq> None) (pl_messages pl) \<and> last (pl_messages pl) = Sync"
    if "query_params command types p = Ok pl" for pl
    using that assms
    by (intro query_guts_messages [of "Some (command, types)" "[]" p])
      (auto simp: query_params_def check_count_def check_array_def split: if_splits)
  moreover have "list_all (\<lambda>m. encode m \<noteq> None) (pl_messages pl) \<and> last (pl_messages pl) = Sync"
    if "query_prepared statement p = Ok pl" for pl
    using that assms
    by (intro query_guts_messages [of None statement p]) (auto simp: query_prepared_def check_count_def split: if_splits)
  ultimately show ?thesis
    using query_params_ok_iff [of command types p] query_prepared_ok_iff [of statement p]
    by (auto split: result.split)
qed

theorem accepted_arguments_encode_witness:
  "length [120 :: 8 word] + length ([] :: bytes) + cells_size (pa_values (Params_text [Some [49], None])) < 2 ^ 31 \<and>
   (\<exists>pl. query_params [120] [23, 25] (Params_text [Some [49], None]) = Ok pl \<and>
      list_all (\<lambda>m. encode m \<noteq> None) (pl_messages pl) \<and> last (pl_messages pl) = Sync) \<and>
   (\<exists>e. query_params [120] [23] (Params_text [Some [49], None]) = Err e)"
proof -
  let ?p = "Params_text [Some [49], None]"
  have size: "length [120 :: 8 word] + length ([] :: bytes) + cells_size (pa_values ?p) < 2 ^ 31"
    by (simp add: Params_text_def cells_size_def)
  obtain pl where pl: "query_params [120] [23, 25] ?p = Ok pl"
    by (simp add: query_params_def check_count_def check_array_def query_guts_def Params_text_def
        PQ_QUERY_PARAM_MAX_LIMIT_def Let_def)
  moreover have "\<nexists>pl. query_params [120] [23] ?p = Ok pl"
    using accepted_arguments_encode [OF size, of "[23]"] by (auto simp: Params_text_def)
  then have "\<exists>e. query_params [120] [23] ?p = Err e"
    by (cases "query_params [120] [23] ?p") auto
  ultimately show ?thesis
    using accepted_arguments_encode [OF size, of "[23, 25]"] size by simp
qed

end
