(* ===== verification/HashStream.thy ===== *)
theory HashStream
  imports Prelude
begin

text \<open>
  What \<open>crates/rlibpq/src/sha256.rs\<close> and \<open>md5.rs\<close> share: a context that collects bytes in a buffer of
  64 and compresses it whenever it is full, and the padding with the length in bits. The two files
  write the same \<open>update\<close> and \<open>finish\<close> with different compression functions and byte orders; these
  are arguments here.

  \<open>bits\<close> counts modulo \<open>2^64\<close>, as \<open>wrapping_add\<close> does. \<open>used\<close> is below 64 between calls (part of
  \<open>absorbed\<close>); the guards \<open>64 \<le> used\<close> below stand for states that no sequence of calls reaches, in
  which the code would panic or not progress.

  The interface is the locale \<open>streaming\<close>: what a context has absorbed determines what \<open>finish\<close>
  returns, however the bytes were cut into calls of \<open>update\<close>. Shown: these contexts are streaming
  with \<open>finish\<close> the fold of the compression function over the blocks of the padded message.
\<close>

section \<open>Streaming\<close>

locale streaming =
  fixes new :: 'c
    and upd :: "'c \<Rightarrow> bytes \<Rightarrow> 'c"
    and finish :: "'c \<Rightarrow> bytes"
    and absorbed :: "'c \<Rightarrow> bytes \<Rightarrow> bool"
    and digest :: "bytes \<Rightarrow> bytes"
  assumes absorbed_new: "absorbed new []"
    and absorbed_upd: "absorbed c m \<Longrightarrow> absorbed (upd c d) (m @ d)"
    and finish_absorbed: "absorbed c m \<Longrightarrow> finish c = digest m"
begin

lemma absorbed_fold: "absorbed c m \<Longrightarrow> absorbed (fold (\<lambda>d c. upd c d) ds c) (m @ concat ds)"
proof (induction ds arbitrary: c m)
  case (Cons d ds)
  then show ?case
    using Cons.IH [OF absorbed_upd [OF Cons.prems, of d]] by simp
qed simp

lemma finish_fold: "finish (fold (\<lambda>d c. upd c d) ds new) = digest (concat ds)"
  using absorbed_fold [OF absorbed_new, of ds] finish_absorbed by fastforce

lemma finish_one: "finish (upd new d) = digest d"
  using finish_fold [of "[d]"] by simp

end

section \<open>The context\<close>

record 's hash_ctx =
  hc_state :: 's
  hc_buf :: bytes
  hc_used :: nat
  hc_bits :: u64

definition BLOCK_LENGTH :: nat where
  "BLOCK_LENGTH = 64"

text \<open>\<open>buf[at .. at + data.len()].copy_from_slice(data)\<close>.\<close>

definition copy_at :: "bytes \<Rightarrow> nat \<Rightarrow> bytes \<Rightarrow> bytes" where
  "copy_at buf i bs = take i buf @ bs @ drop (i + length bs) buf"

definition hash_new :: "'s \<Rightarrow> 's hash_ctx" where
  "hash_new init = \<lparr> hc_state = init, hc_buf = replicate BLOCK_LENGTH 0, hc_used = 0, hc_bits = 0 \<rparr>"

text \<open>One turn of the loop of \<open>update\<close>: \<open>n\<close> bytes are taken.\<close>

definition hash_take :: "('s \<Rightarrow> bytes \<Rightarrow> 's) \<Rightarrow> 's hash_ctx \<Rightarrow> bytes \<Rightarrow> 's hash_ctx" where
  "hash_take tr c bs =
     (let buf = copy_at (hc_buf c) (hc_used c) bs; used = hc_used c + length bs in
      if used = BLOCK_LENGTH
      then c\<lparr> hc_state := tr (hc_state c) buf, hc_buf := buf, hc_used := 0 \<rparr>
      else c\<lparr> hc_buf := buf, hc_used := used \<rparr>)"

function hash_feed :: "('s \<Rightarrow> bytes \<Rightarrow> 's) \<Rightarrow> 's hash_ctx \<Rightarrow> bytes \<Rightarrow> 's hash_ctx" where
  "hash_feed tr c data =
     (if data = [] \<or> BLOCK_LENGTH \<le> hc_used c then c
      else let n = min (BLOCK_LENGTH - hc_used c) (length data) in
        hash_feed tr (hash_take tr c (take n data)) (drop n data))"
  by pat_completeness auto
termination
  by (relation "measure (\<lambda>(tr, c, data). length data)") (auto simp: BLOCK_LENGTH_def)

declare hash_feed.simps [simp del]

definition hash_update :: "('s \<Rightarrow> bytes \<Rightarrow> 's) \<Rightarrow> 's hash_ctx \<Rightarrow> bytes \<Rightarrow> 's hash_ctx" where
  "hash_update tr c data =
     hash_feed tr (c\<lparr> hc_bits := hc_bits c + of_nat (length data) * 8 \<rparr>) data"

text \<open>The padding loop \<^verbatim>\<open>while self.used != BLOCK_LENGTH - 8 { self.update(&[0x00]); }\<close>.\<close>

lemma hash_update_byte:
  assumes "hc_used c < 64"
  shows "hc_used (hash_update tr c [b]) = (if hc_used c = 63 then 0 else hc_used c + 1)"
  using assms
  by (simp add: hash_update_def hash_feed.simps [of tr _ "[b]"] hash_feed.simps [of tr _ "[]"]
      hash_take_def BLOCK_LENGTH_def Let_def)

function hash_pad :: "('s \<Rightarrow> bytes \<Rightarrow> 's) \<Rightarrow> 's hash_ctx \<Rightarrow> 's hash_ctx" where
  "hash_pad tr c =
     (if hc_used c = BLOCK_LENGTH - 8 \<or> BLOCK_LENGTH \<le> hc_used c then c
      else hash_pad tr (hash_update tr c [0]))"
  by pat_completeness auto
termination
  by (relation "measure (\<lambda>(tr, c). if hc_used c \<le> 56 then 56 - hc_used c else 120 - hc_used c)")
    (auto simp: hash_update_byte BLOCK_LENGTH_def)

declare hash_pad.simps [simp del]

text \<open>\<open>finish\<close>: \<open>enc\<close> writes the bit count, \<open>out\<close> the state.\<close>

definition hash_finish ::
  "('s \<Rightarrow> bytes \<Rightarrow> 's) \<Rightarrow> (u64 \<Rightarrow> bytes) \<Rightarrow> ('s \<Rightarrow> bytes) \<Rightarrow> 's hash_ctx \<Rightarrow> bytes" where
  "hash_finish tr enc out c =
     (let bits = hc_bits c; c = hash_pad tr (hash_update tr c [0x80]);
          block = copy_at (hc_buf c) (BLOCK_LENGTH - 8) (enc bits)
      in out (tr (hc_state c) block))"

section \<open>The padded message\<close>

text \<open>The compression of a message of whole blocks.\<close>

function compress :: "('s \<Rightarrow> bytes \<Rightarrow> 's) \<Rightarrow> 's \<Rightarrow> bytes \<Rightarrow> 's" where
  "compress tr s m = (if length m < 64 then s else compress tr (tr s (take 64 m)) (drop 64 m))"
  by pat_completeness auto
termination
  by (relation "measure (\<lambda>(tr, s, m). length m)") auto

declare compress.simps [simp del]

text \<open>One bit, zeroes up to 8 bytes before the end of a block, and the length in bits.\<close>

definition pad_zeros :: "nat \<Rightarrow> nat" where
  "pad_zeros n = (119 - n mod 64) mod 64"

definition padded :: "(u64 \<Rightarrow> bytes) \<Rightarrow> bytes \<Rightarrow> bytes" where
  "padded enc m = m @ 0x80 # replicate (pad_zeros (length m)) 0 @ enc (of_nat (8 * length m))"

lemma compress_short: "length m < 64 \<Longrightarrow> compress tr s m = s"
  by (subst compress.simps) simp

lemma compress_block: "length b = 64 \<Longrightarrow> compress tr s (b @ m) = compress tr (tr s b) m"
  by (subst compress.simps) simp

lemma compress_append: "64 dvd length a \<Longrightarrow> compress tr s (a @ b) = compress tr (compress tr s a) b"
proof (induction "length a" arbitrary: a s rule: less_induct)
  case less
  show ?case
  proof (cases "a = []")
    case True
    then show ?thesis
      by (simp add: compress_short)
  next
    case False
    then have l: "64 \<le> length a"
      using less.prems by (simp add: dvd_imp_le)
    have "compress tr s (a @ b) = compress tr (tr s (take 64 a)) (drop 64 a @ b)"
      using compress_block [of "take 64 a" tr s "drop 64 a @ b"] l
      by (metis append_assoc append_take_drop_id length_take min_absorb2)
    also have "\<dots> = compress tr (compress tr (tr s (take 64 a)) (drop 64 a)) b"
      using less.hyps [of "drop 64 a" "tr s (take 64 a)"] less.prems l by (simp add: dvd_diff_nat)
    also have "compress tr (tr s (take 64 a)) (drop 64 a) = compress tr s a"
      using compress_block [of "take 64 a" tr s "drop 64 a"] l by simp
    finally show ?thesis .
  qed
qed

section \<open>What a context has absorbed\<close>

definition whole :: "nat \<Rightarrow> nat" where
  "whole n = 64 * (n div 64)"

definition absorbs :: "('s \<Rightarrow> bytes \<Rightarrow> 's) \<Rightarrow> 's \<Rightarrow> 's hash_ctx \<Rightarrow> bytes \<Rightarrow> bool" where
  "absorbs tr init c m \<longleftrightarrow>
     length (hc_buf c) = 64 \<and> hc_used c = length m mod 64 \<and>
     hc_state c = compress tr init (take (whole (length m)) m) \<and>
     take (hc_used c) (hc_buf c) = drop (whole (length m)) m"

lemma absorbs_used: "absorbs tr init c m \<Longrightarrow> hc_used c < 64"
  by (simp add: absorbs_def)

lemma whole_rest: "whole n + n mod 64 = n"
  by (simp add: whole_def)

lemma absorbs_take:
  assumes c: "absorbs tr init c m" and fits: "hc_used c + length bs \<le> 64"
  shows "absorbs tr init (hash_take tr c bs) (m @ bs)"
proof -
  define k where "k = whole (length m)"
  have used: "length m = k + hc_used c" "64 dvd k" "hc_used c < 64"
    using c whole_rest [of "length m"] by (simp_all add: absorbs_def k_def whole_def)
  have pre: "take (hc_used c) (hc_buf c) = drop k m" "length (hc_buf c) = 64"
      "hc_state c = compress tr init (take k m)"
    using c by (auto simp: absorbs_def k_def)
  define buf where "buf = copy_at (hc_buf c) (hc_used c) bs"
  have buf: "length buf = 64" "take (hc_used c + length bs) buf = drop k m @ bs"
    using fits pre used(1) by (simp_all add: buf_def copy_at_def)
  show ?thesis
  proof (cases "hc_used c + length bs = 64")
    case True
    then have len: "length (m @ bs) = k + 64"
      using used by simp
    then have w: "whole (length (m @ bs)) = k + 64" "length (m @ bs) mod 64 = 0"
      using used(2) by (auto simp: whole_def dvd_def)
    have "buf = drop k m @ bs"
      using buf True by simp
    then have "compress tr init (m @ bs) = tr (hc_state c) buf"
      using compress_append [of "take k m" tr init "drop k m @ bs"] used buf(1) pre(3)
        compress_block [of "drop k m @ bs" tr _ "[]"]
      by (simp add: compress_short) (metis append_take_drop_id append_assoc)
    then show ?thesis
      using True w len buf
      by (simp add: absorbs_def hash_take_def BLOCK_LENGTH_def Let_def flip: buf_def)
  next
    case False
    then have lt: "hc_used c + length bs < 64"
      using fits by simp
    have len: "length (m @ bs) = k + (hc_used c + length bs)"
      using used by simp
    then have w: "whole (length (m @ bs)) = k" "length (m @ bs) mod 64 = hc_used c + length bs"
      using used(2) lt by (auto simp: whole_def dvd_def add.assoc)
    have "k \<le> length m"
      using used by simp
    then show ?thesis
      using False lt w buf pre
      by (simp add: absorbs_def hash_take_def BLOCK_LENGTH_def Let_def flip: buf_def)
  qed
qed

lemma hc_bits_take [simp]: "hc_bits (hash_take tr c bs) = hc_bits c"
  by (simp add: hash_take_def Let_def)

lemma hash_feed_absorbs:
  "absorbs tr init c m \<Longrightarrow>
   absorbs tr init (hash_feed tr c data) (m @ data) \<and> hc_bits (hash_feed tr c data) = hc_bits c"
proof (induction "length data" arbitrary: data c m rule: less_induct)
  case less
  show ?case
  proof (cases "data = []")
    case True
    then show ?thesis
      using less.prems by (simp add: hash_feed.simps [of tr c "[]"])
  next
    case False
    define n where "n = min (64 - hc_used c) (length data)"
    have n: "hc_used c + n \<le> 64" "0 < n" "n \<le> length data" "hc_used c < 64"
      using absorbs_used [OF less.prems] False by (auto simp: n_def)
    have "absorbs tr init (hash_take tr c (take n data)) (m @ take n data)"
      using absorbs_take [OF less.prems, of "take n data"] n by simp
    then have "absorbs tr init (hash_feed tr (hash_take tr c (take n data)) (drop n data))
        ((m @ take n data) @ drop n data) \<and>
        hc_bits (hash_feed tr (hash_take tr c (take n data)) (drop n data)) = hc_bits c"
      using less.hyps [of "drop n data" "hash_take tr c (take n data)" "m @ take n data"] n
      by (simp only: length_drop hc_bits_take diff_less)
    moreover have "hash_feed tr c data = hash_feed tr (hash_take tr c (take n data)) (drop n data)"
      using False n by (simp add: hash_feed.simps [of tr c data] n_def BLOCK_LENGTH_def Let_def)
    ultimately show ?thesis
      by simp
  qed
qed

lemma absorbs_bits [simp]: "absorbs tr init (c\<lparr> hc_bits := b \<rparr>) m = absorbs tr init c m"
  by (simp add: absorbs_def)

lemma hash_update_absorbs:
  assumes "absorbs tr init c m"
  shows "absorbs tr init (hash_update tr c d) (m @ d)"
    and "hc_bits (hash_update tr c d) = hc_bits c + of_nat (length d) * 8"
  using hash_feed_absorbs [of tr init "c\<lparr> hc_bits := hc_bits c + of_nat (length d) * 8 \<rparr>" m d] assms
  by (simp_all add: hash_update_def)

lemma hash_pad_absorbs:
  "absorbs tr init c m \<Longrightarrow>
   \<exists>k < 64. absorbs tr init (hash_pad tr c) (m @ replicate k 0) \<and> (length m + k) mod 64 = 56"
proof (induction "if hc_used c \<le> 56 then 56 - hc_used c else 120 - hc_used c"
    arbitrary: c m rule: less_induct)
  case less
  have used: "hc_used c = length m mod 64" "hc_used c < 64"
    using less.prems by (auto simp: absorbs_def)
  show ?case
  proof (cases "hc_used c = 56")
    case True
    then show ?thesis
      using less.prems used by (intro exI [of _ 0]) (simp add: hash_pad.simps [of tr c] BLOCK_LENGTH_def)
  next
    case False
    let ?c = "hash_update tr c [0]"
    let ?d = "\<lambda>c. if hc_used c \<le> 56 then 56 - hc_used c else 120 - hc_used c"
    have "?d ?c < ?d c"
      using False used(2) by (auto simp: hash_update_byte)
    then obtain k where k: "k < 64" "absorbs tr init (hash_pad tr ?c) ((m @ [0]) @ replicate k 0)"
        "(length (m @ [0]) + k) mod 64 = 56"
      using less.hyps hash_update_absorbs(1) [OF less.prems, of "[0]"] by blast
    have "hash_pad tr c = hash_pad tr ?c"
      using False used(2) by (simp add: hash_pad.simps [of tr c] BLOCK_LENGTH_def)
    moreover have "k \<noteq> 63"
      using k(3) False used by auto
    ultimately show ?thesis
      using k by (intro exI [of _ "Suc k"]) simp
  qed
qed

lemma pad_zeros_unique:
  assumes "(n + 1 + k) mod 64 = 56" and "k < 64"
  shows "k = pad_zeros n"
proof -
  define r where "r = n mod 64"
  have r: "r < 64" "(r + 1 + k) mod 64 = 56"
    using assms(1) unfolding r_def by (simp, metis mod_add_left_eq)
  define q where "q = (r + 1 + k) div 64"
  have "r + 1 + k = 64 * q + 56"
    using mult_div_mod_eq [of 64 "r + 1 + k"] unfolding r(2) q_def [symmetric] by (rule sym)
  moreover have "q < 2"
    using r(1) assms(2) unfolding q_def by (simp add: less_mult_imp_div_less)
  ultimately have "r + 1 + k = 56 \<or> r + 1 + k = 120"
    by (auto simp: less_2_cases_iff)
  then show ?thesis
  proof
    assume "r + 1 + k = 56"
    then have "119 - r = 64 + k" "k < 64"
      by simp_all
    then show ?thesis
      by (simp add: pad_zeros_def flip: r_def)
  next
    assume "r + 1 + k = 120"
    then have "119 - r = k"
      by simp
    then show ?thesis
      using assms(2) by (simp add: pad_zeros_def flip: r_def)
  qed
qed

lemma pad_zeros_fits: "(n + 1 + pad_zeros n) mod 64 = 56"
proof -
  define r where "r = n mod 64"
  have r: "r < 64"
    by (simp add: r_def)
  have "(n + 1 + pad_zeros n) mod 64 = (r + 1 + pad_zeros n) mod 64"
    unfolding r_def by (metis mod_add_left_eq)
  also have "\<dots> = 56"
  proof (cases "r \<le> 55")
    case True
    then have "119 - r = 64 + (55 - r)"
      by simp
    then have "pad_zeros n = (64 + (55 - r)) mod 64"
      unfolding pad_zeros_def r_def [symmetric] by (simp only:)
    also have "\<dots> = 55 - r"
      by (simp only: mod_add_self1) simp
    finally have "pad_zeros n = 55 - r" .
    then show ?thesis
      using True by simp
  next
    case False
    then have "pad_zeros n = 119 - r"
      using r by (simp add: pad_zeros_def flip: r_def)
    then have "r + 1 + pad_zeros n = 120"
      using r by simp
    then show ?thesis
      by simp
  qed
  finally show ?thesis .
qed

lemma hash_finish_absorbs:
  assumes c: "absorbs tr init c m" and bits: "hc_bits c = of_nat (8 * length m)"
    and enc: "\<And>b. length (enc b) = 8"
  shows "hash_finish tr enc out c = out (compress tr init (padded enc m))"
proof -
  define c' where "c' = hash_pad tr (hash_update tr c [0x80])"
  obtain k where k: "k < 64" "absorbs tr init c' ((m @ [0x80]) @ replicate k 0)"
      "(length (m @ [0x80]) + k) mod 64 = 56"
    using hash_pad_absorbs [OF hash_update_absorbs(1) [OF c, of "[0x80]"]] unfolding c'_def by blast
  define p where "p = m @ 0x80 # replicate k 0"
  have p: "absorbs tr init c' p" "length p mod 64 = 56"
    using k by (simp_all add: p_def)
  have kz: "k = pad_zeros (length m)"
    using k(1,3) by (intro pad_zeros_unique) simp_all
  let ?e = "enc (of_nat (8 * length m))" and ?w = "whole (length p)"
  have "copy_at (hc_buf c') 56 ?e = drop ?w p @ ?e"
    using p enc by (auto simp: copy_at_def absorbs_def)
  moreover have "length (drop ?w p @ ?e) = 64"
    using whole_rest [of "length p"] p(2) enc by simp
  moreover have "64 dvd ?w" "?w \<le> length p"
    by (simp_all add: whole_def)
  moreover have "compress tr init (p @ ?e) = compress tr (compress tr init (take ?w p)) (drop ?w p @ ?e)"
    using compress_append [of "take ?w p" tr init "drop ?w p @ ?e"] calculation(3,4)
    by (simp flip: append_assoc)
  ultimately have "compress tr init (p @ ?e) = tr (hc_state c') (copy_at (hc_buf c') 56 ?e)"
    using compress_block [of "drop ?w p @ ?e" tr _ "[]"] p(1) by (simp add: compress_short absorbs_def)
  then show ?thesis
    using bits kz by (simp add: hash_finish_def BLOCK_LENGTH_def padded_def p_def Let_def flip: c'_def)
qed

definition absorbed_by :: "('s \<Rightarrow> bytes \<Rightarrow> 's) \<Rightarrow> 's \<Rightarrow> 's hash_ctx \<Rightarrow> bytes \<Rightarrow> bool" where
  "absorbed_by tr init c m \<longleftrightarrow> absorbs tr init c m \<and> hc_bits c = of_nat (8 * length m)"

lemma hash_streaming:
  assumes "\<And>b. length (enc b) = 8"
  shows "streaming (hash_new init) (hash_update tr) (hash_finish tr enc out) (absorbed_by tr init)
    (\<lambda>m. out (compress tr init (padded enc m)))"
proof
  show "absorbed_by tr init (hash_new init) []"
    by (simp add: absorbed_by_def absorbs_def hash_new_def BLOCK_LENGTH_def whole_def compress_short)
next
  fix c m d
  assume "absorbed_by tr init c m"
  then show "absorbed_by tr init (hash_update tr c d) (m @ d)"
    using hash_update_absorbs [of tr init c m d] by (simp add: absorbed_by_def algebra_simps)
next
  fix c m
  assume "absorbed_by tr init c m"
  then show "hash_finish tr enc out c = out (compress tr init (padded enc m))"
    using hash_finish_absorbs [of tr init c m enc] assms by (simp add: absorbed_by_def)
qed

lemma padded_blocks:
  assumes "\<And>b. length (enc b) = 8"
  shows "64 dvd length (padded enc m)"
proof -
  have "length (padded enc m) = (length m + 1 + pad_zeros (length m)) + 8"
    using assms by (simp add: padded_def)
  also have "\<dots> mod 64 = (56 + 8) mod 64"
    using pad_zeros_fits [of "length m"] by (metis mod_add_left_eq)
  finally show ?thesis
    by (simp add: dvd_eq_mod_eq_0)
qed

end
