(* ===== verification/Sha256.thy ===== *)
theory Sha256
  imports HashStream
begin

text \<open>
  SHA-256 of \<open>crates/rlibpq/src/sha256.rs\<close>: the constants, the compression function with its
  message schedule array, and the context over \<open>HashStream\<close>.

  Shown: absorbing a message in any pieces and finishing gives the digest of the standard (FIPS
  180-4), written here with the recursive message schedule and the named functions of section 4.1.2:
  the fold of the standard's compression over the blocks of the padded message.
\<close>

section \<open>The code\<close>

text \<open>A word in its two halves, as the source groups the digits: \<open>w32 0x428a 0x2f98\<close> is \<^verbatim>\<open>0x428a_2f98\<close>.\<close>

definition w32 :: "u32 \<Rightarrow> u32 \<Rightarrow> u32" where
  "w32 hi lo = push_bit 16 hi OR lo"

definition K256 :: "u32 list" where
  "K256 = [
     w32 0x428a 0x2f98, w32 0x7137 0x4491, w32 0xb5c0 0xfbcf, w32 0xe9b5 0xdba5,
     w32 0x3956 0xc25b, w32 0x59f1 0x11f1, w32 0x923f 0x82a4, w32 0xab1c 0x5ed5,
     w32 0xd807 0xaa98, w32 0x1283 0x5b01, w32 0x2431 0x85be, w32 0x550c 0x7dc3,
     w32 0x72be 0x5d74, w32 0x80de 0xb1fe, w32 0x9bdc 0x06a7, w32 0xc19b 0xf174,
     w32 0xe49b 0x69c1, w32 0xefbe 0x4786, w32 0x0fc1 0x9dc6, w32 0x240c 0xa1cc,
     w32 0x2de9 0x2c6f, w32 0x4a74 0x84aa, w32 0x5cb0 0xa9dc, w32 0x76f9 0x88da,
     w32 0x983e 0x5152, w32 0xa831 0xc66d, w32 0xb003 0x27c8, w32 0xbf59 0x7fc7,
     w32 0xc6e0 0x0bf3, w32 0xd5a7 0x9147, w32 0x06ca 0x6351, w32 0x1429 0x2967,
     w32 0x27b7 0x0a85, w32 0x2e1b 0x2138, w32 0x4d2c 0x6dfc, w32 0x5338 0x0d13,
     w32 0x650a 0x7354, w32 0x766a 0x0abb, w32 0x81c2 0xc92e, w32 0x9272 0x2c85,
     w32 0xa2bf 0xe8a1, w32 0xa81a 0x664b, w32 0xc24b 0x8b70, w32 0xc76c 0x51a3,
     w32 0xd192 0xe819, w32 0xd699 0x0624, w32 0xf40e 0x3585, w32 0x106a 0xa070,
     w32 0x19a4 0xc116, w32 0x1e37 0x6c08, w32 0x2748 0x774c, w32 0x34b0 0xbcb5,
     w32 0x391c 0x0cb3, w32 0x4ed8 0xaa4a, w32 0x5b9c 0xca4f, w32 0x682e 0x6ff3,
     w32 0x748f 0x82ee, w32 0x78a5 0x636f, w32 0x84c8 0x7814, w32 0x8cc7 0x0208,
     w32 0x90be 0xfffa, w32 0xa450 0x6ceb, w32 0xbef9 0xa3f7, w32 0xc671 0x78f2]"

definition H0 :: "u32 list" where
  "H0 = [
     w32 0x6a09 0xe667, w32 0xbb67 0xae85, w32 0x3c6e 0xf372, w32 0xa54f 0xf53a,
     w32 0x510e 0x527f, w32 0x9b05 0x688c, w32 0x1f83 0xd9ab, w32 0x5be0 0xcd19]"

text \<open>The word \<open>i\<close> of a block, \<open>u32::from_be_bytes\<close>.\<close>

definition block_word :: "bytes \<Rightarrow> nat \<Rightarrow> u32" where
  "block_word block i =
     from_be32 (block ! (i * 4)) (block ! (i * 4 + 1)) (block ! (i * 4 + 2)) (block ! (i * 4 + 3))"

definition schedule_step :: "nat \<Rightarrow> u32 list \<Rightarrow> u32 list" where
  "schedule_step i w =
     (let s0 = word_rotr 7 (w ! (i - 15)) XOR word_rotr 18 (w ! (i - 15)) XOR drop_bit 3 (w ! (i - 15));
          s1 = word_rotr 17 (w ! (i - 2)) XOR word_rotr 19 (w ! (i - 2)) XOR drop_bit 10 (w ! (i - 2))
      in w[i := w ! (i - 16) + s0 + w ! (i - 7) + s1])"

definition schedule :: "bytes \<Rightarrow> u32 list" where
  "schedule block =
     fold schedule_step [16..<64] (map (block_word block) [0..<16] @ replicate 48 0)"

type_synonym sha_vars = "u32 \<times> u32 \<times> u32 \<times> u32 \<times> u32 \<times> u32 \<times> u32 \<times> u32"

definition sha_round :: "u32 list \<Rightarrow> nat \<Rightarrow> sha_vars \<Rightarrow> sha_vars" where
  "sha_round w i v =
     (let (a, b, c, d, e, f, g, h) = v;
          t1 = h + (word_rotr 6 e XOR word_rotr 11 e XOR word_rotr 25 e)
                 + ((e AND f) XOR (NOT e AND g)) + K256 ! i + w ! i;
          t2 = (word_rotr 2 a XOR word_rotr 13 a XOR word_rotr 22 a)
                 + ((a AND b) XOR (a AND c) XOR (b AND c))
      in (t1 + t2, a, b, c, d + t1, e, f, g))"

definition sha_transform :: "u32 list \<Rightarrow> bytes \<Rightarrow> u32 list" where
  "sha_transform s block =
     (let (a, b, c, d, e, f, g, h) =
        fold (sha_round (schedule block)) [0..<64]
          (s ! 0, s ! 1, s ! 2, s ! 3, s ! 4, s ! 5, s ! 6, s ! 7)
      in map2 (+) s [a, b, c, d, e, f, g, h])"

definition be64 :: "u64 \<Rightarrow> bytes" where
  "be64 w = map (\<lambda>i. ucast (drop_bit (56 - 8 * i) w)) [0..<8]"

definition sha_digest :: "u32 list \<Rightarrow> bytes" where
  "sha_digest s = concat (map be32 s)"

type_synonym sha_ctx = "u32 list hash_ctx"

definition Sha256_new :: sha_ctx where
  "Sha256_new = hash_new H0"

definition Sha256_update :: "sha_ctx \<Rightarrow> bytes \<Rightarrow> sha_ctx" where
  "Sha256_update = hash_update sha_transform"

definition Sha256_finish :: "sha_ctx \<Rightarrow> bytes" where
  "Sha256_finish = hash_finish sha_transform be64 sha_digest"

definition sha256 :: "bytes \<Rightarrow> bytes" where
  "sha256 data = Sha256_finish (Sha256_update Sha256_new data)"

section \<open>The standard\<close>

definition Ch :: "u32 \<Rightarrow> u32 \<Rightarrow> u32 \<Rightarrow> u32" where
  "Ch x y z = (x AND y) XOR (NOT x AND z)"

definition Maj :: "u32 \<Rightarrow> u32 \<Rightarrow> u32 \<Rightarrow> u32" where
  "Maj x y z = (x AND y) XOR (x AND z) XOR (y AND z)"

definition Sigma0 :: "u32 \<Rightarrow> u32" where
  "Sigma0 x = word_rotr 2 x XOR word_rotr 13 x XOR word_rotr 22 x"

definition Sigma1 :: "u32 \<Rightarrow> u32" where
  "Sigma1 x = word_rotr 6 x XOR word_rotr 11 x XOR word_rotr 25 x"

definition sigma0 :: "u32 \<Rightarrow> u32" where
  "sigma0 x = word_rotr 7 x XOR word_rotr 18 x XOR drop_bit 3 x"

definition sigma1 :: "u32 \<Rightarrow> u32" where
  "sigma1 x = word_rotr 17 x XOR word_rotr 19 x XOR drop_bit 10 x"

fun fips_W :: "bytes \<Rightarrow> nat \<Rightarrow> u32" where
  "fips_W M t =
     (if t < 16 then block_word M t
      else sigma1 (fips_W M (t - 2)) + fips_W M (t - 7) + sigma0 (fips_W M (t - 15)) + fips_W M (t - 16))"

declare fips_W.simps [simp del]

text \<open>The working variables after \<open>t\<close> rounds.\<close>

fun fips_vars :: "u32 list \<Rightarrow> bytes \<Rightarrow> nat \<Rightarrow> sha_vars" where
  "fips_vars H M 0 = (H ! 0, H ! 1, H ! 2, H ! 3, H ! 4, H ! 5, H ! 6, H ! 7)"
| "fips_vars H M (Suc t) =
     (let (a, b, c, d, e, f, g, h) = fips_vars H M t;
          T1 = h + Sigma1 e + Ch e f g + K256 ! t + fips_W M t;
          T2 = Sigma0 a + Maj a b c
      in (T1 + T2, a, b, c, d + T1, e, f, g))"

definition fips_compress :: "u32 list \<Rightarrow> bytes \<Rightarrow> u32 list" where
  "fips_compress H M =
     (let (a, b, c, d, e, f, g, h) = fips_vars H M 64
      in [a + H ! 0, b + H ! 1, c + H ! 2, d + H ! 3, e + H ! 4, f + H ! 5, g + H ! 6, h + H ! 7])"

text \<open>The digest of a message: the padded message, its blocks compressed one after the other, the
  eight words in big-endian order.\<close>

definition fips_sha256 :: "bytes \<Rightarrow> bytes" where
  "fips_sha256 m = sha_digest (compress fips_compress H0 (padded be64 m))"

section \<open>The code computes the standard\<close>

lemma schedule_prefix:
  assumes "16 \<le> n" "n \<le> 64"
  shows "length (fold schedule_step [16..<n] (map (block_word M) [0..<16] @ replicate 48 0)) = 64 \<and>
    (\<forall>t < n. fold schedule_step [16..<n] (map (block_word M) [0..<16] @ replicate 48 0) ! t = fips_W M t)"
  using assms
proof (induction n rule: dec_induct)
  case base
  then show ?case
    by (auto simp: nth_append fips_W.simps)
next
  case (step n)
  let ?w = "fold schedule_step [16..<n] (map (block_word M) [0..<16] @ replicate 48 0)"
  have w: "length ?w = 64" "\<And>t. t < n \<Longrightarrow> ?w ! t = fips_W M t"
    using step by auto
  have "schedule_step n ?w = ?w[n := fips_W M n]"
    using step.hyps w(2) [of "n - 15"] w(2) [of "n - 2"] w(2) [of "n - 16"] w(2) [of "n - 7"]
    by (simp add: schedule_step_def Let_def fips_W.simps [of M n] sigma0_def sigma1_def ac_simps)
  then show ?case
    using w step by (auto simp: nth_list_update less_Suc_eq)
qed

lemma schedule_fips: "t < 64 \<Longrightarrow> schedule M ! t = fips_W M t"
  using schedule_prefix [of 64 M] by (simp add: schedule_def)

lemma rounds_fips:
  "n \<le> 64 \<Longrightarrow> fold (sha_round (schedule M)) [0..<n]
     (H ! 0, H ! 1, H ! 2, H ! 3, H ! 4, H ! 5, H ! 6, H ! 7) = fips_vars H M n"
  by (induction n)
    (auto simp: sha_round_def schedule_fips Sigma1_def Sigma0_def Ch_def Maj_def Let_def
      split: prod.splits)

lemma list_of_8:
  assumes "length H = 8"
  shows "H = [H ! 0, H ! 1, H ! 2, H ! 3, H ! 4, H ! 5, H ! 6, H ! 7]"
  using assms by (intro nth_equalityI) (auto simp: less_Suc_eq numeral_eq_Suc)

lemma transform_fips:
  assumes "length H = 8"
  shows "sha_transform H M = fips_compress H M"
proof -
  obtain a b c d e f g h where v: "fips_vars H M 64 = (a, b, c, d, e, f, g, h)"
    by (cases "fips_vars H M 64") auto
  have "sha_transform H M = map2 (+) H [a, b, c, d, e, f, g, h]"
    using rounds_fips [of 64 M H] v by (simp add: sha_transform_def)
  also have "\<dots> = map2 (+) [H ! 0, H ! 1, H ! 2, H ! 3, H ! 4, H ! 5, H ! 6, H ! 7] [a, b, c, d, e, f, g, h]"
    using list_of_8 [OF assms] by simp
  finally show ?thesis
    by (simp add: fips_compress_def v ac_simps)
qed

lemma length_fips_compress: "length (fips_compress H M) = 8"
  by (simp add: fips_compress_def case_prod_beta)

lemma compress_fips:
  "length H = 8 \<Longrightarrow> compress sha_transform H m = compress fips_compress H m \<and>
     length (compress fips_compress H m) = 8"
proof (induction "length m" arbitrary: m H rule: less_induct)
  case less
  show ?case
  proof (cases "length m < 64")
    case True
    then show ?thesis
      using less.prems by (simp add: compress_short)
  next
    case False
    then show ?thesis
      using less.hyps [of "drop 64 m" "fips_compress H (take 64 m)"] length_fips_compress
        transform_fips [OF less.prems] by (simp add: compress.simps [of _ H m])
  qed
qed

lemma length_H0 [simp]: "length H0 = 8"
  by (simp add: H0_def)

lemma length_be64 [simp]: "length (be64 w) = 8"
  by (simp add: be64_def)

interpretation sha256: streaming Sha256_new Sha256_update Sha256_finish
  "absorbed_by sha_transform H0" fips_sha256
proof -
  have "fips_sha256 = (\<lambda>m. sha_digest (compress sha_transform H0 (padded be64 m)))"
    using compress_fips [of H0] by (auto simp: fips_sha256_def)
  then show "streaming Sha256_new Sha256_update Sha256_finish (absorbed_by sha_transform H0) fips_sha256"
    using hash_streaming [of be64 H0 sha_transform sha_digest]
    by (simp add: Sha256_new_def Sha256_update_def Sha256_finish_def)
qed

lemma length_sha_digest: "length (sha_digest s) = 4 * length s"
  by (induction s) (auto simp: sha_digest_def)

lemma length_fips_sha256 [simp]: "length (fips_sha256 m) = 32"
  using compress_fips [of H0 "padded be64 m"] by (simp add: fips_sha256_def length_sha_digest)

lemma sha256_fips: "sha256 m = fips_sha256 m"
  by (simp add: sha256_def sha256.finish_one)

text \<open>C17: However a message is cut into calls of \<open>update\<close>, \<open>finish\<close> returns the SHA-256 digest of the
  standard for the whole message: the message padded with one bit, zeroes and its length in bits
  (modulo \<open>2^64\<close>), whose blocks, a whole number of them, are compressed one after the other with the
  message schedule and the rounds of the standard. The digest has 32 bytes, and the one-shot
  function computes the same.\<close>

theorem sha256_refines_standard:
  "Sha256_finish (fold (\<lambda>d c. Sha256_update c d) chunks Sha256_new) = fips_sha256 (concat chunks) \<and>
   sha256 m = fips_sha256 m \<and> length (fips_sha256 m) = 32 \<and> 64 dvd length (padded be64 m)"
  by (simp add: sha256.finish_fold sha256_fips padded_blocks)

end
