(* ===== verification/Hmac.thy ===== *)
theory Hmac
  imports Sha256
begin

text \<open>
  HMAC-SHA-256 of \<open>crates/rlibpq/src/hmac.rs\<close>: a context made of the outer pad and the inner hash
  that has already absorbed the inner pad.

  Shown: a context of a key is streaming in its turn (an interpretation of the same interface that
  SHA-256 has), and its result is the formula of RFC 2104.
\<close>

definition IPAD :: byte where "IPAD = 0x36"
definition OPAD :: byte where "OPAD = 0x5C"

record hmac_ctx =
  hm_k_opad :: bytes
  hm_inner :: sha_ctx

definition hmac_keybuf :: "bytes \<Rightarrow> bytes" where
  "hmac_keybuf key =
     (let keybuf = replicate BLOCK_LENGTH 0 in
      if length key > BLOCK_LENGTH then copy_at keybuf 0 (sha256 key) else copy_at keybuf 0 key)"

definition HmacSha256_new :: "bytes \<Rightarrow> hmac_ctx" where
  "HmacSha256_new key =
     (let keybuf = hmac_keybuf key;
          k_ipad = map (\<lambda>b. b XOR IPAD) keybuf; k_opad = map (\<lambda>b. b XOR OPAD) keybuf
      in \<lparr> hm_k_opad = k_opad, hm_inner = Sha256_update Sha256_new k_ipad \<rparr>)"

definition HmacSha256_update :: "hmac_ctx \<Rightarrow> bytes \<Rightarrow> hmac_ctx" where
  "HmacSha256_update c data = c\<lparr> hm_inner := Sha256_update (hm_inner c) data \<rparr>"

definition HmacSha256_finish :: "hmac_ctx \<Rightarrow> bytes" where
  "HmacSha256_finish c =
     (let inner = Sha256_finish (hm_inner c);
          outer = Sha256_update Sha256_new (hm_k_opad c);
          outer = Sha256_update outer inner
      in Sha256_finish outer)"

definition hmac_sha256 :: "bytes \<Rightarrow> bytes \<Rightarrow> bytes" where
  "hmac_sha256 key data = HmacSha256_finish (HmacSha256_update (HmacSha256_new key) data)"

section \<open>RFC 2104\<close>

text \<open>The key as a block: its digest if it is longer than one, filled with zeroes.\<close>

definition rfc_key :: "bytes \<Rightarrow> bytes" where
  "rfc_key K =
     (let K' = (if length K > 64 then fips_sha256 K else K) in K' @ replicate (64 - length K') 0)"

definition xor_block :: "bytes \<Rightarrow> byte \<Rightarrow> bytes" where
  "xor_block K p = map2 (\<lambda>a b. a XOR b) K (replicate (length K) p)"

definition rfc_hmac :: "bytes \<Rightarrow> bytes \<Rightarrow> bytes" where
  "rfc_hmac K text =
     fips_sha256 (xor_block (rfc_key K) 0x5C @ fips_sha256 (xor_block (rfc_key K) 0x36 @ text))"

lemma keybuf_rfc: "hmac_keybuf K = rfc_key K"
  by (simp add: hmac_keybuf_def rfc_key_def copy_at_def BLOCK_LENGTH_def sha256_fips Let_def)

lemma xor_block_map: "xor_block K p = map (\<lambda>b. b XOR p) K"
  by (simp add: xor_block_def zip_replicate2 comp_def)

definition hmac_absorbed :: "bytes \<Rightarrow> hmac_ctx \<Rightarrow> bytes \<Rightarrow> bool" where
  "hmac_absorbed K c m \<longleftrightarrow>
     hm_k_opad c = xor_block (rfc_key K) OPAD \<and>
     absorbed_by sha_transform H0 (hm_inner c) (xor_block (rfc_key K) IPAD @ m)"

interpretation hmac: streaming "HmacSha256_new K" HmacSha256_update HmacSha256_finish
  "hmac_absorbed K" "rfc_hmac K" for K
proof unfold_locales
  show "hmac_absorbed K (HmacSha256_new K) []"
    using sha256.absorbed_upd [OF sha256.absorbed_new, of "xor_block (rfc_key K) IPAD"]
    by (simp add: hmac_absorbed_def HmacSha256_new_def keybuf_rfc xor_block_map Let_def)
next
  fix c m d
  assume "hmac_absorbed K c m"
  then show "hmac_absorbed K (HmacSha256_update c d) (m @ d)"
    using sha256.absorbed_upd [of "hm_inner c" "xor_block (rfc_key K) IPAD @ m" d]
    by (simp add: hmac_absorbed_def HmacSha256_update_def)
next
  fix c m
  assume c: "hmac_absorbed K c m"
  have "Sha256_finish (Sha256_update (Sha256_update Sha256_new a) b) = fips_sha256 (a @ b)" for a b
    using sha256.finish_fold [of "[a, b]"] by simp
  then show "HmacSha256_finish c = rfc_hmac K m"
    using c sha256.finish_absorbed [of "hm_inner c" "xor_block (rfc_key K) IPAD @ m"]
    by (simp add: HmacSha256_finish_def hmac_absorbed_def rfc_hmac_def IPAD_def OPAD_def)
qed

lemma hmac_rfc: "hmac_sha256 K m = rfc_hmac K m"
  by (simp add: hmac_sha256_def hmac.finish_one)

lemma length_rfc_hmac [simp]: "length (rfc_hmac K m) = 32"
  by (simp add: rfc_hmac_def)

text \<open>However a text is cut into calls of \<open>update\<close>, the context of a key finishes with the HMAC of
  RFC 2104 over SHA-256, for keys of any length: the hash of the outer pad followed by the hash of
  the inner pad followed by the text, the pads being the key block combined with \<open>5C\<close> and \<open>36\<close>.\<close>

lemma hmac_refines_standard:
  "HmacSha256_finish (fold (\<lambda>d c. HmacSha256_update c d) chunks (HmacSha256_new K)) =
     rfc_hmac K (concat chunks) \<and> hmac_sha256 K m = rfc_hmac K m \<and> length (rfc_hmac K m) = 32"
  by (simp add: hmac.finish_fold hmac_rfc)

end
