(* ===== verification/Base64.thy ===== *)
theory Base64
  imports Prelude
begin

text \<open>
  \<open>crates/rlibpq/src/base64.rs\<close>: the whitespace-free base64 SCRAM uses. The loops keep the
  source's variables: \<open>pos\<close> and \<open>buf\<close> of the encoder (a group is filled from the top, \<open>pos\<close> counts
  2, 1, 0), \<open>buf\<close>, \<open>pos\<close> and \<open>end\<close> of the decoder. Shown: the decoder undoes the encoder, the
  encoder produces the announced length, an accepted text has only alphabet and padding symbols
  in whole groups, and an accepted text without padding is the encoding of what it decodes to.
\<close>

section \<open>Definitions\<close>

definition BASE64 :: bytes where
  "BASE64 = bstr ''ABCDEFGHIJKLMNOPQRSTUVWXYZabcdefghijklmnopqrstuvwxyz0123456789+/''"

text \<open>The table search of \<open>b64lookup\<close>, from index \<open>i\<close> on; \<open>-1\<close> for no such symbol.\<close>

fun b64lookup_from :: "bytes \<Rightarrow> byte \<Rightarrow> int \<Rightarrow> int" where
  "b64lookup_from [] c i = - 1"
| "b64lookup_from (x # xs) c i = (if x = c then i else b64lookup_from xs c (i + 1))"

definition b64lookup :: "byte \<Rightarrow> int" where
  "b64lookup c = b64lookup_from BASE64 c 0"

definition enc_len :: "nat \<Rightarrow> nat" where
  "enc_len srclen = ((srclen + 2) div 3) * 4"

definition dec_len :: "nat \<Rightarrow> nat" where
  "dec_len srclen = drop_bit 2 (srclen * 3)"

definition b64sym :: "u32 \<Rightarrow> byte" where
  "b64sym w = BASE64 ! unat (w AND 63)"

fun b64_encode_loop :: "bytes \<Rightarrow> int \<Rightarrow> u32 \<Rightarrow> bytes \<Rightarrow> bytes" where
  "b64_encode_loop [] pos buf out =
     (if pos \<noteq> 2 then
        out @ [b64sym (drop_bit 18 buf), b64sym (drop_bit 12 buf),
               (if pos = 0 then b64sym (drop_bit 6 buf) else chb CHR ''=''), chb CHR ''='']
      else out)"
| "b64_encode_loop (s # src) pos buf out =
     (let buf = buf OR push_bit (nat (8 * pos)) (ucast s);
          pos = pos - 1
      in if pos < 0
         then b64_encode_loop src 2 0
                (out @ [b64sym (drop_bit 18 buf), b64sym (drop_bit 12 buf),
                        b64sym (drop_bit 6 buf), b64sym buf])
         else b64_encode_loop src pos buf out)"

definition b64_encode :: "bytes \<Rightarrow> bytes" where
  "b64_encode src = b64_encode_loop src 2 0 []"

text \<open>One symbol of the decoder: \<open>None\<close> is the early \<open>return None\<close>, otherwise the six bits and
  the new \<open>end\<close>.\<close>

definition b64_symbol :: "byte \<Rightarrow> int \<Rightarrow> int \<Rightarrow> (u32 \<times> int) option" where
  "b64_symbol c pos end =
     (if c = 32 \<or> c = 9 \<or> c = 10 \<or> c = 13 then None
      else if c = chb CHR ''='' then
        (if end = 0 then
           (if pos = 2 then Some (0, 1) else if pos = 3 then Some (0, 2) else None)
         else Some (0, end))
      else (let b = (if 0 < c \<and> c < 127 then b64lookup c else - 1)
            in if b < 0 then None else Some (word_of_int b, end)))"

fun b64_decode_loop :: "bytes \<Rightarrow> u32 \<Rightarrow> int \<Rightarrow> int \<Rightarrow> bytes \<Rightarrow> bytes option" where
  "b64_decode_loop [] buf pos end out = (if pos \<noteq> 0 then None else Some out)"
| "b64_decode_loop (c # src) buf pos end out =
     (case b64_symbol c pos end of
        None \<Rightarrow> None
      | Some (b, end') \<Rightarrow>
          (let buf = push_bit 6 buf + b; pos = pos + 1
           in if pos = 4
              then b64_decode_loop src 0 0 end'
                     (out @ [ucast (drop_bit 16 buf AND 255)]
                          @ (if end' = 0 \<or> end' > 1 then [ucast (drop_bit 8 buf AND 255)] else [])
                          @ (if end' = 0 \<or> end' > 2 then [ucast (buf AND 255)] else []))
              else b64_decode_loop src buf pos end' out))"

definition b64_decode :: "bytes \<Rightarrow> bytes option" where
  "b64_decode src = b64_decode_loop src 0 0 0 []"

section \<open>The alphabet\<close>

lemma length_BASE64: "length BASE64 = 64"
  by (simp add: BASE64_def)

lemma distinct_BASE64: "distinct BASE64"
  by (simp add: BASE64_def)

lemma BASE64_plain_all:
  "list_all (\<lambda>c. 0 < c \<and> c < 127 \<and> c \<noteq> 32 \<and> c \<noteq> 9 \<and> c \<noteq> 10 \<and> c \<noteq> 13 \<and> c \<noteq> chb CHR ''='') BASE64"
  by code_simp

lemma b64lookup_from_nth:
  "distinct xs \<Longrightarrow> i < length xs \<Longrightarrow> b64lookup_from xs (xs ! i) k = k + int i"
  by (induction xs arbitrary: i k) (auto simp: nth_Cons split: nat.splits)

lemma b64lookup_BASE64: "i < 64 \<Longrightarrow> b64lookup (BASE64 ! i) = int i"
  using b64lookup_from_nth [OF distinct_BASE64, of i 0] by (simp add: b64lookup_def length_BASE64)

lemma b64lookup_from_found:
  "0 \<le> k \<Longrightarrow> 0 \<le> b64lookup_from xs c k \<Longrightarrow>
     \<exists>i < length xs. b64lookup_from xs c k = k + int i \<and> xs ! i = c"
proof (induction xs arbitrary: k)
  case Nil
  then show ?case by simp
next
  case (Cons x xs)
  show ?case
  proof (cases "x = c")
    case False
    with Cons.prems Cons.IH [of "k + 1"] obtain i where
      "i < length xs" "b64lookup_from xs c (k + 1) = k + 1 + int i" "xs ! i = c" by auto
    with False show ?thesis by (intro exI [of _ "Suc i"]) simp
  qed auto
qed

lemma b64lookup_nonneg:
  "0 \<le> b64lookup c \<Longrightarrow> b64lookup c < 64 \<and> BASE64 ! nat (b64lookup c) = c"
  using b64lookup_from_found [of 0 BASE64 c] by (auto simp: b64lookup_def length_BASE64)

lemma and63_less: "unat (w AND 63 :: u32) < 64"
proof -
  have "w AND 63 = take_bit 6 w"
    by (simp add: take_bit_eq_mask mask_eq_exp_minus_1)
  then show ?thesis
    using take_bit_nat_less_exp [of 6 "unat w"]
    by (simp add: unsigned_take_bit_eq)
qed

lemma b64_symbol_sym: "b64_symbol (b64sym w) pos end = Some (w AND 63, end)"
proof -
  let ?i = "unat (w AND 63)"
  have i: "?i < 64" by (rule and63_less)
  have "BASE64 ! ?i \<in> set BASE64"
    using i by (simp add: length_BASE64)
  with BASE64_plain_all have "0 < BASE64 ! ?i \<and> BASE64 ! ?i < 127 \<and> BASE64 ! ?i \<noteq> 32 \<and>
      BASE64 ! ?i \<noteq> 9 \<and> BASE64 ! ?i \<noteq> 10 \<and> BASE64 ! ?i \<noteq> 13 \<and> BASE64 ! ?i \<noteq> chb CHR ''=''"
    unfolding list_all_iff by blast
  moreover have "word_of_int (int ?i) = w AND 63"
    by simp
  ultimately show ?thesis
    using b64lookup_BASE64 [OF i] unfolding b64_symbol_def b64sym_def Let_def by simp
qed

section \<open>Round trip\<close>

lemma and_63: "x AND 63 = take_bit 6 (x :: u32)"
  by (simp add: take_bit_eq_mask mask_eq_exp_minus_1)

lemma and_255: "x AND 255 = take_bit 8 (x :: u32)"
  by (simp add: take_bit_eq_mask mask_eq_exp_minus_1)

lemma shift_add_or: "push_bit 6 (x :: u32) + take_bit 6 y = push_bit 6 x OR take_bit 6 y"
  by (rule disjunctive_add) (auto simp: bit_simps)

text \<open>The 24 bits of a group, and the four sextets put back together.\<close>

definition group24 :: "byte \<Rightarrow> byte \<Rightarrow> byte \<Rightarrow> u32" where
  "group24 a b c = push_bit 16 (ucast a) OR push_bit 8 (ucast b) OR ucast c"

lemma bit_group24:
  "bit (group24 a b c) n \<longleftrightarrow>
     (if n < 8 then bit c n else if n < 16 then bit b (n - 8) else n < 24 \<and> bit a (n - 16))"
  by (auto simp: group24_def bit_simps word_nth_small_False dest: bit_imp_le_length)

lemma sextets_group:
  assumes "\<And>n. bit g n \<Longrightarrow> n < 24"
  shows "push_bit 6 (push_bit 6 (push_bit 6 (drop_bit 18 g AND 63) + (drop_bit 12 g AND 63))
           + (drop_bit 6 g AND 63)) + (g AND 63) = (g :: u32)"
  unfolding and_63 shift_add_or
proof (rule bit_word_eqI)
  fix n
  assume "n < LENGTH(32)"
  then consider "n < 6" | "6 \<le> n" "n < 12" | "12 \<le> n" "n < 18" | "18 \<le> n" "n < 24" | "24 \<le> n"
    by fastforce
  then show "bit (push_bit 6 (push_bit 6 (push_bit 6 (take_bit 6 (drop_bit 18 g)) OR
        take_bit 6 (drop_bit 12 g)) OR take_bit 6 (drop_bit 6 g)) OR take_bit 6 g) n = bit g n"
    using assms [of n] by cases (auto simp: bit_simps)
qed

lemma sextets_group24:
  "push_bit 6 (push_bit 6 (push_bit 6 (drop_bit 18 (group24 a b c) AND 63)
      + (drop_bit 12 (group24 a b c) AND 63)) + (drop_bit 6 (group24 a b c) AND 63))
      + (group24 a b c AND 63) = group24 a b c"
  by (rule sextets_group) (simp add: bit_group24 split: if_splits)

lemma group24_bytes:
  "ucast (drop_bit 16 (group24 a b c) AND 255) = a"
  "ucast (drop_bit 8 (group24 a b c) AND 255) = b"
  "ucast (group24 a b c AND 255) = c"
  unfolding and_255
  by (auto intro!: bit_word_eqI simp: bit_simps bit_group24 word_nth_small_False)

lemma encode_group:
  "b64_encode_loop (a # b # c # src) 2 0 out =
     b64_encode_loop src 2 0
       (out @ [b64sym (drop_bit 18 (group24 a b c)), b64sym (drop_bit 12 (group24 a b c)),
               b64sym (drop_bit 6 (group24 a b c)), b64sym (group24 a b c)])"
  by (simp add: group24_def Let_def or.assoc)

lemma decode_group:
  "b64_decode_loop (b64sym (drop_bit 18 g) # b64sym (drop_bit 12 g) # b64sym (drop_bit 6 g) #
      b64sym g # src) 0 0 0 out =
   (let r = push_bit 6 (push_bit 6 (push_bit 6 (drop_bit 18 g AND 63) + (drop_bit 12 g AND 63))
             + (drop_bit 6 g AND 63)) + (g AND 63)
    in b64_decode_loop src 0 0 0
         (out @ [ucast (drop_bit 16 r AND 255), ucast (drop_bit 8 r AND 255), ucast (r AND 255)]))"
  by (simp add: b64_symbol_sym Let_def)

lemma decode_group24:
  "b64_decode_loop (b64sym (drop_bit 18 (group24 a b c)) # b64sym (drop_bit 12 (group24 a b c)) #
      b64sym (drop_bit 6 (group24 a b c)) # b64sym (group24 a b c) # src) 0 0 0 out =
   b64_decode_loop src 0 0 0 (out @ [a, b, c])"
  by (simp only: decode_group sextets_group24 Let_def group24_bytes)

lemma encode_loop_out: "b64_encode_loop src pos buf out = out @ b64_encode_loop src pos buf []"
proof (induction src arbitrary: pos buf out)
  case Nil
  then show ?case by simp
next
  case (Cons s src)
  show ?case
    by (simp add: Let_def) (metis Cons.IH append_assoc append_Nil)
qed

lemma b64_symbol_pad:
  "b64_symbol (chb CHR ''='') 2 0 = Some (0, 1)"
  "b64_symbol (chb CHR ''='') 3 0 = Some (0, 2)"
  "0 < e \<Longrightarrow> b64_symbol (chb CHR ''='') pos e = Some (0, e)"
  by (simp_all add: b64_symbol_def)

lemma group24_low_zero:
  "drop_bit 6 (group24 a 0 0) AND 63 = 0" "group24 a 0 0 AND 63 = 0" "group24 a b 0 AND 63 = 0"
  unfolding and_63 by (auto intro!: bit_word_eqI simp: bit_simps bit_group24 split: if_splits)

lemma encode_tail1:
  "b64_encode_loop [a] 2 0 [] =
     [b64sym (drop_bit 18 (group24 a 0 0)), b64sym (drop_bit 12 (group24 a 0 0)),
      chb CHR ''='', chb CHR ''='']"
  by (simp add: group24_def Let_def)

lemma encode_tail2:
  "b64_encode_loop [a, b] 2 0 [] =
     [b64sym (drop_bit 18 (group24 a b 0)), b64sym (drop_bit 12 (group24 a b 0)),
      b64sym (drop_bit 6 (group24 a b 0)), chb CHR ''='']"
  by (simp add: group24_def Let_def)

lemma decode_tail1:
  "b64_decode_loop [b64sym (drop_bit 18 (group24 a 0 0)), b64sym (drop_bit 12 (group24 a 0 0)),
      chb CHR ''='', chb CHR ''=''] 0 0 0 out = Some (out @ [a])"
  using sextets_group24 [of a 0 0] group24_bytes(1) [of a 0 0]
  by (simp add: b64_symbol_sym b64_symbol_pad group24_low_zero Let_def del: chb_Char)

lemma decode_tail2:
  "b64_decode_loop [b64sym (drop_bit 18 (group24 a b 0)), b64sym (drop_bit 12 (group24 a b 0)),
      b64sym (drop_bit 6 (group24 a b 0)), chb CHR ''=''] 0 0 0 out = Some (out @ [a, b])"
  using sextets_group24 [of a b 0] group24_bytes [of a b 0]
  by (simp add: b64_symbol_sym b64_symbol_pad group24_low_zero Let_def del: chb_Char)

lemma bytes3_induct [case_names Nil One Two More]:
  assumes "P []" and "\<And>a. P [a]" and "\<And>a b. P [a, b]"
    and "\<And>a b c xs. P xs \<Longrightarrow> P (a # b # c # xs)"
  shows "P xs"
proof (induction xs rule: length_induct)
  case (1 xs)
  consider "xs = []" | a where "xs = [a]" | a b where "xs = [a, b]"
    | a b c ys where "xs = a # b # c # ys"
    by (metis neq_Nil_conv)
  then show ?case
    using assms "1.IH" by cases auto
qed

lemma decode_encode_loop:
  "b64_decode_loop (b64_encode_loop bs 2 0 []) 0 0 0 out = Some (out @ bs)"
proof (induction bs arbitrary: out rule: bytes3_induct)
  case (More a b c xs)
  let ?g = "group24 a b c"
  have "b64_encode_loop (a # b # c # xs) 2 0 [] =
      [b64sym (drop_bit 18 ?g), b64sym (drop_bit 12 ?g), b64sym (drop_bit 6 ?g), b64sym ?g]
        @ b64_encode_loop xs 2 0 []"
    unfolding encode_group by (subst encode_loop_out) simp
  then have "b64_decode_loop (b64_encode_loop (a # b # c # xs) 2 0 []) 0 0 0 out =
      b64_decode_loop (b64_encode_loop xs 2 0 []) 0 0 0 (out @ [a, b, c])"
    by (simp only: append_Cons append_Nil decode_group24)
  then show ?case
    by (simp only: More.IH append_assoc append_Cons append_Nil)
qed (simp_all only: encode_tail1 encode_tail2 decode_tail1 decode_tail2, simp)

lemma length_encode_loop: "length (b64_encode_loop bs 2 0 []) = enc_len (length bs)"
proof (induction bs rule: bytes3_induct)
  case (More a b c xs)
  have "length (b64_encode_loop (a # b # c # xs) 2 0 []) = 4 + length (b64_encode_loop xs 2 0 [])"
    unfolding encode_group by (subst encode_loop_out) simp
  moreover have "enc_len (length (a # b # c # xs)) = 4 + enc_len (length xs)"
    using div_add_self2 [of 3 "length xs + 2"] by (simp add: enc_len_def)
  ultimately show ?case
    by (simp only: More.IH)
qed (simp_all only: encode_tail1 encode_tail2, simp_all add: enc_len_def)

section \<open>What the decoder accepts\<close>

lemma b64_symbol_accepts:
  assumes "b64_symbol c pos e = Some (b, e')"
  shows "c \<in> set BASE64 \<union> {chb CHR ''=''}"
proof (cases "c = chb CHR ''=''")
  case False
  then have "0 \<le> b64lookup c"
    using assms by (auto simp: b64_symbol_def Let_def split: if_splits)
  then show ?thesis
    using b64lookup_nonneg [of c] length_BASE64 by (metis UnI1 nat_less_iff nth_mem of_nat_numeral)
qed simp

lemma decode_loop_accepts:
  "b64_decode_loop s buf pos e out = Some bs \<Longrightarrow> 0 \<le> pos \<Longrightarrow> pos < 4 \<Longrightarrow>
     set s \<subseteq> set BASE64 \<union> {chb CHR ''=''} \<and> (int (length s) + pos) mod 4 = 0"
proof (induction s buf pos e out rule: b64_decode_loop.induct)
  case (1 buf pos e out)
  then show ?case by (simp split: if_splits)
next
  case (2 c src buf pos e out)
  from "2.prems" obtain b e' where sym: "b64_symbol c pos e = Some (b, e')"
    by (auto split: option.splits prod.splits)
  show ?case
  proof (cases "pos = 3")
    case True
    with "2.prems" sym "2.IH"(1) [OF sym refl refl refl]
    show ?thesis
      using b64_symbol_accepts [OF sym] by (simp add: Let_def)
  next
    case False
    with "2.prems" sym "2.IH"(2) [OF sym refl refl refl]
    show ?thesis
      using b64_symbol_accepts [OF sym] by (simp add: Let_def algebra_simps)
  qed
qed

text \<open>A whole group without padding is the encoding of the three bytes it stands for.\<close>

lemma b64_symbol_plain:
  assumes "b64_symbol c pos e = Some (b, e')" and "c \<noteq> chb CHR ''=''"
  shows "e' = e \<and> b AND 63 = b \<and> b64sym b = c"
proof -
  have l: "0 \<le> b64lookup c" "b = word_of_int (b64lookup c)" "e' = e"
    using assms by (auto simp: b64_symbol_def Let_def split: if_splits)
  obtain k where k: "b64lookup c = int k" "k < 64" "BASE64 ! k = c"
    using b64lookup_nonneg [OF l(1)] l(1) by (metis nat_eq_iff nat_less_iff of_nat_numeral)
  have b: "b = word_of_nat k" using l(2) k(1) by simp
  have ub: "unat b = k"
    using k(2) by (simp add: b unat_of_nat)
  moreover have "b AND 63 = b"
    unfolding and_63 word_unat_eq_iff unsigned_take_bit_eq ub
    using k(2) by (simp add: take_bit_nat_eq_self)
  ultimately show ?thesis
    using l(3) k(3) by (simp add: b64sym_def)
qed

lemma shift_add_or_take: "y = take_bit 6 y \<Longrightarrow> push_bit 6 (x :: u32) + y = push_bit 6 x OR y"
  by (metis shift_add_or)

lemma sextet_of_group:
  assumes "i0 AND 63 = i0" "i1 AND 63 = i1" "i2 AND 63 = i2" "i3 AND 63 = (i3 :: u32)"
  defines "r \<equiv> push_bit 6 (push_bit 6 (push_bit 6 i0 + i1) + i2) + i3"
  shows "drop_bit 18 r AND 63 = i0" "drop_bit 12 r AND 63 = i1" "drop_bit 6 r AND 63 = i2"
    "r AND 63 = i3" "\<And>n. bit r n \<Longrightarrow> n < 24"
proof -
  have t: "i0 = take_bit 6 i0" "i1 = take_bit 6 i1" "i2 = take_bit 6 i2" "i3 = take_bit 6 i3"
    using assms(1-4) by (simp_all add: and_63)
  have r: "r = push_bit 6 (push_bit 6 (push_bit 6 i0 OR i1) OR i2) OR i3"
    unfolding r_def shift_add_or_take [OF t(2)] shift_add_or_take [OF t(3)]
      shift_add_or_take [OF t(4)] by (rule refl)
  have nb: "\<not> n < 6 \<Longrightarrow> \<not> bit i0 n" "\<not> n < 6 \<Longrightarrow> \<not> bit i1 n" "\<not> n < 6 \<Longrightarrow> \<not> bit i2 n"
    "\<not> n < 6 \<Longrightarrow> \<not> bit i3 n" for n
    using t by (metis bit_take_bit_iff)+
  have eq: "(\<And>n. n < 6 \<Longrightarrow> bit (x :: u32) n = bit y n) \<Longrightarrow> y = take_bit 6 y \<Longrightarrow> take_bit 6 x = y" for x y
    by (rule bit_word_eqI) (metis bit_take_bit_iff)
  show "drop_bit 18 r AND 63 = i0" "drop_bit 12 r AND 63 = i1" "drop_bit 6 r AND 63 = i2"
    "r AND 63 = i3"
    unfolding and_63 by (rule eq; use t in \<open>simp add: r bit_simps nb\<close>)+
  show "n < 24" if "bit r n" for n
  proof (rule ccontr)
    assume "\<not> n < 24"
    then have "\<not> n - 18 < 6" "\<not> n - 12 < 6" "\<not> n - 6 < 6" "\<not> n < 6" by auto
    with that nb show False by (simp add: r bit_simps)
  qed
qed

lemma group24_of_bytes:
  assumes "\<And>n. bit r n \<Longrightarrow> n < 24"
  shows "group24 (ucast (drop_bit 16 r AND 255)) (ucast (drop_bit 8 r AND 255)) (ucast (r AND 255)) = r"
proof (rule bit_word_eqI)
  fix n
  show "bit (group24 (ucast (drop_bit 16 r AND 255)) (ucast (drop_bit 8 r AND 255))
      (ucast (r AND 255))) n = bit r n"
    unfolding and_255 bit_group24 using assms [of n] by (auto simp: bit_simps)
qed

lemma decode_loop_Cons_plain:
  assumes "b64_decode_loop (c # src) buf pos e out = Some bs" and "c \<noteq> chb CHR ''=''"
    and "pos + 1 \<noteq> 4"
  obtains b where "b AND 63 = b" "b64sym b = c"
    "b64_decode_loop src (push_bit 6 buf + b) (pos + 1) e out = Some bs"
  using assms b64_symbol_plain [OF _ assms(2), of pos e]
  by (auto simp: Let_def split: option.splits)

lemma decode_loop_group_plain:
  assumes dec: "b64_decode_loop (c0 # c1 # c2 # c3 # src) 0 0 0 out = Some bs"
    and plain: "chb CHR ''='' \<notin> {c0, c1, c2, c3}"
  obtains x y z where "b64_decode_loop src 0 0 0 (out @ [x, y, z]) = Some bs"
    "b64_encode_loop [x, y, z] 2 0 [] = [c0, c1, c2, c3]"
proof -
  obtain i0 where i0: "i0 AND 63 = i0" "b64sym i0 = c0"
    "b64_decode_loop (c1 # c2 # c3 # src) i0 1 0 out = Some bs"
    using decode_loop_Cons_plain [OF dec] plain by fastforce
  obtain i1 where i1: "i1 AND 63 = i1" "b64sym i1 = c1"
    "b64_decode_loop (c2 # c3 # src) (push_bit 6 i0 + i1) 2 0 out = Some bs"
    using decode_loop_Cons_plain [OF i0(3)] plain by fastforce
  obtain i2 where i2: "i2 AND 63 = i2" "b64sym i2 = c2"
    "b64_decode_loop (c3 # src) (push_bit 6 (push_bit 6 i0 + i1) + i2) 3 0 out = Some bs"
    using decode_loop_Cons_plain [OF i1(3)] plain by fastforce
  obtain i3 e' where sym: "b64_symbol c3 3 0 = Some (i3, e')"
    using i2(3) by (auto split: option.splits)
  have i3: "e' = 0" "i3 AND 63 = i3" "b64sym i3 = c3"
    using b64_symbol_plain [OF sym] plain by auto
  define r where "r = push_bit 6 (push_bit 6 (push_bit 6 i0 + i1) + i2) + i3"
  define x :: byte where "x = ucast (drop_bit 16 r AND 255)"
  define y :: byte where "y = ucast (drop_bit 8 r AND 255)"
  define z :: byte where "z = ucast (r AND 255)"
  note sx = sextet_of_group [OF i0(1) i1(1) i2(1) i3(2), folded r_def]
  have g: "group24 x y z = r"
    unfolding x_def y_def z_def by (rule group24_of_bytes) (rule sx(5))
  have sym63: "b64sym w = b64sym (w AND 63)" for w
    by (simp add: b64sym_def and_63)
  have "b64_decode_loop src 0 0 0 (out @ [x, y, z]) = Some bs"
    using i2(3) sym i3(1) by (simp add: Let_def x_def y_def z_def r_def)
  moreover have "b64_encode_loop [x, y, z] 2 0 [] = [c0, c1, c2, c3]"
    unfolding encode_group g
    by (simp add: sym63 [of "drop_bit _ r"] sym63 [of r] sx i0(2) i1(2) i2(2) i3(3))
  ultimately show ?thesis by (rule that)
qed

lemma mult4_cases:
  "int (length s) mod 4 = 0 \<Longrightarrow> s = [] \<or> (\<exists>c0 c1 c2 c3 src. s = c0 # c1 # c2 # c3 # src)"
  by (cases s; cases "tl s"; cases "tl (tl s)"; cases "tl (tl (tl s))") auto

lemma encode_decode_loop:
  "b64_decode_loop s 0 0 0 out = Some bs \<Longrightarrow> chb CHR ''='' \<notin> set s \<Longrightarrow>
     \<exists>xs. bs = out @ xs \<and> b64_encode_loop xs 2 0 [] = s"
proof (induction s arbitrary: out rule: length_induct)
  case (1 s)
  have "int (length s) mod 4 = 0"
    using decode_loop_accepts [OF "1.prems"(1)] by simp
  then consider "s = []" | c0 c1 c2 c3 src where "s = c0 # c1 # c2 # c3 # src"
    using mult4_cases [of s] by fastforce
  then show ?case
  proof cases
    case 1
    with "1.prems" show ?thesis by simp
  next
    case (2 c0 c1 c2 c3 src)
    with "1.prems" obtain x y z where
        dec: "b64_decode_loop src 0 0 0 (out @ [x, y, z]) = Some bs" and
        enc: "b64_encode_loop [x, y, z] 2 0 [] = [c0, c1, c2, c3]"
      by (metis decode_loop_group_plain list.set_intros insert_iff empty_iff set_ConsD)
    obtain xs where xs: "bs = (out @ [x, y, z]) @ xs" "b64_encode_loop xs 2 0 [] = src"
      using "1.IH" dec 2 "1.prems"(2) by force
    have "b64_encode_loop ([x, y, z] @ xs) 2 0 [] = [c0, c1, c2, c3] @ src"
      using enc xs(2) encode_loop_out [of xs 2 0 "[c0, c1, c2, c3]"]
      by (simp add: Let_def)
    with xs(1) 2 show ?thesis by auto
  qed
qed

section \<open>Properties\<close>

text \<open>Decoding undoes encoding for every byte string, and the encoding has the length
  \<open>enc_len\<close> announces.\<close>

lemma base64_round_trip:
  "b64_decode (b64_encode bs) = Some bs \<and> length (b64_encode bs) = enc_len (length bs)"
  using decode_encode_loop [of bs "[]"] length_encode_loop [of bs]
  by (simp add: b64_decode_def b64_encode_def)

text \<open>An accepted text consists of alphabet and padding symbols in whole groups of four, and
  one without padding is exactly the encoding of the bytes it decodes to: without padding the
  decoder accepts canonical encodings only.\<close>

lemma base64_decode_strict:
  assumes "b64_decode s = Some bs"
  shows "set s \<subseteq> set BASE64 \<union> {chb CHR ''=''} \<and> int (length s) mod 4 = 0 \<and>
         (chb CHR ''='' \<notin> set s \<longrightarrow> b64_encode bs = s)"
  using decode_loop_accepts [of s 0 0 0 "[]" bs] encode_decode_loop [of s "[]" bs] assms
  by (auto simp: b64_decode_def b64_encode_def simp del: chb_Char)

text \<open>The decoder is not strict about padding: a padding symbol inside a group, and whole
  groups after the end sequence, are accepted (the documentation of \<open>base64.rs\<close> says a stray
  padding symbol is rejected).\<close>

lemma base64_accepts_stray_padding:
  "b64_decode (bstr ''AA=A'') = Some [0] \<and> b64_decode (bstr ''AA==QUJD'') = Some [0, 65]"
  by (simp add: b64_decode_def b64_symbol_def b64lookup_def BASE64_def)

end
