(* ===== verification/Scram.thy ===== *)
theory Scram
  imports Hmac Base64
begin

text \<open>
  The client half of SCRAM-SHA-256, \<open>crates/rlibpq/src/scram.rs\<close>: the key derivation, the parsing of
  the server's messages and the state of the exchange. An operation returns its result and the
  client behind it, also where it fails: what the code has stored before an error stays stored.

  Shown: the key derivation is PBKDF2 with one block; a server that holds the keys of RFC 5802 for
  the password verifies the proof, and its signature is accepted; a server's final message is
  accepted exactly if it carries the signature this client computes, and only behind a proof for a
  nonce that extends the client's own. \<open>is_finished\<close> also holds behind a wrong signature.
\<close>

section \<open>Keys\<close>

definition KEY_LEN :: nat where "KEY_LEN = 32"

definition SCRAM_SHA_256_NAME :: bytes where
  "SCRAM_SHA_256_NAME = bstr ''SCRAM-SHA-256''"

definition SCRAM_SHA_256_PLUS_NAME :: bytes where
  "SCRAM_SHA_256_PLUS_NAME = bstr ''SCRAM-SHA-256-PLUS''"

definition xor_bytes :: "bytes \<Rightarrow> bytes \<Rightarrow> bytes" where
  "xor_bytes a b = map2 (\<lambda>x y. x XOR y) a b"

text \<open>The loop \<^verbatim>\<open>for _ in 1..iterations\<close>, with the number of turns left.\<close>

fun salted_loop :: "nat \<Rightarrow> bytes \<Rightarrow> bytes \<Rightarrow> bytes \<Rightarrow> bytes" where
  "salted_loop 0 password ui_prev result = result"
| "salted_loop (Suc n) password ui_prev result =
     (let ui = hmac_sha256 password ui_prev in salted_loop n password ui (xor_bytes result ui))"

definition salted_password :: "bytes \<Rightarrow> bytes \<Rightarrow> u32 \<Rightarrow> bytes" where
  "salted_password password salt iterations =
     (let c = HmacSha256_update (HmacSha256_new password) salt;
          c = HmacSha256_update c (be32 1);
          ui_prev = HmacSha256_finish c
      in salted_loop (unat iterations - 1) password ui_prev ui_prev)"

definition scram_h :: "bytes \<Rightarrow> bytes" where
  "scram_h input = sha256 input"

definition client_key :: "bytes \<Rightarrow> bytes" where
  "client_key sp = hmac_sha256 sp (bstr ''Client Key'')"

definition server_key :: "bytes \<Rightarrow> bytes" where
  "server_key sp = hmac_sha256 sp (bstr ''Server Key'')"

text \<open>\<open>True\<close> if the strings differ.\<close>

definition timingsafe_bcmp :: "bytes \<Rightarrow> bytes \<Rightarrow> bool" where
  "timingsafe_bcmp b1 b2 =
     (if length b1 \<noteq> length b2 then True
      else fold (\<lambda>(a, b) ret. ret OR (a XOR b)) (zip b1 b2) 0 \<noteq> 0)"

section \<open>The client\<close>

datatype mechanism = ScramSha256 | ScramSha256Plus

definition mechanism_name :: "mechanism \<Rightarrow> bytes" where
  "mechanism_name m =
     (case m of ScramSha256 \<Rightarrow> SCRAM_SHA_256_NAME | ScramSha256Plus \<Rightarrow> SCRAM_SHA_256_PLUS_NAME)"

datatype scram_state = Init | NonceSent | ProofSent | Finished

datatype scram_error =
    EmptyMessage | LengthMismatch | AttributeExpected byte | EqualsExpected byte | NonceMismatch
  | InvalidSalt | InvalidIterationCount | GarbageAtEndOfServerFirstMessage
  | GarbageAtEndOfServerFinalMessage | ErrorFromServer bytes | InvalidServerSignature
  | IncorrectServerSignature | InvalidExchangeState | ChannelBindingNotSupported

record scram_client =
  sc_state :: scram_state
  sc_password :: bytes
  sc_mechanism :: mechanism
  sc_client_nonce :: bytes
  sc_client_first_message_bare :: bytes
  sc_client_final_message_without_proof :: bytes
  sc_server_first_message :: bytes
  sc_salt :: bytes
  sc_iterations :: u32
  sc_nonce :: bytes
  sc_salted_password :: bytes
  sc_server_signature :: bytes
  sc_appended :: "scram_error list"

definition read_attr_value :: "bytes \<Rightarrow> byte \<Rightarrow> (bytes \<times> bytes, scram_error) result" where
  "read_attr_value input attr =
     (case input of
        a # begin1 \<Rightarrow>
          if a \<noteq> attr then Err (AttributeExpected attr)
          else (case begin1 of
                  e # begin2 \<Rightarrow>
                    if e \<noteq> chb CHR ''='' then Err (EqualsExpected attr)
                    else let v = takeWhile (\<lambda>c. c \<noteq> chb CHR '','') begin2 in
                      Ok (v, drop (length v + 1) begin2)
                | [] \<Rightarrow> Err (EqualsExpected attr))
      | [] \<Rightarrow> Err (AttributeExpected attr))"

definition saslprep :: "bytes \<Rightarrow> bytes" where
  "saslprep password = password"

definition ScramClient_new :: "bytes \<Rightarrow> mechanism \<Rightarrow> bytes \<Rightarrow> scram_client" where
  "ScramClient_new password mechanism raw_nonce =
     \<lparr> sc_state = Init, sc_password = saslprep password, sc_mechanism = mechanism,
       sc_client_nonce = b64_encode raw_nonce, sc_client_first_message_bare = [],
       sc_client_final_message_without_proof = [], sc_server_first_message = [], sc_salt = [],
       sc_iterations = 0, sc_nonce = [], sc_salted_password = replicate KEY_LEN 0,
       sc_server_signature = replicate KEY_LEN 0, sc_appended = [] \<rparr>"

definition channel_bound :: "scram_client \<Rightarrow> bool" where
  "channel_bound c = (sc_state c = Finished \<and> sc_mechanism c = ScramSha256Plus)"

definition is_finished :: "scram_client \<Rightarrow> bool" where
  "is_finished c = (sc_state c = Finished)"

definition client_first_message :: "scram_client \<Rightarrow> (bytes, scram_error) result \<times> scram_client" where
  "client_first_message c =
     (if sc_state c \<noteq> Init then (Err InvalidExchangeState, c)
      else if sc_mechanism c = ScramSha256Plus then (Err ChannelBindingNotSupported, c)
      else let bare = bstr ''n=,r='' @ sc_client_nonce c in
        (Ok (bstr ''n,,'' @ bare), c\<lparr> sc_client_first_message_bare := bare, sc_state := NonceSent \<rparr>))"

definition check_message :: "bytes \<Rightarrow> (unit, scram_error) result" where
  "check_message input =
     (if input = [] then Err EmptyMessage
      else if 0 \<in> set input then Err LengthMismatch
      else Ok ())"

text \<open>\<open>str::parse::<u32>\<close>: digits, behind an optional plus sign; a value that does not fit is
  refused.\<close>

definition u32_from_str :: "bytes \<Rightarrow> u32 option" where
  "u32_from_str s =
     (let ds = (case s of c # cs \<Rightarrow> if c = chb CHR ''+'' then cs else s | [] \<Rightarrow> []) in
      if ds \<noteq> [] \<and> list_all is_ascii_digit ds \<and> dec_value ds < 2 ^ 32
      then Some (of_nat (dec_value ds)) else None)"

definition read_server_first_message ::
  "bytes \<Rightarrow> scram_client \<Rightarrow> (unit, scram_error) result \<times> scram_client" where
  "read_server_first_message input c =
     (let c = c\<lparr> sc_server_first_message := input \<rparr> in
      case read_attr_value input (chb CHR ''r'') of
        Err e \<Rightarrow> (Err e, c)
      | Ok (nonce, rest) \<Rightarrow>
          if length nonce < length (sc_client_nonce c) \<or>
             timingsafe_bcmp (take (length (sc_client_nonce c)) nonce) (sc_client_nonce c)
          then (Err NonceMismatch, c)
          else let c = c\<lparr> sc_nonce := nonce \<rparr> in
            (case read_attr_value rest (chb CHR ''s'') of
               Err e \<Rightarrow> (Err e, c)
             | Ok (encoded_salt, rest) \<Rightarrow>
                 (case b64_decode encoded_salt of
                    None \<Rightarrow> (Err InvalidSalt, c)
                  | Some salt \<Rightarrow>
                      let c = c\<lparr> sc_salt := salt \<rparr> in
                      (case read_attr_value rest (chb CHR ''i'') of
                         Err e \<Rightarrow> (Err e, c)
                       | Ok (iterations, rest) \<Rightarrow>
                           (case u32_from_str iterations of
                              None \<Rightarrow> (Err InvalidIterationCount, c)
                            | Some i \<Rightarrow>
                                if i < 1 then (Err InvalidIterationCount, c)
                                else let c = c\<lparr> sc_iterations := i \<rparr> in
                                  (Ok (), if rest \<noteq> []
                                    then c\<lparr> sc_appended := sc_appended c @ [GarbageAtEndOfServerFirstMessage] \<rparr>
                                    else c))))))"

text \<open>The HMAC over the three messages, fed in five pieces.\<close>

definition auth_signature :: "bytes \<Rightarrow> scram_client \<Rightarrow> bytes" where
  "auth_signature key c =
     (let h = HmacSha256_new key;
          h = HmacSha256_update h (sc_client_first_message_bare c);
          h = HmacSha256_update h (bstr '','');
          h = HmacSha256_update h (sc_server_first_message c);
          h = HmacSha256_update h (bstr '','');
          h = HmacSha256_update h (sc_client_final_message_without_proof c)
      in HmacSha256_finish h)"

definition calculate_client_proof :: "scram_client \<Rightarrow> bytes \<times> scram_client" where
  "calculate_client_proof c =
     (let c = c\<lparr> sc_salted_password :=
                   salted_password (sc_password c) (sc_salt c) (sc_iterations c) \<rparr>;
          ck = client_key (sc_salted_password c);
          stored_key = scram_h ck;
          client_signature = auth_signature stored_key c
      in (map (\<lambda>i. ck ! i XOR client_signature ! i) [0..<KEY_LEN], c))"

definition client_final_message ::
  "scram_client \<Rightarrow> bytes \<Rightarrow> (bytes, scram_error) result \<times> scram_client" where
  "client_final_message c server_first =
     (if sc_state c \<noteq> NonceSent then (Err InvalidExchangeState, c)
      else case check_message server_first of
        Err e \<Rightarrow> (Err e, c)
      | Ok _ \<Rightarrow>
          (case read_server_first_message server_first c of
             (Err e, c) \<Rightarrow> (Err e, c)
           | (Ok _, c) \<Rightarrow>
               let c = c\<lparr> sc_client_final_message_without_proof := bstr ''c=biws,r='' @ sc_nonce c \<rparr>;
                   (proof, c) = calculate_client_proof c;
                   out = sc_client_final_message_without_proof c @ bstr '',p='' @ b64_encode proof
               in (Ok out, c\<lparr> sc_state := ProofSent \<rparr>)))"

definition read_server_final_message ::
  "bytes \<Rightarrow> scram_client \<Rightarrow> (unit, scram_error) result \<times> scram_client" where
  "read_server_final_message input c =
     (if (case input of [] \<Rightarrow> False | b # _ \<Rightarrow> b = chb CHR ''e'') then
        (case read_attr_value input (chb CHR ''e'') of
           Err e \<Rightarrow> (Err e, c) | Ok (errmsg, _) \<Rightarrow> (Err (ErrorFromServer errmsg), c))
      else case read_attr_value input (chb CHR ''v'') of
        Err e \<Rightarrow> (Err e, c)
      | Ok (encoded_signature, rest) \<Rightarrow>
          let c = (if rest \<noteq> []
                   then c\<lparr> sc_appended := sc_appended c @ [GarbageAtEndOfServerFinalMessage] \<rparr> else c);
              decoded = (case b64_decode encoded_signature of Some d \<Rightarrow> d | None \<Rightarrow> [])
          in if length decoded \<noteq> KEY_LEN then (Err InvalidServerSignature, c)
             else (Ok (), c\<lparr> sc_server_signature := decoded \<rparr>))"

definition verify_server_final_message ::
  "scram_client \<Rightarrow> bytes \<Rightarrow> (unit, scram_error) result \<times> scram_client" where
  "verify_server_final_message c server_final =
     (if sc_state c \<noteq> ProofSent then (Err InvalidExchangeState, c)
      else case check_message server_final of
        Err e \<Rightarrow> (Err e, c)
      | Ok _ \<Rightarrow>
          (case read_server_final_message server_final c of
             (Err e, c) \<Rightarrow> (Err e, c)
           | (Ok _, c) \<Rightarrow>
               let expected = auth_signature (server_key (sc_salted_password c)) c;
                   c = c\<lparr> sc_state := Finished \<rparr>
               in if timingsafe_bcmp expected (sc_server_signature c)
                  then (Err IncorrectServerSignature, c) else (Ok (), c)))"

section \<open>Keys and signatures\<close>

lemma word_xor_0_iff: "a XOR b = 0 \<longleftrightarrow> a = (b :: 'a::len word)"
  by (auto simp: bit_eq_iff bit_simps)

lemma bcmp_fold:
  "length (b1 :: bytes) = length b2 \<Longrightarrow>
   fold (\<lambda>(a, b) ret. ret OR (a XOR b)) (zip b1 b2) r = 0 \<longleftrightarrow> r = 0 \<and> b1 = b2"
  by (induction b1 b2 arbitrary: r rule: list_induct2) (auto simp: or_eq_0_iff word_xor_0_iff)

lemma timingsafe_bcmp_iff [simp]: "timingsafe_bcmp b1 b2 \<longleftrightarrow> b1 \<noteq> b2"
  using bcmp_fold [of b1 b2 0] by (auto simp: timingsafe_bcmp_def)

text \<open>PBKDF2 with one block of output (RFC 8018): \<open>U\<close> is the chain of HMACs.\<close>

fun pbkdf_U :: "bytes \<Rightarrow> bytes \<Rightarrow> nat \<Rightarrow> bytes" where
  "pbkdf_U P S 0 = rfc_hmac P (S @ [0, 0, 0, 1])"
| "pbkdf_U P S (Suc k) = rfc_hmac P (pbkdf_U P S k)"

definition pbkdf2 :: "bytes \<Rightarrow> bytes \<Rightarrow> nat \<Rightarrow> bytes" where
  "pbkdf2 P S i = fold (\<lambda>k r. xor_bytes r (pbkdf_U P S k)) [1..<i] (pbkdf_U P S 0)"

lemma salted_loop_pbkdf2:
  "salted_loop n P (pbkdf_U P S k) r =
     fold (\<lambda>k r. xor_bytes r (pbkdf_U P S k)) [Suc k..<Suc (k + n)] r"
proof (induction n arbitrary: k r)
  case (Suc n)
  have "[Suc k..<Suc (k + Suc n)] = Suc k # [Suc (Suc k)..<Suc (Suc k + n)]"
    by (simp add: upt_conv_Cons del: upt_Suc)
  then show ?case
    using Suc.IH [of "Suc k"] by (simp add: hmac_rfc del: upt_Suc)
qed simp

lemma salted_password_pbkdf2: "salted_password P S i = pbkdf2 P S (unat i)"
proof -
  have "HmacSha256_finish (HmacSha256_update (HmacSha256_update (HmacSha256_new P) S) (be32 1)) =
      pbkdf_U P S 0"
    using hmac.finish_fold [of "[S, be32 1]" P] by (simp add: be32_def)
  then show ?thesis
    using salted_loop_pbkdf2 [of "unat i - 1" P S 0 "pbkdf_U P S 0"]
    by (cases "unat i") (simp_all add: salted_password_def pbkdf2_def)
qed

lemma length_pbkdf2 [simp]: "length (pbkdf2 P S i) = 32"
proof -
  have U: "length (pbkdf_U P S k) = 32" for k
    by (cases k) simp_all
  have "length r = 32 \<Longrightarrow> length (fold (\<lambda>k r. xor_bytes r (pbkdf_U P S k)) ks r) = 32" for ks r
    by (induction ks arbitrary: r) (simp_all add: xor_bytes_def U)
  then show ?thesis
    using U by (simp add: pbkdf2_def)
qed

text \<open>The signed text of RFC 5802: the three messages joined by commas.\<close>

definition auth_message :: "bytes \<Rightarrow> bytes \<Rightarrow> bytes \<Rightarrow> bytes" where
  "auth_message first_bare server_first without_proof =
     first_bare @ bstr '','' @ server_first @ bstr '','' @ without_proof"

lemma auth_signature_hmac:
  "auth_signature key c =
     rfc_hmac key (auth_message (sc_client_first_message_bare c) (sc_server_first_message c)
       (sc_client_final_message_without_proof c))"
  using hmac.finish_fold [of "[sc_client_first_message_bare c, bstr '','', sc_server_first_message c,
    bstr '','', sc_client_final_message_without_proof c]" key]
  by (simp add: auth_signature_def auth_message_def Let_def)

lemma client_key_hmac: "client_key sp = rfc_hmac sp (bstr ''Client Key'')"
  by (simp add: client_key_def hmac_rfc)

lemma server_key_hmac: "server_key sp = rfc_hmac sp (bstr ''Server Key'')"
  by (simp add: server_key_def hmac_rfc)

lemma b64_decode_encode [simp]: "b64_decode (b64_encode bs) = Some bs"
  using decode_encode_loop [of bs "[]"] by (simp add: b64_decode_def b64_encode_def)

section \<open>A genuine server\<close>

text \<open>The server of RFC 5802, which keeps the salt, the iteration count and two keys.\<close>

definition server_first_message :: "bytes \<Rightarrow> bytes \<Rightarrow> bytes \<Rightarrow> nat \<Rightarrow> bytes" where
  "server_first_message cnonce snonce salt i =
     bstr ''r='' @ (cnonce @ snonce) @ bstr '',s='' @ b64_encode salt @ bstr '',i='' @ dec_digits i"

definition stored_key :: "bytes \<Rightarrow> bytes" where
  "stored_key sp = fips_sha256 (rfc_hmac sp (bstr ''Client Key''))"

definition server_verifies :: "bytes \<Rightarrow> bytes \<Rightarrow> bytes \<Rightarrow> bool" where
  "server_verifies sp am proof \<longleftrightarrow>
     fips_sha256 (xor_bytes proof (rfc_hmac (stored_key sp) am)) = stored_key sp"

definition server_signature :: "bytes \<Rightarrow> bytes \<Rightarrow> bytes" where
  "server_signature sp am = rfc_hmac (rfc_hmac sp (bstr ''Server Key'')) am"

lemma read_attr_value_block:
  assumes "44 \<notin> set v"
  shows "read_attr_value (a # 61 # v @ 44 # rest) a = Ok (v, rest)"
    and "read_attr_value (a # 61 # v) a = Ok (v, [])"
proof -
  have "takeWhile (\<lambda>c. c \<noteq> 44) (v @ 44 # rest) = v" "takeWhile (\<lambda>c. c \<noteq> 44) v = v"
    using assms by (auto simp: takeWhile_eq_all_conv takeWhile_append)
  then show "read_attr_value (a # 61 # v @ 44 # rest) a = Ok (v, rest)"
      "read_attr_value (a # 61 # v) a = Ok (v, [])"
    by (simp_all add: read_attr_value_def Let_def del: takeWhile_eq_all_conv)
qed

lemma b64_encode_symbols: "c \<in> set (b64_encode bs) \<Longrightarrow> c \<noteq> 44 \<and> c \<noteq> 0"
proof -
  assume "c \<in> set (b64_encode bs)"
  moreover have "set (b64_encode bs) \<subseteq> set BASE64 \<union> {chb CHR ''=''}"
    using decode_loop_accepts [of "b64_encode bs" 0 0 0 "[]" bs] decode_encode_loop [of bs "[]"]
    by (auto simp: b64_encode_def)
  moreover have "list_all (\<lambda>c. c \<noteq> 44 \<and> c \<noteq> 0) BASE64"
    unfolding BASE64_def by code_simp
  ultimately show ?thesis
    by (auto simp: list_all_iff)
qed

lemma dec_digits_symbols: "c \<in> set (dec_digits n) \<Longrightarrow> c \<noteq> 44 \<and> c \<noteq> 0 \<and> c \<noteq> 43"
  using dec_digits_digits [of n] by (auto simp: list_all_iff is_ascii_digit_def)

lemma u32_from_dec_digits:
  assumes "n < 2 ^ 32"
  shows "u32_from_str (dec_digits n) = Some (of_nat n)"
proof -
  obtain d ds where d: "dec_digits n = d # ds"
    by (cases "dec_digits n") auto
  then have "d \<noteq> 43"
    using dec_digits_symbols [of d n] by simp
  then show ?thesis
    using d assms dec_digits_digits [of n] dec_value_digits [of n] by (simp add: u32_from_str_def)
qed

lemma map_nth_xor: "length a = n \<Longrightarrow> length b = n \<Longrightarrow> map (\<lambda>i. a ! i XOR b ! i) [0..<n] = xor_bytes a b"
  by (auto simp: xor_bytes_def intro!: nth_equalityI)

lemma xor_bytes_twice: "length a = length b \<Longrightarrow> xor_bytes (xor_bytes a b) b = a"
proof (induction a b rule: list_induct2)
  case (Cons x xs y ys)
  have "(x XOR y) XOR y = x"
    by (rule bit_word_eqI) (auto simp: bit_simps)
  then show ?case
    using Cons.IH by (simp add: xor_bytes_def)
qed (simp add: xor_bytes_def)

lemma read_genuine_first:
  assumes "44 \<notin> set snonce" and "1 \<le> i" "i < 2 ^ 32" and cn: "sc_client_nonce c = b64_encode raw"
  shows "read_server_first_message (server_first_message (b64_encode raw) snonce salt i) c =
    (Ok (), c\<lparr> sc_server_first_message := server_first_message (b64_encode raw) snonce salt i,
       sc_nonce := b64_encode raw @ snonce, sc_salt := salt, sc_iterations := of_nat i \<rparr>)"
proof -
  let ?n = "b64_encode raw @ snonce"
  have m: "server_first_message (b64_encode raw) snonce salt i =
      114 # 61 # ?n @ 44 # (115 # 61 # b64_encode salt @ 44 # (105 # 61 # dec_digits i))"
    by (simp add: server_first_message_def)
  have n: "44 \<notin> set ?n"
    using assms(1) b64_encode_symbols [of 44 raw] by auto
  have s: "44 \<notin> set (b64_encode salt)"
    using b64_encode_symbols [of 44 salt] by auto
  have d: "44 \<notin> set (dec_digits i)"
    using dec_digits_symbols [of 44 i] by auto
  have "\<not> (of_nat i :: u32) < 1"
    using assms(2,3) by (simp add: word_less_nat_alt unat_of_nat)
  then show ?thesis
    unfolding m
    using read_attr_value_block(1) [OF n, of 114] read_attr_value_block(1) [OF s, of 115]
      read_attr_value_block(2) [OF d, of 105] u32_from_dec_digits [OF assms(3)] cn
    by (simp add: read_server_first_message_def Let_def)
qed

text \<open>The acceptance of a final message, in terms of the signature it carries.\<close>

definition carries_signature :: "bytes \<Rightarrow> bytes \<Rightarrow> bool" where
  "carries_signature f sig \<longleftrightarrow>
     0 \<notin> set f \<and> (\<exists>v rest. read_attr_value f (chb CHR ''v'') = Ok (v, rest) \<and> b64_decode v = Some sig)"

lemma read_attr_value_first: "read_attr_value f a = Ok r \<Longrightarrow> \<exists>f'. f = a # f'"
  by (auto simp: read_attr_value_def split: list.splits if_splits)

lemma read_final_Ok:
  "fst (read_server_final_message f c) = Ok () \<longleftrightarrow>
     (\<exists>v rest d. read_attr_value f (chb CHR ''v'') = Ok (v, rest) \<and> b64_decode v = Some d \<and> length d = 32)"
proof (cases "read_attr_value f (chb CHR ''v'')")
  case (Ok r)
  obtain v rest where r: "r = (v, rest)"
    by (cases r)
  obtain f' where "f = 118 # f'"
    using read_attr_value_first [OF Ok] by auto
  then show ?thesis
    using Ok r by (auto simp: read_server_final_message_def KEY_LEN_def Let_def split: option.splits)
next
  case (Err e)
  then show ?thesis
    by (auto simp: read_server_final_message_def split: list.splits result.splits)
qed

lemma read_final_state:
  assumes "read_server_final_message f c = (Ok (), c')"
  shows "\<exists>v rest d a. read_attr_value f (chb CHR ''v'') = Ok (v, rest) \<and> b64_decode v = Some d \<and>
    length d = 32 \<and> c' = c\<lparr> sc_appended := a, sc_server_signature := d \<rparr>"
proof -
  obtain v rest d where v: "read_attr_value f (chb CHR ''v'') = Ok (v, rest)" "b64_decode v = Some d"
      "length d = 32"
    using assms read_final_Ok [of f c] by auto
  obtain f' where "f = 118 # f'"
    using read_attr_value_first [OF v(1)] by auto
  then have "\<exists>a. c' = c\<lparr> sc_appended := a, sc_server_signature := d \<rparr>"
    using assms v
    by (auto simp: read_server_final_message_def KEY_LEN_def Let_def
        intro: exI [of _ "sc_appended c"] split: if_splits)
  then show ?thesis
    using v by blast
qed

definition expected_signature :: "scram_client \<Rightarrow> bytes" where
  "expected_signature c =
     server_signature (sc_salted_password c)
       (auth_message (sc_client_first_message_bare c) (sc_server_first_message c)
          (sc_client_final_message_without_proof c))"

lemma auth_signature_expected:
  "auth_signature (server_key (sc_salted_password c)) c = expected_signature c"
  by (simp add: auth_signature_hmac server_key_hmac expected_signature_def server_signature_def)

lemma length_expected [simp]: "length (expected_signature c) = 32"
  by (simp add: expected_signature_def server_signature_def)

lemma expected_signature_cong:
  "expected_signature (c\<lparr> sc_appended := a, sc_server_signature := d \<rparr>) = expected_signature c"
  by (simp add: expected_signature_def)

lemma check_message_Ok: "check_message f = Ok u \<longleftrightarrow> f \<noteq> [] \<and> 0 \<notin> set f"
  by (auto simp: check_message_def)

lemma verify_Ok_iff:
  "fst (verify_server_final_message c f) = Ok () \<longleftrightarrow>
     sc_state c = ProofSent \<and> carries_signature f (expected_signature c)"
proof -
  have "fst (verify_server_final_message c f) = Ok ()"
    if st: "sc_state c = ProofSent" and sig: "carries_signature f (expected_signature c)"
  proof -
    obtain v rest where v: "0 \<notin> set f" "read_attr_value f (chb CHR ''v'') = Ok (v, rest)"
        "b64_decode v = Some (expected_signature c)"
      using sig by (auto simp: carries_signature_def)
    have "f \<noteq> []"
      using read_attr_value_first [OF v(2)] by auto
    then have ck: "check_message f = Ok ()"
      using v(1) by (simp add: check_message_Ok)
    obtain c' where c': "read_server_final_message f c = (Ok (), c')"
      using read_final_Ok [of f c] v by (metis length_expected surj_pair fst_conv)
    have "sc_server_signature c' = expected_signature c" "expected_signature c' = expected_signature c"
      using read_final_state [OF c'] v by (auto simp: expected_signature_cong)
    then show ?thesis
      using st ck c'
      by (simp add: verify_server_final_message_def auth_signature_expected Let_def)
  qed
  moreover have "sc_state c = ProofSent \<and> carries_signature f (expected_signature c)"
    if ok: "fst (verify_server_final_message c f) = Ok ()"
  proof -
    have st: "sc_state c = ProofSent"
      using ok by (auto simp: verify_server_final_message_def split: if_splits)
    have ck: "check_message f = Ok ()"
      using ok st by (cases "check_message f") (auto simp: verify_server_final_message_def)
    obtain c' where c': "read_server_final_message f c = (Ok (), c')"
      using ok st ck by (cases "read_server_final_message f c")
        (auto simp: verify_server_final_message_def split: result.splits)
    obtain v rest d a where v: "read_attr_value f (chb CHR ''v'') = Ok (v, rest)" "b64_decode v = Some d"
        "c' = c\<lparr> sc_appended := a, sc_server_signature := d \<rparr>"
      using read_final_state [OF c'] by blast
    have "expected_signature c' = sc_server_signature c'"
      using ok st ck c' by (simp add: verify_server_final_message_def auth_signature_expected Let_def
          split: if_splits)
    moreover have "expected_signature c' = expected_signature c" "sc_server_signature c' = d"
      using v(3) by (simp_all add: expected_signature_cong)
    ultimately show ?thesis
      using st ck v by (auto simp: carries_signature_def check_message_Ok)
  qed
  ultimately show ?thesis
    by blast
qed

section \<open>The exchange as a machine\<close>

definition scram_init :: "scram_client \<Rightarrow> bool" where
  "scram_init c \<longleftrightarrow> (\<exists>password mechanism raw. c = ScramClient_new password mechanism raw)"

inductive scram_step :: "scram_client \<Rightarrow> scram_client \<Rightarrow> bool" where
  first: "client_first_message c = (r, c') \<Longrightarrow> scram_step c c'"
| final: "client_final_message c m = (r, c') \<Longrightarrow> scram_step c c'"
| verify: "verify_server_final_message c m = (r, c') \<Longrightarrow> scram_step c c'"

text \<open>What holds of a client by the state of its exchange.\<close>

definition nonce_sent :: "scram_client \<Rightarrow> bool" where
  "nonce_sent c \<longleftrightarrow>
     sc_mechanism c = ScramSha256 \<and> sc_client_first_message_bare c = bstr ''n=,r='' @ sc_client_nonce c"

definition proof_sent :: "scram_client \<Rightarrow> bool" where
  "proof_sent c \<longleftrightarrow>
     (\<exists>snonce. sc_nonce c = sc_client_nonce c @ snonce) \<and> sc_iterations c \<noteq> 0 \<and>
     sc_client_final_message_without_proof c = bstr ''c=biws,r='' @ sc_nonce c \<and>
     sc_salted_password c = pbkdf2 (sc_password c) (sc_salt c) (unat (sc_iterations c))"

definition scram_inv :: "scram_client \<Rightarrow> bool" where
  "scram_inv c \<longleftrightarrow>
     (sc_state c \<noteq> Init \<longrightarrow> nonce_sent c) \<and>
     (sc_state c = ProofSent \<or> sc_state c = Finished \<longrightarrow> proof_sent c)"

text \<open>Reading the first message touches the fields it fills only; an accepted one extends the
  nonce.\<close>

lemma read_first_frame:
  assumes "read_server_first_message m c = (r, c')"
  shows "sc_state c' = sc_state c \<and> sc_mechanism c' = sc_mechanism c \<and>
    sc_client_nonce c' = sc_client_nonce c \<and> sc_password c' = sc_password c \<and>
    sc_client_first_message_bare c' = sc_client_first_message_bare c"
  using assms
  by (auto simp: read_server_first_message_def Let_def
      split: result.splits prod.splits option.splits if_splits)

lemma read_first_Ok:
  assumes "read_server_first_message m c = (Ok u, c')"
  shows "(\<exists>snonce. sc_nonce c' = sc_client_nonce c' @ snonce) \<and> sc_iterations c' \<noteq> 0"
proof -
  have "take (length (sc_client_nonce c')) (sc_nonce c') = sc_client_nonce c' \<and> sc_iterations c' \<noteq> 0"
    using assms
    by (auto simp: read_server_first_message_def Let_def not_less
        split: result.splits prod.splits option.splits if_splits)
  then show ?thesis
    by (metis append_take_drop_id)
qed

lemma client_final_cases:
  assumes "client_final_message c m = (r, c')"
  shows "(c' = c) \<or>
    (\<exists>e. sc_state c = NonceSent \<and> read_server_first_message m c = (Err e, c')) \<or>
    (\<exists>c1. sc_state c = NonceSent \<and> read_server_first_message m c = (Ok (), c1) \<and>
       c' = c1\<lparr> sc_client_final_message_without_proof := bstr ''c=biws,r='' @ sc_nonce c1,
         sc_salted_password := pbkdf2 (sc_password c1) (sc_salt c1) (unat (sc_iterations c1)),
         sc_state := ProofSent \<rparr>)"
proof (cases "sc_state c = NonceSent \<and> check_message m = Ok ()")
  case True
  obtain r1 c1 where "read_server_first_message m c = (r1, c1)"
    by (cases "read_server_first_message m c")
  then show ?thesis
    using True assms
    by (cases r1)
      (auto simp: client_final_message_def calculate_client_proof_def salted_password_pbkdf2 Let_def)
next
  case False
  then show ?thesis
    using assms by (auto simp: client_final_message_def split: if_splits result.splits)
qed

lemma verify_cases:
  assumes "verify_server_final_message c m = (r, c')"
  shows "\<exists>a sig. c' = c\<lparr> sc_appended := a, sc_server_signature := sig \<rparr> \<or>
    sc_state c = ProofSent \<and> c' = c\<lparr> sc_appended := a, sc_server_signature := sig, sc_state := Finished \<rparr>"
proof -
  have same: "\<exists>a sig. c = c\<lparr> sc_appended := a, sc_server_signature := sig \<rparr>" for c :: scram_client
    by (intro exI [of _ "sc_appended c"] exI [of _ "sc_server_signature c"]) simp
  have frame: "c1 = c\<lparr> sc_appended := sc_appended c1, sc_server_signature := sc_server_signature c1 \<rparr>"
    if "read_server_final_message m c = (r1, c1)" for r1 c1
    using that
    by (auto simp: read_server_final_message_def Let_def
        split: result.splits prod.splits option.splits if_splits)
  show ?thesis
  proof (cases "sc_state c = ProofSent \<and> check_message m = Ok ()")
    case True
    obtain r1 c1 where r1: "read_server_final_message m c = (r1, c1)"
      by (cases "read_server_final_message m c")
    obtain a sig where "c1 = c\<lparr> sc_appended := a, sc_server_signature := sig \<rparr>"
      using frame [OF r1] by blast
    moreover have "c' = c1 \<or> c' = c1\<lparr> sc_state := Finished \<rparr>"
      using True assms r1
      by (cases r1) (auto simp: verify_server_final_message_def Let_def split: if_splits)
    ultimately show ?thesis
      using True by blast
  next
    case False
    then have "c' = c"
      using assms by (auto simp: verify_server_final_message_def split: if_splits result.splits)
    then show ?thesis
      using same [of c] by blast
  qed
qed

interpretation scram: machine scram_init scram_step scram_inv
proof unfold_locales
  fix c
  assume "scram_init c"
  then show "scram_inv c"
    by (auto simp: scram_init_def scram_inv_def ScramClient_new_def)
next
  fix c c'
  assume inv: "scram_inv c" and "scram_step c c'"
  from \<open>scram_step c c'\<close> show "scram_inv c'"
  proof cases
    case (first r)
    then show ?thesis
      using inv by (cases "sc_mechanism c")
        (auto simp: client_first_message_def scram_inv_def nonce_sent_def Let_def split: if_splits)
  next
    case (final m r)
    then show ?thesis
      using client_final_cases [OF final]
    proof (elim disjE exE conjE)
      assume "c' = c"
      then show ?thesis
        using inv by simp
    next
      fix e
      assume "sc_state c = NonceSent" "read_server_first_message m c = (Err e, c')"
      then show ?thesis
        using inv read_first_frame [of m c "Err e" c'] by (simp add: scram_inv_def nonce_sent_def)
    next
      fix c1
      assume "sc_state c = NonceSent" and c1: "read_server_first_message m c = (Ok (), c1)"
        and c': "c' = c1\<lparr> sc_client_final_message_without_proof := bstr ''c=biws,r='' @ sc_nonce c1,
          sc_salted_password := pbkdf2 (sc_password c1) (sc_salt c1) (unat (sc_iterations c1)),
          sc_state := ProofSent \<rparr>"
      then show ?thesis
        using inv read_first_frame [OF c1] read_first_Ok [OF c1]
        by (simp add: scram_inv_def nonce_sent_def proof_sent_def del: bstr_Cons)
    qed
  next
    case (verify m r)
    then show ?thesis
      using verify_cases [OF verify] inv
      by (auto simp: scram_inv_def nonce_sent_def proof_sent_def)
  qed
qed

lemma verify_finished:
  assumes "verify_server_final_message c f = (r, c')" and "r = Ok () \<or> r = Err IncorrectServerSignature"
  shows "is_finished c'"
  using assms
  by (auto simp: verify_server_final_message_def read_server_final_message_def check_message_def
      read_attr_value_def is_finished_def Let_def
      split: if_splits result.splits prod.splits list.splits)

section \<open>Theorems\<close>

text \<open>The signed text of an exchange.\<close>

definition exchange_text :: "bytes \<Rightarrow> bytes \<Rightarrow> bytes \<Rightarrow> bytes" where
  "exchange_text cnonce server_first nonce =
     auth_message (bstr ''n=,r='' @ cnonce) server_first (bstr ''c=biws,r='' @ nonce)"

lemma genuine_no_nul:
  assumes "0 \<notin> set snonce"
  shows "0 \<notin> set (server_first_message (b64_encode raw) snonce salt i)"
  using assms b64_encode_symbols [of 0 raw] b64_encode_symbols [of 0 salt] dec_digits_symbols [of 0 i]
  by (auto simp: server_first_message_def)

lemma genuine_final_message:
  fixes salt :: bytes
  assumes "44 \<notin> set snonce" "0 \<notin> set snonce" and "1 \<le> i" "i < 2 ^ 32"
    and st: "sc_state c = NonceSent" and nonce: "sc_client_nonce c = b64_encode raw"
    and bare: "sc_client_first_message_bare c = bstr ''n=,r='' @ b64_encode raw"
  defines "sf \<equiv> server_first_message (b64_encode raw) snonce salt i"
  defines "sp \<equiv> pbkdf2 (sc_password c) salt i"
  defines "am \<equiv> exchange_text (b64_encode raw) sf (b64_encode raw @ snonce)"
  shows "\<exists>c' proof. client_final_message c sf =
      (Ok (bstr ''c=biws,r='' @ (b64_encode raw @ snonce) @ bstr '',p='' @ b64_encode proof), c') \<and>
    server_verifies sp am proof \<and> sc_state c' = ProofSent \<and>
    expected_signature c' = server_signature sp am"
proof -
  define c1 where "c1 = c\<lparr> sc_server_first_message := sf, sc_nonce := b64_encode raw @ snonce,
    sc_salt := salt, sc_iterations := of_nat i \<rparr>"
  define c2 where "c2 = c1\<lparr> sc_client_final_message_without_proof :=
    bstr ''c=biws,r='' @ b64_encode raw @ snonce \<rparr>"
  define c3 where "c3 = c2\<lparr> sc_salted_password := sp \<rparr>"
  have rd: "read_server_first_message sf c = (Ok (), c1)"
    using read_genuine_first [OF assms(1,3,4) nonce] by (simp add: sf_def c1_def)
  have ck: "check_message sf = Ok ()"
    using genuine_no_nul [OF assms(2), of raw salt i]
    by (simp add: sf_def check_message_Ok server_first_message_def)
  have i: "unat (of_nat i :: u32) = i"
    using assms(4) by (simp add: unat_of_nat)
  have sp: "salted_password (sc_password c2) (sc_salt c2) (sc_iterations c2) = sp"
    using i by (simp add: salted_password_pbkdf2 sp_def c1_def c2_def)
  have am: "auth_message (sc_client_first_message_bare c3) (sc_server_first_message c3)
      (sc_client_final_message_without_proof c3) = am"
    using bare by (simp add: c1_def c2_def c3_def am_def exchange_text_def)
  define p where "p = xor_bytes (rfc_hmac sp (bstr ''Client Key'')) (rfc_hmac (stored_key sp) am)"
  have computed: "calculate_client_proof c2 = (p, c3)"
    using sp am map_nth_xor [of "rfc_hmac sp (bstr ''Client Key'')" 32 "rfc_hmac (stored_key sp) am"]
    by (simp add: calculate_client_proof_def c3_def p_def Let_def auth_signature_hmac client_key_hmac
        scram_h_def sha256_fips stored_key_def KEY_LEN_def)
  have "client_final_message c sf =
      (Ok (bstr ''c=biws,r='' @ (b64_encode raw @ snonce) @ bstr '',p='' @ b64_encode p),
       c3\<lparr> sc_state := ProofSent \<rparr>)"
    using st ck rd computed
    by (simp add: client_final_message_def Let_def c1_def c2_def c3_def del: bstr_Cons)
  moreover have "server_verifies sp am p"
    by (simp add: server_verifies_def p_def xor_bytes_twice stored_key_def)
  moreover have "expected_signature (c3\<lparr> sc_state := ProofSent \<rparr>) = server_signature sp am"
    using am by (simp add: expected_signature_def c3_def)
  moreover have "sc_state (c3\<lparr> sc_state := ProofSent \<rparr>) = ProofSent"
    by simp
  ultimately show ?thesis
    by blast
qed

lemma genuine_exchange:
  assumes "44 \<notin> set snonce" "0 \<notin> set snonce" and "1 \<le> i" "i < 2 ^ 32"
  shows "\<exists>c1 c2 c3 proof.
    client_first_message (ScramClient_new password ScramSha256 raw) =
      (Ok (bstr ''n,,n=,r='' @ b64_encode raw), c1) \<and>
    client_final_message c1 (server_first_message (b64_encode raw) snonce salt i) =
      (Ok (bstr ''c=biws,r='' @ (b64_encode raw @ snonce) @ bstr '',p='' @ b64_encode proof), c2) \<and>
    server_verifies (pbkdf2 password salt i)
      (exchange_text (b64_encode raw) (server_first_message (b64_encode raw) snonce salt i)
         (b64_encode raw @ snonce)) proof \<and>
    verify_server_final_message c2
      (bstr ''v='' @ b64_encode (server_signature (pbkdf2 password salt i)
        (exchange_text (b64_encode raw) (server_first_message (b64_encode raw) snonce salt i)
           (b64_encode raw @ snonce)))) = (Ok (), c3) \<and>
    is_finished c3"
proof -
  let ?sf = "server_first_message (b64_encode raw) snonce salt i"
  let ?sig = "server_signature (pbkdf2 password salt i) (exchange_text (b64_encode raw) ?sf (b64_encode raw @ snonce))"
  define c1 where "c1 = (ScramClient_new password ScramSha256 raw)\<lparr>
    sc_client_first_message_bare := bstr ''n=,r='' @ b64_encode raw, sc_state := NonceSent \<rparr>"
  have first: "client_first_message (ScramClient_new password ScramSha256 raw) =
      (Ok (bstr ''n,,n=,r='' @ b64_encode raw), c1)"
    by (simp add: client_first_message_def c1_def ScramClient_new_def Let_def)
  have c1: "sc_state c1 = NonceSent" "sc_client_nonce c1 = b64_encode raw" "sc_password c1 = password"
      "sc_client_first_message_bare c1 = bstr ''n=,r='' @ b64_encode raw"
    by (simp_all add: c1_def ScramClient_new_def saslprep_def)
  obtain c2 pr where final: "client_final_message c1 ?sf =
      (Ok (bstr ''c=biws,r='' @ (b64_encode raw @ snonce) @ bstr '',p='' @ b64_encode pr), c2)"
    and srv: "server_verifies (pbkdf2 password salt i)
      (exchange_text (b64_encode raw) ?sf (b64_encode raw @ snonce)) pr"
    and c2: "sc_state c2 = ProofSent" "expected_signature c2 = ?sig"
    using genuine_final_message [OF assms c1(1,2,4), of salt] unfolding c1(3) by blast
  have "44 \<notin> set (b64_encode ?sig)" "0 \<notin> set (b64_encode ?sig)"
    using b64_encode_symbols [of 44] b64_encode_symbols [of 0] by blast+
  then have "carries_signature (bstr ''v='' @ b64_encode ?sig) ?sig"
    using read_attr_value_block(2) [of "b64_encode ?sig" 118] by (simp add: carries_signature_def)
  then have ok: "fst (verify_server_final_message c2 (bstr ''v='' @ b64_encode ?sig)) = Ok ()"
    using verify_Ok_iff [of c2] c2 by simp
  then obtain c3 where c3: "verify_server_final_message c2 (bstr ''v='' @ b64_encode ?sig) = (Ok (), c3)"
    by (metis fst_conv surj_pair)
  then have "is_finished c3"
    by (rule verify_finished) simp
  then show ?thesis
    using first final srv c3 by blast
qed

text \<open>With a server that holds the keys RFC 5802 derives from the same password (by PBKDF2 with
  its salt and iteration count), the exchange succeeds for every nonce of the server without comma
  and NUL: the client's first and final messages have the standard's form, the server's check of the
  proof (the hash of the proof combined with the client signature is the stored key) passes, and the
  client accepts the server's signature.\<close>

lemma scram_genuine_exchange:
  assumes "44 \<notin> set snonce" "0 \<notin> set snonce" and "1 \<le> i" "i < 2 ^ 32"
  shows "\<exists>c1 c2 c3 proof.
    client_first_message (ScramClient_new password ScramSha256 raw) =
      (Ok (bstr ''n,,n=,r='' @ b64_encode raw), c1) \<and>
    client_final_message c1 (server_first_message (b64_encode raw) snonce salt i) =
      (Ok (bstr ''c=biws,r='' @ (b64_encode raw @ snonce) @ bstr '',p='' @ b64_encode proof), c2) \<and>
    server_verifies (pbkdf2 password salt i)
      (exchange_text (b64_encode raw) (server_first_message (b64_encode raw) snonce salt i)
         (b64_encode raw @ snonce)) proof \<and>
    verify_server_final_message c2
      (bstr ''v='' @ b64_encode (server_signature (pbkdf2 password salt i)
        (exchange_text (b64_encode raw) (server_first_message (b64_encode raw) snonce salt i)
           (b64_encode raw @ snonce)))) = (Ok (), c3) \<and>
    is_finished c3"
  using assms by (rule genuine_exchange)

text \<open>C11: Whatever messages a client is fed, it accepts a final message exactly if it has sent its
  proof and the message, which has no NUL, carries the signature the standard derives from the
  password, the salt and iteration count of the server, and the text of the exchange. The nonce of
  that text extends the client's own nonce, so that a signature of an earlier exchange does not do.\<close>

theorem scram_authenticates_server:
  assumes "reach scram_init scram_step c"
  shows "fst (verify_server_final_message c f) = Ok () \<longleftrightarrow>
    sc_state c = ProofSent \<and>
    (\<exists>snonce. sc_nonce c = sc_client_nonce c @ snonce \<and>
       carries_signature f (server_signature
         (pbkdf2 (sc_password c) (sc_salt c) (unat (sc_iterations c)))
         (exchange_text (sc_client_nonce c) (sc_server_first_message c) (sc_client_nonce c @ snonce))))"
proof -
  have inv: "scram_inv c"
    using assms by (rule scram.reach_inv)
  have "expected_signature c = server_signature
      (pbkdf2 (sc_password c) (sc_salt c) (unat (sc_iterations c)))
      (exchange_text (sc_client_nonce c) (sc_server_first_message c) (sc_nonce c))"
    if "sc_state c = ProofSent"
    using inv that
    by (simp add: scram_inv_def nonce_sent_def proof_sent_def expected_signature_def exchange_text_def)
  moreover have "\<exists>snonce. sc_nonce c = sc_client_nonce c @ snonce" if "sc_state c = ProofSent"
    using inv that by (simp add: scram_inv_def proof_sent_def)
  ultimately show ?thesis
    using verify_Ok_iff [of c f] by metis
qed

theorem scram_authenticates_server_witness:
  "fst (verify_server_final_message (ScramClient_new (bstr ''pencil'') ScramSha256 [1, 2, 3]) (bstr ''v='')) \<noteq> Ok ()"
proof -
  have "reach scram_init scram_step (ScramClient_new (bstr ''pencil'') ScramSha256 [1, 2, 3])"
    by (intro reach_init) (auto simp: scram_init_def)
  from scram_authenticates_server [OF this] show ?thesis
    by (simp add: ScramClient_new_def)
qed

text \<open>A client that refused the server's signature as incorrect still reports that it is finished;
  \<open>is_finished\<close> alone does not say that the server has been verified.\<close>

lemma finished_without_verification:
  assumes "verify_server_final_message c f = (Err IncorrectServerSignature, c')"
  shows "is_finished c' \<and> expected_signature c' \<noteq> sc_server_signature c'"
proof
  show "is_finished c'"
    using verify_finished [OF assms] by simp
  show "expected_signature c' \<noteq> sc_server_signature c'"
    using assms
    by (auto simp: verify_server_final_message_def read_server_final_message_def check_message_def
        read_attr_value_def Let_def auth_signature_expected
        split: if_splits result.splits prod.splits list.splits) (auto simp: expected_signature_def)
qed

end
