(* ===== verification/Md5.thy ===== *)
theory Md5
  imports HashStream
begin

text \<open>
  MD5 and \<open>md5_encrypt\<close> of \<open>crates/rlibpq/src/md5.rs\<close>: the table, the 64 rounds over four variables
  that move along, and the context over \<open>HashStream\<close>.

  Shown: absorbing a message in any pieces and finishing gives the digest of RFC 1321, written here
  with the operations of its section 3.4 (four registers, of which each operation updates one, and
  the word order and rotations of the four rounds); the password message has its fixed form.
\<close>

section \<open>The code\<close>

definition MD5_T :: "u32 list" where
  "MD5_T = [
     0, 0xd76aa478, 0xe8c7b756, 0x242070db, 0xc1bdceee, 0xf57c0faf,
     0x4787c62a, 0xa8304613, 0xfd469501, 0x698098d8, 0x8b44f7af, 0xffff5bb1,
     0x895cd7be, 0x6b901122, 0xfd987193, 0xa679438e, 0x49b40821, 0xf61e2562,
     0xc040b340, 0x265e5a51, 0xe9b6c7aa, 0xd62f105d, 0x02441453, 0xd8a1e681,
     0xe7d3fbc8, 0x21e1cde6, 0xc33707d6, 0xf4d50d87, 0x455a14ed, 0xa9e3e905,
     0xfcefa3f8, 0x676f02d9, 0x8d2a4c8a, 0xfffa3942, 0x8771f681, 0x6d9d6122,
     0xfde5380c, 0xa4beea44, 0x4bdecfa9, 0xf6bb4b60, 0xbebfbc70, 0x289b7ec6,
     0xeaa127fa, 0xd4ef3085, 0x04881d05, 0xd9d4d039, 0xe6db99e5, 0x1fa27cf8,
     0xc4ac5665, 0xf4292244, 0x432aff97, 0xab9423a7, 0xfc93a039, 0x655b59c3,
     0x8f0ccc92, 0xffeff47d, 0x85845dd1, 0x6fa87e4f, 0xfe2ce6e0, 0xa3014314,
     0x4e0811a1, 0xf7537e82, 0xbd3af235, 0x2ad7d2bb, 0xeb86d391]"

definition MD5_S :: "nat list list" where
  "MD5_S = [[7, 12, 17, 22], [5, 9, 14, 20], [4, 11, 16, 23], [6, 10, 15, 21]]"

definition from_le32 :: "byte \<Rightarrow> byte \<Rightarrow> byte \<Rightarrow> byte \<Rightarrow> u32" where
  "from_le32 a b c d = from_be32 d c b a"

definition le32 :: "u32 \<Rightarrow> bytes" where
  "le32 w = rev (be32 w)"

definition le64 :: "u64 \<Rightarrow> bytes" where
  "le64 w = map (\<lambda>i. ucast (drop_bit (8 * i) w)) [0..<8]"

definition md5_word :: "bytes \<Rightarrow> nat \<Rightarrow> u32" where
  "md5_word block i =
     from_le32 (block ! (i * 4)) (block ! (i * 4 + 1)) (block ! (i * 4 + 2)) (block ! (i * 4 + 3))"

type_synonym md5_vars = "u32 \<times> u32 \<times> u32 \<times> u32"

definition md5_mix :: "nat \<Rightarrow> u32 \<Rightarrow> u32 \<Rightarrow> u32 \<Rightarrow> u32 \<times> nat" where
  "md5_mix i b c d =
     (if i div 16 = 0 then ((b AND c) OR (NOT b AND d), i)
      else if i div 16 = 1 then ((b AND d) OR (c AND NOT d), (1 + 5 * i) mod 16)
      else if i div 16 = 2 then (b XOR c XOR d, (5 + 3 * i) mod 16)
      else (c XOR (b OR NOT d), (7 * i) mod 16))"

definition md5_round :: "u32 list \<Rightarrow> nat \<Rightarrow> md5_vars \<Rightarrow> md5_vars" where
  "md5_round x i v =
     (let (a, b, c, d) = v; (f, k) = md5_mix i b c d; s = MD5_S ! (i div 16) ! (i mod 4);
          tmp = word_rotl s (a + f + x ! k + MD5_T ! (i + 1))
      in (d, b + tmp, b, c))"

definition md5_calc :: "u32 list \<Rightarrow> bytes \<Rightarrow> u32 list" where
  "md5_calc st block =
     (let x = map (md5_word block) [0..<16];
          (a, b, c, d) = fold (md5_round x) [0..<64] (st ! 0, st ! 1, st ! 2, st ! 3)
      in [st ! 0 + a, st ! 1 + b, st ! 2 + c, st ! 3 + d])"

definition MD5_INIT :: "u32 list" where
  "MD5_INIT = [0x67452301, 0xefcdab89, 0x98badcfe, 0x10325476]"

definition md5_digest :: "u32 list \<Rightarrow> bytes" where
  "md5_digest s = concat (map le32 s)"

type_synonym md5_ctx = "u32 list hash_ctx"

definition Md5_new :: md5_ctx where
  "Md5_new = hash_new MD5_INIT"

definition Md5_update :: "md5_ctx \<Rightarrow> bytes \<Rightarrow> md5_ctx" where
  "Md5_update = hash_update md5_calc"

definition Md5_finish :: "md5_ctx \<Rightarrow> bytes" where
  "Md5_finish = hash_finish md5_calc le64 md5_digest"

definition md5 :: "bytes \<Rightarrow> bytes" where
  "md5 data = Md5_finish (Md5_update Md5_new data)"

definition HEX :: bytes where
  "HEX = bstr ''0123456789abcdef''"

definition hex_byte :: "byte \<Rightarrow> bytes" where
  "hex_byte b = [HEX ! (unat (drop_bit 4 b) mod 16), HEX ! unat (b AND 0x0f)]"

definition bytes_to_hex :: "bytes \<Rightarrow> bytes" where
  "bytes_to_hex bs = concat (map hex_byte bs)"

definition md5_hash :: "bytes \<Rightarrow> bytes" where
  "md5_hash data = bytes_to_hex (md5 data)"

definition md5_encrypt :: "bytes \<Rightarrow> bytes \<Rightarrow> bytes" where
  "md5_encrypt passwd salt = bstr ''md5'' @ md5_hash (passwd @ salt)"

section \<open>The standard\<close>

definition rfc_F :: "nat \<Rightarrow> u32 \<Rightarrow> u32 \<Rightarrow> u32 \<Rightarrow> u32" where
  "rfc_F r x y z =
     (if r = 0 then (x AND y) OR (NOT x AND z)
      else if r = 1 then (x AND z) OR (y AND NOT z)
      else if r = 2 then x XOR y XOR z
      else y XOR (x OR NOT z))"

text \<open>The words the operations of the four rounds use, and their rotations.\<close>

definition rfc_k :: "nat list list" where
  "rfc_k = [[0, 1, 2, 3, 4, 5, 6, 7, 8, 9, 10, 11, 12, 13, 14, 15],
            [1, 6, 11, 0, 5, 10, 15, 4, 9, 14, 3, 8, 13, 2, 7, 12],
            [5, 8, 11, 14, 1, 4, 7, 10, 13, 0, 3, 6, 9, 12, 15, 2],
            [0, 7, 14, 5, 12, 3, 10, 1, 8, 15, 6, 13, 4, 11, 2, 9]]"

text \<open>The operation \<open>[abcd k s i]\<close> of a round.\<close>

definition rfc_op :: "u32 list \<Rightarrow> nat \<Rightarrow> nat \<Rightarrow> u32 \<Rightarrow> u32 \<Rightarrow> u32 \<Rightarrow> u32 \<Rightarrow> u32" where
  "rfc_op X r j a b c d =
     b + word_rotl (MD5_S ! r ! (j mod 4)) (a + rfc_F r b c d + X ! (rfc_k ! r ! j) + MD5_T ! (16 * r + j + 1))"

text \<open>Four operations of round \<open>r\<close> from the \<open>j\<close>-th on: they update \<open>a\<close>, \<open>d\<close>, \<open>c\<close> and \<open>b\<close>.\<close>

definition rfc_four :: "u32 list \<Rightarrow> nat \<Rightarrow> nat \<Rightarrow> md5_vars \<Rightarrow> md5_vars" where
  "rfc_four X r j v =
     (let (a, b, c, d) = v;
          a = rfc_op X r j a b c d;
          d = rfc_op X r (j + 1) d a b c;
          c = rfc_op X r (j + 2) c d a b;
          b = rfc_op X r (j + 3) b c d a
      in (a, b, c, d))"

definition rfc_round :: "u32 list \<Rightarrow> nat \<Rightarrow> md5_vars \<Rightarrow> md5_vars" where
  "rfc_round X r v = rfc_four X r 12 (rfc_four X r 8 (rfc_four X r 4 (rfc_four X r 0 v)))"

definition rfc_compress :: "u32 list \<Rightarrow> bytes \<Rightarrow> u32 list" where
  "rfc_compress st block =
     (let X = map (md5_word block) [0..<16];
          (a, b, c, d) = rfc_round X 3 (rfc_round X 2 (rfc_round X 1 (rfc_round X 0
            (st ! 0, st ! 1, st ! 2, st ! 3))))
      in [a + st ! 0, b + st ! 1, c + st ! 2, d + st ! 3])"

definition rfc_md5 :: "bytes \<Rightarrow> bytes" where
  "rfc_md5 m = md5_digest (compress rfc_compress MD5_INIT (padded le64 m))"

section \<open>The code computes the standard\<close>

lemma md5_mix_rfc:
  assumes "r < 4" "j < 16"
  shows "md5_mix (16 * r + j) b c d = (rfc_F r b c d, rfc_k ! r ! j)"
proof -
  have table: "list_all (\<lambda>r. list_all (\<lambda>j. (if r = 0 then 16 * r + j
      else if r = 1 then (1 + 5 * (16 * r + j)) mod 16
      else if r = 2 then (5 + 3 * (16 * r + j)) mod 16 else (7 * (16 * r + j)) mod 16) =
      rfc_k ! r ! j) [0..<16]) [0..<4]"
    by code_simp
  have k: "(if r = 0 then 16 * r + j else if r = 1 then (1 + 5 * (16 * r + j)) mod 16
      else if r = 2 then (5 + 3 * (16 * r + j)) mod 16 else (7 * (16 * r + j)) mod 16) = rfc_k ! r ! j"
    by (rule table [unfolded list_all_iff, THEN bspec, THEN bspec]) (use assms in simp_all)
  have "(16 * r + j) div 16 = r"
    using assms by simp
  then show ?thesis
    using k by (auto simp: md5_mix_def rfc_F_def)
qed

lemma md5_round_rfc:
  assumes "r < 4" "j < 16"
  shows "md5_round x (16 * r + j) (a, b, c, d) = (d, rfc_op x r j a b c d, b, c)"
proof -
  have "(16 * r + j) mod 4 = j mod 4"
  proof -
    have "16 * r + j = j + (4 * r) * 4"
      by simp
    then show ?thesis
      by (simp only: mod_mult_self1)
  qed
  moreover have "(16 * r + j) div 16 = r"
    using assms by simp
  ultimately show ?thesis
    using assms by (simp add: md5_round_def md5_mix_rfc rfc_op_def)
qed

lemma four_rounds:
  assumes "r < 4" "j \<le> 12"
  shows "fold (md5_round x) [16 * r + j, 16 * r + (j + 1), 16 * r + (j + 2), 16 * r + (j + 3)] v =
    rfc_four x r j v"
proof -
  obtain a b c d where "v = (a, b, c, d)"
    by (cases v)
  then show ?thesis
    using assms by (simp add: md5_round_rfc rfc_four_def Let_def del: add_Suc_right)
qed

lemma sixteen_rounds:
  assumes "r < 4"
  shows "fold (md5_round x) [16 * r..<16 * r + 16] v = rfc_round x r v"
proof -
  have "[16 * r..<16 * r + 16] =
      [16 * r + 0, 16 * r + (0 + 1), 16 * r + (0 + 2), 16 * r + (0 + 3)] @
      [16 * r + 4, 16 * r + (4 + 1), 16 * r + (4 + 2), 16 * r + (4 + 3)] @
      [16 * r + 8, 16 * r + (8 + 1), 16 * r + (8 + 2), 16 * r + (8 + 3)] @
      [16 * r + 12, 16 * r + (12 + 1), 16 * r + (12 + 2), 16 * r + (12 + 3)]"
    by (simp add: upt_rec)
  then show ?thesis
    using assms four_rounds [OF assms] by (simp only: fold_append comp_apply rfc_round_def)
qed

lemma calc_rfc: "md5_calc st block = rfc_compress st block"
proof -
  have "[0..<64] = [16 * 0..<16 * 0 + 16] @ [16 * 1..<16 * 1 + 16] @ [16 * 2..<16 * 2 + 16] @
      [16 * 3..<16 * 3 + (16 :: nat)]"
    by (simp add: upt_add_eq_append [of 0 16 48, simplified] upt_add_eq_append [of 16 32 32, simplified]
        upt_add_eq_append [of 32 48 16, simplified])
  moreover have "fold (md5_round x) [16 * 3..<16 * 3 + 16] (fold (md5_round x) [16 * 2..<16 * 2 + 16]
      (fold (md5_round x) [16 * 1..<16 * 1 + 16] (fold (md5_round x) [16 * 0..<16 * 0 + 16] v))) =
      rfc_round x 3 (rfc_round x 2 (rfc_round x 1 (rfc_round x 0 v)))" for x v
    by (subst sixteen_rounds, simp)+ (rule refl)
  ultimately have "fold (md5_round x) [0..<64] v =
      rfc_round x 3 (rfc_round x 2 (rfc_round x 1 (rfc_round x 0 v)))" for x v
    by (simp only: fold_append comp_apply)
  then show ?thesis
    by (simp add: md5_calc_def rfc_compress_def Let_def ac_simps)
qed

lemma length_le64 [simp]: "length (le64 w) = 8"
  by (simp add: le64_def)

interpretation md5: streaming Md5_new Md5_update Md5_finish "absorbed_by md5_calc MD5_INIT" rfc_md5
proof -
  have "md5_calc = rfc_compress"
    by (intro ext) (rule calc_rfc)
  then show "streaming Md5_new Md5_update Md5_finish (absorbed_by md5_calc MD5_INIT) rfc_md5"
    using hash_streaming [of le64 MD5_INIT md5_calc md5_digest]
    by (simp add: Md5_new_def Md5_update_def Md5_finish_def rfc_md5_def [abs_def])
qed

lemma length_le32 [simp]: "length (le32 w) = 4"
  by (simp add: le32_def)

lemma length_rfc_compress: "length (rfc_compress st b) = 4"
  by (simp add: rfc_compress_def case_prod_beta Let_def)

lemma length_compress_rfc: "length st = 4 \<Longrightarrow> length (compress rfc_compress st m) = 4"
proof (induction "length m" arbitrary: m st rule: less_induct)
  case less
  then show ?case
    using less.hyps [of "drop 64 m" "rfc_compress st (take 64 m)"] length_rfc_compress
    by (simp add: compress.simps [of _ st m])
qed

lemma length_md5_digest: "length (md5_digest st) = 4 * length st"
  by (induction st) (auto simp: md5_digest_def)

lemma length_rfc_md5 [simp]: "length (rfc_md5 m) = 16"
  by (simp add: rfc_md5_def length_md5_digest length_compress_rfc MD5_INIT_def)

lemma md5_rfc: "md5 m = rfc_md5 m"
  by (simp add: md5_def md5.finish_one)

text \<open>The value of a lower-case hexadecimal digit; reading the digits back.\<close>

definition hex_value :: "byte \<Rightarrow> byte" where
  "hex_value c = (if c \<le> 57 then c - 48 else c - 87)"

fun unhex :: "bytes \<Rightarrow> bytes" where
  "unhex (h # l # cs) = (push_bit 4 (hex_value h) OR hex_value l) # unhex cs"
| "unhex _ = []"

lemma hex_digits:
  "n < 16 \<Longrightarrow> hex_value (HEX ! n) = of_nat n \<and> HEX ! n \<in> set (bstr ''0123456789abcdef'')"
proof -
  assume n: "n < 16"
  have "list_all (\<lambda>n. hex_value (HEX ! n) = of_nat n) [0..<16]"
    unfolding HEX_def by code_simp
  then have "hex_value (HEX ! n) = of_nat n"
    using n by (simp add: list_all_iff)
  moreover have "HEX ! n \<in> set HEX"
    using n by (intro nth_mem) (simp add: HEX_def)
  ultimately show ?thesis
    by (simp add: HEX_def)
qed

lemma unhex_byte: "unhex (hex_byte b @ cs) = b # unhex cs"
proof -
  have "unat (b AND 0x0f) = unat (take_bit 4 b)"
    by (simp add: take_bit_eq_mask mask_eq_exp_minus_1)
  also have "\<dots> = unat b mod 16"
    by (simp add: unsigned_take_bit_eq) (simp add: take_bit_eq_mod)
  finally have lo: "unat (b AND 0x0f) < 16"
    by simp
  have lo': "of_nat (unat (b AND 0x0f)) = b AND 0x0f"
    by (simp only: of_nat_unat ucast_id)
  have "unat (drop_bit 4 b) = unat b div 16"
    by (simp add: unat_drop_bit_eq) (simp add: drop_bit_eq_div)
  moreover have "unat b < 2 ^ LENGTH(8)"
    by (rule unsigned_less)
  ultimately have hi: "unat (drop_bit 4 b) mod 16 = unat (drop_bit 4 b)" "unat (drop_bit 4 b) < 16"
    by simp_all
  have "push_bit 4 (drop_bit 4 b) OR (b AND 0x0f) = b"
  proof -
    have "b AND 0x0f = take_bit 4 b"
      by (simp add: take_bit_eq_mask mask_eq_exp_minus_1)
    then show ?thesis
      by (auto intro!: bit_word_eqI simp: bit_simps)
  qed
  then show ?thesis
    using hex_digits [OF lo] hex_digits [OF hi(2)] lo'
    by (simp add: hex_byte_def hi(1))
qed

text \<open>However a message is cut into calls of \<open>update\<close>, \<open>finish\<close> returns the MD5 digest of RFC
  1321 for the whole message. The password message is \<open>md5\<close> followed by 32 lower-case hexadecimal
  digits, which read back as the digest of the password with the salt behind it.\<close>

lemma md5_refines_standard:
  "Md5_finish (fold (\<lambda>d c. Md5_update c d) chunks Md5_new) = rfc_md5 (concat chunks) \<and>
   length (md5_encrypt passwd salt) = 35 \<and> take 3 (md5_encrypt passwd salt) = bstr ''md5'' \<and>
   unhex (drop 3 (md5_encrypt passwd salt)) = rfc_md5 (passwd @ salt)"
proof -
  have "unhex (bytes_to_hex bs) = bs \<and> length (bytes_to_hex bs) = 2 * length bs" for bs
    by (induction bs) (simp_all add: bytes_to_hex_def unhex_byte, simp add: hex_byte_def)
  then show ?thesis
    by (simp add: md5.finish_fold md5_encrypt_def md5_hash_def md5_rfc)
qed

end
