(* ===== verification/Auth.thy ===== *)
theory Auth
  imports Scram Md5 Message
begin

text \<open>
  The authenticator of \<open>crates/rlibpq/src/auth.rs\<close>: the answer to each authentication request of the
  server, over the SCRAM client and MD5. (The requests themselves and their decoding are in
  \<open>Message\<close>.) An operation returns its result and the authenticator behind it.

  Shown: the whole dialogue with a server that holds the right keys succeeds; on every run, the
  SCRAM part counts as done only behind a final message that carries the right signature; each
  request has the answer the protocol prescribes. Also shown is what the authenticator does not
  enforce: a request for the password, in clear text or hashed with MD5, is answered, and
  \<open>AuthenticationOk\<close> is taken for the
  end, whatever \<open>channel_binding\<close> says and at any point of a SCRAM exchange.
\<close>

section \<open>The authenticator\<close>

datatype auth_error =
    Kerberos4NotSupported | Kerberos5NotSupported | CryptNotSupported | GssapiNotSupported
  | SspiNotSupported | MethodNotSupported u32 | NoPasswordSupplied | NoSaslMechanismSupported
  | ScramPlusOverNonSsl | DuplicateSaslRequest | SaslContinueWithoutSasl
  | SaslFinalBeforeCompletion | ChannelBindingRequiredWithoutSsl | ScramFailure scram_error

datatype auth_step = SendMessage frontend | NoAnswer | Complete

datatype channel_binding = CbDisable | CbPrefer | CbRequire

record authenticator =
  au_user :: bytes
  au_password :: "bytes option"
  au_channel_binding :: channel_binding
  au_raw_nonce :: bytes
  au_scram :: "scram_client option"
  au_client_finished_auth :: bool

definition Authenticator_new :: "bytes \<Rightarrow> bytes option \<Rightarrow> bytes \<Rightarrow> authenticator" where
  "Authenticator_new user password raw_nonce =
     \<lparr> au_user = user, au_password = password, au_channel_binding = CbPrefer,
       au_raw_nonce = raw_nonce, au_scram = None, au_client_finished_auth = False \<rparr>"

definition with_channel_binding :: "channel_binding \<Rightarrow> authenticator \<Rightarrow> authenticator" where
  "with_channel_binding cb a = a\<lparr> au_channel_binding := cb \<rparr>"

definition auth_appended_errors :: "authenticator \<Rightarrow> scram_error list" where
  "auth_appended_errors a = (case au_scram a of Some c \<Rightarrow> sc_appended c | None \<Rightarrow> [])"

definition auth_password :: "authenticator \<Rightarrow> (bytes, auth_error) result" where
  "auth_password a =
     (case au_password a of
        Some p \<Rightarrow> if p \<noteq> [] then Ok p else Err NoPasswordSupplied
      | None \<Rightarrow> Err NoPasswordSupplied)"

text \<open>The loop over the offered mechanisms.\<close>

fun select_mechanism :: "bytes list \<Rightarrow> mechanism option \<Rightarrow> (mechanism option, auth_error) result" where
  "select_mechanism [] selected = Ok selected"
| "select_mechanism (m # ms) selected =
     (if m = SCRAM_SHA_256_PLUS_NAME then Err ScramPlusOverNonSsl
      else if m = SCRAM_SHA_256_NAME \<and> selected = None then select_mechanism ms (Some ScramSha256)
      else select_mechanism ms selected)"

definition sasl_init ::
  "authenticator \<Rightarrow> bytes list \<Rightarrow> (auth_step, auth_error) result \<times> authenticator" where
  "sasl_init a mechanisms =
     (if au_channel_binding a = CbRequire then (Err ChannelBindingRequiredWithoutSsl, a)
      else if au_scram a \<noteq> None then (Err DuplicateSaslRequest, a)
      else case select_mechanism mechanisms None of
        Err e \<Rightarrow> (Err e, a)
      | Ok None \<Rightarrow> (Err NoSaslMechanismSupported, a)
      | Ok (Some mechanism) \<Rightarrow>
          (case auth_password a of
             Err e \<Rightarrow> (Err e, a)
           | Ok password \<Rightarrow>
               (case client_first_message (ScramClient_new password mechanism (au_raw_nonce a)) of
                  (Err e, _) \<Rightarrow> (Err (ScramFailure e), a)
                | (Ok initial_response, scram) \<Rightarrow>
                    (Ok (SendMessage (SaslInitialResponse (mechanism_name mechanism) (Some initial_response))),
                     a\<lparr> au_scram := Some scram \<rparr>))))"

definition sasl_continue ::
  "authenticator \<Rightarrow> bytes \<Rightarrow> bool \<Rightarrow> (auth_step, auth_error) result \<times> authenticator" where
  "sasl_continue a challenge final =
     (case au_scram a of
        None \<Rightarrow> (Err SaslContinueWithoutSasl, a)
      | Some scram \<Rightarrow>
          if final then
            (case verify_server_final_message scram challenge of
               (Err e, scram) \<Rightarrow> (Err (ScramFailure e), a\<lparr> au_scram := Some scram \<rparr>)
             | (Ok _, scram) \<Rightarrow>
                 (Ok NoAnswer, a\<lparr> au_scram := Some scram, au_client_finished_auth := True \<rparr>))
          else
            (case client_final_message scram challenge of
               (Err e, scram) \<Rightarrow> (Err (ScramFailure e), a\<lparr> au_scram := Some scram \<rparr>)
             | (Ok output, scram) \<Rightarrow>
                 (Ok (SendMessage (SaslResponse output)), a\<lparr> au_scram := Some scram \<rparr>)))"

text \<open>The two password answers; \<open>answer\<close> computes the message from the password.\<close>

definition send_password ::
  "authenticator \<Rightarrow> (bytes \<Rightarrow> bytes) \<Rightarrow> (auth_step, auth_error) result \<times> authenticator" where
  "send_password a answer =
     (case auth_password a of
        Err e \<Rightarrow> (Err e, a)
      | Ok p \<Rightarrow> (Ok (SendMessage (PasswordMessage (answer p))), a\<lparr> au_client_finished_auth := True \<rparr>))"

definition md5_answer :: "bytes \<Rightarrow> bytes \<Rightarrow> bytes \<Rightarrow> bytes" where
  "md5_answer user salt password =
     (let fst_pass = md5_encrypt password user
      in md5_encrypt (drop (length (bstr ''md5'')) fst_pass) salt)"

primrec respond :: "authenticator \<Rightarrow> auth_request \<Rightarrow> (auth_step, auth_error) result \<times> authenticator" where
  "respond a AuthOk = (Ok Complete, a)"
| "respond a KerberosV4 = (Err Kerberos4NotSupported, a)"
| "respond a KerberosV5 = (Err Kerberos5NotSupported, a)"
| "respond a Crypt = (Err CryptNotSupported, a)"
| "respond a Gss = (Err GssapiNotSupported, a)"
| "respond a (GssContinue b) = (Err GssapiNotSupported, a)"
| "respond a Sspi = (Err SspiNotSupported, a)"
| "respond a CleartextPassword = send_password a id"
| "respond a (Md5Password s0 s1 s2 s3) = send_password a (md5_answer (au_user a) [s0, s1, s2, s3])"
| "respond a (Sasl mechanisms) = sasl_init a mechanisms"
| "respond a (SaslContinue challenge) = sasl_continue a challenge False"
| "respond a (SaslFinal challenge) = sasl_continue a challenge True"
| "respond a (AuthUnknown code) = (Err (MethodNotSupported code), a)"

section \<open>The dialogue with a genuine server\<close>

text \<open>The answers to a sequence of requests.\<close>

fun dialogue ::
  "authenticator \<Rightarrow> auth_request list \<Rightarrow> (auth_step, auth_error) result list \<times> authenticator" where
  "dialogue a [] = ([], a)"
| "dialogue a (r # rs) =
     (let (x, a) = respond a r; (xs, a) = dialogue a rs in (x # xs, a))"

lemma select_mechanism_selected:
  "SCRAM_SHA_256_PLUS_NAME \<notin> set ms \<Longrightarrow>
   select_mechanism ms sel = Ok (if sel = None \<and> SCRAM_SHA_256_NAME \<in> set ms then Some ScramSha256 else sel)"
  by (induction ms sel rule: select_mechanism.induct) auto

text \<open>C10: The dialogue with a server that offers SCRAM-SHA-256 (and not the variant with channel
  binding) and holds the keys of the password succeeds: the authenticator answers with the mechanism
  and the first message, then with the final message, whose proof the server verifies, accepts the
  server's signature and comes to the end with \<open>AuthenticationOk\<close>.\<close>

theorem authentication_dialogue:
  assumes "password \<noteq> []" and "cb \<noteq> CbRequire"
    and "SCRAM_SHA_256_NAME \<in> set mechanisms" "SCRAM_SHA_256_PLUS_NAME \<notin> set mechanisms"
    and "44 \<notin> set snonce" "0 \<notin> set snonce" and "1 \<le> i" "i < 2 ^ 32"
  shows "\<exists>proof a'.
    dialogue (with_channel_binding cb (Authenticator_new user (Some password) raw))
      [Sasl mechanisms,
       SaslContinue (server_first_message (b64_encode raw) snonce salt i),
       SaslFinal (bstr ''v='' @ b64_encode (server_signature (pbkdf2 password salt i)
         (exchange_text (b64_encode raw) (server_first_message (b64_encode raw) snonce salt i)
            (b64_encode raw @ snonce)))),
       AuthOk] =
      ([Ok (SendMessage (SaslInitialResponse SCRAM_SHA_256_NAME (Some (bstr ''n,,n=,r='' @ b64_encode raw)))),
        Ok (SendMessage (SaslResponse
          (bstr ''c=biws,r='' @ (b64_encode raw @ snonce) @ bstr '',p='' @ b64_encode proof))),
        Ok NoAnswer, Ok Complete], a') \<and>
    server_verifies (pbkdf2 password salt i)
      (exchange_text (b64_encode raw) (server_first_message (b64_encode raw) snonce salt i)
         (b64_encode raw @ snonce)) proof \<and>
    au_client_finished_auth a'"
proof -
  define a where "a = with_channel_binding cb (Authenticator_new user (Some password) raw)"
  have a: "au_channel_binding a = cb" "au_scram a = None" "auth_password a = Ok password"
      "au_raw_nonce a = raw"
    using assms(1) by (simp_all add: a_def with_channel_binding_def Authenticator_new_def auth_password_def)
  have sel: "select_mechanism mechanisms None = Ok (Some ScramSha256)"
    using select_mechanism_selected [OF assms(4), of None] assms(3) by simp
  let ?fin = "bstr ''v='' @ b64_encode (server_signature (pbkdf2 password salt i)
         (exchange_text (b64_encode raw) (server_first_message (b64_encode raw) snonce salt i)
            (b64_encode raw @ snonce)))"
  obtain c1 c2 c3 pr where c: "client_first_message (ScramClient_new password ScramSha256 raw) =
        (Ok (bstr ''n,,n=,r='' @ b64_encode raw), c1)"
      "client_final_message c1 (server_first_message (b64_encode raw) snonce salt i) =
        (Ok (bstr ''c=biws,r='' @ (b64_encode raw @ snonce) @ bstr '',p='' @ b64_encode pr), c2)"
      "server_verifies (pbkdf2 password salt i)
        (exchange_text (b64_encode raw) (server_first_message (b64_encode raw) snonce salt i)
           (b64_encode raw @ snonce)) pr"
      "verify_server_final_message c2 ?fin = (Ok (), c3)"
    using genuine_exchange [OF assms(5-8)] by blast
  have r1: "respond a (Sasl mechanisms) =
      (Ok (SendMessage (SaslInitialResponse SCRAM_SHA_256_NAME (Some (bstr ''n,,n=,r='' @ b64_encode raw)))),
       a\<lparr> au_scram := Some c1 \<rparr>)"
    using a sel c(1) assms(2) by (simp add: sasl_init_def mechanism_name_def)
  have r2: "respond (a\<lparr> au_scram := Some c1 \<rparr>)
        (SaslContinue (server_first_message (b64_encode raw) snonce salt i)) =
      (Ok (SendMessage (SaslResponse
          (bstr ''c=biws,r='' @ (b64_encode raw @ snonce) @ bstr '',p='' @ b64_encode pr))),
       a\<lparr> au_scram := Some c2 \<rparr>)"
    using c(2) by (simp add: sasl_continue_def del: bstr_Cons)
  have r3: "respond (a\<lparr> au_scram := Some c2 \<rparr>) (SaslFinal ?fin) =
      (Ok NoAnswer, a\<lparr> au_scram := Some c3, au_client_finished_auth := True \<rparr>)"
    using c(4) by (simp add: sasl_continue_def del: bstr_Cons)
  show ?thesis
    unfolding a_def [symmetric] dialogue.simps r1 Let_def case_prod_conv r2 r3 respond.simps(1)
    using c(3)
    by (intro exI [of _ pr] exI [of _ "a\<lparr> au_scram := Some c3, au_client_finished_auth := True \<rparr>"])
      (simp del: bstr_Cons)
qed

theorem authentication_dialogue_witness:
  "\<exists>answers a'. dialogue (with_channel_binding CbPrefer (Authenticator_new (bstr ''u'') (Some (bstr ''p'')) [1]))
      [Sasl [SCRAM_SHA_256_NAME],
       SaslContinue (server_first_message (b64_encode [1]) (bstr ''x'') [2] 1),
       SaslFinal (bstr ''v='' @ b64_encode (server_signature (pbkdf2 (bstr ''p'') [2] 1)
         (exchange_text (b64_encode [1]) (server_first_message (b64_encode [1]) (bstr ''x'') [2] 1)
            (b64_encode [1] @ bstr ''x'')))),
       AuthOk] = (answers, a') \<and> last answers = Ok Complete \<and> au_client_finished_auth a'"
proof -
  have "SCRAM_SHA_256_PLUS_NAME \<notin> set [SCRAM_SHA_256_NAME]"
    by (simp add: SCRAM_SHA_256_PLUS_NAME_def SCRAM_SHA_256_NAME_def)
  then show ?thesis
    using authentication_dialogue [of "bstr ''p''" CbPrefer "[SCRAM_SHA_256_NAME]" "bstr ''x''" 1
        "bstr ''u''" "[1]" "[2]"]
    by (simp del: dialogue.simps) (metis last.simps list.distinct(1))
qed

section \<open>Every run\<close>

definition auth_init :: "authenticator \<Rightarrow> bool" where
  "auth_init a \<longleftrightarrow>
     (\<exists>user password raw cb. a = with_channel_binding cb (Authenticator_new user password raw))"

definition auth_steps :: "authenticator \<Rightarrow> authenticator \<Rightarrow> bool" where
  "auth_steps a a' \<longleftrightarrow> (\<exists>request. a' = snd (respond a request))"

definition auth_inv :: "authenticator \<Rightarrow> bool" where
  "auth_inv a \<longleftrightarrow>
     (case au_scram a of
        None \<Rightarrow> True
      | Some c \<Rightarrow> scram_inv c \<and> au_password a = Some (sc_password c) \<and>
                  sc_client_nonce c = b64_encode (au_raw_nonce a))"

lemma final_frame:
  assumes "client_final_message c m = (r, c')"
  shows "sc_password c' = sc_password c \<and> sc_client_nonce c' = sc_client_nonce c"
  using client_final_cases [OF assms]
proof (elim disjE exE conjE)
  fix e
  assume "read_server_first_message m c = (Err e, c')"
  then show ?thesis
    using read_first_frame by blast
next
  fix c1
  assume c1: "read_server_first_message m c = (Ok (), c1)"
    and c': "c' = c1\<lparr> sc_client_final_message_without_proof := bstr ''c=biws,r='' @ sc_nonce c1,
      sc_salted_password := pbkdf2 (sc_password c1) (sc_salt c1) (unat (sc_iterations c1)),
      sc_state := ProofSent \<rparr>"
  then show ?thesis
    using read_first_frame [OF c1] by simp
qed simp

lemma verify_frame:
  assumes "verify_server_final_message c m = (r, c')"
  shows "sc_password c' = sc_password c \<and> sc_client_nonce c' = sc_client_nonce c"
  using verify_cases [OF assms] by auto

lemma first_frame:
  assumes "client_first_message c = (r, c')"
  shows "sc_password c' = sc_password c \<and> sc_client_nonce c' = sc_client_nonce c"
  using assms by (auto simp: client_first_message_def Let_def split: if_splits)

lemma sasl_init_cases:
  assumes "sasl_init a ms = (r, a')"
  shows "a' = a \<or> (\<exists>p m x scram. auth_password a = Ok p \<and>
    client_first_message (ScramClient_new p m (au_raw_nonce a)) = (Ok x, scram) \<and>
    a' = a\<lparr> au_scram := Some scram \<rparr>)"
  using assms
  by (auto simp: sasl_init_def split: if_splits result.splits option.splits prod.splits)

lemma sasl_init_inv:
  assumes "auth_inv a" and "sasl_init a ms = (r, a')"
  shows "auth_inv a'"
  using sasl_init_cases [OF assms(2)]
proof (elim disjE exE conjE)
  assume "a' = a"
  then show ?thesis
    using assms(1) by simp
next
  fix p m x scram
  assume p: "auth_password a = Ok p" and a': "a' = a\<lparr> au_scram := Some scram \<rparr>"
    and c: "client_first_message (ScramClient_new p m (au_raw_nonce a)) = (Ok x, scram)"
  have "au_password a = Some p"
    using p by (auto simp: auth_password_def split: option.splits if_splits)
  moreover have "reach scram_init scram_step (ScramClient_new p m (au_raw_nonce a))"
    by (intro reach_init) (auto simp: scram_init_def)
  then have "reach scram_init scram_step scram"
    using scram_step.first [OF c] by (rule reach_step)
  then have "scram_inv scram"
    by (rule scram.reach_inv)
  ultimately show ?thesis
    using a' first_frame [OF c] by (simp add: auth_inv_def ScramClient_new_def saslprep_def)
qed

lemma sasl_continue_inv:
  assumes "auth_inv a" and "sasl_continue a m final = (r, a')"
  shows "auth_inv a'"
proof (cases "au_scram a")
  case None
  then show ?thesis
    using assms by (simp add: sasl_continue_def)
next
  case (Some c)
  have inv: "scram_inv c" "au_password a = Some (sc_password c)"
      "sc_client_nonce c = b64_encode (au_raw_nonce a)"
    using assms(1) Some by (simp_all add: auth_inv_def)
  show ?thesis
  proof (cases final)
    case True
    obtain x c' where x: "verify_server_final_message c m = (x, c')"
      by (cases "verify_server_final_message c m")
    have "scram_inv c'"
      using inv(1) scram_step.verify [OF x] by (rule scram.inv_step)
    then show ?thesis
      using assms(2) Some True x inv verify_frame [OF x]
      by (cases x) (auto simp: sasl_continue_def auth_inv_def)
  next
    case False
    obtain x c' where x: "client_final_message c m = (x, c')"
      by (cases "client_final_message c m")
    have "scram_inv c'"
      using inv(1) scram_step.final [OF x] by (rule scram.inv_step)
    then show ?thesis
      using assms(2) Some False x inv final_frame [OF x]
      by (cases x) (auto simp: sasl_continue_def auth_inv_def)
  qed
qed

lemma respond_inv:
  assumes "auth_inv a" and "respond a request = (r, a')"
  shows "auth_inv a'"
proof -
  have "auth_inv (b\<lparr> au_client_finished_auth := f \<rparr>) = auth_inv b" for b f
    by (simp add: auth_inv_def split: option.split)
  then show ?thesis
    using assms
    by (cases request)
      (auto simp: send_password_def intro: sasl_init_inv sasl_continue_inv split: result.splits)
qed

interpretation authenticating: machine auth_init auth_steps auth_inv
proof unfold_locales
  fix a
  assume "auth_init a"
  then show "auth_inv a"
    by (auto simp: auth_init_def auth_inv_def with_channel_binding_def Authenticator_new_def)
next
  fix a a'
  assume "auth_inv a" and "auth_steps a a'"
  then show "auth_inv a'"
    using respond_inv by (metis auth_steps_def prod.collapse)
qed

text \<open>Whatever requests the server sends, a final message is accepted exactly if the SCRAM client
  has sent its proof and the message carries the signature that the standard derives from the
  password the authenticator was given, for the text of an exchange in which the server's nonce
  extends the one drawn for this connection. Without a SCRAM exchange every such message is refused.\<close>

lemma final_message_accepted:
  assumes "reach auth_init auth_steps a"
  shows "fst (respond a (SaslFinal m)) = Ok NoAnswer \<longleftrightarrow>
    (\<exists>c password snonce. au_scram a = Some c \<and> sc_state c = ProofSent \<and> au_password a = Some password \<and>
       sc_nonce c = b64_encode (au_raw_nonce a) @ snonce \<and>
       carries_signature m (server_signature
         (pbkdf2 password (sc_salt c) (unat (sc_iterations c)))
         (exchange_text (b64_encode (au_raw_nonce a)) (sc_server_first_message c)
            (b64_encode (au_raw_nonce a) @ snonce))))"
proof (cases "au_scram a")
  case None
  then show ?thesis
    by (simp add: sasl_continue_def)
next
  case (Some c)
  have "auth_inv a"
    using assms by (rule authenticating.reach_inv)
  then have inv: "scram_inv c" "au_password a = Some (sc_password c)"
      "sc_client_nonce c = b64_encode (au_raw_nonce a)"
    using Some by (simp_all add: auth_inv_def)
  have "fst (respond a (SaslFinal m)) = Ok NoAnswer \<longleftrightarrow> fst (verify_server_final_message c m) = Ok ()"
    using Some by (auto simp: sasl_continue_def split: prod.splits result.splits)
  also have "\<dots> \<longleftrightarrow> sc_state c = ProofSent \<and> carries_signature m (expected_signature c)"
    by (rule verify_Ok_iff)
  finally show ?thesis
    using Some inv
    by (auto simp: scram_inv_def nonce_sent_def proof_sent_def expected_signature_def exchange_text_def
        simp del: bstr_Cons)
qed

section \<open>Required channel binding\<close>

text \<open>A client that requires channel binding never starts a SCRAM exchange.\<close>

definition binding_inv :: "authenticator \<Rightarrow> bool" where
  "binding_inv a \<longleftrightarrow> (au_channel_binding a = CbRequire \<longrightarrow> au_scram a = None)"

interpretation binding: machine auth_init auth_steps binding_inv
proof unfold_locales
  show "binding_inv a" if "auth_init a" for a
    using that by (auto simp: auth_init_def binding_inv_def with_channel_binding_def Authenticator_new_def)
next
  fix a a'
  assume inv: "binding_inv a" and "auth_steps a a'"
  then obtain r where "a' = snd (respond a r)"
    by (auto simp: auth_steps_def)
  then show "binding_inv a'"
    using inv by (cases r) (auto simp: binding_inv_def send_password_def sasl_init_def sasl_continue_def
        split: result.splits prod.splits option.splits)
qed

text \<open>What such a client gives away and what it refuses. A request for the password, in clear text or
  hashed with MD5, is answered and counts as the end of the client's part.\<close>

fun required_answer :: "bytes \<Rightarrow> bytes \<Rightarrow> auth_request \<Rightarrow> (auth_step, auth_error) result" where
  "required_answer user p AuthOk = Ok Complete"
| "required_answer user p CleartextPassword = Ok (SendMessage (PasswordMessage p))"
| "required_answer user p (Md5Password s0 s1 s2 s3) =
     Ok (SendMessage (PasswordMessage (bstr ''md5'' @ md5_hash (md5_hash (p @ user) @ [s0, s1, s2, s3]))))"
| "required_answer user p (Sasl mechanisms) = Err ChannelBindingRequiredWithoutSsl"
| "required_answer user p (SaslContinue challenge) = Err SaslContinueWithoutSasl"
| "required_answer user p (SaslFinal challenge) = Err SaslContinueWithoutSasl"
| "required_answer user p KerberosV4 = Err Kerberos4NotSupported"
| "required_answer user p KerberosV5 = Err Kerberos5NotSupported"
| "required_answer user p Crypt = Err CryptNotSupported"
| "required_answer user p Gss = Err GssapiNotSupported"
| "required_answer user p (GssContinue b) = Err GssapiNotSupported"
| "required_answer user p Sspi = Err SspiNotSupported"
| "required_answer user p (AuthUnknown code) = Err (MethodNotSupported code)"

fun asks_password :: "auth_request \<Rightarrow> bool" where
  "asks_password CleartextPassword = True"
| "asks_password (Md5Password s0 s1 s2 s3) = True"
| "asks_password _ = False"

lemma respond_required:
  assumes "au_channel_binding a = CbRequire" and "au_scram a = None" and "au_password a = Some p" and "p \<noteq> []"
  shows "respond a r = (required_answer (au_user a) p r,
    a\<lparr> au_client_finished_auth := au_client_finished_auth a \<or> asks_password r \<rparr>)"
proof -
  have "a\<lparr> au_client_finished_auth := au_client_finished_auth a \<rparr> = a"
    by simp
  then show ?thesis
    using assms
    by (cases r) (simp_all add: send_password_def auth_password_def sasl_init_def sasl_continue_def
        md5_answer_def md5_encrypt_def Let_def)
qed

lemma dialogue_required:
  assumes "au_channel_binding a = CbRequire" and "au_scram a = None" and "au_password a = Some p" and "p \<noteq> []"
  shows "dialogue a rs = (map (required_answer (au_user a) p) rs,
    a\<lparr> au_client_finished_auth := au_client_finished_auth a \<or> list_ex asks_password rs \<rparr>)"
  using assms by (induction rs arbitrary: a) (simp_all add: respond_required del: respond.simps)

text \<open>C18: \<open>channel_binding=require\<close> is enforced only when the server asks for SASL. From any point of
  a run on, whatever the server asks for and in whatever order, a client that requires channel
  binding answers a request for the password in clear text with the password, a request for its MD5
  hash with the hash, takes \<open>AuthenticationOk\<close> for success, and refuses all the rest, every SASL offer in particular. So no
  exchange that could bind the channel is ever begun, and yet the authentication ends as soon as
  the server says so: with the password given away, or without any request at all.\<close>

theorem channel_binding_not_enforced:
  assumes "reach auth_init auth_steps a" and "au_channel_binding a = CbRequire"
    and "au_password a = Some p" and "p \<noteq> []"
  shows "dialogue a rs = (map (required_answer (au_user a) p) rs,
      a\<lparr> au_client_finished_auth := au_client_finished_auth a \<or> list_ex asks_password rs \<rparr>) \<and>
    au_scram (snd (dialogue a rs)) = None \<and>
    fst (dialogue a [AuthOk]) = [Ok Complete] \<and>
    fst (dialogue a [CleartextPassword, AuthOk]) = [Ok (SendMessage (PasswordMessage p)), Ok Complete] \<and>
    fst (dialogue a [Md5Password s0 s1 s2 s3, AuthOk]) =
      [Ok (SendMessage (PasswordMessage (md5_answer (au_user a) [s0, s1, s2, s3] p))), Ok Complete] \<and>
    fst (dialogue a [Sasl mechanisms]) = [Err ChannelBindingRequiredWithoutSsl]"
proof -
  have "au_scram a = None"
    using binding.reach_inv [OF assms(1)] assms(2) by (simp add: binding_inv_def)
  then show ?thesis
    using assms by (simp add: dialogue_required md5_answer_def md5_encrypt_def Let_def del: dialogue.simps)
qed

theorem channel_binding_not_enforced_witness:
  "\<exists>a. reach auth_init auth_steps a \<and> au_channel_binding a = CbRequire \<and>
     fst (dialogue a [Sasl [SCRAM_SHA_256_NAME], CleartextPassword, Md5Password 1 2 3 4, AuthOk]) =
       [Err ChannelBindingRequiredWithoutSsl, Ok (SendMessage (PasswordMessage (bstr ''secret''))),
        Ok (SendMessage (PasswordMessage (bstr ''md5'' @ md5_hash (md5_hash (bstr ''secret'' @ bstr ''u'') @ [1, 2, 3, 4])))),
        Ok Complete]"
proof -
  let ?a = "with_channel_binding CbRequire (Authenticator_new (bstr ''u'') (Some (bstr ''secret'')) [])"
  have r: "reach auth_init auth_steps ?a"
    by (rule reach_init) (auto simp: auth_init_def)
  have a: "au_channel_binding ?a = CbRequire" "au_password ?a = Some (bstr ''secret'')" "au_user ?a = bstr ''u''"
      "bstr ''secret'' \<noteq> []"
    by (simp_all add: with_channel_binding_def Authenticator_new_def)
  show ?thesis
    using r a(1) channel_binding_not_enforced
      [OF r a(1,2,4), of "[Sasl [SCRAM_SHA_256_NAME], CleartextPassword, Md5Password 1 2 3 4, AuthOk]"]
    by (intro exI [of _ ?a]) (simp add: a(3) del: dialogue.simps bstr_Cons)
qed

end
