(* ===== verification/Escape.thy ===== *)
theory Escape
  imports Encoding
begin

text \<open>
  The escaping of strings, literals, identifiers and \<open>bytea\<close> values, \<open>crates/rlibpq/src/escape.rs\<close>.
  A loop over an index of the source is a recursion over the rest of it.

  What the server does with the text is specified by a reader of quoted text that goes character by
  character, with the character lengths of an encoding (the locale \<open>char_reader\<close>, interpreted on
  every encoding's \<open>mblen\<close>): a doubled quote is a quote, a doubled backslash a backslash where
  backslashes escape, and a single quote, which would end the text, or another backslash sequence
  is a failure.

  Shown: reading what was escaped gives back the input, so that no input can end its own literal;
  an invalid input still cannot, and is refused by the encoding's verification; a literal or
  identifier is produced exactly for valid input and reads back under either setting of
  \<open>standard_conforming_strings\<close>; and a \<open>bytea\<close> value survives both of its spellings.
\<close>

section \<open>Strings\<close>

datatype escape_error = IncompleteMultibyte | InvalidMultibyte

definition up_to_nul :: "bytes \<Rightarrow> bytes" where
  "up_to_nul from = before_nul from"

definition sql_str_double :: "byte \<Rightarrow> bool \<Rightarrow> bool" where
  "sql_str_double c escape_backslash = (c = 39 \<or> c = 92 \<and> escape_backslash)"

text \<open>Whether the character at the start of \<open>c # cs\<close> is whole and valid.\<close>

definition char_valid :: "encoding \<Rightarrow> byte \<Rightarrow> bytes \<Rightarrow> bool" where
  "char_valid e c cs =
     (case mblen_or_incomplete e (c # cs) of
        Some n \<Rightarrow> n \<le> length (c # cs) \<and> verify_char e c (take (n - 1) cs) \<noteq> None
      | None \<Rightarrow> False)"

definition char_complaint :: "encoding \<Rightarrow> byte \<Rightarrow> bytes \<Rightarrow> escape_error" where
  "char_complaint e c cs =
     (case mblen_or_incomplete e (c # cs) of
        None \<Rightarrow> IncompleteMultibyte
      | Some n \<Rightarrow> if n > length (c # cs) then IncompleteMultibyte else InvalidMultibyte)"

function escape_loop ::
  "encoding \<Rightarrow> bool \<Rightarrow> bytes \<Rightarrow> escape_error option \<Rightarrow> bytes \<times> escape_error option" where
  "escape_loop e std_strings [] error = ([], error)"
| "escape_loop e std_strings (c # cs) error =
     (if \<not> is_highbit_set c then
        (let (t, error) = escape_loop e std_strings cs error in
         (if sql_str_double c (\<not> std_strings) then c # c # t else c # t, error))
      else if char_valid e c cs then
        (let n = mblen e c cs; (t, error) = escape_loop e std_strings (drop n (c # cs)) error in
         (take n (c # cs) @ t, error))
      else
        (let error = (if error = None then Some (char_complaint e c cs) else error);
             (t, error) = escape_loop e std_strings cs error
         in (invalid_sequence e @ t, error)))"
  by pat_completeness auto
termination
  using mblen_positive
  by (relation "measure (\<lambda>(e, std, s, err). length s)") (auto simp: Suc_le_eq)

declare escape_loop.simps(2) [simp del]

definition escape_string :: "bytes \<Rightarrow> encoding \<Rightarrow> bool \<Rightarrow> bytes \<times> escape_error option" where
  "escape_string from e std_strings = escape_loop e std_strings (up_to_nul from) None"

section \<open>Literals and identifiers\<close>

text \<open>The scanning loop: the counts of quotes and backslashes. \<open>None\<close> inside the verification is a
  loop that does not end, which \<open>verify_str_total\<close> excludes.\<close>

function scan_loop ::
  "encoding \<Rightarrow> byte \<Rightarrow> bytes \<Rightarrow> bool \<Rightarrow> nat \<Rightarrow> nat \<Rightarrow> (nat \<times> nat, escape_error) result" where
  "scan_loop e q [] validated quotes backslashes = Ok (quotes, backslashes)"
| "scan_loop e q (c # cs) validated quotes backslashes =
     (if c = q then scan_loop e q cs validated (quotes + 1) backslashes
      else if c = 92 then scan_loop e q cs validated quotes (backslashes + 1)
      else if is_highbit_set c then
        (case mblen_or_incomplete e (c # cs) of
           None \<Rightarrow> Err IncompleteMultibyte
         | Some n \<Rightarrow>
             if n > length (c # cs) then Err IncompleteMultibyte
             else if \<not> validated \<and> verify_str_from e (c # cs) \<noteq> Some (length (c # cs))
             then Err InvalidMultibyte
             else scan_loop e q (drop n (c # cs)) True quotes backslashes)
      else scan_loop e q cs validated quotes backslashes)"
  by pat_completeness auto
termination
  using mblen_positive
  by (relation "measure (\<lambda>(e, q, s, v, m, n). length s)") (auto simp: Suc_le_eq split: if_splits)

declare scan_loop.simps(2) [simp del]

function quote_loop :: "encoding \<Rightarrow> byte \<Rightarrow> bool \<Rightarrow> bytes \<Rightarrow> bytes" where
  "quote_loop e q as_ident [] = []"
| "quote_loop e q as_ident (c # cs) =
     (if c = q \<or> \<not> as_ident \<and> c = 92 then c # c # quote_loop e q as_ident cs
      else if \<not> is_highbit_set c then c # quote_loop e q as_ident cs
      else let n = min (mblen e c cs) (length (c # cs)) in
        take n (c # cs) @ quote_loop e q as_ident (drop n (c # cs)))"
  by pat_completeness auto
termination
  using mblen_positive
  by (relation "measure (\<lambda>(e, q, i, s). length s)") (auto simp: Suc_le_eq)

declare quote_loop.simps(2) [simp del]

definition escape_internal :: "bytes \<Rightarrow> encoding \<Rightarrow> bool \<Rightarrow> (bytes, escape_error) result" where
  "escape_internal from e as_ident =
     (let input = up_to_nul from; q = (if as_ident then 34 else 39) in
      and_then (scan_loop e q input False 0 0) (\<lambda>(quotes, backslashes).
        let prefix = (if \<not> as_ident \<and> backslashes > 0 then bstr '' E'' else []);
            body = (if quotes = 0 \<and> (backslashes = 0 \<or> as_ident) then input
                    else quote_loop e q as_ident input)
        in Ok (prefix @ q # body @ [q])))"

section \<open>Binary values\<close>

definition HEXTBL :: bytes where
  "HEXTBL = bstr ''0123456789abcdef''"

definition escape_bytea_byte :: "bool \<Rightarrow> bool \<Rightarrow> byte \<Rightarrow> bytes" where
  "escape_bytea_byte std_strings use_hex c =
     (if use_hex then [HEXTBL ! unat (drop_bit 4 c), HEXTBL ! unat (c AND 0xf)]
      else if \<not> (0x20 \<le> c \<and> c \<le> 0x7e) then
        (if std_strings then [] else [92]) @
        [92, drop_bit 6 c + 48, (drop_bit 3 c AND 7) + 48, (c AND 7) + 48]
      else if c = 39 then [39, 39]
      else if c = 92 then (if std_strings then [] else [92, 92]) @ [92, 92]
      else [c])"

definition escape_bytea :: "bytes \<Rightarrow> bool \<Rightarrow> bool \<Rightarrow> bytes" where
  "escape_bytea from std_strings use_hex =
     (if use_hex then (if std_strings then [] else [92]) @ [92, 120] else []) @
     concat (map (escape_bytea_byte std_strings use_hex) from)"

definition get_hex :: "byte \<Rightarrow> byte option" where
  "get_hex c =
     (if 48 \<le> c \<and> c \<le> 57 then Some (c - 48)
      else if 97 \<le> c \<and> c \<le> 102 then Some (c - 97 + 10)
      else if 65 \<le> c \<and> c \<le> 70 then Some (c - 65 + 10)
      else None)"

fun unescape_hex :: "bytes \<Rightarrow> bytes" where
  "unescape_hex [] = []"
| "unescape_hex (c1 # s) =
     (case get_hex c1 of
        None \<Rightarrow> unescape_hex s
      | Some v1 \<Rightarrow>
          (case s of
             [] \<Rightarrow> []
           | c2 # s' \<Rightarrow>
               (case get_hex c2 of
                  Some v2 \<Rightarrow> (push_bit 4 v1 OR v2) # unescape_hex s'
                | None \<Rightarrow> unescape_hex s')))"

definition first_oct :: "byte \<Rightarrow> bool" where
  "first_oct c = (48 \<le> c \<and> c \<le> 51)"

definition oct :: "byte \<Rightarrow> bool" where
  "oct c = (48 \<le> c \<and> c \<le> 55)"

function unescape_escaped :: "bytes \<Rightarrow> bytes" where
  "unescape_escaped [] = []"
| "unescape_escaped (c # cs) =
     (if c = 92 then
        (if at cs 0 = 92 then 92 # unescape_escaped (drop 1 cs)
         else if first_oct (at cs 0) \<and> oct (at cs 1) \<and> oct (at cs 2) then
           (push_bit 6 (at cs 0 - 48) OR push_bit 3 (at cs 1 - 48) OR (at cs 2 - 48))
             # unescape_escaped (drop 3 cs)
         else unescape_escaped cs)
      else c # unescape_escaped cs)"
  by pat_completeness auto
termination
  by (relation "measure length") auto

declare unescape_escaped.simps(2) [simp del]

definition unescape_bytea :: "bytes \<Rightarrow> bytes" where
  "unescape_bytea strtext =
     (let text = up_to_nul strtext in
      if take 2 text = [92, 120] then unescape_hex (drop 2 text) else unescape_escaped text)"

section \<open>Reading quoted text\<close>

text \<open>The reader of the text between two quotes \<open>q\<close>. \<open>len\<close> is the length of the character at the start
  of a slice; \<open>esc\<close> says whether backslashes escape.\<close>

function sql_read :: "(byte \<Rightarrow> bytes \<Rightarrow> nat) \<Rightarrow> byte \<Rightarrow> bool \<Rightarrow> bytes \<Rightarrow> bytes option" where
  "sql_read len q esc [] = Some []"
| "sql_read len q esc (c # cs) =
     (if is_highbit_set c then
        (let n = max 1 (min (len c cs) (length (c # cs))) in
         map_option (\<lambda>t. take n (c # cs) @ t) (sql_read len q esc (drop n (c # cs))))
      else if c = q \<or> c = 92 \<and> esc then
        (case cs of d # ds \<Rightarrow> if d = c then map_option (Cons c) (sql_read len q esc ds) else None
                  | [] \<Rightarrow> None)
      else map_option (Cons c) (sql_read len q esc cs))"
  by pat_completeness auto
termination
  by (relation "measure (\<lambda>(len, q, esc, s). length s)") auto

declare sql_read.simps(2) [simp del]

text \<open>Character lengths that depend on the bytes of the character only.\<close>

locale char_reader =
  fixes len :: "byte \<Rightarrow> bytes \<Rightarrow> nat"
  assumes len_pos: "1 \<le> len c cs"
    and len_local: "len c cs \<le> length (c # cs) \<Longrightarrow> len c (take (len c cs - 1) cs @ r) = len c cs"
begin

lemma read_char:
  assumes "is_highbit_set c" and "len c cs \<le> length (c # cs)"
  shows "sql_read len q esc (take (len c cs) (c # cs) @ r) =
    map_option (\<lambda>t. take (len c cs) (c # cs) @ t) (sql_read len q esc r)"
proof -
  let ?n = "len c cs"
  have t: "take ?n (c # cs) = c # take (?n - 1) cs"
    using len_pos [of c cs] by (cases ?n) auto
  have "len c (take (?n - 1) cs @ r) = ?n" "length (take (?n - 1) cs) = ?n - 1"
    using assms(2) len_local by auto
  moreover have "max 1 (min ?n (length (c # take (?n - 1) cs @ r))) = ?n"
    using assms(2) len_pos [of c cs] by simp
  moreover have "take ?n (c # take (?n - 1) cs @ r) = c # take (?n - 1) cs"
      "drop ?n (c # take (?n - 1) cs @ r) = r"
    using assms(2) len_pos [of c cs] by (cases ?n; simp)+
  ultimately show ?thesis
    using assms(1) unfolding t append_Cons
    by (cases "sql_read len q esc r") (simp_all only: sql_read.simps(2) Let_def if_True option.map append_Cons)
qed

lemma read_doubled:
  assumes "\<not> is_highbit_set c" and "c = q \<or> c = 92 \<and> esc"
  shows "sql_read len q esc (c # c # r) = map_option (Cons c) (sql_read len q esc r)"
  using assms by (simp add: sql_read.simps(2))

lemma read_plain:
  assumes "\<not> is_highbit_set c" and "\<not> (c = q \<or> c = 92 \<and> esc)"
  shows "sql_read len q esc (c # r) = map_option (Cons c) (sql_read len q esc r)"
  using assms by (auto simp: sql_read.simps(2))

end

lemma family_mblen_local:
  "family_mblen f c cs \<le> length (c # cs) \<Longrightarrow>
   family_mblen f c (take (family_mblen f c cs - 1) cs @ r) = family_mblen f c cs"
proof (cases "f = FGb18030 \<and> is_highbit_set c")
  case True
  assume le: "family_mblen f c cs \<le> length (c # cs)"
  have "2 \<le> family_mblen f c cs"
    using True by (simp add: gb18030_mblen_def)
  then obtain d ds where cs: "cs = d # ds"
    using le by (cases cs) auto
  then have "at (take (family_mblen f c cs - 1) cs @ r) 0 = at cs 0"
    using \<open>2 \<le> family_mblen f c cs\<close> by (cases "family_mblen f c cs - 1") (auto simp: at_def)
  then show ?thesis
    using True by (simp add: gb18030_mblen_def)
next
  case False
  then show ?thesis
    by (cases f) (simp_all add: gb18030_mblen_def)
qed

interpretation chars: char_reader "mblen e" for e
  by unfold_locales (use mblen_positive family_mblen_local in \<open>simp_all add: mblen_def\<close>)

section \<open>Escaped strings\<close>

lemma char_valid_length:
  assumes "char_valid e c cs"
  shows "mblen e c cs \<le> length (c # cs)" "verify_char e c (take (mblen e c cs - 1) cs) \<noteq> None"
  using assms by (auto simp: char_valid_def split: option.splits if_splits)

lemma invalid_mblen:
  assumes "1 < max_length e"
  shows "\<exists>c d. invalid_sequence e = [c, d] \<and> is_highbit_set c \<and> mblen e c (d # r) = 2"
  using assms
  by (cases "family e")
    (auto simp: invalid_sequence_def mblen_def max_length_def char_defs family_Utf8_iff [symmetric]
      NONUTF8_INVALID_BYTE0_def NONUTF8_INVALID_BYTE1_def is_highbit_set_def)

lemma verify_char_Some: "verify_char e c cs = Some l \<Longrightarrow> l = mblen e c cs \<and> l \<le> length (c # cs)"
  using family_verify_length by (simp add: verify_char_def mblen_def)

text \<open>Verification reads the bytes of one character only.\<close>

lemma family_verify_append:
  assumes "family_mblen f c (xs @ r) = Suc (length xs)" "family_mblen f c (xs @ s) = Suc (length xs)"
  shows "family_verify_char f c (xs @ r) = family_verify_char f c (xs @ s)"
proof -
  consider "f \<in> {FAscii, FLatin1}" | "f \<in> {FEucJp, FEucCn, FEucKr, FEucTw}" | "f = FGb18030"
    | "f \<in> {FUtf8, FMule, FJohab}" | "f \<in> {FSjis, FBig5, FGbk, FUhc}"
    by (cases f) simp_all
  then show ?thesis
  proof cases
    case 1
    then show ?thesis by auto
  next
    case 2
    have ss: "SS2 \<noteq> SS3" "is_highbit_set SS2" "is_highbit_set SS3"
        "\<not> is_euc_range_valid SS2" "\<not> is_euc_range_valid SS3"
      by (simp_all add: SS2_def SS3_def is_highbit_set_def is_euc_range_valid_def)
    have "length xs = (if f = FEucTw \<and> c = SS2 then 3 else if f = FEucCn \<and> (c = SS2 \<or> c = SS3) \<or> c = SS3 then 2
        else if c = SS2 \<or> is_highbit_set c then 1 else 0)"
      using 2 assms(1) ss by (auto simp: euc_mblen_def euctw_mblen_def euccn_mblen_def split: if_splits)
    with 2 ss show ?thesis
      by (cases "c = SS2"; cases "c = SS3"; cases "is_highbit_set c")
        (auto simp: eucjp_verifychar_def euckr_verifychar_def euctw_verifychar_def nth_append)
  next
    case 3
    show ?thesis
    proof (cases "is_highbit_set c")
      case True
      then obtain a ys where xs: "xs = a # ys"
        using assms(1) 3 by (cases xs) (auto simp: gb18030_mblen_def split: if_splits)
      then have "length ys = (if gb_digit a then 2 else 0)"
        using assms(1) 3 True by (simp add: gb18030_mblen_def gb_digit_def at_def split: if_splits)
      then show ?thesis
        using 3 True by (simp add: xs gb18030_verifychar_def nth_append)
    qed (simp add: 3 gb18030_verifychar_def)
  next
    case 4
    then show ?thesis
      using assms
      by (auto simp: utf8_verifychar_def mule_verifychar_def johab_verifychar_def Let_def)
  next
    case 5
    then show ?thesis
      using assms by (auto simp: sjis_verifychar_def big5_verifychar_def Let_def nth_append)
  qed
qed

lemma family_verify_local:
  assumes "family_mblen f c cs \<le> length (c # cs)"
  shows "family_verify_char f c (take (family_mblen f c cs - 1) cs @ r) = family_verify_char f c cs"
proof -
  let ?n = "family_mblen f c cs"
  have "1 \<le> ?n"
    by (cases f) (simp_all add: char_defs)
  then have len: "?n = Suc (length (take (?n - 1) cs))"
    using assms by simp
  show ?thesis
    using family_verify_append [of f c "take (?n - 1) cs" r "drop (?n - 1) cs"]
      family_mblen_local [OF assms] len by simp
qed

lemma char_valid_iff: "char_valid e c cs \<longleftrightarrow> verify_char e c cs = Some (mblen e c cs)"
proof (cases "mblen e c cs \<le> length (c # cs)")
  case True
  then have eq: "verify_char e c (take (mblen e c cs - 1) cs) = verify_char e c cs"
    using family_verify_local [of "family e" c cs "[]"] by (simp add: verify_char_def mblen_def)
  have "mblen_or_incomplete e (c # cs) = Some (mblen e c cs)"
    using True by (auto simp: mblen_def gb18030_mblen_def)
  then show ?thesis
    using True eq verify_char_Some [of e c cs] by (auto simp: char_valid_def)
next
  case False
  then show ?thesis
    using verify_char_Some [of e c cs "mblen e c cs"] by (auto simp: char_valid_def)
qed

text \<open>The bytes verify as characters to the end, or do not.\<close>

definition enc_valid :: "encoding \<Rightarrow> bytes \<Rightarrow> bool" where
  "enc_valid e s = (verify_str_from e s = Some (length s))"

lemma enc_valid_Nil [simp]: "enc_valid e []"
  by (simp add: enc_valid_def)

lemma enc_valid_ascii:
  "\<not> is_highbit_set c \<Longrightarrow> c \<noteq> 0 \<Longrightarrow> enc_valid e (c # s) = enc_valid e s"
  by (auto simp: enc_valid_def)

lemma enc_valid_char:
  assumes "is_highbit_set c"
  shows "enc_valid e (c # s) \<longleftrightarrow> char_valid e c s \<and> enc_valid e (drop (mblen e c s) (c # s))"
proof (cases "verify_char e c s")
  case None
  then show ?thesis
    using assms by (simp add: enc_valid_def char_valid_iff)
next
  case (Some l)
  then have l: "l = mblen e c s" "l \<le> length (c # s)" "l \<noteq> 0"
    using verify_char_Some [of e c s] mblen_positive [of e c s] by auto
  obtain n where n: "verify_str_from e (drop l (c # s)) = Some n"
    using verify_str_total by blast
  have "length (drop l (c # s)) + l = length (c # s)"
    using l(2) by simp
  then show ?thesis
    using Some l n assms unfolding enc_valid_def char_valid_iff
    by (simp del: length_Cons length_drop) linarith
qed

lemma enc_valid_whole:
  assumes "is_highbit_set c" and "char_valid e c s"
  shows "enc_valid e (take (mblen e c s) (c # s) @ r) = enc_valid e r"
proof -
  let ?n = "mblen e c s"
  have le: "?n \<le> length (c # s)" "1 \<le> ?n"
    using char_valid_length [OF assms(2)] mblen_positive by auto
  then have t: "take ?n (c # s) = c # take (?n - 1) s"
    by (cases ?n) auto
  have n: "mblen e c (take (?n - 1) s @ r) = ?n"
    using le(1) by (rule chars.len_local)
  have "char_valid e c (take (?n - 1) s @ r)"
    using assms(2) n family_verify_local [of "family e" c s r] le(1)
    by (simp add: char_valid_iff verify_char_def mblen_def)
  moreover have "drop ?n (c # take (?n - 1) s @ r) = r"
    using le by (cases ?n) auto
  ultimately show ?thesis
    using enc_valid_char [OF assms(1)] n by (simp add: t)
qed

lemma enc_valid_invalid: "1 < max_length e \<Longrightarrow> \<not> enc_valid e (invalid_sequence e @ r)"
proof -
  assume m: "1 < max_length e"
  then obtain c d where cd: "invalid_sequence e = [c, d]" "is_highbit_set c"
    using invalid_mblen by blast
  then have "verify_char e c (d # r) = None"
    using family_invalid_refused [of "family e" r] m
    by (auto simp: invalid_sequence_def verify_char_def max_length_def family_Utf8_iff)
  with cd show ?thesis
    by (simp add: enc_valid_def)
qed

lemma char_valid_single: "\<not> char_valid e c cs \<Longrightarrow> 1 < max_length e"
proof (rule ccontr)
  assume "\<not> char_valid e c cs" "\<not> 1 < max_length e"
  then show False
    by (cases "family e") (simp_all add: char_valid_iff verify_char_def mblen_def max_length_def)
qed

lemma read_invalid:
  assumes "1 < max_length e"
  shows "sql_read (mblen e) q esc (invalid_sequence e @ r) =
    map_option (\<lambda>t. invalid_sequence e @ t) (sql_read (mblen e) q esc r)"
proof -
  obtain c d where cd: "invalid_sequence e = [c, d]" "is_highbit_set c" "mblen e c [d] = 2"
    using invalid_mblen [OF assms, of "[]"] by auto
  then show ?thesis
    using chars.read_char [of c e "[d]" q esc r] by simp
qed

lemma escape_loop_error: "err \<noteq> None \<Longrightarrow> snd (escape_loop e std s err) \<noteq> None"
  by (induction e std s err rule: escape_loop.induct)
    (auto simp: escape_loop.simps(2) Let_def split: prod.splits if_splits)

lemma escape_loop_reads:
  assumes "0 \<notin> set s"
  shows "(case escape_loop e std s err of (t, err') \<Rightarrow>
    (\<exists>u. sql_read (mblen e) 39 (\<not> std) t = Some u \<and> (err' = None \<longrightarrow> u = s)) \<and>
    (err' = None \<longrightarrow> enc_valid e s) \<and> (err = None \<and> err' \<noteq> None \<longrightarrow> \<not> enc_valid e s \<and> \<not> enc_valid e t))"
  using assms
proof (induction e std s err rule: escape_loop.induct)
  case (1 e std err)
  then show ?case by (cases err) simp_all
next
  case (2 e std c cs err)
  have nul: "c \<noteq> 0" "0 \<notin> set cs" "0 \<notin> set (drop n (c # cs))" for n
    using "2.prems" by (auto dest: in_set_dropD)
  consider "\<not> is_highbit_set c" | "is_highbit_set c" "char_valid e c cs"
    | "is_highbit_set c" "\<not> char_valid e c cs" by blast
  then show ?case
  proof cases
    case 1
    then show ?thesis
      using "2.IH"(1) [OF 1 nul(2)] nul(1) chars.read_doubled [OF 1] chars.read_plain [OF 1]
      by (auto simp: escape_loop.simps(2) sql_str_double_def enc_valid_ascii split: prod.splits)
  next
    case 2
    then show ?thesis
      using "2.IH"(2) [OF _ _ refl nul(3)] chars.read_char [OF 2(1) char_valid_length(1) [OF 2(2)]]
        enc_valid_whole [OF 2] enc_valid_char [OF 2(1), of e cs]
      by (auto simp: escape_loop.simps(2) Let_def append_take_drop_id split: prod.splits simp del: take.simps drop.simps take_Cons drop_Cons)
  next
    case 3
    have m: "1 < max_length e"
      using 3(2) by (rule char_valid_single)
    define err1 where "err1 = (if err = None then Some (char_complaint e c cs) else err)"
    obtain t err' where t: "escape_loop e std cs err1 = (t, err')"
      by fastforce
    have "err' \<noteq> None"
      using escape_loop_error [of err1 e std cs] t by (auto simp: err1_def split: if_splits)
    moreover have "escape_loop e std (c # cs) err = (invalid_sequence e @ t, err')"
      using 3 t by (simp add: escape_loop.simps(2) err1_def)
    moreover obtain u where "sql_read (mblen e) 39 (\<not> std) t = Some u"
      using "2.IH"(3) [OF _ _ err1_def nul(2)] 3 t by auto
    ultimately show ?thesis
      using 3 read_invalid [OF m] enc_valid_invalid [OF m] enc_valid_char [OF 3(1), of e cs] by auto
  qed
qed

section \<open>Literals and identifiers that read back\<close>

lemma backslash_ascii: "\<not> is_highbit_set 92" "(92 :: byte) \<noteq> 0"
  by (simp_all add: is_highbit_set_def)

lemma scan_loop_verdict:
  assumes "0 \<notin> set s" and "validated \<Longrightarrow> enc_valid e s" and "\<not> is_highbit_set q"
  shows "is_ok (scan_loop e q s validated quotes backslashes) \<longleftrightarrow> enc_valid e s"
  using assms
proof (induction e q s validated quotes backslashes rule: scan_loop.induct)
  case (1 e q validated quotes backslashes)
  then show ?case by simp
next
  case (2 e q c cs validated quotes backslashes)
  have nul: "c \<noteq> 0" "0 \<notin> set cs" "0 \<notin> set (drop n (c # cs))" for n
    using "2.prems" by (auto dest: in_set_dropD)
  show ?case
  proof (cases "is_highbit_set c")
    case False
    then have "enc_valid e (c # cs) = enc_valid e cs"
      using nul(1) by (rule enc_valid_ascii)
    then show ?thesis
      using "2.IH"(1,2,4) "2.prems" nul False by (simp add: scan_loop.simps(2))
  next
    case True
    then have c: "c \<noteq> q" "c \<noteq> 92"
      using "2.prems"(3) backslash_ascii by auto
    show ?thesis
    proof (cases "enc_valid e (c # cs)")
      case valid: True
      then have "char_valid e c cs" "enc_valid e (drop (mblen e c cs) (c # cs))"
        using enc_valid_char [OF True] by auto
      moreover from this have "mblen_or_incomplete e (c # cs) = Some (mblen e c cs)"
        by (auto simp: char_valid_def split: option.splits if_splits)
      ultimately show ?thesis
        using "2.IH"(3) [OF c True _ _ _ nul(3)] char_valid_length(1) [of e c cs] "2.prems" c True valid
        by (simp add: scan_loop.simps(2) enc_valid_def not_less del: mblen_or_incomplete.simps)
    next
      case invalid: False
      then have "\<not> validated"
        using "2.prems"(2) by blast
      then show ?thesis
        using c True invalid by (simp add: scan_loop.simps(2) enc_valid_def split: option.splits)
    qed
  qed
qed

lemma quote_loop_char:
  assumes "is_highbit_set c" "\<not> is_highbit_set q" "mblen e c cs \<le> length (c # cs)"
  shows "quote_loop e q as_ident (c # cs) =
    take (mblen e c cs) (c # cs) @ quote_loop e q as_ident (drop (mblen e c cs) (c # cs))"
  using assms backslash_ascii by (auto simp: quote_loop.simps(2) Let_def)

lemma scan_loop_char:
  assumes "scan_loop e q (c # cs) validated quotes backslashes = Ok r" "is_highbit_set c"
    "\<not> is_highbit_set q"
  shows "c \<noteq> q" "c \<noteq> 92" "mblen_or_incomplete e (c # cs) = Some (mblen e c cs)"
    "mblen e c cs \<le> length (c # cs)"
    "\<not> (\<not> validated \<and> verify_str_from e (c # cs) \<noteq> Some (length (c # cs)))"
    "scan_loop e q (drop (mblen e c cs) (c # cs)) True quotes backslashes = Ok r"
proof -
  show c: "c \<noteq> q" "c \<noteq> 92"
    using assms(2,3) backslash_ascii by auto
  show "mblen_or_incomplete e (c # cs) = Some (mblen e c cs)"
    "mblen e c cs \<le> length (c # cs)"
    "\<not> (\<not> validated \<and> verify_str_from e (c # cs) \<noteq> Some (length (c # cs)))"
    "scan_loop e q (drop (mblen e c cs) (c # cs)) True quotes backslashes = Ok r"
    using assms(1,2) c
    by (auto simp: scan_loop.simps(2) simp del: verify_str_from.simps split: option.splits if_splits)
qed

lemma scan_loop_counts:
  assumes "scan_loop e q s validated quotes backslashes = Ok (m, n)" and "\<not> is_highbit_set q"
  shows "quotes \<le> m \<and> backslashes \<le> n \<and> (m = quotes \<longrightarrow> quote_loop e q True s = s) \<and>
    (n = backslashes \<longrightarrow> quote_loop e q False s = quote_loop e q True s)"
  using assms
proof (induction e q s validated quotes backslashes rule: scan_loop.induct)
  case (1 e q validated quotes backslashes)
  then show ?case by simp
next
  case (2 e q c cs validated quotes backslashes)
  show ?case
  proof (cases "is_highbit_set c")
    case False
    then show ?thesis
      using "2.IH"(1,2,4) "2.prems"
      by (simp add: scan_loop.simps(2) quote_loop.simps(2) split: if_splits) fastforce+
  next
    case True
    note step = scan_loop_char [OF "2.prems"(1) True "2.prems"(2)]
    show ?thesis
      using "2.IH"(3) [OF step(1,2) True step(3) _ step(5) step(6) "2.prems"(2)] step(4)
        quote_loop_char [OF True "2.prems"(2) step(4)] by simp
  qed
qed

lemma scan_loop_backslash:
  assumes "scan_loop e q s validated quotes backslashes = Ok (m, n)" and "\<not> is_highbit_set q"
  shows "n = backslashes \<or> 92 \<in> set (quote_loop e q as_ident s)"
  using assms
proof (induction e q s validated quotes backslashes rule: scan_loop.induct)
  case (2 e q c cs validated quotes backslashes)
  show ?case
  proof (cases "is_highbit_set c")
    case False
    then show ?thesis
      using "2.IH"(1,2,4) "2.prems" by (auto simp: scan_loop.simps(2) quote_loop.simps(2) split: if_splits)
  next
    case True
    note step = scan_loop_char [OF "2.prems"(1) True "2.prems"(2)]
    show ?thesis
      using "2.IH"(3) [OF step(1,2) True step(3) _ step(5) step(6) "2.prems"(2)] step(4)
        quote_loop_char [OF True "2.prems"(2) step(4)] by auto
  qed
qed simp

lemma quote_loop_reads:
  assumes "0 \<notin> set s" and "enc_valid e s" and "\<not> is_highbit_set q"
  shows "sql_read (mblen e) q (\<not> as_ident) (quote_loop e q as_ident s) = Some s"
  using assms
proof (induction e q as_ident s rule: quote_loop.induct)
  case (1 e q as_ident)
  then show ?case by simp
next
  case (2 e q as_ident c cs)
  show ?case
  proof (cases "is_highbit_set c")
    case False
    then have "enc_valid e cs"
      using "2.prems" enc_valid_ascii [of c e cs] by auto
    then show ?thesis
      using "2.IH"(1,2) "2.prems" False chars.read_doubled [OF False] chars.read_plain [OF False]
      by (auto simp: quote_loop.simps(2))
  next
    case True
    then have v: "char_valid e c cs" "enc_valid e (drop (mblen e c cs) (c # cs))"
      using "2.prems"(2) enc_valid_char by auto
    note len = char_valid_length(1) [OF v(1)]
    have "min (mblen e c cs) (length (c # cs)) = mblen e c cs" "0 \<notin> set (drop (mblen e c cs) (c # cs))"
      using len "2.prems"(1) by (auto dest: in_set_dropD)
    then have "sql_read (mblen e) q (\<not> as_ident) (quote_loop e q as_ident (drop (mblen e c cs) (c # cs))) =
        Some (drop (mblen e c cs) (c # cs))"
      using "2.IH"(3) [OF _ _ refl] v(2) True "2.prems"(3) backslash_ascii by auto
    then show ?thesis
      using chars.read_char [OF True len] quote_loop_char [OF True "2.prems"(3) len]
      by (simp add: append_take_drop_id del: take_Suc_Cons)
  qed
qed

lemma quote_ascii: "\<not> is_highbit_set 34" "\<not> is_highbit_set 39"
  by (simp_all add: is_highbit_set_def)

section \<open>Binary values that read back\<close>

lemma byte_lt: "unat (c :: byte) < 256"
  using unsigned_less [of c, where 'a = nat] by simp

text \<open>A property of small bytes by going through all of them.\<close>

lemma small_byte:
  assumes "list_all (\<lambda>n. P (word_of_nat n)) [0..<k]" and "unat (x :: byte) < k"
  shows "P x"
  using bspec [OF assms(1) [unfolded list_all_iff], of "unat x"] assms(2) by simp

lemma hex_digit_back: "unat (x :: byte) < 16 \<Longrightarrow> get_hex (HEXTBL ! unat x) = Some x"
proof -
  have "list_all (\<lambda>n. get_hex (HEXTBL ! unat (word_of_nat n :: byte)) = Some (word_of_nat n)) [0..<16]"
    by code_simp
  then show "unat x < 16 \<Longrightarrow> ?thesis"
    by (rule small_byte)
qed

lemma hex_nibbles:
  fixes c :: byte
  shows "unat (drop_bit 4 c) < 16" "unat (c AND 0xf) < 16" "push_bit 4 (drop_bit 4 c) OR c AND 0xf = c"
proof -
  show "unat (drop_bit 4 c) < 16"
    using byte_lt [of c] by (simp add: drop_bit_eq_div unat_div)
  have "c AND 0xf = take_bit 4 c"
    by (simp add: take_bit_eq_mask mask_eq_exp_minus_1)
  then show "unat (c AND 0xf) < 16"
    by (simp add: take_bit_eq_mod unat_mod)
  show "push_bit 4 (drop_bit 4 c) OR c AND 0xf = c"
    unfolding \<open>c AND 0xf = take_bit 4 c\<close> by (rule bit_word_eqI) (auto simp: bit_simps)
qed

lemma octets:
  fixes c :: byte
  shows "unat (drop_bit 6 c) < 4" "unat (drop_bit 3 c AND 7) < 8" "unat (c AND 7) < 8"
    "push_bit 6 (drop_bit 6 c) OR push_bit 3 (drop_bit 3 c AND 7) OR c AND 7 = c"
proof -
  have and7: "x AND 7 = take_bit 3 x" for x :: byte
    by (simp add: take_bit_eq_mask mask_eq_exp_minus_1)
  show "unat (drop_bit 6 c) < 4"
    using byte_lt [of c] by (simp add: drop_bit_eq_div unat_div)
  show "unat (drop_bit 3 c AND 7) < 8" "unat (c AND 7) < 8"
    by (simp_all add: and7 take_bit_eq_mod unat_mod)
  show "push_bit 6 (drop_bit 6 c) OR push_bit 3 (drop_bit 3 c AND 7) OR c AND 7 = c"
    unfolding and7
  proof (rule bit_word_eqI)
    fix n assume "n < LENGTH(8)"
    then show "bit (push_bit 6 (drop_bit 6 c) OR push_bit 3 (take_bit 3 (drop_bit 3 c)) OR take_bit 3 c) n = bit c n"
      by (cases "n < 3"; cases "n < 6") (auto simp: bit_simps)
  qed
qed

text \<open>The text form of a byte that the server sees once the literal around it is read.\<close>

definition bytea_text :: "bool \<Rightarrow> byte \<Rightarrow> bytes" where
  "bytea_text use_hex c = (if \<not> use_hex \<and> c = 39 then [39] else escape_bytea_byte True use_hex c)"

lemma hex_sym_plain:
  assumes "unat (x :: byte) < 16"
  shows "HEXTBL ! unat x \<noteq> 0 \<and> \<not> is_highbit_set (HEXTBL ! unat x) \<and> HEXTBL ! unat x \<noteq> 39 \<and> HEXTBL ! unat x \<noteq> 92"
proof -
  have "list_all (\<lambda>d. d \<noteq> 0 \<and> \<not> is_highbit_set d \<and> d \<noteq> 39 \<and> d \<noteq> 92) HEXTBL" "length HEXTBL = 16"
    by code_simp+
  with assms show ?thesis
    by (simp add: list_all_length)
qed

lemma octal_digit_plain:
  assumes "unat (x :: byte) < 8"
  shows "x + 48 \<noteq> 0 \<and> \<not> is_highbit_set (x + 48) \<and> x + 48 \<noteq> 39 \<and> x + 48 \<noteq> 92 \<and> oct (x + 48)"
proof -
  have "list_all (\<lambda>n. word_of_nat n + 48 \<noteq> (0 :: byte) \<and> \<not> is_highbit_set (word_of_nat n + 48) \<and>
      word_of_nat n + 48 \<noteq> (39 :: byte) \<and> word_of_nat n + 48 \<noteq> (92 :: byte) \<and>
      oct (word_of_nat n + 48)) [0..<8]"
    by code_simp
  then show ?thesis
    using assms by (rule small_byte)
qed

lemma first_octal_digit: "unat (x :: byte) < 4 \<Longrightarrow> first_oct (x + 48)"
proof -
  have "list_all (\<lambda>n. first_oct (word_of_nat n + 48)) [0..<4]"
    by code_simp
  then show "unat x < 4 \<Longrightarrow> ?thesis"
    by (rule small_byte)
qed

lemma octal_plain:
  fixes c :: byte
  shows "drop_bit 6 c + 48 \<noteq> 0 \<and> \<not> is_highbit_set (drop_bit 6 c + 48) \<and> drop_bit 6 c + 48 \<noteq> 39 \<and> drop_bit 6 c + 48 \<noteq> 92"
    "(drop_bit 3 c AND 7) + 48 \<noteq> 0 \<and> \<not> is_highbit_set ((drop_bit 3 c AND 7) + 48) \<and> (drop_bit 3 c AND 7) + 48 \<noteq> 39 \<and> (drop_bit 3 c AND 7) + 48 \<noteq> 92"
    "(c AND 7) + 48 \<noteq> 0 \<and> \<not> is_highbit_set ((c AND 7) + 48) \<and> (c AND 7) + 48 \<noteq> 39 \<and> (c AND 7) + 48 \<noteq> 92"
  using octal_digit_plain octets [of c] by auto

lemma printable_plain: "0x20 \<le> c \<Longrightarrow> c \<le> 0x7e \<Longrightarrow> c \<noteq> 0 \<and> \<not> is_highbit_set (c :: byte)"
proof -
  assume "0x20 \<le> c" "c \<le> 0x7e"
  then have c: "32 \<le> unat c" "unat c \<le> 126"
    by (simp_all add: byte_order)
  have "list_all (\<lambda>n. \<not> is_highbit_set (word_of_nat n)) [0..<127]"
    by code_simp
  then show ?thesis
    using c small_byte [of "\<lambda>c. \<not> is_highbit_set c" 127 c] by auto
qed

lemma read_bytea_byte:
  "sql_read len 39 (\<not> std) (escape_bytea_byte std use_hex c @ r) =
   map_option (\<lambda>t. bytea_text use_hex c @ t) (sql_read len 39 (\<not> std) r)"
  using hex_sym_plain [OF hex_nibbles(1) [of c]] hex_sym_plain [OF hex_nibbles(2) [of c]] octal_plain [of c]
    printable_plain [of c] backslash_ascii quote_ascii
  by (cases "sql_read len 39 (\<not> std) r")
    (auto simp: escape_bytea_byte_def bytea_text_def sql_read.simps(2))

lemma read_bytea:
  "sql_read len 39 (\<not> std) (concat (map (escape_bytea_byte std use_hex) bs)) =
   Some (concat (map (bytea_text use_hex) bs))"
  by (induction bs) (simp_all add: read_bytea_byte)

lemma bytea_text_no_nul: "0 \<notin> set (concat (map (bytea_text use_hex) bs))"
proof -
  have "0 \<notin> set (bytea_text use_hex c)" for c
    using hex_sym_plain [OF hex_nibbles(1) [of c]] hex_sym_plain [OF hex_nibbles(2) [of c]] octal_plain [of c]
    by (auto simp: escape_bytea_byte_def bytea_text_def)
  then show ?thesis by auto
qed

lemma unescape_hex_text: "unescape_hex (concat (map (bytea_text True) bs)) = bs"
  by (induction bs)
    (simp_all add: bytea_text_def escape_bytea_byte_def hex_digit_back hex_nibbles)

lemma unescape_escaped_byte: "unescape_escaped (bytea_text False c @ r) = c # unescape_escaped r"
proof (cases "0x20 \<le> c \<and> c \<le> 0x7e")
  case True
  then show ?thesis
    by (auto simp: bytea_text_def escape_bytea_byte_def unescape_escaped.simps(2) at_def)
next
  case False
  then have "c \<noteq> 39"
    by auto
  with False show ?thesis
    using octets [of c] octal_digit_plain first_octal_digit octal_plain [of c]
    by (simp add: bytea_text_def escape_bytea_byte_def unescape_escaped.simps(2) at_def)
qed

lemma unescape_escaped_text: "unescape_escaped (concat (map (bytea_text False) bs)) = bs"
  by (induction bs) (simp_all add: unescape_escaped_byte)

lemma escaped_text_not_hex: "take 2 (concat (map (bytea_text False) bs)) \<noteq> [92, 120]"
proof (cases bs)
  case (Cons c cs)
  have "drop_bit 6 c + 48 \<noteq> (120 :: byte)"
    using first_octal_digit [OF octets(1) [of c]] by (auto simp: first_oct_def)
  then show ?thesis
    using Cons by (auto simp: bytea_text_def escape_bytea_byte_def)
qed simp

section \<open>Properties\<close>

text \<open>C13: What \<open>escape_string\<close> writes never ends the literal it is put in: a reader that goes by
  the encoding's characters reads all of it, under the setting of \<open>standard_conforming_strings\<close> it was
  escaped for. When no error is reported the input (up to its first NUL) was valid and is what is
  read back; when one is reported the input was invalid, and so is the text, for the same encoding.\<close>

theorem escape_string_reads_back:
  "case escape_string from e std of
     (t, None) \<Rightarrow> enc_valid e (up_to_nul from) \<and> sql_read (mblen e) 39 (\<not> std) t = Some (up_to_nul from)
   | (t, Some _) \<Rightarrow> \<not> enc_valid e (up_to_nul from) \<and> \<not> enc_valid e t \<and> sql_read (mblen e) 39 (\<not> std) t \<noteq> None"
  using escape_loop_reads [OF before_nul_no_nul, of e std "from" None]
  by (auto simp: escape_string_def up_to_nul_def split: prod.splits option.splits)

text \<open>\<open>escape_internal\<close> produces a literal or an identifier exactly when the input is valid in the
  encoding. The result is the quoted text after an optional \<open>E\<close>; an identifier and a literal without
  the prefix read back as the input with backslashes taken literally, and a literal reads back with
  backslashes escaping whether it has the prefix or not, so the value does not depend on
  \<open>standard_conforming_strings\<close>. The prefix is there only for a text that has a backslash.\<close>

lemma escape_internal_exact:
  "case escape_internal from e as_ident of
     Err _ \<Rightarrow> \<not> enc_valid e (up_to_nul from)
   | Ok t \<Rightarrow> enc_valid e (up_to_nul from) \<and>
      (\<exists>prefix body. let q = (if as_ident then 34 else 39) in
         t = prefix @ q # body @ [q] \<and> prefix \<in> {[], bstr '' E''} \<and>
         (if as_ident then prefix = [] else sql_read (mblen e) q True body = Some (up_to_nul from)) \<and>
         (if prefix = [] then sql_read (mblen e) q False body = Some (up_to_nul from) else 92 \<in> set body))"
proof -
  define input where "input = up_to_nul from"
  define q where "q = (if as_ident then 34 else 39 :: byte)"
  have nul: "0 \<notin> set input"
    using before_nul_no_nul by (simp add: input_def up_to_nul_def)
  have q: "\<not> is_highbit_set q"
    using quote_ascii by (simp add: q_def)
  show ?thesis
  proof (cases "scan_loop e q input False 0 0")
    case (Err err)
    then show ?thesis
      using scan_loop_verdict [OF nul _ q, of False e 0 0]
      by (simp add: escape_internal_def q_def input_def [symmetric])
  next
    case (Ok mn)
    then obtain m n where ok: "scan_loop e q input False 0 0 = Ok (m, n)"
      by (cases mn) auto
    then have valid: "enc_valid e input"
      using scan_loop_verdict [OF nul _ q, of False e 0 0] by simp
    note counts = scan_loop_counts [OF ok q]
    define prefix where "prefix = (if \<not> as_ident \<and> n > 0 then bstr '' E'' else [])"
    let ?body = "quote_loop e q as_ident input"
    have "escape_internal from e as_ident = Ok (prefix @ q # ?body @ [q])"
      using ok counts unfolding escape_internal_def Let_def input_def [symmetric] q_def [symmetric] prefix_def
      by (cases as_ident) auto
    moreover have "if as_ident then prefix = [] else sql_read (mblen e) q True ?body = Some input"
      using quote_loop_reads [OF nul valid q, of as_ident] by (cases as_ident) (auto simp: prefix_def)
    moreover have "if prefix = [] then sql_read (mblen e) q False ?body = Some input else 92 \<in> set ?body"
      using quote_loop_reads [OF nul valid q, of True] counts scan_loop_backslash [OF ok q, of as_ident]
      by (cases as_ident) (auto simp: prefix_def)
    moreover have "prefix \<in> {[], bstr '' E''}"
      by (simp add: prefix_def)
    ultimately show ?thesis
      using valid unfolding Let_def input_def [symmetric] q_def [symmetric]
      by (simp only: result.case) (intro exI [of _ prefix] exI [of _ ?body] conjI; simp only:)
  qed
qed

text \<open>C14: A \<open>bytea\<close> value survives: the text that \<open>escape_bytea\<close> writes is read whole by the reader of
  literals, for either setting of \<open>standard_conforming_strings\<close>, and \<open>unescape_bytea\<close> of what was
  read is the value, in the hex form and in the escape form, for every value (bytes 0 included).\<close>

theorem bytea_round_trip:
  "map_option unescape_bytea (sql_read len 39 (\<not> std) (escape_bytea from std use_hex)) = Some from"
proof -
  let ?text = "(if use_hex then [92, 120] else []) @ concat (map (bytea_text use_hex) from)"
  have "sql_read len 39 (\<not> std) (escape_bytea from std use_hex) = Some ?text"
    using read_bytea [of len std use_hex "from"]
    by (cases std; cases use_hex) (simp_all add: escape_bytea_def sql_read.simps(2) is_highbit_set_def)
  moreover have "up_to_nul ?text = ?text"
    using bytea_text_no_nul [of use_hex "from"] by (simp add: up_to_nul_def)
  ultimately show ?thesis
    using unescape_hex_text unescape_escaped_text escaped_text_not_hex
    by (simp add: unescape_bytea_def Let_def)
qed

end
