(* ===== verification/Text_Std.thy ===== *)
theory Text_Std
  imports Prelude "HOL-Library.Sublist"
begin

text \<open>
  What several crates use of \<open>std::str\<close> and of slices: cutting a text at a byte, and UTF-8. A \<open>str\<close>
  is its bytes.

  Shown: cutting and joining are inverse to each other, and the pieces of two joined texts are the
  pieces of the one followed by those of the other.
\<close>

section \<open>Cutting\<close>

text \<open>\<open>slice::split\<close> at every occurrence of a byte.\<close>

fun split_at_byte :: "byte \<Rightarrow> bytes \<Rightarrow> bytes list" where
  "split_at_byte s [] = [[]]"
| "split_at_byte s (c # cs) =
     (if c = s then [] # split_at_byte s cs
      else (case split_at_byte s cs of [] \<Rightarrow> [[c]] | e # es \<Rightarrow> (c # e) # es))"

lemma split_at_byte_not_Nil [simp]: "split_at_byte s cs \<noteq> []"
  by (induction cs) (auto split: list.splits)

text \<open>The pieces with the byte between them.\<close>

fun join_with :: "byte \<Rightarrow> bytes list \<Rightarrow> bytes" where
  "join_with s [] = []"
| "join_with s [e] = e"
| "join_with s (e # es) = e @ s # join_with s es"

lemma join_with_Cons: "es \<noteq> [] \<Longrightarrow> join_with s (e # es) = e @ s # join_with s es"
  by (cases es) simp_all

lemma join_split [simp]: "join_with s (split_at_byte s cs) = cs"
proof (induction cs)
  case (Cons c cs)
  obtain e es where e: "split_at_byte s cs = e # es"
    by (cases "split_at_byte s cs") simp_all
  then show ?case
    using Cons by (cases es) (simp_all add: join_with_Cons)
qed simp

lemma split_no_sep [simp]: "s \<notin> set cs \<Longrightarrow> split_at_byte s cs = [cs]"
  by (induction cs) auto

lemma split_append_sep: "split_at_byte s (a @ s # b) = split_at_byte s a @ split_at_byte s b"
  by (induction a) (auto split: list.splits)

lemma split_pieces: "e \<in> set (split_at_byte s cs) \<Longrightarrow> s \<notin> set e"
  by (induction cs arbitrary: e) (auto split: list.splits if_splits)

lemma split_join: "\<lbrakk>es \<noteq> []; \<forall>e \<in> set es. s \<notin> set e\<rbrakk> \<Longrightarrow> split_at_byte s (join_with s es) = es"
proof (induction es)
  case (Cons e es)
  then show ?case
    by (cases "es = []") (simp_all add: join_with_Cons split_append_sep)
qed simp

lemma split_inj: "split_at_byte s a = split_at_byte s b \<longleftrightarrow> a = b"
  by (metis join_split)

lemma join_append:
  "\<lbrakk>a \<noteq> []; b \<noteq> []\<rbrakk> \<Longrightarrow> join_with s (a @ b) = join_with s a @ s # join_with s b"
proof (induction a)
  case (Cons x a)
  then show ?case
    by (cases "a = []") (simp_all add: join_with_Cons)
qed simp

text \<open>\<open>str::rsplit_once\<close>: what is before and after the last occurrence of a byte.\<close>

definition rsplit_once :: "byte \<Rightarrow> bytes \<Rightarrow> (bytes \<times> bytes) option" where
  "rsplit_once s cs =
     (if s \<in> set cs
      then Some (rev (tl (dropWhile (\<lambda>c. c \<noteq> s) (rev cs))), rev (takeWhile (\<lambda>c. c \<noteq> s) (rev cs)))
      else None)"

lemma rsplit_once_append: "s \<notin> set b \<Longrightarrow> rsplit_once s (a @ s # b) = Some (a, b)"
proof -
  assume "s \<notin> set b"
  then have "takeWhile (\<lambda>c. c \<noteq> s) (rev b @ s # rev a) = rev b"
    and "dropWhile (\<lambda>c. c \<noteq> s) (rev b @ s # rev a) = s # rev a"
    by (subst takeWhile_append2 dropWhile_append2; auto)+
  then show ?thesis
    by (simp add: rsplit_once_def)
qed

lemma rsplit_once_cases:
  obtains "s \<notin> set cs" "rsplit_once s cs = None"
  | a b where "cs = a @ s # b" "s \<notin> set b" "rsplit_once s cs = Some (a, b)"
proof (cases "s \<in> set cs")
  case True
  then obtain a b where "cs = a @ s # b" "s \<notin> set b"
    using split_list_last by metis
  then show ?thesis
    using that(2) rsplit_once_append by metis
qed (use that(1) in \<open>simp add: rsplit_once_def\<close>)

section \<open>UTF-8\<close>

text \<open>\<open>String::from_utf8_lossy\<close>: the length of the next chunk and whether it is a character; what is not becomes
  U+FFFD, once per maximal prefix of a character.\<close>

definition utf8_cont :: "byte \<Rightarrow> bool" where
  "utf8_cont b = (0x80 \<le> b \<and> b \<le> 0xBF)"

definition utf8_second :: "byte \<Rightarrow> byte \<Rightarrow> bool" where
  "utf8_second b c =
     (if b = 0xE0 then 0xA0 \<le> c \<and> c \<le> 0xBF
      else if b = 0xED then 0x80 \<le> c \<and> c \<le> 0x9F
      else if b = 0xF0 then 0x90 \<le> c \<and> c \<le> 0xBF
      else if b = 0xF4 then 0x80 \<le> c \<and> c \<le> 0x8F
      else utf8_cont c)"

definition utf8_width :: "byte \<Rightarrow> nat" where
  "utf8_width b =
     (if b < 0x80 then 1 else if 0xC2 \<le> b \<and> b \<le> 0xDF then 2
      else if 0xE0 \<le> b \<and> b \<le> 0xEF then 3 else if 0xF0 \<le> b \<and> b \<le> 0xF4 then 4 else 0)"

definition utf8_chunk :: "byte \<Rightarrow> bytes \<Rightarrow> nat \<times> bool" where
  "utf8_chunk b rest =
     (let w = utf8_width b;
          follow = (case rest of
                      [] \<Rightarrow> 0
                    | c # cs \<Rightarrow> if utf8_second b c then 1 + length (takeWhile utf8_cont (take (w - 2) cs)) else 0)
      in if w \<le> 1 then (1, w = 1)
         else if follow = w - 1 then (w, True) else (1 + follow, False))"

function utf8_lossy :: "bytes \<Rightarrow> bytes" where
  "utf8_lossy [] = []"
| "utf8_lossy (b # rest) =
     (case utf8_chunk b rest of (n, ok) \<Rightarrow>
        (if ok then take n (b # rest) else [0xEF, 0xBF, 0xBD]) @ utf8_lossy (drop n (b # rest)))"
  by pat_completeness auto
termination
proof (relation "measure length", goal_cases)
  case (2 b rest n ok)
  then have "n \<ge> 1"
    by (auto simp: utf8_chunk_def Let_def split: if_splits)
  then show ?case
    by simp
qed simp

text \<open>\<open>str::from_utf8\<close> accepts the bytes.\<close>

function utf8_valid :: "bytes \<Rightarrow> bool" where
  "utf8_valid [] = True"
| "utf8_valid (b # rest) =
     (case utf8_chunk b rest of (n, ok) \<Rightarrow> ok \<and> utf8_valid (drop n (b # rest)))"
  by pat_completeness auto
termination
proof (relation "measure length", goal_cases)
  case (2 b rest n ok)
  then have "n \<ge> 1"
    by (auto simp: utf8_chunk_def Let_def split: if_splits)
  then show ?case
    by simp
qed simp

lemma utf8_valid_ascii: "\<forall>b \<in> set bs. b < 0x80 \<Longrightarrow> utf8_valid bs"
  by (induction bs) (auto simp: utf8_chunk_def utf8_width_def)

end
