(* ===== verification/Hosts.thy ===== *)
theory Hosts
  imports Conninfo Text_Std "HOL-Library.Multiset"
begin

text \<open>
  The host list of \<open>crates/rlibpq/src/hosts.rs\<close>: which servers a connection string names, what
  kind of server it asks for, and the order \<open>load_balance_hosts=random\<close> tries them in, with the
  generator this order is drawn from (xoroshiro128**, seeded by splitmix64).

  \<open>uint64_range\<close> draws until a value is small enough; that loop is a \<open>partial_function\<close>, where
  \<open>None\<close> is a run of draws that are all too large. The byte order of the machine, which
  \<open>from_ne_bytes\<close> depends on, is an argument.

  Shown: when the list is accepted and how its entries pair the three settings; that a range draw
  returns the first draw that fits, in range; that a reachable generator state is never the
  all-zero fixed point and that the generator's step loses no state; and that the shuffle
  (proved for any source of draws in range, the locale \<open>draw_source\<close>) is a permutation, each
  permutation coming from exactly one sequence of draws.
\<close>

section \<open>Hosts\<close>

datatype host_type = HostName | HostAddress | UnixSocket

record conn_host =
  ch_kind :: host_type
  ch_host :: "bytes option"
  ch_hostaddr :: "bytes option"
  ch_port :: "bytes option"

text \<open>The socket directory of a build that is not for Windows.\<close>

definition DEFAULT_PGSOCKET_DIR :: bytes where
  "DEFAULT_PGSOCKET_DIR = bstr ''/tmp''"

definition is_unixsock_path :: "bytes \<Rightarrow> bool" where
  "is_unixsock_path host =
     (case host of [] \<Rightarrow> False | c # _ \<Rightarrow> c = chb CHR ''/'' \<or> c = chb CHR ''@'')"

definition comma_separated :: "bytes \<Rightarrow> bytes list" where
  "comma_separated input = split_at_byte (chb CHR '','') input"

definition count_comma_separated_elems :: "bytes \<Rightarrow> nat" where
  "count_comma_separated_elems input = length (comma_separated input)"

text \<open>\<open>given\<close>: a setting that is present and not empty.\<close>

definition given :: "conn_info \<Rightarrow> string \<Rightarrow> bytes option" where
  "given ci keyword =
     (case conn_get ci (bstr keyword) of Some v \<Rightarrow> if v = [] then None else Some v | None \<Rightarrow> None)"

definition present :: "bytes option \<Rightarrow> bool" where
  "present v = (case v of Some b \<Rightarrow> b \<noteq> [] | None \<Rightarrow> False)"

text \<open>The classification of one slot.\<close>

definition classify_host :: "bytes option \<Rightarrow> bytes option \<Rightarrow> host_type \<times> bytes option" where
  "classify_host hostaddr host =
     (if present hostaddr then (HostAddress, host)
      else if present host then
        (if (case host of Some h \<Rightarrow> is_unixsock_path h | None \<Rightarrow> False) then UnixSocket else HostName, host)
      else if DEFAULT_PGSOCKET_DIR = [] then (HostName, Some (bstr ''localhost''))
      else (UnixSocket, Some DEFAULT_PGSOCKET_DIR))"

definition mk_conn_host :: "(bytes option \<times> bytes option) \<times> bytes option \<Rightarrow> conn_host" where
  "mk_conn_host e =
     (let ((hostaddr, host), port) = e; (kind, host) = classify_host hostaddr host
      in \<lparr> ch_kind = kind, ch_host = host, ch_hostaddr = hostaddr, ch_port = port \<rparr>)"

definition split_hosts :: "bytes option \<Rightarrow> nat \<Rightarrow> (bytes option list, conn_error) result" where
  "split_hosts host n =
     (case host of
        Some l \<Rightarrow> (let hosts = map Some (comma_separated l) in
                   if length hosts \<noteq> n then Err (HostCountMismatch (length hosts) n) else Ok hosts)
      | None \<Rightarrow> Ok (replicate n None))"

definition split_ports :: "bytes option \<Rightarrow> nat \<Rightarrow> (bytes option list, conn_error) result" where
  "split_ports port n =
     (case port of
        Some l \<Rightarrow> (let ports = comma_separated l in
                   if length ports = 1 then Ok (replicate n (Some (ports ! 0)))
                   else if length ports = n then Ok (map Some ports)
                   else Err (PortCountMismatch (length ports) n))
      | None \<Rightarrow> Ok (replicate n None))"

definition conn_hosts :: "conn_info \<Rightarrow> (conn_host list, conn_error) result" where
  "conn_hosts ci =
     (let hostaddr = given ci ''hostaddr''; host = given ci ''host''; port = given ci ''port'';
          n = (case (case hostaddr of Some a \<Rightarrow> Some a | None \<Rightarrow> host) of
                 Some l \<Rightarrow> count_comma_separated_elems l | None \<Rightarrow> 1);
          hostaddrs = (case hostaddr of
                 Some l \<Rightarrow> map Some (comma_separated l) | None \<Rightarrow> replicate n None)
      in and_then (split_hosts host n) (\<lambda>hosts.
         and_then (split_ports port n) (\<lambda>ports.
           Ok (map mk_conn_host (zip (zip hostaddrs hosts) ports)))))"

section \<open>What kind of server, and in which order\<close>

datatype target_server_type = AnyServer | ReadWrite | ReadOnly | Primary | Standby | PreferStandby

definition hosts_invalid :: "string \<Rightarrow> bytes \<Rightarrow> conn_error" where
  "hosts_invalid opt v = InvalidValue (bstr opt) v"

definition target_from_conninfo :: "conn_info \<Rightarrow> (target_server_type, conn_error) result" where
  "target_from_conninfo ci =
     (case conn_get ci (bstr ''target_session_attrs'') of
        None \<Rightarrow> Ok AnyServer
      | Some v \<Rightarrow>
          if v = bstr ''any'' then Ok AnyServer
          else if v = bstr ''read-write'' then Ok ReadWrite
          else if v = bstr ''read-only'' then Ok ReadOnly
          else if v = bstr ''primary'' then Ok Primary
          else if v = bstr ''standby'' then Ok Standby
          else if v = bstr ''prefer-standby'' then Ok PreferStandby
          else Err (hosts_invalid ''target_session_attrs'' v))"

datatype load_balance = LbDisable | LbRandom

definition load_balance_from_conninfo :: "conn_info \<Rightarrow> (load_balance, conn_error) result" where
  "load_balance_from_conninfo ci =
     (case conn_get ci (bstr ''load_balance_hosts'') of
        None \<Rightarrow> Ok LbDisable
      | Some v \<Rightarrow>
          if v = bstr ''disable'' then Ok LbDisable
          else if v = bstr ''random'' then Ok LbRandom
          else Err (hosts_invalid ''load_balance_hosts'' v))"

section \<open>The generator\<close>

record prng =
  p_s0 :: u64
  p_s1 :: u64

definition from_state :: "u64 \<Rightarrow> u64 \<Rightarrow> prng" where
  "from_state s0 s1 =
     (if s0 = 0 \<and> s1 = 0 then \<lparr> p_s0 = 0x5851F42D4C957F2D, p_s1 = 0x14057B7EF767814F \<rparr>
      else \<lparr> p_s0 = s0, p_s1 = s1 \<rparr>)"

definition splitmix64 :: "u64 \<Rightarrow> u64 \<times> u64" where
  "splitmix64 state =
     (let state = state + 0x9E3779B97F4A7C15; v = state;
          v = (v XOR drop_bit 30 v) * 0xBF58476D1CE4E5B9;
          v = (v XOR drop_bit 27 v) * 0x94D049BB133111EB
      in (v XOR drop_bit 31 v, state))"

definition prng_seed :: "u64 \<Rightarrow> prng" where
  "prng_seed seed =
     (let (s0, state) = splitmix64 seed; (s1, state) = splitmix64 state in from_state s0 s1)"

definition from_ne_bytes :: "bool \<Rightarrow> bytes \<Rightarrow> u64" where
  "from_ne_bytes little bs = word_rcat (if little then rev bs else bs)"

definition strong_seed :: "bool \<Rightarrow> bytes \<Rightarrow> prng" where
  "strong_seed little bs = from_state (from_ne_bytes little (take 8 bs)) (from_ne_bytes little (drop 8 bs))"

definition next_u64 :: "prng \<Rightarrow> u64 \<times> prng" where
  "next_u64 p =
     (let s0 = p_s0 p; sx = p_s1 p XOR s0; v = word_rotl 7 (s0 * 5) * 9
      in (v, \<lparr> p_s0 = word_rotl 24 s0 XOR sx XOR push_bit 16 sx, p_s1 = word_rotl 37 sx \<rparr>))"

definition leading_zeros :: "u64 \<Rightarrow> nat" where
  "leading_zeros w = length (takeWhile (\<lambda>i. \<not> bit w i) (rev [0..<64]))"

partial_function (option) range_loop :: "nat \<Rightarrow> u64 \<Rightarrow> prng \<Rightarrow> (u64 \<times> prng) option" where
  "range_loop rshift rng p =
     (let (v, p') = next_u64 p; v = drop_bit rshift v in
      if v \<le> rng then Some (v, p') else range_loop rshift rng p')"

definition uint64_range :: "prng \<Rightarrow> u64 \<Rightarrow> u64 \<Rightarrow> (u64 \<times> prng) option" where
  "uint64_range p rmin rmax =
     (if rmax \<le> rmin then Some (rmin, p)
      else let rng = rmax - rmin; rshift = leading_zeros rng in
        map_option (\<lambda>(v, p'). (rmin + v, p')) (range_loop rshift rng p))"

section \<open>The shuffle\<close>

definition swap_items :: "'a list \<Rightarrow> nat \<Rightarrow> nat \<Rightarrow> 'a list" where
  "swap_items xs a b = xs[a := xs ! b, b := xs ! a]"

text \<open>The loop over the positions from \<open>i\<close> on, with the draw of a position up to \<open>i\<close> as an
  argument.\<close>

function shuffle_from ::
  "('s \<Rightarrow> nat \<Rightarrow> (nat \<times> 's) option) \<Rightarrow> nat \<Rightarrow> 'a list \<Rightarrow> 's \<Rightarrow> ('a list \<times> 's) option" where
  "shuffle_from draw i items s =
     (if i < length items then
        (case draw s i of
           None \<Rightarrow> None
         | Some (j, s') \<Rightarrow> shuffle_from draw (i + 1) (swap_items items j i) s')
      else Some (items, s))"
  by pat_completeness auto
termination
  by (relation "measure (\<lambda>(draw, i, items, s). length items - i)") (auto simp: swap_items_def)

declare shuffle_from.simps [simp del]

definition draw_position :: "prng \<Rightarrow> nat \<Rightarrow> (nat \<times> prng) option" where
  "draw_position p i = map_option (\<lambda>(j, p'). (unat j, p')) (uint64_range p 0 (of_nat i))"

definition shuffle :: "prng \<Rightarrow> 'a list \<Rightarrow> ('a list \<times> prng) option" where
  "shuffle p items = shuffle_from draw_position 1 items p"

section \<open>The host list\<close>

lemma comma_separated_not_Nil [simp]: "comma_separated l \<noteq> []"
  by (simp add: comma_separated_def)

lemma classify_host_kind:
  "classify_host a h = (kind, h') \<Longrightarrow>
   (kind = HostAddress \<longleftrightarrow> present a) \<and>
   (kind \<noteq> HostAddress \<longrightarrow> (\<exists>b. h' = Some b \<and> b \<noteq> [] \<and> (kind = UnixSocket \<longleftrightarrow> is_unixsock_path b))) \<and>
   (present a \<or> present h \<longrightarrow> h' = h)"
  by (auto simp: classify_host_def present_def DEFAULT_PGSOCKET_DIR_def is_unixsock_path_def
      split: if_splits option.splits)

text \<open>What the \<open>i\<close>-th host is to be, from a comma-separated setting.\<close>

definition nth_elem :: "bytes option \<Rightarrow> nat \<Rightarrow> bytes option" where
  "nth_elem v i = map_option (\<lambda>l. comma_separated l ! i) v"

text \<open>The port of the \<open>i\<close>-th host: a single port is shared.\<close>

definition nth_port :: "bytes option \<Rightarrow> nat \<Rightarrow> bytes option" where
  "nth_port v i =
     map_option (\<lambda>l. comma_separated l ! (if length (comma_separated l) = 1 then 0 else i)) v"

definition elems :: "bytes option \<Rightarrow> nat" where
  "elems v = (case v of Some l \<Rightarrow> length (comma_separated l) | None \<Rightarrow> 0)"

definition host_count :: "conn_info \<Rightarrow> nat" where
  "host_count ci =
     (if given ci ''hostaddr'' \<noteq> None then elems (given ci ''hostaddr'')
      else if given ci ''host'' \<noteq> None then elems (given ci ''host'') else 1)"

lemma split_hosts_cases:
  "split_hosts h n =
     (if h \<noteq> None \<and> elems h \<noteq> n then Err (HostCountMismatch (elems h) n)
      else Ok (map (nth_elem h) [0..<n]))"
  by (auto simp: split_hosts_def elems_def nth_elem_def Let_def map_replicate_const
      intro!: nth_equalityI split: option.splits)

lemma split_ports_cases:
  "split_ports v n =
     (if elems v \<le> 1 \<or> elems v = n then Ok (map (nth_port v) [0..<n])
      else Err (PortCountMismatch (elems v) n))"
proof (cases v)
  case None
  then show ?thesis
    by (auto simp: split_ports_def elems_def nth_port_def intro!: nth_equalityI)
next
  case (Some l)
  have "0 < length (comma_separated l)"
    by simp
  then have "length (comma_separated l) \<le> 1 \<longleftrightarrow> length (comma_separated l) = 1"
    by linarith
  then show ?thesis
    using Some by (auto simp: split_ports_def elems_def nth_port_def Let_def intro!: nth_equalityI)
qed

lemma conn_hosts_eq:
  "conn_hosts ci =
     (let n = host_count ci in
      and_then (split_hosts (given ci ''host'') n) (\<lambda>hosts.
      and_then (split_ports (given ci ''port'') n) (\<lambda>ports.
        Ok (map mk_conn_host (zip (zip (map (nth_elem (given ci ''hostaddr'')) [0..<n]) hosts) ports)))))"
proof -
  have "(case (case given ci ''hostaddr'' of Some a \<Rightarrow> Some a | None \<Rightarrow> given ci ''host'') of
           Some l \<Rightarrow> count_comma_separated_elems l | None \<Rightarrow> 1) = host_count ci"
    by (simp add: host_count_def elems_def count_comma_separated_elems_def split: option.splits)
  moreover have "(case given ci ''hostaddr'' of Some l \<Rightarrow> map Some (comma_separated l)
      | None \<Rightarrow> replicate (host_count ci) None) =
      map (nth_elem (given ci ''hostaddr'')) [0..<host_count ci]"
    by (auto simp: nth_elem_def host_count_def elems_def map_replicate_const
        intro!: nth_equalityI split: option.splits)
  ultimately show ?thesis
    by (simp only: conn_hosts_def Let_def)
qed

lemma conn_hosts_exact:
  fixes ci n
  defines "n \<equiv> host_count ci"
  shows "conn_hosts ci =
    (if given ci ''host'' \<noteq> None \<and> elems (given ci ''host'') \<noteq> n
     then Err (HostCountMismatch (elems (given ci ''host'')) n)
     else if 1 < elems (given ci ''port'') \<and> elems (given ci ''port'') \<noteq> n
     then Err (PortCountMismatch (elems (given ci ''port'')) n)
     else Ok (map (\<lambda>i. mk_conn_host ((nth_elem (given ci ''hostaddr'') i,
            nth_elem (given ci ''host'') i), nth_port (given ci ''port'') i)) [0..<n]))"
  by (auto simp: conn_hosts_eq n_def split_hosts_cases split_ports_cases Let_def
      intro!: nth_equalityI)

text \<open>The \<open>i\<close>-th entry of the list a connection string asks for.\<close>

definition entry_for :: "conn_info \<Rightarrow> nat \<Rightarrow> conn_host \<Rightarrow> bool" where
  "entry_for ci i e \<longleftrightarrow>
     ch_hostaddr e = nth_elem (given ci ''hostaddr'') i \<and>
     ch_port e = nth_port (given ci ''port'') i \<and>
     (present (nth_elem (given ci ''hostaddr'') i) \<or> present (nth_elem (given ci ''host'') i) \<longrightarrow>
        ch_host e = nth_elem (given ci ''host'') i) \<and>
     (ch_kind e = HostAddress \<longleftrightarrow> present (ch_hostaddr e)) \<and>
     (ch_kind e \<noteq> HostAddress \<longrightarrow>
        (\<exists>h. ch_host e = Some h \<and> h \<noteq> [] \<and> (ch_kind e = UnixSocket \<longleftrightarrow> is_unixsock_path h)))"

lemma entry_for_slot:
  "entry_for ci i (mk_conn_host ((nth_elem (given ci ''hostaddr'') i,
     nth_elem (given ci ''host'') i), nth_port (given ci ''port'') i))"
proof -
  obtain kind h' where c: "classify_host (nth_elem (given ci ''hostaddr'') i)
      (nth_elem (given ci ''host'') i) = (kind, h')"
    by (meson surj_pair)
  show ?thesis
    using classify_host_kind [OF c] by (simp add: entry_for_def mk_conn_host_def c)
qed

text \<open>The host list is refused exactly when the number of hosts differs from that of the
  numeric addresses, or when there are several ports and not one for each host. Otherwise it has
  one entry per numeric address if these are given, else one per host, else a single one. The
  \<open>i\<close>-th entry has the \<open>i\<close>-th address and the \<open>i\<close>-th port, or the single port that is shared; it is
  reached by its numeric address exactly if that is given and not empty, and every other entry has a
  host that is not empty, its own one if it has one, treated as a socket directory exactly if it is
  written as a path.\<close>

lemma conn_hosts_pairing:
  "if (given ci ''host'' = None \<or> elems (given ci ''host'') = host_count ci) \<and>
      (elems (given ci ''port'') \<le> 1 \<or> elems (given ci ''port'') = host_count ci)
   then \<exists>hs. conn_hosts ci = Ok hs \<and> 0 < length hs \<and>
          list_all2 (entry_for ci) [0..<host_count ci] hs
   else \<not> is_ok (conn_hosts ci)"
proof -
  have "0 < host_count ci"
    by (auto simp: host_count_def elems_def split: option.splits)
  then show ?thesis
    by (auto simp: conn_hosts_exact entry_for_slot list_all2_conv_all_nth)
qed

section \<open>Draws in a range\<close>

text \<open>The state after \<open>k\<close> draws, and the \<open>k\<close>-th draw.\<close>

definition prng_after :: "nat \<Rightarrow> prng \<Rightarrow> prng" where
  "prng_after k p = ((\<lambda>q. snd (next_u64 q)) ^^ k) p"

definition draw_at :: "nat \<Rightarrow> prng \<Rightarrow> u64" where
  "draw_at k p = fst (next_u64 (prng_after k p))"

lemma prng_after_simps [simp]:
  "prng_after 0 p = p" "prng_after (Suc k) p = prng_after k (snd (next_u64 p))"
  by (simp_all add: prng_after_def funpow_swap1 [of "\<lambda>q. snd (next_u64 q)"])

lemma draw_at_simps [simp]:
  "draw_at 0 p = fst (next_u64 p)" "draw_at (Suc k) p = draw_at k (snd (next_u64 p))"
  by (simp_all add: draw_at_def)

lemma range_loop_first:
  assumes "drop_bit r (draw_at k p) \<le> g" and "\<And>i. i < k \<Longrightarrow> \<not> drop_bit r (draw_at i p) \<le> g"
  shows "range_loop r g p = Some (drop_bit r (draw_at k p), prng_after (Suc k) p)"
  using assms
proof (induction k arbitrary: p)
  case 0
  then show ?case
    by (simp add: range_loop.simps [of r g p] case_prod_beta Let_def)
next
  case (Suc k)
  have "\<not> drop_bit r (fst (next_u64 p)) \<le> g"
    using Suc.prems(2) [of 0] by simp
  moreover have "range_loop r g (snd (next_u64 p)) =
      Some (drop_bit r (draw_at (Suc k) p), prng_after (Suc (Suc k)) p)"
    using Suc.IH [of "snd (next_u64 p)"] Suc.prems(1) Suc.prems(2) [of "Suc i" for i] by simp
  ultimately show ?case
    by (simp add: range_loop.simps [of r g p] case_prod_beta Let_def)
qed

lemma range_loop_fits:
  assumes "range_loop r g p = Some y"
  shows "\<exists>k. drop_bit r (draw_at k p) \<le> g"
  using _ assms
proof (rule range_loop.raw_induct [where P = "\<lambda>r g p y. \<exists>k. drop_bit r (draw_at k p) \<le> g"], goal_cases)
  case (1 f r g p y)
  show ?case
  proof (cases "drop_bit r (fst (next_u64 p)) \<le> g")
    case True
    then show ?thesis
      by (intro exI [of _ 0]) simp
  next
    case False
    then have "f r g (snd (next_u64 p)) = Some y"
      using 1(2) by (simp add: case_prod_beta Let_def)
    then obtain k where "drop_bit r (draw_at k (snd (next_u64 p))) \<le> g"
      using 1(1) by blast
    then show ?thesis
      by (intro exI [of _ "Suc k"]) simp
  qed
qed

lemma range_loop_exists:
  assumes ex: "\<exists>k. drop_bit r (draw_at k p) \<le> g"
  shows "\<exists>v m. range_loop r g p = Some (v, prng_after m p) \<and> v \<le> g"
proof -
  define k where "k = (LEAST k. drop_bit r (draw_at k p) \<le> g)"
  have "drop_bit r (draw_at k p) \<le> g"
    unfolding k_def using ex by (rule LeastI_ex)
  moreover have "\<not> drop_bit r (draw_at i p) \<le> g" if "i < k" for i
    using that unfolding k_def by (rule not_less_Least)
  ultimately show ?thesis
    using range_loop_first [of r k p g] by blast
qed

lemma range_loop_result:
  assumes "range_loop r g p = Some (v, p')"
  shows "v \<le> g \<and> (\<exists>m. p' = prng_after m p)"
  using range_loop_exists [OF range_loop_fits [OF assms]] assms by auto

lemma bit_ge: "bit (w :: 'a::len word) n \<Longrightarrow> 2 ^ n \<le> unat w"
proof (rule ccontr)
  assume b: "bit w n" and "\<not> 2 ^ n \<le> unat w"
  then have "unat w div 2 ^ n = 0"
    by simp
  moreover have "bit (unat w) n"
    using b by (simp add: bit_unsigned_iff)
  ultimately show False
    by (simp add: bit_iff_odd)
qed

lemma bits_below:
  assumes "\<And>i. n \<le> i \<Longrightarrow> \<not> bit (w :: 'a::len word) i"
  shows "unat w < 2 ^ n"
proof -
  have "take_bit n (unat w) = unat w"
    using assms by (intro bit_eqI) (auto simp: bit_take_bit_iff bit_unsigned_iff not_le [symmetric])
  then show ?thesis
    by (simp add: take_bit_nat_eq_self_iff)
qed

text \<open>The shift leaves a mask of the range's own width, so that every value of the range can be
  drawn and at least half of the values that can be drawn are in it.\<close>

lemma leading_zeros_mask:
  assumes "w \<noteq> 0"
  shows "unat w < 2 ^ (64 - leading_zeros w)" and "2 ^ (64 - leading_zeros w) \<le> 2 * unat w"
    and "leading_zeros w < 64"
proof -
  let ?n = "leading_zeros w"
  obtain m where m: "bit w m"
    using assms bit_eq_iff [of w 0] by auto
  then have "m < 64"
    using bit_imp_le_length [OF m] by simp
  then have "\<exists>x \<in> set (rev [0..<64]). bit w x"
    using m by auto
  then show lt: "?n < 64"
    unfolding leading_zeros_def using takeWhile_eq_all_conv [of "\<lambda>i. \<not> bit w i" "rev [0..<64::nat]"]
    by (metis length_rev length_takeWhile_le length_upt diff_zero le_neq_implies_less
        takeWhile_eq_take take_all_iff)
  have "bit w (rev [0..<64] ! ?n)"
    using nth_length_takeWhile [of "\<lambda>i. \<not> bit w i" "rev [0..<64::nat]"] lt
    by (simp add: leading_zeros_def)
  then have "bit w (63 - ?n)"
    using lt by (simp add: rev_nth)
  then have "2 ^ (63 - ?n) \<le> unat w"
    by (rule bit_ge)
  moreover have "64 - ?n = Suc (63 - ?n)"
    using lt by simp
  ultimately show "2 ^ (64 - ?n) \<le> 2 * unat w"
    by (simp only: power_Suc)
  have "\<not> bit w i" if "64 - ?n \<le> i" for i
  proof
    assume b: "bit w i"
    then have "i < 64"
      using bit_imp_le_length [OF b] by simp
    moreover have "63 - i < ?n"
      using that \<open>i < 64\<close> by simp
    ultimately have "\<not> bit w (rev [0..<64] ! (63 - i))"
      unfolding leading_zeros_def by (metis set_takeWhileD takeWhile_nth nth_mem)
    then show False
      using b \<open>i < 64\<close> by (simp add: rev_nth)
  qed
  then show "unat w < 2 ^ (64 - ?n)"
    by (rule bits_below)
qed

lemma range_add_le:
  fixes a b v :: u64
  assumes "v \<le> b - a" and "a < b"
  shows "a \<le> a + v \<and> a + v \<le> b"
proof -
  have "unat v \<le> unat b - unat a"
    using assms by (simp add: word_le_nat_alt word_less_nat_alt unat_sub)
  moreover have "unat b < 2 ^ LENGTH(64)"
    by (rule unsigned_less)
  moreover have "unat a < unat b"
    using assms(2) by (simp add: word_less_nat_alt)
  ultimately have "unat (a + v) = unat a + unat v"
    by (simp add: unat_word_ariths)
  then show ?thesis
    using \<open>unat v \<le> _\<close> \<open>unat a < unat b\<close> by (simp add: word_le_nat_alt)
qed

text \<open>The \<open>k\<close>-th draw shifted to the width of the range, and whether it fits.\<close>

definition shifted_draw :: "prng \<Rightarrow> u64 \<Rightarrow> u64 \<Rightarrow> nat \<Rightarrow> u64" where
  "shifted_draw p rmin rmax k = drop_bit (leading_zeros (rmax - rmin)) (draw_at k p)"

definition fits_range :: "prng \<Rightarrow> u64 \<Rightarrow> u64 \<Rightarrow> nat \<Rightarrow> bool" where
  "fits_range p rmin rmax k \<longleftrightarrow> shifted_draw p rmin rmax k \<le> rmax - rmin"

text \<open>A draw from a nonempty range \<open>rmin..rmax\<close> shifts the draws of the generator down to the
  width of the range and returns the first one that fits: if some draw fits, the result lies in the
  range and the generator has advanced just behind that draw; the loop goes on forever only if no
  draw ever fits. At least half of the shifted values fit.\<close>

lemma uint64_range_first_fit:
  assumes "rmin < rmax"
  shows "(if \<exists>k. fits_range p rmin rmax k
      then let k = (LEAST k. fits_range p rmin rmax k); v = rmin + shifted_draw p rmin rmax k in
        uint64_range p rmin rmax = Some (v, prng_after (Suc k) p) \<and> rmin \<le> v \<and> v \<le> rmax
      else uint64_range p rmin rmax = None) \<and>
    unat (rmax - rmin) < 2 ^ (64 - leading_zeros (rmax - rmin)) \<and>
    2 ^ (64 - leading_zeros (rmax - rmin)) \<le> 2 * unat (rmax - rmin)"
proof -
  define r where "r = leading_zeros (rmax - rmin)"
  define fits where "fits = fits_range p rmin rmax"
  note fits_eq = fits_def
  have fits_def: "fits k \<longleftrightarrow> drop_bit r (draw_at k p) \<le> rmax - rmin" for k
    by (simp add: fits_eq fits_range_def shifted_draw_def r_def)
  have mask: "unat (rmax - rmin) < 2 ^ (64 - r)" "2 ^ (64 - r) \<le> 2 * unat (rmax - rmin)"
    using assms(1) leading_zeros_mask [of "rmax - rmin"] by (auto simp: r_def)
  have u: "uint64_range p rmin rmax =
      map_option (\<lambda>(v, p'). (rmin + v, p')) (range_loop r (rmax - rmin) p)"
    using assms(1) by (auto simp: uint64_range_def Let_def r_def)
  show ?thesis
  proof (cases "\<exists>k. fits k")
    case True
    define k where "k = (LEAST k. fits k)"
    have k: "fits k"
      unfolding k_def using True by (rule LeastI_ex)
    have below: "\<not> fits i" if "i < k" for i
      using that unfolding k_def by (rule not_less_Least)
    have l: "range_loop r (rmax - rmin) p = Some (drop_bit r (draw_at k p), prng_after (Suc k) p)"
      using k below by (intro range_loop_first) (auto simp: fits_def)
    have "drop_bit r (draw_at k p) \<le> rmax - rmin"
      using k by (simp add: fits_def)
    then have "rmin \<le> rmin + drop_bit r (draw_at k p) \<and> rmin + drop_bit r (draw_at k p) \<le> rmax"
      using assms(1) by (rule range_add_le)
    then show ?thesis
      using True mask u l
      unfolding fits_eq [symmetric] r_def [symmetric] k_def [symmetric] Let_def shifted_draw_def
      by simp
  next
    case False
    then have "range_loop r (rmax - rmin) p = None"
      using range_loop_fits [of r "rmax - rmin" p] by (cases "range_loop r (rmax - rmin) p") (auto simp: fits_def)
    then show ?thesis
      using False mask u unfolding fits_eq [symmetric] r_def [symmetric] by simp
  qed
qed

section \<open>The states of the generator\<close>

definition prng_ok :: "prng \<Rightarrow> bool" where
  "prng_ok p \<longleftrightarrow> p_s0 p \<noteq> 0 \<or> p_s1 p \<noteq> 0"

definition prng_init :: "prng \<Rightarrow> bool" where
  "prng_init p \<longleftrightarrow> (\<exists>seed. p = prng_seed seed) \<or> (\<exists>le bs. p = strong_seed le bs)"

definition prng_step :: "prng \<Rightarrow> prng \<Rightarrow> bool" where
  "prng_step p q \<longleftrightarrow> q = snd (next_u64 p)"

text \<open>The state before a step, recovered from the state behind it.\<close>

definition prng_back :: "prng \<Rightarrow> prng" where
  "prng_back q =
     (let sx = word_rotr 37 (p_s1 q); s0 = word_rotr 24 (p_s0 q XOR sx XOR push_bit 16 sx)
      in \<lparr> p_s0 = s0, p_s1 = sx XOR s0 \<rparr>)"

lemma xor_cancel: "(a XOR b XOR c) XOR b XOR c = (a :: 'a::len word)"
  by (rule bit_word_eqI) (auto simp: bit_simps)

lemma xor_cancel2: "(a XOR b) XOR b = (a :: 'a::len word)"
  by (rule bit_word_eqI) (auto simp: bit_simps)

lemma prng_back_next: "prng_back (snd (next_u64 p)) = p"
  by (simp add: prng_back_def next_u64_def Let_def xor_cancel xor_cancel2)

lemma prng_next_back: "snd (next_u64 (prng_back q)) = q"
  by (simp add: prng_back_def next_u64_def Let_def xor_cancel xor_cancel2)

lemma from_state_ok: "prng_ok (from_state a b)"
  by (simp add: from_state_def prng_ok_def)

interpretation generator: machine prng_init prng_step prng_ok
proof unfold_locales
  fix p
  assume "prng_init p"
  then show "prng_ok p"
    by (auto simp: prng_init_def prng_seed_def strong_seed_def from_state_ok case_prod_beta Let_def)
next
  fix p q
  assume p: "prng_ok p" and "prng_step p q"
  then have "p = prng_back q"
    by (simp add: prng_step_def prng_back_next)
  then show "prng_ok q"
    using p by (auto simp: prng_ok_def prng_back_def Let_def)
qed

lemma bij_next: "bij (\<lambda>p. snd (next_u64 p))"
  by (rule bij_betw_byWitness [where f' = prng_back]) (auto simp: prng_back_next prng_next_back)

lemma finite_prng: "finite (UNIV :: prng set)"
proof -
  have "(UNIV :: prng set) = (\<lambda>(a, b). \<lparr> p_s0 = a, p_s1 = b \<rparr>) ` UNIV"
    by (auto simp: image_iff) (metis prng.cases)
  then show ?thesis
    by (metis finite finite_imageI)
qed

text \<open>However the generator is seeded, no number of draws brings it to the all-zero state, from
  which it could not leave; and as its step is a bijection of the states, it always comes back to
  the state it started from.\<close>

lemma prng_never_zero:
  assumes "prng_init p"
  shows "prng_ok (prng_after k p) \<and> (\<exists>n > 0. prng_after n p = p)"
proof
  have "reach prng_init prng_step (prng_after k p)"
  proof (induction k)
    case 0
    then show ?case
      using assms by (simp add: reach_init)
  next
    case (Suc k)
    then show ?case
      by (rule reach_step) (simp add: prng_step_def prng_after_def)
  qed
  then show "prng_ok (prng_after k p)"
    by (rule generator.reach_inv)
  have "\<not> inj (\<lambda>n. prng_after n p)"
    using finite_prng finite_imageD [of "\<lambda>n. prng_after n p" UNIV] finite_subset [OF subset_UNIV]
    by (metis infinite_UNIV_nat)
  then obtain i j where ij: "i < j" "prng_after i p = prng_after j p"
    unfolding inj_def by (metis linorder_neqE_nat)
  then have "prng_after i p = prng_after i (prng_after (j - i) p)"
    by (simp add: prng_after_def flip: funpow_add [THEN fun_cong, unfolded comp_def])
  moreover have "inj ((\<lambda>q. snd (next_u64 q)) ^^ i)"
    using bij_next bij_is_inj inj_fn by blast
  ultimately have "prng_after (j - i) p = p"
    by (simp add: prng_after_def inj_eq)
  then show "\<exists>n > 0. prng_after n p = p"
    using ij(1) by (intro exI [of _ "j - i"]) simp
qed

section \<open>The order of the hosts\<close>

lemma length_swap_items [simp]: "length (swap_items xs a b) = length xs"
  by (simp add: swap_items_def)

lemma mset_swap_items [simp]:
  assumes "a < length xs" and "b < length xs"
  shows "mset (swap_items xs a b) = mset xs"
  using assms mset_swap [of b xs a] by (simp add: swap_items_def)

lemma swap_items_twice:
  assumes "a < length xs" and "b < length xs"
  shows "swap_items (swap_items xs a b) a b = xs"
  using assms by (auto simp: swap_items_def nth_list_update intro!: nth_equalityI)

text \<open>What a sequence of draws does to a list: the first one is for position \<open>i\<close>, the next one for
  the position behind it; none exceeds its position.\<close>

fun swaps :: "nat \<Rightarrow> nat list \<Rightarrow> 'a list \<Rightarrow> 'a list" where
  "swaps i [] xs = xs"
| "swaps i (j # js) xs = swaps (Suc i) js (swap_items xs j i)"

fun draws_ok :: "nat \<Rightarrow> nat list \<Rightarrow> bool" where
  "draws_ok i [] \<longleftrightarrow> True"
| "draws_ok i (j # js) \<longleftrightarrow> j \<le> i \<and> draws_ok (Suc i) js"

lemma length_swaps [simp]: "length (swaps i js xs) = length xs"
  by (induction i js xs rule: swaps.induct) auto

lemma swaps_snoc: "swaps i (js @ [j]) xs = swap_items (swaps i js xs) j (i + length js)"
  by (induction i js xs rule: swaps.induct) auto

lemma draws_ok_snoc: "draws_ok i (js @ [j]) \<longleftrightarrow> draws_ok i js \<and> j \<le> i + length js"
  by (induction i js rule: draws_ok.induct) auto

lemma mset_swaps: "draws_ok i js \<Longrightarrow> i + length js \<le> length xs \<Longrightarrow> mset (swaps i js xs) = mset xs"
  by (induction i js xs rule: swaps.induct) auto

lemma swaps_append:
  "draws_ok i js \<Longrightarrow> i + length js \<le> length xs \<Longrightarrow> swaps i js (xs @ ys) = swaps i js xs @ ys"
  by (induction i js xs rule: swaps.induct) (auto simp: swap_items_def nth_append list_update_append)

text \<open>The interface of a source of draws: a draw for position \<open>i\<close> does not exceed \<open>i\<close>.\<close>

locale draw_source =
  fixes draw :: "'s \<Rightarrow> nat \<Rightarrow> (nat \<times> 's) option"
  assumes draw_le: "draw s i = Some (j, s') \<Longrightarrow> j \<le> i"
begin

lemma shuffle_from_swaps:
  assumes "shuffle_from draw i xs s = Some (ys, s')"
  shows "\<exists>js. length js = length xs - i \<and> draws_ok i js \<and> ys = swaps i js xs"
  using assms
proof (induction "length xs - i" arbitrary: i xs s)
  case 0
  then show ?case
    by (intro exI [of _ "[]"]) (simp add: shuffle_from.simps [of draw i xs s])
next
  case (Suc n)
  then obtain j t where j: "draw s i = Some (j, t)"
      "shuffle_from draw (i + 1) (swap_items xs j i) t = Some (ys, s')"
    by (auto simp: shuffle_from.simps [of draw i xs s] split: option.splits prod.splits if_splits)
  then obtain js where "length js = length xs - (i + 1)" "draws_ok (i + 1) js"
      "ys = swaps (i + 1) js (swap_items xs j i)"
    using Suc.hyps(1) [of "swap_items xs j i" "i + 1"] Suc.hyps(2) by fastforce
  then show ?case
    using Suc.hyps(2) draw_le [OF j(1)] by (intro exI [of _ "j # js"]) auto
qed

lemma shuffle_from_permutes:
  assumes "shuffle_from draw 1 xs s = Some (ys, s')"
  shows "mset ys = mset xs"
proof (cases xs)
  case (Cons x xs')
  then show ?thesis
    using shuffle_from_swaps [OF assms] mset_swaps [of 1 _ xs] by auto
qed (use shuffle_from_swaps [OF assms] in auto)

end

lemma draw_position_le:
  assumes "draw_position p i = Some (j, p')"
  shows "j \<le> i"
proof -
  obtain v where v: "uint64_range p 0 (of_nat i) = Some (v, p')" "j = unat v"
    using assms by (auto simp: draw_position_def)
  have "v \<le> of_nat i"
    using v(1) by (auto simp: uint64_range_def Let_def dest: range_loop_result split: if_splits)
  then have "unat v \<le> unat (of_nat i :: u64)"
    by (simp add: word_le_nat_alt)
  also have "\<dots> \<le> i"
    by (simp add: unat_of_nat)
  finally show ?thesis
    using v(2) by simp
qed

interpretation prng_draws: draw_source draw_position
  by unfold_locales (rule draw_position_le)

lemma prng_after_add: "prng_after m (prng_after n p) = prng_after (m + n) p"
  by (simp add: prng_after_def funpow_add)

lemma draw_position_state:
  "draw_position p i = Some (j, p') \<Longrightarrow> \<exists>m. p' = prng_after m p"
  by (auto simp: draw_position_def uint64_range_def Let_def dest: range_loop_result
      split: if_splits intro: exI [of _ 0])

lemma draw_position_None:
  "draw_position p i = None \<Longrightarrow> \<not> fits_range p 0 (of_nat i) k"
  by (auto simp: draw_position_def uint64_range_def Let_def fits_range_def shifted_draw_def
      dest: range_loop_exists [OF exI] split: if_splits)

lemma shuffle_from_None:
  assumes "shuffle_from draw_position i xs p = None"
  shows "\<exists>m n. i \<le> n \<and> n < length xs \<and> (\<forall>k. \<not> fits_range (prng_after m p) 0 (of_nat n) k)"
  using assms
proof (induction "length xs - i" arbitrary: i xs p)
  case 0
  then show ?case
    by (simp add: shuffle_from.simps [of draw_position i xs p])
next
  case (Suc d)
  then have i: "i < length xs"
    by simp
  show ?case
  proof (cases "draw_position p i")
    case None
    then have "\<forall>k. \<not> fits_range (prng_after 0 p) 0 (of_nat i) k"
      using draw_position_None by simp
    then show ?thesis
      using i by blast
  next
    case (Some r)
    then obtain j q where q: "draw_position p i = Some (j, q)"
      by (cases r) auto
    obtain m where m: "q = prng_after m p"
      using draw_position_state [OF q] by blast
    have "shuffle_from draw_position (i + 1) (swap_items xs j i) q = None"
      using Suc.prems i q by (simp add: shuffle_from.simps [of draw_position i xs p])
    moreover have "d = length (swap_items xs j i) - (i + 1)"
      using Suc.hyps(2) by simp
    ultimately have "\<exists>m n. i + 1 \<le> n \<and> n < length (swap_items xs j i) \<and>
        (\<forall>k. \<not> fits_range (prng_after m q) 0 (of_nat n) k)"
      by (intro Suc.hyps(1))
    then obtain m' n where "i + 1 \<le> n" "n < length xs"
        "\<forall>k. \<not> fits_range (prng_after m' q) 0 (of_nat n) k"
      by auto
    then show ?thesis
      using m by (intro exI [of _ "m' + m"] exI [of _ n]) (simp add: prng_after_add)
  qed
qed

lemma swap_split:
  assumes "length ws = n" "i \<le> n" "length ys = Suc n" "distinct ys" "j \<le> n" "ys ! j = z"
    and us: "swap_items ys j n = us @ [z]"
  shows "swap_items (ws @ [z]) i n = ys \<longleftrightarrow> i = j \<and> ws = us"
proof
  assume eq: "swap_items (ws @ [z]) i n = ys"
  then have "ys ! i = z"
    using assms(1,2) by (auto simp: swap_items_def nth_list_update nth_append)
  then have i: "i = j"
    using assms by (simp add: distinct_conv_nth) (metis le_imp_less_Suc)
  have "ws @ [z] = swap_items ys j n"
    using swap_items_twice [of i "ws @ [z]" n] assms(1,2) eq i by simp
  then show "i = j \<and> ws = us"
    using i us by simp
next
  assume "i = j \<and> ws = us"
  then show "swap_items (ws @ [z]) i n = ys"
    using swap_items_twice [of j ys n] assms by simp
qed

lemma draws_determine:
  assumes "distinct xs" and "mset ys = mset xs"
  shows "\<exists>!js. length js = length xs - 1 \<and> draws_ok 1 js \<and> swaps 1 js xs = ys"
  using assms
proof (induction xs arbitrary: ys rule: rev_induct)
  case Nil
  then show ?case by auto
next
  case (snoc z zs)
  show ?case
  proof (cases "zs = []")
    case True
    then show ?thesis
      using snoc.prems by (auto intro!: ex1I [of _ "[]"])
  next
    case False
    define n where "n = length zs"
    have n: "0 < n" "length ys = Suc n" "distinct ys"
      using False snoc.prems mset_eq_length [OF snoc.prems(2)] mset_eq_imp_distinct_iff [of ys "zs @ [z]"]
      by (auto simp: n_def)
    obtain j where j: "j < Suc n" "ys ! j = z"
      using snoc.prems n by (metis in_set_conv_nth in_set_conv_decomp mset_eq_setD)
    define us where "us = butlast (swap_items ys j n)"
    have us: "swap_items ys j n = us @ [z]"
    proof -
      have "swap_items ys j n \<noteq> []"
        using n by (metis length_swap_items length_0_conv nat.distinct(1))
      moreover have "last (swap_items ys j n) = z"
        using n j calculation by (simp add: last_conv_nth) (simp add: swap_items_def nth_list_update)
      ultimately show ?thesis
        unfolding us_def by (metis append_butlast_last_id)
    qed
    have len: "length us = n"
      using n by (simp add: us_def)
    have "mset us = mset zs"
      using mset_swap_items [of j ys n] n j snoc.prems(2) unfolding us by simp
    then have ih: "\<exists>!ks. length ks = n - 1 \<and> draws_ok 1 ks \<and> swaps 1 ks zs = us"
      using snoc.IH [of us] snoc.prems(1) unfolding n_def by simp
    have split: "swap_items (ws @ [z]) i n = ys \<longleftrightarrow> i = j \<and> ws = us"
      if "length ws = n" "i \<le> n" for ws i
      using swap_split [of ws n i ys j z us] that n j us by auto
    have "(length js = length (zs @ [z]) - 1 \<and> draws_ok 1 js \<and> swaps 1 js (zs @ [z]) = ys) \<longleftrightarrow>
        (\<exists>ks. js = ks @ [j] \<and> length ks = n - 1 \<and> draws_ok 1 ks \<and> swaps 1 ks zs = us)" for js
    proof (cases js rule: rev_cases)
      case Nil
      then show ?thesis
        using n(1) by (simp add: n_def)
    next
      case (snoc ks i)
      have "swaps 1 js (zs @ [z]) = swap_items (swaps 1 ks zs @ [z]) i n"
        if "length ks = n - 1" "draws_ok 1 ks"
        using that snoc n(1) by (simp add: swaps_snoc swaps_append n_def)
      then show ?thesis
        using split [of "swaps 1 ks zs" i] snoc n(1) j(1) by (auto simp: draws_ok_snoc n_def)
    qed
    then show ?thesis
      using ih by auto
  qed
qed

text \<open>The shuffle only reorders the hosts. It applies one draw per host behind the first, and for
  different hosts every order is the result of exactly one sequence of draws, so that equally likely
  draws make all orders equally likely. It fails to return only if the generator comes to a state
  from which no draw ever fits the range of some position.\<close>

lemma shuffle_each_order_once:
  "case shuffle p xs of
     Some (ys, p') \<Rightarrow>
       mset ys = mset xs \<and>
       (\<exists>js. length js = length xs - 1 \<and> draws_ok 1 js \<and> ys = swaps 1 js xs) \<and>
       (distinct xs \<longrightarrow>
          (\<forall>zs. mset zs = mset xs \<longrightarrow>
             (\<exists>!js. length js = length xs - 1 \<and> draws_ok 1 js \<and> swaps 1 js xs = zs)))
   | None \<Rightarrow>
       \<exists>m n. n < length xs \<and> (\<forall>k. \<not> fits_range (prng_after m p) 0 (of_nat n) k)"
proof (cases "shuffle p xs")
  case None
  then show ?thesis
    using shuffle_from_None [of 1 xs p] by (auto simp: shuffle_def)
next
  case (Some r)
  obtain ys p' where r: "r = (ys, p')"
    by (cases r)
  then have sh: "shuffle_from draw_position 1 xs p = Some (ys, p')"
    using Some by (simp add: shuffle_def)
  show ?thesis
    unfolding Some r option.case prod.case
    using prng_draws.shuffle_from_permutes [OF sh] prng_draws.shuffle_from_swaps [OF sh]
      draws_determine [of xs]
    by blast
qed

end
