(* ===== verification/Target.thy ===== *)
theory Target
  imports Hosts QueryResult
begin

text \<open>
  \<open>crates/rlibpq/src/target.rs\<close>: whether a server that accepted the connection is the kind
  \<open>target_session_attrs\<close> asked for, and the loop \<open>Connection::check_target\<close> of \<open>connection.rs\<close>
  that asks the server what it did not report.

  The lookup of a reported parameter is an argument. The loop is a \<open>partial_function\<close> over a
  connection of any type: running a query (\<open>Connection::exec\<close>) and \<open>terminate\<close> are arguments.
  \<open>sversion\<close> computes in \<open>u32\<close>; where that overflows (a panic of a checked build, a wrapped value of
  an unchecked one) it is \<open>None\<close>.

  Shown: the loop asks at most one question and always ends; with truthful reports and answers it
  accepts exactly the servers that are what was asked for; and a server can make the version
  computation overflow.
\<close>

section \<open>What is known of a server\<close>

datatype pg_bool = PgUnknown | PgYes | PgNo

definition from_parameter :: "bytes option \<Rightarrow> pg_bool" where
  "from_parameter v =
     (case v of None \<Rightarrow> PgUnknown | Some b \<Rightarrow> if b = bstr ''on'' then PgYes else PgNo)"

record server_state =
  ss_default_transaction_read_only :: pg_bool
  ss_in_hot_standby :: pg_bool
  ss_sversion :: u32

definition is_ascii_whitespace :: "byte \<Rightarrow> bool" where
  "is_ascii_whitespace c = (c \<in> {32, 9, 10, 12, 13})"

definition strip_prefix_byte :: "byte \<Rightarrow> bytes \<Rightarrow> bytes option" where
  "strip_prefix_byte p bs = (case bs of c # cs \<Rightarrow> if c = p then Some cs else None | [] \<Rightarrow> None)"

text \<open>\<open>parse::<u32>\<close> of a string of decimal digits.\<close>

definition parse_u32 :: "bytes \<Rightarrow> u32 option" where
  "parse_u32 ds = (if dec_value ds < 2 ^ 32 then Some (of_nat (dec_value ds)) else None)"

definition scan_int :: "bytes \<Rightarrow> u32 option \<times> bytes" where
  "scan_int v =
     (let rest = dropWhile is_ascii_whitespace v;
          rest = (case strip_prefix_byte 43 rest of Some r \<Rightarrow> r | None \<Rightarrow> rest);
          digits = takeWhile is_ascii_digit rest
      in if digits = [] then (None, v) else (parse_u32 digits, drop (length digits) rest))"

text \<open>Checked \<open>u32\<close> arithmetic: \<open>a * x + b\<close>.\<close>

definition mul_add_u32 :: "nat \<Rightarrow> u32 \<Rightarrow> u32 \<Rightarrow> u32 option" where
  "mul_add_u32 a x b =
     (if a * unat x + unat b < 2 ^ 32 then Some (of_nat a * x + b) else None)"

definition sversion :: "bytes \<Rightarrow> u32 option" where
  "sversion v =
     (case scan_int v of
        (None, _) \<Rightarrow> Some 0
      | (Some vmaj, rest) \<Rightarrow>
          let (vmin, rest) = (case strip_prefix_byte 46 rest of
                                Some r \<Rightarrow> scan_int r | None \<Rightarrow> (None, rest));
              vrev = (case (vmin, strip_prefix_byte 46 rest) of
                        (Some _, Some r) \<Rightarrow> fst (scan_int r) | _ \<Rightarrow> None)
          in (case (vmin, vrev) of
                (Some vmin, Some vrev) \<Rightarrow>
                  Option.bind (mul_add_u32 100 vmaj vmin) (\<lambda>n. mul_add_u32 100 n vrev)
              | (Some vmin, None) \<Rightarrow>
                  if vmaj \<ge> 10 then mul_add_u32 (100 * 100) vmaj vmin
                  else Option.bind (mul_add_u32 100 vmaj vmin) (\<lambda>n. mul_add_u32 100 n 0)
              | (None, _) \<Rightarrow> mul_add_u32 (100 * 100) vmaj 0))"

definition from_parameters :: "(bytes \<Rightarrow> bytes option) \<Rightarrow> server_state option" where
  "from_parameters parameter =
     map_option (\<lambda>v. \<lparr> ss_default_transaction_read_only =
                         from_parameter (parameter (bstr ''default_transaction_read_only'')),
                       ss_in_hot_standby = from_parameter (parameter (bstr ''in_hot_standby'')),
                       ss_sversion = v \<rparr>)
       (case parameter (bstr ''server_version'') of None \<Rightarrow> Some 0 | Some v \<Rightarrow> sversion v)"

section \<open>The check\<close>

datatype check_query = TransactionReadOnly | IsInRecovery

definition sql :: "check_query \<Rightarrow> bytes" where
  "sql q = (case q of
     TransactionReadOnly \<Rightarrow> bstr ''SHOW transaction_read_only''
   | IsInRecovery \<Rightarrow> bstr ''SELECT pg_catalog.pg_is_in_recovery()'')"

datatype target_rejection =
    SessionIsReadOnly | SessionIsNotReadOnly | InHotStandby | NotInHotStandby
  | QueryFailed check_query

definition rejection_message :: "target_rejection \<Rightarrow> bytes" where
  "rejection_message r = (case r of
     SessionIsReadOnly \<Rightarrow> bstr ''session is read-only''
   | SessionIsNotReadOnly \<Rightarrow> bstr ''session is not read-only''
   | InHotStandby \<Rightarrow> bstr ''server is in hot standby mode''
   | NotInHotStandby \<Rightarrow> bstr ''server is not in hot standby mode''
   | QueryFailed TransactionReadOnly \<Rightarrow> 34 # bstr ''SHOW transaction_read_only'' @ 34 # bstr '' failed''
   | QueryFailed IsInRecovery \<Rightarrow> 34 # bstr ''SELECT pg_is_in_recovery()'' @ 34 # bstr '' failed'')"

definition starts_with_text :: "string \<Rightarrow> bytes \<Rightarrow> bool" where
  "starts_with_text pre v = (take (length pre) v = bstr pre)"

definition answer ::
  "check_query \<Rightarrow> query_result option \<Rightarrow> server_state \<Rightarrow> (server_state, target_rejection) result" where
  "answer q r st =
     (case r of
        Some r \<Rightarrow>
          if qr_status r = TuplesOk \<and> ntuples r = 1 then
            (let v = (case qr_value r 0 0 of Some v \<Rightarrow> v | None \<Rightarrow> []) in
             case q of
               TransactionReadOnly \<Rightarrow>
                 let a = (if starts_with_text ''on'' v then PgYes else PgNo) in
                 Ok (st\<lparr> ss_default_transaction_read_only := a, ss_in_hot_standby := a \<rparr>)
             | IsInRecovery \<Rightarrow>
                 Ok (st\<lparr> ss_in_hot_standby := (if starts_with_text ''t'' v then PgYes else PgNo) \<rparr>))
          else Err (QueryFailed q)
      | None \<Rightarrow> Err (QueryFailed q))"

datatype target_check = Accept | Ask check_query | Reject target_rejection

definition check_read_only :: "target_server_type \<Rightarrow> server_state \<Rightarrow> target_check" where
  "check_read_only target st =
     (if ss_default_transaction_read_only st = PgUnknown \<or> ss_in_hot_standby st = PgUnknown
      then Ask TransactionReadOnly
      else let read_only_server =
             (ss_default_transaction_read_only st = PgYes \<or> ss_in_hot_standby st = PgYes) in
        if target = ReadWrite \<and> read_only_server then Reject SessionIsReadOnly
        else if target = ReadOnly \<and> \<not> read_only_server then Reject SessionIsNotReadOnly
        else Accept)"

definition check_standby :: "target_server_type \<Rightarrow> server_state \<Rightarrow> target_check" where
  "check_standby target st =
     (case (if ss_sversion st < 90000 then PgNo else ss_in_hot_standby st) of
        PgUnknown \<Rightarrow> Ask IsInRecovery
      | PgYes \<Rightarrow> if target = Primary then Reject InHotStandby else Accept
      | PgNo \<Rightarrow> if target = Standby \<or> target = PreferStandby then Reject NotInHotStandby else Accept)"

definition check_target :: "target_server_type \<Rightarrow> bool \<Rightarrow> server_state \<Rightarrow> target_check" where
  "check_target target second_pass st =
     (if target = ReadWrite \<or> target = ReadOnly then check_read_only target st
      else if target = PreferStandby \<and> second_pass then Accept
      else if target = Primary \<or> target = Standby \<or> target = PreferStandby
      then check_standby target st
      else Accept)"

text \<open>The loop of \<open>Connection::check_target\<close>. A connection is of any type \<open>'c\<close>; running a query and
  terminating may fail to return (\<open>None\<close>); \<open>None\<close> inside the result is acceptance.\<close>

partial_function (option) check_target_loop ::
  "('c \<Rightarrow> bytes \<Rightarrow> ((query_result list, 'e) result \<times> 'c) option) \<Rightarrow> ('c \<Rightarrow> 'c option) \<Rightarrow>
   target_server_type \<Rightarrow> bool \<Rightarrow> server_state \<Rightarrow> 'c \<Rightarrow>
   ((target_rejection option, 'e) result \<times> 'c) option" where
  "check_target_loop exec terminate target second_pass st c =
     (case check_target target second_pass st of
        Accept \<Rightarrow> Some (Ok None, c)
      | Ask q \<Rightarrow>
          Option.bind (exec c (sql q)) (\<lambda>(r, c').
            case r of
              Err e \<Rightarrow> Some (Err e, c')
            | Ok rs \<Rightarrow>
                (case answer q (case rs of [] \<Rightarrow> None | r # _ \<Rightarrow> Some r) st of
                   Ok st' \<Rightarrow> check_target_loop exec terminate target second_pass st' c'
                 | Err rejection \<Rightarrow> map_option (\<lambda>c. (Ok (Some rejection), c)) (terminate c')))
      | Reject rejection \<Rightarrow> map_option (\<lambda>c. (Ok (Some rejection), c)) (terminate c))"

text \<open>\<open>Connection::check_target\<close>; the outer \<open>None\<close> is the overflow in \<open>sversion\<close>.\<close>

definition conn_check_target ::
  "('c \<Rightarrow> bytes \<Rightarrow> ((query_result list, 'e) result \<times> 'c) option) \<Rightarrow> ('c \<Rightarrow> 'c option) \<Rightarrow>
   (bytes \<Rightarrow> bytes option) \<Rightarrow> target_server_type \<Rightarrow> bool \<Rightarrow> 'c \<Rightarrow>
   ((target_rejection option, 'e) result \<times> 'c) option" where
  "conn_check_target exec terminate parameter target second_pass c =
     Option.bind (from_parameters parameter)
       (\<lambda>st. check_target_loop exec terminate target second_pass st c)"

section \<open>One question is enough\<close>

lemma settled_after_answer:
  assumes "check_target target second_pass st = Ask q" and "answer q r st = Ok st'"
  shows "check_target target second_pass st' \<noteq> Ask q'"
  using assms
  by (cases target; cases q)
    (auto simp: check_target_def check_read_only_def check_standby_def answer_def Let_def
      split: if_splits option.splits pg_bool.splits)

text \<open>The outcome of a check that needs no question; \<open>None\<close> for one that does.\<close>

definition settle ::
  "('c \<Rightarrow> 'c option) \<Rightarrow> target_check \<Rightarrow> 'c \<Rightarrow> ((target_rejection option, 'e) result \<times> 'c) option" where
  "settle terminate chk c =
     (case chk of
        Accept \<Rightarrow> Some (Ok None, c)
      | Reject r \<Rightarrow> map_option (\<lambda>c. (Ok (Some r), c)) (terminate c)
      | Ask q \<Rightarrow> None)"

definition one_question ::
  "('c \<Rightarrow> bytes \<Rightarrow> ((query_result list, 'e) result \<times> 'c) option) \<Rightarrow> ('c \<Rightarrow> 'c option) \<Rightarrow>
   target_server_type \<Rightarrow> bool \<Rightarrow> server_state \<Rightarrow> check_query \<Rightarrow> 'c \<Rightarrow>
   ((target_rejection option, 'e) result \<times> 'c) option" where
  "one_question exec terminate target second_pass st q c =
     Option.bind (exec c (sql q)) (\<lambda>(r, c').
       case r of
         Err e \<Rightarrow> Some (Err e, c')
       | Ok rs \<Rightarrow>
          (case answer q (case rs of [] \<Rightarrow> None | r # _ \<Rightarrow> Some r) st of
             Err r \<Rightarrow> settle terminate (Reject r) c'
           | Ok st' \<Rightarrow> settle terminate (check_target target second_pass st') c'))"

lemma settle_simps [simp]:
  "settle terminate Accept c = Some (Ok None, c)"
  "settle terminate (Reject r) c = map_option (\<lambda>c. (Ok (Some r), c)) (terminate c)"
  "settle terminate (Ask q) c = None"
  by (simp_all add: settle_def)

lemma check_target_loop_settled:
  assumes "\<And>q. check_target target second_pass st \<noteq> Ask q"
  shows "check_target_loop exec terminate target second_pass st c =
    settle terminate (check_target target second_pass st) c"
proof (cases "check_target target second_pass st")
  case (Ask q)
  then show ?thesis
    using assms by blast
qed (simp_all add: check_target_loop.simps [of exec terminate target second_pass st c])

lemma settle_returns:
  "(\<And>q. chk \<noteq> Ask q) \<Longrightarrow> (\<And>c. terminate c \<noteq> None) \<Longrightarrow> settle terminate chk c \<noteq> None"
  by (cases chk) auto

lemma check_target_loop_asked:
  assumes ask: "check_target target second_pass st = Ask q"
  shows "check_target_loop exec terminate target second_pass st c =
      one_question exec terminate target second_pass st q c"
proof -
  let ?first = "\<lambda>rs. case rs of [] \<Rightarrow> None | r # _ \<Rightarrow> Some r"
  have once: "check_target_loop exec terminate target second_pass st' c' =
        settle terminate (check_target target second_pass st') c'"
    if "answer q (?first rs) st = Ok st'" for rs st' c'
    using settled_after_answer [OF ask that] by (rule check_target_loop_settled)
  show ?thesis
    using ask once
    by (cases "exec c (sql q)")
      (auto simp: check_target_loop.simps [of exec terminate target second_pass st c]
        one_question_def split: result.split)
qed

lemma one_question_returns:
  assumes ask: "check_target target second_pass st = Ask q"
    and "exec c (sql q) \<noteq> None" and "\<And>c. terminate c \<noteq> None"
  shows "one_question exec terminate target second_pass st q c \<noteq> None"
proof -
  obtain r c' where e: "exec c (sql q) = Some (r, c')"
    using assms(2) by auto
  let ?first = "\<lambda>rs. case rs of [] \<Rightarrow> None | r # _ \<Rightarrow> Some r"
  have "settle terminate (check_target target second_pass st') c' \<noteq> None"
    if "answer q (?first rs) st = Ok st'" for rs st'
    using settled_after_answer [OF ask that] assms(3) by (rule settle_returns)
  then show ?thesis
    using assms(3) by (simp add: one_question_def e split: result.split) blast
qed

text \<open>Holding a server to \<open>target_session_attrs\<close> always comes to an end and asks the server at
  most one question: without one the reports decide, and the state that results from an answer
  never needs another. A query that cannot be run is passed on as the error it is, and one that does
  not answer with a single row refuses the server; a refused connection, and only such a one, is
  terminated. The check returns whenever running that one query and terminating do.\<close>

lemma check_target_asks_once:
  assumes "\<And>q. exec c (sql q) \<noteq> None" and "\<And>c. terminate c \<noteq> None"
  shows "check_target_loop exec terminate target second_pass st c =
     (case check_target target second_pass st of
        Ask q \<Rightarrow> one_question exec terminate target second_pass st q c
      | chk \<Rightarrow> settle terminate chk c) \<and>
   (\<exists>r c'. check_target_loop exec terminate target second_pass st c = Some (r, c'))"
proof (cases "check_target target second_pass st")
  case (Ask q)
  then show ?thesis
    using check_target_loop_asked [OF Ask, of exec terminate c] one_question_returns [of target second_pass st q exec c terminate] assms
    by auto
next
  case (Reject r)
  then show ?thesis
    using assms(2) by (auto simp: check_target_loop_settled)
qed (simp add: check_target_loop_settled)

section \<open>Accepted servers are what was asked for\<close>

text \<open>A server as it is: whether its sessions are read-only by default, whether it is a hot standby,
  and its version.\<close>

record server_facts =
  sf_read_only :: bool
  sf_standby :: bool
  sf_version :: u32

definition wanted :: "target_server_type \<Rightarrow> bool \<Rightarrow> server_facts \<Rightarrow> bool" where
  "wanted target second_pass f =
     (case target of
        AnyServer \<Rightarrow> True
      | ReadWrite \<Rightarrow> \<not> sf_read_only f \<and> \<not> sf_standby f
      | ReadOnly \<Rightarrow> sf_read_only f \<or> sf_standby f
      | Primary \<Rightarrow> \<not> sf_standby f
      | Standby \<Rightarrow> sf_standby f
      | PreferStandby \<Rightarrow> second_pass \<or> sf_standby f)"

definition on_off :: "bool \<Rightarrow> bytes" where
  "on_off b = (if b then bstr ''on'' else bstr ''off'')"

text \<open>Truthful reports: what is reported is so; a version is reported, and a server older than 9.0
  is no standby.\<close>

definition truthful_reports :: "server_facts \<Rightarrow> (bytes \<Rightarrow> bytes option) \<Rightarrow> bool" where
  "truthful_reports f parameter \<longleftrightarrow>
     parameter (bstr ''default_transaction_read_only'') \<in> {None, Some (on_off (sf_read_only f))} \<and>
     parameter (bstr ''in_hot_standby'') \<in> {None, Some (on_off (sf_standby f))} \<and>
     (\<exists>v. parameter (bstr ''server_version'') = Some v \<and> sversion v = Some (sf_version f)) \<and>
     (sf_version f < 90000 \<longrightarrow> \<not> sf_standby f)"

definition single_value :: "query_result \<Rightarrow> bytes \<Rightarrow> bool" where
  "single_value r v \<longleftrightarrow> qr_status r = TuplesOk \<and> ntuples r = 1 \<and> qr_value r 0 0 = Some v"

definition truthful_answers ::
  "server_facts \<Rightarrow> ('c \<Rightarrow> bytes \<Rightarrow> ((query_result list, 'e) result \<times> 'c) option) \<Rightarrow> bool" where
  "truthful_answers f exec \<longleftrightarrow>
     (\<forall>c. \<exists>r c'. exec c (sql TransactionReadOnly) = Some (Ok [r], c') \<and>
        single_value r (on_off (sf_read_only f \<or> sf_standby f))) \<and>
     (\<forall>c. \<exists>r c'. exec c (sql IsInRecovery) = Some (Ok [r], c') \<and>
        single_value r (if sf_standby f then bstr ''t'' else bstr ''f''))"

lemma from_parameter_on_off [simp]:
  "from_parameter None = PgUnknown" "from_parameter (Some (on_off b)) = (if b then PgYes else PgNo)"
  by (auto simp: from_parameter_def on_off_def)

lemma starts_with_on_off [simp]: "starts_with_text ''on'' (on_off b) = b"
  by (simp add: starts_with_text_def on_off_def)

lemma starts_with_t [simp]:
  "starts_with_text ''t'' (if b then bstr ''t'' else bstr ''f'') = b"
  by (simp add: starts_with_text_def)

lemma answer_single:
  assumes "single_value r v"
  shows "answer TransactionReadOnly (Some r) st =
      (let a = (if starts_with_text ''on'' v then PgYes else PgNo) in
       Ok (st\<lparr> ss_default_transaction_read_only := a, ss_in_hot_standby := a \<rparr>))"
    and "answer IsInRecovery (Some r) st =
      Ok (st\<lparr> ss_in_hot_standby := (if starts_with_text ''t'' v then PgYes else PgNo) \<rparr>)"
  using assms by (simp_all add: answer_def single_value_def Let_def)


lemma check_read_write_exact:
  assumes ans: "truthful_answers f exec" and target: "target = ReadWrite \<or> target = ReadOnly"
    and known: "ss_default_transaction_read_only st \<in> {PgUnknown, if sf_read_only f then PgYes else PgNo}"
      "ss_in_hot_standby st \<in> {PgUnknown, if sf_standby f then PgYes else PgNo}"
    and stops: "\<And>c. terminate c \<noteq> None"
  shows "\<exists>r c'. check_target_loop exec terminate target second_pass st c = Some (Ok r, c') \<and>
    (r = None \<longleftrightarrow> wanted target second_pass f)"
proof (cases "ss_default_transaction_read_only st = PgUnknown \<or> ss_in_hot_standby st = PgUnknown")
  case True
  then have "check_target target second_pass st = Ask TransactionReadOnly"
    using target by (auto simp: check_target_def check_read_only_def)
  moreover obtain r c' where "exec c (sql TransactionReadOnly) = Some (Ok [r], c')"
      "single_value r (on_off (sf_read_only f \<or> sf_standby f))"
    using ans unfolding truthful_answers_def by blast
  ultimately show ?thesis
    using target stops
    by (auto simp: check_target_loop_asked one_question_def answer_single Let_def check_target_def
        check_read_only_def wanted_def)
next
  case False
  then have "check_target target second_pass st =
      (if target = ReadWrite \<and> (sf_read_only f \<or> sf_standby f) then Reject SessionIsReadOnly
       else if target = ReadOnly \<and> \<not> (sf_read_only f \<or> sf_standby f) then Reject SessionIsNotReadOnly
       else Accept)"
    using known target by (auto simp: check_target_def check_read_only_def split: if_splits)
  then show ?thesis
    using target stops by (auto simp: check_target_loop_settled wanted_def)
qed

lemma check_standby_exact:
  assumes ans: "truthful_answers f exec" and old: "sf_version f < 90000 \<longrightarrow> \<not> sf_standby f"
    and target: "target = Primary \<or> target = Standby \<or> target = PreferStandby \<and> \<not> second_pass"
    and known: "ss_in_hot_standby st \<in> {PgUnknown, if sf_standby f then PgYes else PgNo}"
      "ss_sversion st = sf_version f"
    and stops: "\<And>c. terminate c \<noteq> None"
  shows "\<exists>r c'. check_target_loop exec terminate target second_pass st c = Some (Ok r, c') \<and>
    (r = None \<longleftrightarrow> wanted target second_pass f)"
proof (cases "ss_in_hot_standby st = PgUnknown \<and> \<not> sf_version f < 90000")
  case True
  then have "check_target target second_pass st = Ask IsInRecovery"
    using target known by (auto simp: check_target_def check_standby_def)
  moreover obtain r c' where "exec c (sql IsInRecovery) = Some (Ok [r], c')"
      "single_value r (if sf_standby f then bstr ''t'' else bstr ''f'')"
    using ans unfolding truthful_answers_def by blast
  ultimately show ?thesis
    using target known True stops
    by (auto simp: check_target_loop_asked one_question_def answer_single check_target_def
        check_standby_def wanted_def simp del: bstr_Cons)
next
  case False
  then have "check_target target second_pass st =
      (if target = Primary \<and> sf_standby f then Reject InHotStandby
       else if target \<noteq> Primary \<and> \<not> sf_standby f then Reject NotInHotStandby else Accept)"
    using known target old
    by (auto simp: check_target_def check_standby_def split: if_splits pg_bool.splits)
  then show ?thesis
    using target stops by (auto simp: check_target_loop_settled wanted_def)
qed

text \<open>With a server that reports and answers truthfully (it may leave out whether it is read-only
  or a standby), the check accepts exactly the servers that are what \<open>target_session_attrs\<close> asks
  for.\<close>

lemma accepts_exactly_wanted:
  assumes "truthful_reports f parameter" and "truthful_answers f exec"
    and stops: "\<And>c. terminate c \<noteq> None"
  shows "\<exists>r c'. conn_check_target exec terminate parameter target second_pass c = Some (Ok r, c') \<and>
    (r = None \<longleftrightarrow> wanted target second_pass f)"
proof -
  obtain st where st: "from_parameters parameter = Some st" "ss_sversion st = sf_version f"
      "ss_default_transaction_read_only st \<in> {PgUnknown, if sf_read_only f then PgYes else PgNo}"
      "ss_in_hot_standby st \<in> {PgUnknown, if sf_standby f then PgYes else PgNo}"
    using assms(1) by (auto simp: truthful_reports_def from_parameters_def)
  consider "target = ReadWrite \<or> target = ReadOnly"
    | "target = Primary \<or> target = Standby \<or> target = PreferStandby \<and> \<not> second_pass"
    | "target = AnyServer \<or> target = PreferStandby \<and> second_pass"
    by (cases target) auto
  then show ?thesis
  proof cases
    case 1
    then show ?thesis
      using check_read_write_exact [OF assms(2) 1 st(3,4) stops] st(1) by (simp add: conn_check_target_def)
  next
    case 2
    then show ?thesis
      using check_standby_exact [OF assms(2) _ 2 st(4,2) stops] assms(1) st(1)
      by (simp add: conn_check_target_def truthful_reports_def)
  next
    case 3
    then have "check_target target second_pass st = Accept" "wanted target second_pass f"
      by (auto simp: check_target_def wanted_def)
    then show ?thesis
      using st(1) by (simp add: conn_check_target_def check_target_loop_settled)
  qed
qed

text \<open>A primary of version 16 that reports nothing but its version.\<close>

definition demo_answer :: "bytes \<Rightarrow> query_result" where
  "demo_answer v = (QueryResult_new TuplesOk)\<lparr> qr_rows := [[Some v]] \<rparr>"

definition demo_exec :: "unit \<Rightarrow> bytes \<Rightarrow> ((query_result list, unit) result \<times> unit) option" where
  "demo_exec c q =
     Some (Ok [demo_answer (if q = sql IsInRecovery then bstr ''f'' else bstr ''off'')], ())"

definition demo_parameter :: "bytes \<Rightarrow> bytes option" where
  "demo_parameter name = (if name = bstr ''server_version'' then Some (bstr ''16.4'') else None)"

section \<open>Version numbers\<close>

lemma scan_int_digits:
  assumes "n < 2 ^ 32" and "rest = [] \<or> \<not> is_ascii_digit (hd rest)"
  shows "scan_int (dec_digits n @ rest) = (Some (of_nat n), rest)"
proof -
  obtain d ds where d: "dec_digits n = d # ds"
    by (cases "dec_digits n") auto
  have dig: "\<forall>c \<in> set (d # ds). is_ascii_digit c"
    using dec_digits_digits [of n] unfolding d by (auto simp: list_all_iff)
  then have "\<not> is_ascii_whitespace d" "d \<noteq> 43"
    by (auto simp: is_ascii_digit_def is_ascii_whitespace_def)
  moreover have "takeWhile is_ascii_digit (d # ds @ rest) = d # ds"
    using dig assms(2) takeWhile_append2 [of "d # ds" is_ascii_digit rest] by (cases rest) auto
  ultimately show ?thesis
    using assms(1) dec_value_digits [of n] unfolding d
    by (simp add: scan_int_def strip_prefix_byte_def Let_def parse_u32_def)
qed

lemma unat_of_nat_u32: "n < 2 ^ 32 \<Longrightarrow> unat (of_nat n :: u32) = n"
  by (simp add: unat_of_nat)

lemma mul_add_of_nat:
  assumes "x < 2 ^ 32" and "b < 2 ^ 32"
  shows "mul_add_u32 a (of_nat x) (of_nat b) =
    (if a * x + b < 2 ^ 32 then Some (of_nat (a * x + b)) else None)"
  using assms by (simp add: mul_add_u32_def unat_of_nat_u32)

text \<open>A version printed in the new style, \<open>major.minor\<close> with a major number of at least 10, is
  read as \<open>10000 * major + minor\<close>, and one in the old style, \<open>major.minor.revision\<close>, as
  \<open>10000 * major + 100 * minor + revision\<close>, provided that number fits in 32 bits. Otherwise the
  computation overflows; nothing a server sends is checked beforehand, so the version \<open>500000.0\<close>
  makes it overflow.\<close>

lemma sversion_exact:
  assumes "vmaj < 2 ^ 32" and "vmin < 2 ^ 32" and "vrev < 2 ^ 32"
  shows "(10 \<le> vmaj \<longrightarrow>
      sversion (dec_digits vmaj @ 46 # dec_digits vmin) =
        (if 10000 * vmaj + vmin < 2 ^ 32 then Some (of_nat (10000 * vmaj + vmin)) else None)) \<and>
    sversion (dec_digits vmaj @ 46 # dec_digits vmin @ 46 # dec_digits vrev) =
      (if 10000 * vmaj + 100 * vmin + vrev < 2 ^ 32
       then Some (of_nat (10000 * vmaj + 100 * vmin + vrev)) else None)"
proof -
  have dot: "\<not> is_ascii_digit 46"
    by (simp add: is_ascii_digit_def)
  have maj: "scan_int (dec_digits vmaj @ 46 # r) = (Some (of_nat vmaj), 46 # r)" for r
    using scan_int_digits [OF assms(1), of "46 # r"] dot by simp
  have min: "scan_int (dec_digits vmin @ 46 # r) = (Some (of_nat vmin), 46 # r)" for r
    using scan_int_digits [OF assms(2), of "46 # r"] dot by simp
  have last: "scan_int (dec_digits n) = (Some (of_nat n), [])" if "n < 2 ^ 32" for n
    using scan_int_digits [OF that, of "[]"] by simp
  have "(of_nat vmaj :: u32) \<ge> 10 \<longleftrightarrow> vmaj \<ge> 10"
    using assms(1) by (simp add: word_le_nat_alt unat_of_nat_u32)
  moreover have "Option.bind (mul_add_u32 100 (of_nat vmaj) (of_nat vmin))
      (\<lambda>n. mul_add_u32 100 n (of_nat vrev)) =
      (if 10000 * vmaj + 100 * vmin + vrev < 2 ^ 32
       then Some (of_nat (10000 * vmaj + 100 * vmin + vrev)) else None)"
    using assms mul_add_of_nat [of "100 * vmaj + vmin" vrev 100]
    by (cases "100 * vmaj + vmin < 2 ^ 32")
      (simp_all add: mul_add_of_nat algebra_simps del: of_nat_add of_nat_mult)
  ultimately show ?thesis
    using assms
    by (simp add: sversion_def maj min last strip_prefix_byte_def mul_add_of_nat
        del: of_nat_add of_nat_mult)
qed

end
