(* ===== verification/Connection.thy ===== *)
theory Connection
  imports Extended Auth Escape Target
begin

text \<open>
  A connection, \<open>crates/rlibpq/src/connection.rs\<close>: the record of its buffers and state and the calls
  that move bytes: reading, flushing, putting a message, parsing what was read.

  The socket is the operating system's. Its answers are an argument of every call: \<open>os\<close> gives, for each
  point in time, what a read, a write or a wait returns then, so that a theorem for every \<open>os\<close> is a
  theorem for every behaviour of the socket and of the server behind it. What \<open>std\<close> documents of the two
  directions is built in: a read returns at most the 8192 bytes of its buffer, a write takes a prefix of what it is
  given. The connection's \<open>net\<close> records the point in time and, for the theorems only, all bytes sent and
  received so far.

  A call returns \<open>None\<close> where the source would not return (a loop that the socket never lets end) or
  would panic (a message too long for its length word). The records a trace would write are kept as a
  list; their rendering (\<open>trace.rs\<close>) is not modelled. The cached functions of the large-object
  interface (\<open>lobjfuncs\<close>) are not part of the record: no call of this file reads them.

  Shown: bytes are neither lost, repeated nor reordered, in both directions.
\<close>

section \<open>Errors\<close>

text \<open>The kinds of \<open>std::io::Error\<close> that the source tells apart.\<close>

datatype io_error = WouldBlock | Interrupted | WriteZero | IoOther nat

datatype connection_error =
    CE_Io io_error
  | ServerClosedConnection
  | CE_Protocol protocol_error
  | CE_Auth auth_error
  | CE_Server result_error
  | UnexpectedMessage byte
  | CE_Conninfo conn_error
  | CE_Argument argument_error
  | CE_Pipeline pipeline_error
  | CE_Target target_rejection
  | FlushPending

section \<open>The socket\<close>

record os =
  os_read :: "nat \<Rightarrow> (bytes, io_error) result"
  os_write :: "nat \<Rightarrow> (nat, io_error) result"
  os_wait :: "nat \<Rightarrow> (unit, io_error) result"

record net =
  net_time :: nat
  net_sent :: bytes
  net_received :: bytes

definition net_tick :: "net \<Rightarrow> net" where
  "net_tick n = n\<lparr> net_time := Suc (net_time n) \<rparr>"

definition net_read :: "os \<Rightarrow> net \<Rightarrow> (bytes, io_error) result \<times> net" where
  "net_read os n =
     (case os_read os (net_time n) of
        Err e \<Rightarrow> (Err e, net_tick n)
      | Ok bs \<Rightarrow> let bs = take 8192 bs in
          (Ok bs, (net_tick n)\<lparr> net_received := net_received n @ bs \<rparr>))"

definition net_write :: "os \<Rightarrow> bytes \<Rightarrow> net \<Rightarrow> (nat, io_error) result \<times> net" where
  "net_write os buf n =
     (case os_write os (net_time n) of
        Err e \<Rightarrow> (Err e, net_tick n)
      | Ok k \<Rightarrow> let k = min k (length buf) in
          (Ok k, (net_tick n)\<lparr> net_sent := net_sent n @ take k buf \<rparr>))"

definition net_wait :: "os \<Rightarrow> net \<Rightarrow> (unit, io_error) result \<times> net" where
  "net_wait os n = (os_wait os (net_time n), net_tick n)"

section \<open>The connection\<close>

datatype trace_record = TR_Sent frontend bytes | TR_Parsed bytes

record tracer =
  tr_flags :: u32
  tr_records :: "trace_record list"

text \<open>\<open>Peer\<close> of \<open>cancel.rs\<close>: a resolved TCP address (its printed form) or a socket path.\<close>

datatype peer = PeerTcp bytes | PeerUnix bytes

record connection =
  cn_net :: net
  cn_inbuf :: bytes
  cn_start :: nat
  cn_outbuf :: bytes
  cn_state :: pipeline_state
  cn_parameters :: "(bytes \<times> bytes) list"
  cn_backend_pid :: u32
  cn_cancel_key :: bytes
  cn_transaction_status :: transaction_status
  cn_notices :: "result_error list"
  cn_notifications :: "(u32 \<times> bytes \<times> bytes) list"
  cn_trace :: "tracer option"
  cn_raddr :: "peer option"
  cn_nonblocking :: bool

text \<open>A call on a connection. \<open>None\<close>: it does not return, or panics.\<close>

type_synonym 'a io = "connection \<Rightarrow> (('a, connection_error) result \<times> connection) option"

definition io_ok :: "'a \<Rightarrow> 'a io" where
  "io_ok x c = Some (Ok x, c)"

definition io_err :: "connection_error \<Rightarrow> 'a io" where
  "io_err e c = Some (Err e, c)"

text \<open>The \<^verbatim>\<open>?\<close> operator.\<close>

definition io_bind :: "'a io \<Rightarrow> ('a \<Rightarrow> 'b io) \<Rightarrow> 'b io" where
  "io_bind m f c =
     Option.bind (m c) (\<lambda>(r, c'). case r of Ok x \<Rightarrow> f x c' | Err e \<Rightarrow> Some (Err e, c'))"

lemma io_bind_mono [partial_function_mono]:
  assumes "mono_option (\<lambda>f. m f c)" and "\<And>x c'. mono_option (\<lambda>f. k f x c')"
  shows "mono_option (\<lambda>f. io_bind (m f) (k f) c)"
  unfolding io_bind_def
proof (rule bind_mono [OF assms(1)], goal_cases)
  case (1 y)
  then show ?case
    using assms(2) by (cases y; cases "fst y") (simp_all add: option.const_mono)
qed

text \<open>A step of the connection's pipeline state.\<close>

definition lift_state :: "('e \<Rightarrow> connection_error) \<Rightarrow> (pipeline_state \<Rightarrow> ('a, 'e) result \<times> pipeline_state) \<Rightarrow> 'a io" where
  "lift_state wrap f c =
     (case f (cn_state c) of (r, s) \<Rightarrow> Some (map_err wrap r, c\<lparr> cn_state := s \<rparr>))"

section \<open>Reading\<close>

text \<open>The retry loop around \<open>read\<close>: \<open>Ok None\<close> when the socket has nothing yet.\<close>

partial_function (option) read_chunk :: "os \<Rightarrow> net \<Rightarrow> ((bytes option, io_error) result \<times> net) option" where
  "read_chunk os n =
     (case net_read os n of (r, n') \<Rightarrow>
        (case r of
           Ok bs \<Rightarrow> Some (Ok (Some bs), n')
         | Err e \<Rightarrow> if e = Interrupted then read_chunk os n'
                    else if e = WouldBlock then Some (Ok None, n')
                    else Some (Err e, n')))"

definition compact :: "connection \<Rightarrow> connection" where
  "compact c =
     (if cn_start c > 0 then c\<lparr> cn_inbuf := drop (cn_start c) (cn_inbuf c), cn_start := 0 \<rparr> else c)"

definition read_data :: "os \<Rightarrow> bool io" where
  "read_data os c =
     (let c = compact c in
      Option.bind (read_chunk os (cn_net c)) (\<lambda>(r, n).
        let c = c\<lparr> cn_net := n \<rparr> in
        Some (case r of
                Err e \<Rightarrow> (Err (CE_Io e), c)
              | Ok None \<Rightarrow> (Ok False, c)
              | Ok (Some bs) \<Rightarrow>
                  if bs = [] then (Err ServerClosedConnection, c)
                  else (Ok True, c\<lparr> cn_inbuf := cn_inbuf c @ bs \<rparr>))))"

definition wait_socket :: "os \<Rightarrow> unit io" where
  "wait_socket os c =
     (case net_wait os (cn_net c) of (r, n) \<Rightarrow> Some (map_err CE_Io r, c\<lparr> cn_net := n \<rparr>))"

partial_function (option) read_more :: "os \<Rightarrow> unit io" where
  "read_more os c =
     io_bind (read_data os) (\<lambda>got c.
       if got then io_ok () c else io_bind (wait_socket os) (\<lambda>_. read_more os) c) c"

section \<open>Sending\<close>

datatype flushed = F_Done | F_Pending

text \<open>What one write comes to: the new count of sent bytes, a retry, or the end of the loop.\<close>

datatype written = W_Sent nat | W_Interrupted | W_Zero | W_Failed io_error

definition write_outcome :: "nat \<Rightarrow> (nat, io_error) result \<Rightarrow> written" where
  "write_outcome sent r =
     (case r of
        Ok k \<Rightarrow> if k = 0 then W_Zero else W_Sent (sent + k)
      | Err e \<Rightarrow> if e = WouldBlock then W_Sent sent
                 else if e = Interrupted then W_Interrupted else W_Failed e)"

text \<open>The loop of \<open>flush\<close>, with the count of the bytes sent; a failed write clears the output buffer.\<close>

partial_function (option) flush_loop ::
  "os \<Rightarrow> nat \<Rightarrow> connection \<Rightarrow> ((flushed, connection_error) result \<times> nat \<times> connection) option" where
  "flush_loop os sent c =
     (if sent = length (cn_outbuf c) then Some (Ok F_Done, sent, c)
      else case net_write os (drop sent (cn_outbuf c)) (cn_net c) of (r, n) \<Rightarrow>
        (case write_outcome sent r of
           W_Zero \<Rightarrow> Some (Err (CE_Io WriteZero), sent, c\<lparr> cn_net := n \<rparr>)
         | W_Interrupted \<Rightarrow> flush_loop os sent (c\<lparr> cn_net := n \<rparr>)
         | W_Failed e \<Rightarrow>
             Option.bind (read_data os (c\<lparr> cn_net := n, cn_outbuf := [] \<rparr>)) (\<lambda>(r, c).
               Some (case r of Err read \<Rightarrow> Err read | Ok _ \<Rightarrow> Err (CE_Io e), 0, c))
         | W_Sent sent \<Rightarrow>
             if sent = length (cn_outbuf c) then flush_loop os sent (c\<lparr> cn_net := n \<rparr>)
             else Option.bind (read_data os (c\<lparr> cn_net := n \<rparr>)) (\<lambda>(r, c).
               case r of
                 Err e \<Rightarrow> Some (Err e, sent, c)
               | Ok _ \<Rightarrow>
                   if cn_nonblocking c then Some (Ok F_Pending, sent, c)
                   else Option.bind (wait_socket os c) (\<lambda>(r, c).
                     case r of Err e \<Rightarrow> Some (Err e, sent, c) | Ok _ \<Rightarrow> flush_loop os sent c))))"

definition flush :: "os \<Rightarrow> flushed io" where
  "flush os c =
     Option.bind (flush_loop os 0 c) (\<lambda>(r, sent, c).
       Some (r, c\<lparr> cn_outbuf := drop sent (cn_outbuf c) \<rparr>))"

definition trace_sent :: "frontend \<Rightarrow> bytes \<Rightarrow> connection \<Rightarrow> connection" where
  "trace_sent m encoded c =
     (case cn_trace c of
        None \<Rightarrow> c
      | Some t \<Rightarrow> c\<lparr> cn_trace := Some (t\<lparr> tr_records := tr_records t @ [TR_Sent m encoded] \<rparr>) \<rparr>)"

definition put_message :: "frontend \<Rightarrow> unit io" where
  "put_message m c =
     Option.bind (encode m) (\<lambda>encoded.
       let c = trace_sent m encoded c in
       Some (Ok (), c\<lparr> cn_outbuf := cn_outbuf c @ encoded \<rparr>))"

definition send :: "os \<Rightarrow> frontend \<Rightarrow> unit io" where
  "send os m = io_bind (put_message m) (\<lambda>_. io_bind (flush os) (\<lambda>_. io_ok ()))"

definition terminate :: "os \<Rightarrow> unit io" where
  "terminate os = io_bind (put_message Terminate) (\<lambda>_. io_bind (flush os) (\<lambda>_. io_ok ()))"

section \<open>Parsing\<close>

definition unparsed :: "connection \<Rightarrow> bytes" where
  "unparsed c = drop (cn_start c) (cn_inbuf c)"

definition parse_frame :: "byte \<Rightarrow> nat \<Rightarrow> nat \<Rightarrow> connection \<Rightarrow> (backend, connection_error) result \<times> connection" where
  "parse_frame mid s e c =
     (let start = cn_start c in
      case decode mid (slice (cn_inbuf c) (start + s) (start + e)) of
        Err err \<Rightarrow> (Err (CE_Protocol err), c)
      | Ok message \<Rightarrow>
          let c = (case cn_trace c of
                     None \<Rightarrow> c
                   | Some t \<Rightarrow> c\<lparr> cn_trace := Some (t\<lparr> tr_records :=
                       tr_records t @ [TR_Parsed (slice (cn_inbuf c) start (start + e))] \<rparr>) \<rparr>);
              c = c\<lparr> cn_start := start + e \<rparr>
          in (Ok message,
              if cn_start c = length (cn_inbuf c) then c\<lparr> cn_inbuf := [], cn_start := 0 \<rparr> else c))"

definition take_event :: "event option \<Rightarrow> connection \<Rightarrow> connection" where
  "take_event ev c =
     (case ev of
        None \<Rightarrow> c
      | Some (Ev_Notice notice) \<Rightarrow> c\<lparr> cn_notices := cn_notices c @ [notice] \<rparr>
      | Some (Ev_Notification pid channel payload) \<Rightarrow>
          c\<lparr> cn_notifications := cn_notifications c @ [(pid, channel, payload)] \<rparr>
      | Some (Ev_ParameterStatus name v) \<Rightarrow> c\<lparr> cn_parameters := cn_parameters c @ [(name, v)] \<rparr>
      | Some (Ev_ReadyForQuery st) \<Rightarrow> c\<lparr> cn_transaction_status := st \<rparr>)"

text \<open>Apply a parsed message to the state and note its event.\<close>

definition apply_message :: "backend \<Rightarrow> connection \<Rightarrow> (unit, connection_error) result \<times> connection" where
  "apply_message m c =
     (case ps_apply m (cn_state c) of (r, s) \<Rightarrow>
        let c = c\<lparr> cn_state := s \<rparr> in
        (case r of Err e \<Rightarrow> (Err (CE_Protocol e), c) | Ok ev \<Rightarrow> (Ok (), take_event ev c)))"

section \<open>Frames of the input\<close>

lemma slice_drop: "slice (drop k xs) i j = slice xs (k + i) (k + j)"
  by (simp add: slice_def add.commute)

lemma unparsed_sel [simp]:
  "unparsed (c\<lparr> cn_net := n \<rparr>) = unparsed c" "unparsed (c\<lparr> cn_state := st \<rparr>) = unparsed c"
  "unparsed (c\<lparr> cn_outbuf := b \<rparr>) = unparsed c" "unparsed (c\<lparr> cn_trace := t \<rparr>) = unparsed c"
  "unparsed (c\<lparr> cn_notices := ns \<rparr>) = unparsed c" "unparsed (c\<lparr> cn_notifications := nf \<rparr>) = unparsed c"
  "unparsed (c\<lparr> cn_parameters := ps \<rparr>) = unparsed c"
  "unparsed (c\<lparr> cn_transaction_status := ts \<rparr>) = unparsed c"
  by (simp_all add: unparsed_def)

lemma unparsed_take_event [simp]: "unparsed (take_event ev c) = unparsed c"
  by (simp add: take_event_def split: option.split event.split)

lemma unparsed_apply_message [simp]: "unparsed (snd (apply_message m c)) = unparsed c"
  by (simp add: apply_message_def Let_def split: prod.split result.split)

lemma parse_frame_cases:
  assumes "next_frame (unparsed c) = Frame_Message mid s e"
  shows "\<exists>c'. parse_frame mid s e c = (map_err CE_Protocol (decode mid (slice (unparsed c) s e)), c') \<and>
    (if is_ok (decode mid (slice (unparsed c) s e)) then unparsed c' = drop e (unparsed c) else c' = c)"
proof -
  let ?d = "decode mid (slice (unparsed c) s e)"
  have d: "decode mid (slice (cn_inbuf c) (cn_start c + s) (cn_start c + e)) = ?d"
    by (simp add: unparsed_def slice_drop)
  have rest: "drop e (unparsed c) = drop (cn_start c + e) (cn_inbuf c)"
    by (simp add: unparsed_def add.commute)
  show ?thesis
  proof (cases ?d)
    case (Ok m)
    then show ?thesis
      by (cases "cn_trace c") (simp_all add: parse_frame_def d rest Let_def, simp_all add: unparsed_def)
  next
    case (Err err)
    then show ?thesis
      by (simp add: parse_frame_def d)
  qed
qed

lemma parse_frame_consumes:
  assumes "next_frame (unparsed c) = Frame_Message mid s e" and "parse_frame mid s e c = (Ok m, c')"
  shows "decode mid (slice (unparsed c) s e) = Ok m \<and> unparsed c' = drop e (unparsed c) \<and>
    length (unparsed c') < length (unparsed c)"
  using parse_frame_cases [OF assms(1)] assms(2) next_frame_bounds [OF assms(1)]
  by (cases "decode mid (slice (unparsed c) s e)") auto

function parse_input :: "connection \<Rightarrow> (unit, connection_error) result \<times> connection" where
  "parse_input c =
     (case next_frame (unparsed c) of
        Incomplete \<Rightarrow> (Ok (), c)
      | SyncLoss mid len \<Rightarrow> (Err (CE_Protocol (LostSynchronization mid len)), c)
      | Frame_Message mid s e \<Rightarrow>
          (case admit mid (cn_state c) of (a, st) \<Rightarrow>
             let c = c\<lparr> cn_state := st \<rparr> in
             if a = Wait then (Ok (), c)
             else
               (case parse_frame mid s e c of
                  (Err err, c) \<Rightarrow> (Err err, c)
                | (Ok m, c) \<Rightarrow>
                    (case apply_message m c of
                       (Err err, c) \<Rightarrow> (Err err, c)
                     | (Ok _, c) \<Rightarrow> parse_input c))))"
  by pat_completeness auto
termination
proof (relation "measure (\<lambda>c. length (unparsed c))", goal_cases)
  case (2 c mid s e a st c1 r c2 m rm c3 u)
  then show ?case
    using parse_frame_consumes [of c1 mid s e m c2] unparsed_apply_message [of m c2]
    by (simp, metis snd_conv)
qed simp

declare parse_input.simps [simp del]

definition parse_input_io :: "unit io" where
  "parse_input_io c = Some (parse_input c)"

partial_function (option) read_message :: "os \<Rightarrow> backend io" where
  "read_message os c =
     (case next_frame (unparsed c) of
        Frame_Message mid s e \<Rightarrow> Some (parse_frame mid s e c)
      | SyncLoss mid len \<Rightarrow> Some (Err (CE_Protocol (LostSynchronization mid len)), c)
      | Incomplete \<Rightarrow> io_bind (read_more os) (\<lambda>_. read_message os) c)"

section \<open>What a call leaves alone\<close>

text \<open>A connection without its socket and buffers.\<close>

definition session :: "connection \<Rightarrow> connection" where
  "session c = c\<lparr> cn_net := \<lparr> net_time = 0, net_sent = [], net_received = [] \<rparr>, cn_inbuf := [],
     cn_start := 0, cn_outbuf := [] \<rparr>"

lemma session_cong:
  assumes "session c' = session c"
  shows "cn_state c' = cn_state c" "cn_parameters c' = cn_parameters c" "cn_trace c' = cn_trace c"
    "cn_nonblocking c' = cn_nonblocking c" "cn_transaction_status c' = cn_transaction_status c"
    "cn_notices c' = cn_notices c" "cn_notifications c' = cn_notifications c"
    "cn_backend_pid c' = cn_backend_pid c" "cn_cancel_key c' = cn_cancel_key c" "cn_raddr c' = cn_raddr c"
  using assms by (cases c; cases c'; simp add: session_def)+

lemma session_sel [simp]:
  "session (c\<lparr> cn_net := n \<rparr>) = session c" "session (c\<lparr> cn_outbuf := b \<rparr>) = session c"
  "session (c\<lparr> cn_inbuf := b \<rparr>) = session c" "session (c\<lparr> cn_start := k \<rparr>) = session c"
  by (simp_all add: session_def)

text \<open>Between \<open>c\<close> and \<open>c'\<close> only bytes have moved: what was received is behind what was not yet parsed,
  and nothing but the buffers and the socket has changed.\<close>

definition only_moved :: "connection \<Rightarrow> connection \<Rightarrow> bool" where
  "only_moved c c' \<longleftrightarrow>
     (\<exists>new. net_received (cn_net c') = net_received (cn_net c) @ new \<and> unparsed c' = unparsed c @ new) \<and>
     net_time (cn_net c) \<le> net_time (cn_net c') \<and> session c' = session c"

lemma only_moved_refl [simp]: "only_moved c c"
  by (simp add: only_moved_def)

lemma only_moved_trans: "only_moved a b \<Longrightarrow> only_moved b c \<Longrightarrow> only_moved a c"
  unfolding only_moved_def by (auto simp: append_assoc)

text \<open>A call that only reads or waits.\<close>

definition only_reads :: "connection \<Rightarrow> connection \<Rightarrow> bool" where
  "only_reads c c' \<longleftrightarrow> only_moved c c' \<and> net_sent (cn_net c') = net_sent (cn_net c) \<and> cn_outbuf c' = cn_outbuf c"

lemma only_reads_refl [simp]: "only_reads c c"
  by (simp add: only_reads_def)

lemma only_reads_trans: "only_reads a b \<Longrightarrow> only_reads b c \<Longrightarrow> only_reads a c"
  using only_moved_trans by (auto simp: only_reads_def)

lemma net_read_sel:
  "net_read os n = (Ok bs, n') \<Longrightarrow> net_received n' = net_received n @ bs \<and> net_sent n' = net_sent n \<and> net_time n' = Suc (net_time n)"
  "net_read os n = (Err e, n') \<Longrightarrow> net_received n' = net_received n \<and> net_sent n' = net_sent n \<and> net_time n' = Suc (net_time n)"
  by (auto simp: net_read_def net_tick_def Let_def split: result.splits)

definition chunk_of :: "(bytes option, 'e) result \<Rightarrow> bytes" where
  "chunk_of r = (case r of Ok (Some bs) \<Rightarrow> bs | _ \<Rightarrow> [])"

lemma read_chunk_result:
  assumes "read_chunk os n = Some y"
  shows "net_received (snd y) = net_received n @ chunk_of (fst y) \<and> net_sent (snd y) = net_sent n \<and>
    net_time n < net_time (snd y)"
  using _ assms
proof (rule read_chunk.raw_induct)
  fix rc os n y
  assume IH: "\<And>os n y. rc os n = Some y \<Longrightarrow>
      net_received (snd y) = net_received n @ chunk_of (fst y) \<and> net_sent (snd y) = net_sent n \<and>
      net_time n < net_time (snd y)"
    and body: "(case net_read os n of (r, n') \<Rightarrow>
        (case r of
           Ok bs \<Rightarrow> Some (Ok (Some bs), n')
         | Err e \<Rightarrow> if e = Interrupted then rc os n'
                    else if e = WouldBlock then Some (Ok None, n') else Some (Err e, n'))) = Some y"
  obtain a m where a: "net_read os n = (a, m)"
    by (cases "net_read os n")
  show "net_received (snd y) = net_received n @ chunk_of (fst y) \<and> net_sent (snd y) = net_sent n \<and>
      net_time n < net_time (snd y)"
  proof (cases a)
    case (Ok bs)
    then show ?thesis
      using body net_read_sel(1) [of os n bs m] a by (auto simp: chunk_of_def)
  next
    case (Err e)
    then show ?thesis
      using body net_read_sel(2) [of os n e m] a IH [of os m y]
      by (auto simp: chunk_of_def split: if_splits)
  qed
qed

lemma compact_moves: "unparsed (compact c) = unparsed c" "session (compact c) = session c"
    "cn_net (compact c) = cn_net c" "cn_outbuf (compact c) = cn_outbuf c" "cn_start (compact c) = 0"
  by (simp_all add: compact_def unparsed_def)

lemma read_data_reads:
  assumes "read_data os c = Some (r, c')"
  shows "only_reads c c' \<and> net_time (cn_net c) < net_time (cn_net c') \<and>
    (r = Ok True \<longleftrightarrow> unparsed c' \<noteq> unparsed c)"
proof -
  obtain a n where n: "read_chunk os (cn_net c) = Some (a, n)"
    and r: "(r, c') = (let c = (compact c)\<lparr> cn_net := n \<rparr> in
        case a of
          Err e \<Rightarrow> (Err (CE_Io e), c)
        | Ok None \<Rightarrow> (Ok False, c)
        | Ok (Some bs) \<Rightarrow> if bs = [] then (Err ServerClosedConnection, c)
            else (Ok True, c\<lparr> cn_inbuf := cn_inbuf c @ bs \<rparr>))"
    using assms by (auto simp: read_data_def compact_moves Let_def bind_eq_Some_conv)
  have grown: "unparsed ((compact c)\<lparr> cn_net := n, cn_inbuf := cn_inbuf (compact c) @ bs \<rparr>) = unparsed c @ bs" for bs
    by (auto simp: compact_def unparsed_def)
  note res = read_chunk_result [OF n]
  consider e where "a = Err e" | "a = Ok None" | "a = Ok (Some [])" | b bs where "a = Ok (Some (b # bs))"
    by (metis result.exhaust option.exhaust list.exhaust)
  then show ?thesis
    using r res grown
    by cases (auto simp: only_reads_def only_moved_def compact_moves chunk_of_def Let_def)
qed

lemma wait_socket_reads:
  assumes "wait_socket os c = Some (r, c')"
  shows "only_reads c c' \<and> net_time (cn_net c) < net_time (cn_net c') \<and> unparsed c' = unparsed c"
  using assms by (auto simp: wait_socket_def net_wait_def net_tick_def only_reads_def only_moved_def)

lemma net_write_sel:
  "net_write os buf n = (Ok k, n') \<Longrightarrow> k \<le> length buf \<and> net_sent n' = net_sent n @ take k buf \<and>
     net_received n' = net_received n \<and> net_time n' = Suc (net_time n)"
  "net_write os buf n = (Err e, n') \<Longrightarrow> net_sent n' = net_sent n \<and> net_received n' = net_received n \<and>
     net_time n' = Suc (net_time n)"
  by (auto simp: net_write_def net_tick_def Let_def split: result.splits)

lemma slice_append:
  assumes "i \<le> j" "j \<le> k"
  shows "slice xs i j @ slice xs j k = slice xs i k"
proof -
  have "k - i = (j - i) + (k - j)" "drop (j - i) (drop i xs) = drop j xs"
    using assms by auto
  then show ?thesis
    by (simp only: slice_def take_add)
qed

section \<open>Flushing\<close>

text \<open>A run of the flush loop from \<open>sent\<close> on: either the buffer is kept and exactly its bytes from \<open>sent\<close> to
  the new count have gone out, or a write has failed after some of them and the buffer is dropped.\<close>

definition kept :: "connection \<Rightarrow> nat \<Rightarrow> nat \<Rightarrow> connection \<Rightarrow> bool" where
  "kept c sent sent' c' \<longleftrightarrow>
     cn_outbuf c' = cn_outbuf c \<and> sent \<le> sent' \<and> sent' \<le> length (cn_outbuf c) \<and>
     net_sent (cn_net c') = net_sent (cn_net c) @ slice (cn_outbuf c) sent sent'"

definition dropped :: "connection \<Rightarrow> nat \<Rightarrow> connection \<Rightarrow> bool" where
  "dropped c sent c' \<longleftrightarrow>
     cn_outbuf c' = [] \<and>
     (\<exists>k. sent \<le> k \<and> k \<le> length (cn_outbuf c) \<and>
        net_sent (cn_net c') = net_sent (cn_net c) @ slice (cn_outbuf c) sent k)"

definition flush_spec ::
  "connection \<Rightarrow> nat \<Rightarrow> (flushed, connection_error) result \<times> nat \<times> connection \<Rightarrow> bool" where
  "flush_spec c sent y \<longleftrightarrow>
     (case y of (r, sent', c') \<Rightarrow>
        only_moved c c' \<and>
        (kept c sent sent' c' \<and>
           (r = Ok F_Done \<longrightarrow> sent' = length (cn_outbuf c)) \<and> (r = Ok F_Pending \<longrightarrow> cn_nonblocking c) \<or>
         \<not> is_ok r \<and> sent' = 0 \<and> dropped c sent c'))"

lemma flush_spec_step:
  assumes "only_moved c c1" and "kept c sent sent1 c1" and "flush_spec c1 sent1 y"
  shows "flush_spec c sent y"
proof -
  obtain r sent' c' where y: "y = (r, sent', c')"
    by (cases y)
  have "cn_nonblocking c1 = cn_nonblocking c"
    using assms(1) session_cong(4) [of c1 c] by (simp add: only_moved_def)
  moreover have "only_moved c c'"
    using assms(1,3) only_moved_trans [of c c1 c'] by (simp add: flush_spec_def y)
  moreover have "kept c1 sent1 sent' c' \<Longrightarrow> kept c sent sent' c'"
    using assms(2) slice_append [of sent sent1 sent' "cn_outbuf c"] by (auto simp: kept_def)
  moreover have "dropped c1 sent1 c' \<Longrightarrow> dropped c sent c'"
    using assms(2) slice_append [of sent sent1 _ "cn_outbuf c"]
    unfolding kept_def dropped_def by (metis append_assoc le_trans)
  moreover have "cn_outbuf c1 = cn_outbuf c"
    using assms(2) by (simp add: kept_def)
  ultimately show ?thesis
    using assms(3) unfolding flush_spec_def y prod.case by metis
qed

lemma kept_refl: "sent \<le> length (cn_outbuf c) \<Longrightarrow> kept c sent sent c"
  by (simp add: kept_def slice_def)

lemma kept_reads: "kept c sent sent1 c1 \<Longrightarrow> only_reads c1 c2 \<Longrightarrow> kept c sent sent1 c2"
  by (auto simp: kept_def only_reads_def)

lemma flush_spec_stop: "only_moved c c1 \<Longrightarrow> kept c sent s1 c1 \<Longrightarrow> flush_spec c sent (Err e, s1, c1)"
  by (simp add: flush_spec_def)

lemma only_reads_moved: "only_reads c c' \<Longrightarrow> only_moved c c'"
  by (simp add: only_reads_def)

text \<open>What follows a write that did not send everything, for any continuation that meets the
  specification.\<close>

lemma flush_spec_rest:
  assumes moved: "only_moved c c0" and sent: "kept c sent s1 c0"
    and IH: "\<And>c' y. fl c' = Some y \<Longrightarrow> s1 \<le> length (cn_outbuf c') \<Longrightarrow> flush_spec c' s1 y"
    and body: "Option.bind (read_data os c0) (\<lambda>(r, c).
        case r of
          Ok _ \<Rightarrow>
            if cn_nonblocking c then Some (Ok F_Pending, s1, c)
            else Option.bind (wait_socket os c) (\<lambda>(r, c).
              case r of Ok _ \<Rightarrow> fl c | Err e \<Rightarrow> Some (Err e, s1, c))
        | Err e \<Rightarrow> Some (Err e, s1, c)) = Some y"
  shows "flush_spec c sent y"
proof -
  obtain r1 c1 where rd: "read_data os c0 = Some (r1, c1)"
    using body by (auto simp: bind_eq_Some_conv)
  note reads = read_data_reads [OF rd, THEN conjunct1]
  have c1: "only_moved c c1" "kept c sent s1 c1"
    using only_moved_trans [OF moved only_reads_moved [OF reads]] kept_reads [OF sent reads] by blast+
  show ?thesis
  proof (cases r1)
    case (Err e)
    then show ?thesis
      using body rd c1 flush_spec_stop by auto
  next
    case (Ok b)
    show ?thesis
    proof (cases "cn_nonblocking c1")
      case True
      then have "cn_nonblocking c"
        using c1(1) session_cong(4) [of c1 c] by (simp add: only_moved_def)
      then show ?thesis
        using body rd Ok True c1 by (auto simp: flush_spec_def)
    next
      case False
      obtain r2 c2 where wt: "wait_socket os c1 = Some (r2, c2)"
        using body rd Ok False by (auto simp: bind_eq_Some_conv)
      note reads2 = wait_socket_reads [OF wt, THEN conjunct1]
      have c2: "only_moved c c2" "kept c sent s1 c2"
        using only_moved_trans [OF c1(1) only_reads_moved [OF reads2]] kept_reads [OF c1(2) reads2] by blast+
      show ?thesis
      proof (cases r2)
        case (Err e)
        then show ?thesis
          using body rd wt Ok False c2 flush_spec_stop by auto
      next
        case (Ok u)
        then have "fl c2 = Some y"
          using body rd wt \<open>r1 = Ok b\<close> False by simp
        moreover have "s1 \<le> length (cn_outbuf c2)"
          using c2(2) by (simp add: kept_def)
        ultimately show ?thesis
          by (intro flush_spec_step [OF c2] IH)
      qed
    qed
  qed
qed

lemma flush_loop_result:
  assumes "flush_loop os sent c = Some y" and "sent \<le> length (cn_outbuf c)"
  shows "flush_spec c sent y"
proof -
  have "sent \<le> length (cn_outbuf c) \<longrightarrow> flush_spec c sent y"
    using _ assms(1)
  proof (rule flush_loop.raw_induct [where P = "\<lambda>os sent c y. sent \<le> length (cn_outbuf c) \<longrightarrow> flush_spec c sent y"],
      intro impI)
    fix fl os sent c y
    assume IH: "\<And>os sent c y. fl os sent c = Some y \<Longrightarrow> sent \<le> length (cn_outbuf c) \<longrightarrow> flush_spec c sent y"
      and body: "(if sent = length (cn_outbuf c) then Some (Ok F_Done, sent, c)
      else case net_write os (drop sent (cn_outbuf c)) (cn_net c) of (r, n) \<Rightarrow>
        (case write_outcome sent r of
           W_Sent sent \<Rightarrow>
             if sent = length (cn_outbuf c) then fl os sent (c\<lparr> cn_net := n \<rparr>)
             else Option.bind (read_data os (c\<lparr> cn_net := n \<rparr>)) (\<lambda>(r, c).
               case r of
                 Ok _ \<Rightarrow>
                   if cn_nonblocking c then Some (Ok F_Pending, sent, c)
                   else Option.bind (wait_socket os c) (\<lambda>(r, c).
                     case r of Ok _ \<Rightarrow> fl os sent c | Err e \<Rightarrow> Some (Err e, sent, c))
               | Err e \<Rightarrow> Some (Err e, sent, c))
         | W_Interrupted \<Rightarrow> fl os sent (c\<lparr> cn_net := n \<rparr>)
         | W_Zero \<Rightarrow> Some (Err (CE_Io WriteZero), sent, c\<lparr> cn_net := n \<rparr>)
         | W_Failed e \<Rightarrow>
             Option.bind (read_data os (c\<lparr> cn_net := n, cn_outbuf := [] \<rparr>)) (\<lambda>(r, c).
               Some (case r of Ok _ \<Rightarrow> Err (CE_Io e) | Err read \<Rightarrow> Err read, 0, c)))) = Some y"
      and le: "sent \<le> length (cn_outbuf c)"
    obtain r n where w: "net_write os (drop sent (cn_outbuf c)) (cn_net c) = (r, n)"
      by fastforce
    let ?c = "c\<lparr> cn_net := n \<rparr>"
    have moved: "only_moved c ?c" and sent: "kept c sent (case r of Ok k \<Rightarrow> sent + k | Err _ \<Rightarrow> sent) ?c"
      using net_write_sel [of os "drop sent (cn_outbuf c)" "cn_net c" _ n] w le
      by (cases r; simp add: only_moved_def kept_def slice_def)+
    show "flush_spec c sent y"
    proof (cases "sent = length (cn_outbuf c)")
      case True
      then show ?thesis
        using body by (auto simp: flush_spec_def kept_refl)
    next
      case False
      show ?thesis
      proof (cases "write_outcome sent r")
        case (W_Sent s1)
        then have s1: "kept c sent s1 ?c"
          using sent by (simp add: write_outcome_def split: result.splits if_splits)
        show ?thesis
        proof (cases "s1 = length (cn_outbuf c)")
          case True
          then have "flush_spec ?c s1 y"
            using body \<open>sent \<noteq> length (cn_outbuf c)\<close> w W_Sent IH by simp
          then show ?thesis
            by (rule flush_spec_step [OF moved s1])
        next
          case False
          show ?thesis
            using flush_spec_rest [OF moved s1, of "fl os s1" os y] IH body \<open>sent \<noteq> length (cn_outbuf c)\<close> w W_Sent False
            by simp
        qed
      next
        case W_Interrupted
        then have s1: "kept c sent sent ?c" and "fl os sent ?c = Some y"
          using sent body False w by (auto simp: write_outcome_def split: result.splits if_splits)
        then show ?thesis
          using IH le flush_spec_step [OF moved s1] by simp
      next
        case W_Zero
        then have "kept c sent sent ?c" and "y = (Err (CE_Io WriteZero), sent, ?c)"
          using sent body False w by (auto simp: write_outcome_def split: result.splits if_splits)
        then show ?thesis
          using moved flush_spec_stop by blast
      next
        case (W_Failed e)
        then have s1: "kept c sent sent ?c"
          using sent by (auto simp: write_outcome_def split: result.splits if_splits)
        obtain r1 c1 where rd: "read_data os (?c\<lparr> cn_outbuf := [] \<rparr>) = Some (r1, c1)"
          and y: "y = (case r1 of Ok _ \<Rightarrow> Err (CE_Io e) | Err rd \<Rightarrow> Err rd, 0, c1)"
          using body False w W_Failed by (auto simp: bind_eq_Some_conv)
        have "only_moved c (?c\<lparr> cn_outbuf := [] \<rparr>)"
          using moved by (simp add: only_moved_def)
        then have "only_moved c c1"
          using read_data_reads [OF rd] only_moved_trans only_reads_moved by blast
        moreover have "dropped c sent c1"
          using read_data_reads [OF rd] s1 le by (auto simp: dropped_def only_reads_def kept_def)
        ultimately show ?thesis
          by (simp add: flush_spec_def y split: result.split)
      qed
    qed
  qed
  with assms(2) show ?thesis by blast
qed

lemma flush_result:
  assumes "flush os c = Some (r, c')"
  shows "only_moved c c' \<and>
    (case r of
       Ok F_Done \<Rightarrow> cn_outbuf c' = [] \<and> net_sent (cn_net c') = net_sent (cn_net c) @ cn_outbuf c
     | Ok F_Pending \<Rightarrow> cn_nonblocking c \<and>
         net_sent (cn_net c') @ cn_outbuf c' = net_sent (cn_net c) @ cn_outbuf c
     | Err _ \<Rightarrow> \<exists>k. net_sent (cn_net c') = net_sent (cn_net c) @ take k (cn_outbuf c) \<and>
         (cn_outbuf c' = drop k (cn_outbuf c) \<or> cn_outbuf c' = []))"
proof -
  obtain sent c1 where l: "flush_loop os 0 c = Some (r, sent, c1)"
    and c': "c' = c1\<lparr> cn_outbuf := drop sent (cn_outbuf c1) \<rparr>"
    using assms by (auto simp: flush_def bind_eq_Some_conv)
  have spec: "flush_spec c 0 (r, sent, c1)"
    using flush_loop_result [OF l] by simp
  then have "only_moved c c'"
    by (auto simp: flush_spec_def c' only_moved_def)
  moreover have "case r of
       Ok F_Done \<Rightarrow> cn_outbuf c' = [] \<and> net_sent (cn_net c') = net_sent (cn_net c) @ cn_outbuf c
     | Ok F_Pending \<Rightarrow> cn_nonblocking c \<and>
         net_sent (cn_net c') @ cn_outbuf c' = net_sent (cn_net c) @ cn_outbuf c
     | Err _ \<Rightarrow> \<exists>k. net_sent (cn_net c') = net_sent (cn_net c) @ take k (cn_outbuf c) \<and>
         (cn_outbuf c' = drop k (cn_outbuf c) \<or> cn_outbuf c' = [])"
    using spec
    by (cases r; cases "r = Ok F_Done")
      (auto simp: flush_spec_def kept_def dropped_def c' slice_def split: flushed.splits)
  ultimately show ?thesis ..
qed

section \<open>A socket that lets a call end\<close>

text \<open>From the time \<open>T\<close> on the socket no longer answers reads and writes with a request to retry.\<close>

definition settles :: "os \<Rightarrow> nat \<Rightarrow> bool" where
  "settles os T \<longleftrightarrow>
     (\<forall>t\<ge>T. os_read os t \<noteq> Err Interrupted \<and> os_write os t \<noteq> Err Interrupted \<and> os_write os t \<noteq> Err WouldBlock)"

lemma read_chunk_returns:
  assumes "settles os T"
  shows "\<exists>y. read_chunk os n = Some y"
proof (induction "T - net_time n" arbitrary: n rule: less_induct)
  case less
  obtain r n' where r: "net_read os n = (r, n')"
    by fastforce
  show ?case
  proof (cases "r = Err Interrupted")
    case True
    then have "os_read os (net_time n) = Err Interrupted" "net_time n' = Suc (net_time n)"
      using r by (auto simp: net_read_def net_tick_def Let_def split: result.splits)
    then have "net_time n < T"
      using assms unfolding settles_def by (meson not_le_imp_less)
    then have "\<exists>y. read_chunk os n' = Some y"
      using \<open>net_time n' = Suc (net_time n)\<close> by (intro less) simp
    then show ?thesis
      using r True by (simp add: read_chunk.simps [of os n])
  next
    case False
    then show ?thesis
      using r by (cases r) (auto simp: read_chunk.simps [of os n])
  qed
qed

lemma read_data_returns: "settles os T \<Longrightarrow> \<exists>r c'. read_data os c = Some (r, c')"
  using read_chunk_returns [of os T "cn_net c"]
  by (auto simp: read_data_def compact_moves Let_def split: result.splits option.splits)

lemma wait_socket_returns: "\<exists>r c'. wait_socket os c = Some (r, c')"
  by (simp add: wait_socket_def net_wait_def)

lemma settles_write:
  assumes "settles os T" and "os_write os t = Err e" and "e = Interrupted \<or> e = WouldBlock"
  shows "t < T"
  using assms unfolding settles_def by (metis not_le_imp_less)

lemma net_write_Err: "net_write os buf n = (Err e, n') \<Longrightarrow> os_write os (net_time n) = Err e"
  by (auto simp: net_write_def Let_def split: result.splits)

lemma write_progress:
  assumes "settles os T" and "net_write os buf n = (r, n')" and "write_outcome sent r = W_Sent s1"
  shows "net_time n < T \<or> sent < s1"
proof (cases r)
  case (Err e)
  then have "e = WouldBlock" "os_write os (net_time n) = Err e"
    using assms(2,3) net_write_Err [of os buf n e n'] by (auto simp: write_outcome_def split: if_splits)
  then show ?thesis
    using settles_write [OF assms(1)] by blast
qed (use assms(3) in \<open>auto simp: write_outcome_def split: if_splits\<close>)

lemma write_again:
  assumes "settles os T" and "net_write os buf n = (r, n')" and "write_outcome sent r = W_Interrupted"
  shows "net_time n < T"
proof -
  have "r = Err Interrupted"
    using assms(3) by (auto simp: write_outcome_def split: result.splits if_splits)
  then show ?thesis
    using assms(2) net_write_Err settles_write [OF assms(1)] by blast
qed

lemma flush_loop_returns:
  assumes "settles os T"
  shows "\<exists>y. flush_loop os sent c = Some y"
proof (induction "T - net_time (cn_net c) + (length (cn_outbuf c) - sent)" arbitrary: sent c rule: less_induct)
  case less
  obtain r n where w: "net_write os (drop sent (cn_outbuf c)) (cn_net c) = (r, n)"
    by fastforce
  have t: "net_time n = Suc (net_time (cn_net c))"
    using net_write_sel w by (cases r) auto
  have rd: "\<exists>r c'. read_data os c = Some (r, c')" for c
    using assms by (rule read_data_returns)
  show ?case
  proof (cases "sent = length (cn_outbuf c)")
    case True
    then show ?thesis by (simp add: flush_loop.simps)
  next
    case False
    show ?thesis
    proof (cases "write_outcome sent r")
      case (W_Sent s1)
      have s1: "net_time (cn_net c) < T \<or> sent < s1"
        using assms w W_Sent by (rule write_progress)
      have room: "sent < s1 \<longrightarrow> sent < length (cn_outbuf c)" "sent \<le> s1"
        using W_Sent net_write_sel(1) [of os "drop sent (cn_outbuf c)" "cn_net c" _ n] w
        by (auto simp: write_outcome_def split: result.splits if_splits)
      have again: "\<exists>y. flush_loop os s1 c' = Some y"
        if "cn_outbuf c' = cn_outbuf c" "net_time (cn_net c) < net_time (cn_net c')" for c'
        using s1 room that by (intro less) auto
      show ?thesis
      proof (cases "s1 = length (cn_outbuf c)")
        case True
        then show ?thesis
          using again [of "c\<lparr> cn_net := n \<rparr>"] t False w W_Sent by (simp add: flush_loop.simps [of os sent c])
      next
        case more: False
        obtain r1 c1 where rd1: "read_data os (c\<lparr> cn_net := n \<rparr>) = Some (r1, c1)"
          using rd by blast
        obtain r2 c2 where wt: "wait_socket os c1 = Some (r2, c2)"
          using wait_socket_returns by blast
        have "\<exists>y. flush_loop os s1 c2 = Some y"
          using read_data_reads [OF rd1] wait_socket_reads [OF wt] t
          by (intro again) (auto simp: only_reads_def)
        then show ?thesis
          using False more w W_Sent rd1 wt
          by (auto simp: flush_loop.simps [of os sent c] split: result.split)
      qed
    next
      case W_Interrupted
      then have "\<exists>y. flush_loop os sent (c\<lparr> cn_net := n \<rparr>) = Some y"
        using write_again [OF assms w W_Interrupted] t by (intro less) auto
      then show ?thesis
        using False w W_Interrupted by (simp add: flush_loop.simps [of os sent c])
    next
      case W_Zero
      then show ?thesis
        using False w by (simp add: flush_loop.simps [of os sent c])
    next
      case (W_Failed e)
      then show ?thesis
        using False w rd [of "c\<lparr> cn_net := n, cn_outbuf := [] \<rparr>"]
        by (auto simp: flush_loop.simps [of os sent c])
    qed
  qed
qed

text \<open>A socket on which no call fails and which the server does not close.\<close>

definition obliging :: "os \<Rightarrow> bool" where
  "obliging os \<longleftrightarrow>
     (\<forall>t. (case os_read os t of Ok bs \<Rightarrow> bs \<noteq> [] | Err e \<Rightarrow> e = Interrupted \<or> e = WouldBlock) \<and>
          (case os_write os t of Ok k \<Rightarrow> k > 0 | Err e \<Rightarrow> e = Interrupted \<or> e = WouldBlock) \<and>
          os_wait os t = Ok ())"

lemma read_chunk_obliging:
  assumes "read_chunk os n = Some y"
  shows "obliging os \<longrightarrow> fst y = Ok None \<or> (\<exists>b bs. fst y = Ok (Some (b # bs)))"
  using _ assms
proof (rule read_chunk.raw_induct)
  fix rc os n y
  assume IH: "\<And>os n y. rc os n = Some y \<Longrightarrow>
      obliging os \<longrightarrow> fst y = Ok None \<or> (\<exists>b bs. fst y = Ok (Some (b # bs)))"
    and body: "(case net_read os n of (r, n') \<Rightarrow>
        (case r of
           Ok bs \<Rightarrow> Some (Ok (Some bs), n')
         | Err e \<Rightarrow> if e = Interrupted then rc os n'
                    else if e = WouldBlock then Some (Ok None, n') else Some (Err e, n'))) = Some y"
  show "obliging os \<longrightarrow> fst y = Ok None \<or> (\<exists>b bs. fst y = Ok (Some (b # bs)))"
  proof
    assume ob: "obliging os"
    show "fst y = Ok None \<or> (\<exists>b bs. fst y = Ok (Some (b # bs)))"
    proof (cases "os_read os (net_time n)")
      case (Ok bs)
      then obtain b bs' where "bs = b # bs'"
        using ob by (cases bs) (auto simp: obliging_def dest: spec [of _ "net_time n"])
      then show ?thesis
        using body Ok by (auto simp: net_read_def Let_def)
    next
      case (Err e)
      then have "e = Interrupted \<or> e = WouldBlock"
        using ob by (auto simp: obliging_def dest: spec [of _ "net_time n"])
      then show ?thesis
        using body Err ob IH [of os _ y] by (auto simp: net_read_def split: if_splits)
    qed
  qed
qed

lemma read_data_obliging:
  assumes "obliging os" and "read_data os c = Some (r, c')"
  shows "is_ok r"
proof -
  obtain a n where n: "read_chunk os (cn_net c) = Some (a, n)"
    using assms(2) by (auto simp: read_data_def compact_moves Let_def bind_eq_Some_conv)
  then show ?thesis
    using read_chunk_obliging [OF n] assms by (auto simp: read_data_def compact_moves Let_def)
qed

lemma write_obliging:
  assumes "obliging os" and "net_write os buf n = (r, n')" and "buf \<noteq> []"
  shows "write_outcome sent r = W_Interrupted \<or> (\<exists>s1. write_outcome sent r = W_Sent s1)"
proof (cases "os_write os (net_time n)")
  case (Ok k)
  then have "k > 0"
    using assms(1) by (auto simp: obliging_def dest: spec [of _ "net_time n"])
  then show ?thesis
    using assms(2,3) Ok by (auto simp: net_write_def write_outcome_def Let_def)
next
  case (Err e)
  then have "e = Interrupted \<or> e = WouldBlock"
    using assms(1) by (auto simp: obliging_def dest: spec [of _ "net_time n"])
  moreover have "r = Err e"
    using assms(2) Err by (simp add: net_write_def)
  ultimately show ?thesis
    by (auto simp: write_outcome_def)
qed

lemma flush_loop_obliging:
  assumes ob: "obliging os" and "settles os T" and "\<not> cn_nonblocking c" and "sent \<le> length (cn_outbuf c)"
  shows "\<exists>k c'. flush_loop os sent c = Some (Ok F_Done, k, c')"
  using assms(3,4)
proof (induction "T - net_time (cn_net c) + (length (cn_outbuf c) - sent)" arbitrary: sent c rule: less_induct)
  case less
  obtain r n where w: "net_write os (drop sent (cn_outbuf c)) (cn_net c) = (r, n)"
    by fastforce
  have t: "net_time n = Suc (net_time (cn_net c))"
    using net_write_sel w by (cases r) auto
  show ?case
  proof (cases "sent = length (cn_outbuf c)")
    case True
    then show ?thesis by (simp add: flush_loop.simps)
  next
    case False
    then have "drop sent (cn_outbuf c) \<noteq> []"
      using less.prems(2) by simp
    from write_obliging [OF ob w this, of sent] show ?thesis
    proof
      assume intr: "write_outcome sent r = W_Interrupted"
      then have "\<exists>k c'. flush_loop os sent (c\<lparr> cn_net := n \<rparr>) = Some (Ok F_Done, k, c')"
        using write_again [OF assms(2) w intr] t less.prems by (intro less.hyps) auto
      then show ?thesis
        using False w intr by (simp add: flush_loop.simps [of os sent c])
    next
      assume "\<exists>s1. write_outcome sent r = W_Sent s1"
      then obtain s1 where W_Sent: "write_outcome sent r = W_Sent s1" by blast
      have s1: "net_time (cn_net c) < T \<or> sent < s1"
        using assms(2) w W_Sent by (rule write_progress)
      have room: "sent \<le> s1" "s1 \<le> length (cn_outbuf c)"
        using W_Sent net_write_sel(1) [of os "drop sent (cn_outbuf c)" "cn_net c" _ n] w less.prems(2)
        by (auto simp: write_outcome_def split: result.splits if_splits)
      have again: "\<exists>k c''. flush_loop os s1 c' = Some (Ok F_Done, k, c'')"
        if "cn_outbuf c' = cn_outbuf c" "net_time (cn_net c) < net_time (cn_net c')" "\<not> cn_nonblocking c'" for c'
        using s1 room that False less.prems(2) by (intro less.hyps) auto
      show ?thesis
      proof (cases "s1 = length (cn_outbuf c)")
        case True
        then show ?thesis
          using again [of "c\<lparr> cn_net := n \<rparr>"] t False w W_Sent less.prems(1)
          by (simp add: flush_loop.simps [of os sent c])
      next
        case more: False
        obtain r1 c1 where rd1: "read_data os (c\<lparr> cn_net := n \<rparr>) = Some (r1, c1)"
          using read_data_returns [OF assms(2)] by blast
        obtain b where b: "r1 = Ok b"
          using read_data_obliging [OF ob rd1] by (cases r1) auto
        obtain c2 where wt: "wait_socket os c1 = Some (Ok (), c2)"
          using ob by (simp add: wait_socket_def net_wait_def obliging_def)
        have "session c1 = session c" "session c2 = session c"
          using read_data_reads [OF rd1] wait_socket_reads [OF wt] by (auto simp: only_reads_def only_moved_def)
        then have nb: "\<not> cn_nonblocking c1" "\<not> cn_nonblocking c2"
          using less.prems(1) session_cong(4) by metis+
        have "\<exists>k c''. flush_loop os s1 c2 = Some (Ok F_Done, k, c'')"
          using read_data_reads [OF rd1] wait_socket_reads [OF wt] t nb
          by (intro again) (auto simp: only_reads_def)
        then show ?thesis
          using False more w W_Sent rd1 wt b nb by (auto simp: flush_loop.simps [of os sent c])
      qed
    qed
  qed
qed

lemma flush_loop_flush: "flush_loop os 0 c = Some (r, k, c') \<Longrightarrow> \<exists>c''. flush os c = Some (r, c'')"
  by (simp add: flush_def)

text \<open>A server that accepts three bytes at a time after two interruptions and says \<open>Z\<close> forever.\<close>

definition demo_os :: os where
  "demo_os = \<lparr> os_read = (\<lambda>t. Ok [90]), os_write = (\<lambda>t. if t < 2 then Err Interrupted else Ok 3),
     os_wait = (\<lambda>t. Ok ()) \<rparr>"

definition fresh_net :: "nat \<Rightarrow> net" where
  "fresh_net t = \<lparr> net_time = t, net_sent = [], net_received = [] \<rparr>"

definition demo_connection :: connection where
  "demo_connection =
     \<lparr> cn_net = fresh_net 0, cn_inbuf = [], cn_start = 0, cn_outbuf = [1, 2, 3, 4, 5], cn_state = PipelineState_new,
       cn_parameters = [], cn_backend_pid = 0, cn_cancel_key = [], cn_transaction_status = UnknownStatus,
       cn_notices = [], cn_notifications = [], cn_trace = None, cn_raddr = None, cn_nonblocking = False \<rparr>"

lemma demo_os_settles: "settles demo_os 2" "obliging demo_os"
  by (auto simp: settles_def obliging_def demo_os_def)

section \<open>Properties of the output\<close>

text \<open>Flushing sends the output buffer, whatever the socket does: when it reports that it is done, exactly
  the buffered bytes have gone out, in order; when it reports that some are pending, which only a
  non-blocking connection does, what went out and what is still buffered are together those bytes;
  when it fails, a prefix of them went out and the rest is kept or, after a failed write, dropped.
  Nothing is sent twice or out of order. What was received meanwhile is behind the input not yet
  parsed, and no other part of the connection changes.\<close>

lemma flush_exact:
  assumes "flush os c = Some (r, c')"
  shows "only_moved c c' \<and>
    (case r of
       Ok F_Done \<Rightarrow> cn_outbuf c' = [] \<and> net_sent (cn_net c') = net_sent (cn_net c) @ cn_outbuf c
     | Ok F_Pending \<Rightarrow> cn_nonblocking c \<and>
         net_sent (cn_net c') @ cn_outbuf c' = net_sent (cn_net c) @ cn_outbuf c
     | Err _ \<Rightarrow> \<exists>k. net_sent (cn_net c') = net_sent (cn_net c) @ take k (cn_outbuf c) \<and>
         (cn_outbuf c' = drop k (cn_outbuf c) \<or> cn_outbuf c' = []))"
  using assms by (rule flush_result)

text \<open>Flushing returns as soon as the socket stops asking for retries: if from some time on no read or
  write is answered by an interruption and no write by a request to wait, then a flush of any
  connection at any time comes to an end. If moreover no call fails and the server does not close the
  connection, a flush of a blocking connection ends with all of the output sent.\<close>

lemma flush_returns:
  assumes "settles os T"
  shows "(\<exists>r c'. flush os c = Some (r, c')) \<and>
    (obliging os \<and> \<not> cn_nonblocking c \<longrightarrow>
      (\<exists>c'. flush os c = Some (Ok F_Done, c') \<and> cn_outbuf c' = [] \<and>
        net_sent (cn_net c') = net_sent (cn_net c) @ cn_outbuf c))"
proof -
  obtain r sent c' where "flush_loop os 0 c = Some (r, sent, c')"
    using flush_loop_returns [OF assms] by (metis prod_cases3)
  moreover have "\<exists>c'. flush os c = Some (Ok F_Done, c')" if "obliging os" "\<not> cn_nonblocking c"
    using flush_loop_obliging [OF that(1) assms that(2), of 0] flush_loop_flush by blast
  ultimately show ?thesis
    using flush_loop_flush flush_result [of os c "Ok F_Done"] by fastforce
qed

end
