(* ===== verification/Session.thy ===== *)
theory Session
  imports Connection
begin

text \<open>
  The calls of \<open>crates/rlibpq/src/connection.rs\<close> that a client makes on an open connection: sending
  commands, collecting results, copying, the pipeline mode, the fast-path function call, tracing, and the
  accessors.

  Shown: parsing does not depend on how the input arrives; a command puts exactly its own messages on the
  wire.
\<close>

section \<open>Results\<close>

text \<open>The loop \<^verbatim>\<open>while self.flush()? == Flush::Pending { self.stream.wait(false, true)?; }\<close>.\<close>

partial_function (option) flush_all :: "os \<Rightarrow> unit io" where
  "flush_all os c =
     io_bind (flush os) (\<lambda>f c.
       if f = F_Pending then io_bind (wait_socket os) (\<lambda>_. flush_all os) c else io_ok () c) c"

partial_function (option) get_result_loop :: "os \<Rightarrow> query_result option io" where
  "get_result_loop os c =
     (case next_result (cn_state c) of (nx, st) \<Rightarrow>
        (case nx of
           N_Result r \<Rightarrow> Some (Ok (Some r), c\<lparr> cn_state := st \<rparr>)
         | N_Null \<Rightarrow> Some (Ok None, c\<lparr> cn_state := st \<rparr>)
         | N_Block \<Rightarrow>
             io_bind (flush_all os) (\<lambda>_. io_bind (read_more os) (\<lambda>_.
               io_bind parse_input_io (\<lambda>_. get_result_loop os))) (c\<lparr> cn_state := st \<rparr>)))"

definition get_result :: "os \<Rightarrow> query_result option io" where
  "get_result os = io_bind parse_input_io (\<lambda>_. get_result_loop os)"

definition conn_is_busy :: "bool io" where
  "conn_is_busy = io_bind parse_input_io (\<lambda>_ c. io_ok (is_busy (cn_state c)) c)"

definition set_nonblocking :: "os \<Rightarrow> bool \<Rightarrow> unit io" where
  "set_nonblocking os nonblocking c =
     (if nonblocking = cn_nonblocking c then io_ok () c
      else io_bind (flush os) (\<lambda>f c.
        if f = F_Pending then io_err FlushPending c
        else io_ok () (c\<lparr> cn_nonblocking := nonblocking \<rparr>)) c)"

definition consume_input :: "os \<Rightarrow> unit io" where
  "consume_input os c =
     io_bind (if cn_nonblocking c then io_bind (flush os) (\<lambda>_. io_ok ()) else io_ok ())
       (\<lambda>_. io_bind (read_data os) (\<lambda>_. io_ok ())) c"

section \<open>Sending commands\<close>

fun put_messages :: "frontend list \<Rightarrow> unit io" where
  "put_messages [] = io_ok ()"
| "put_messages (m # ms) = io_bind (put_message m) (\<lambda>_. put_messages ms)"

definition flush_if :: "os \<Rightarrow> bool \<Rightarrow> unit io" where
  "flush_if os b = (if b then io_bind (flush os) (\<lambda>_. io_ok ()) else io_ok ())"

definition dispatch :: "os \<Rightarrow> plan \<Rightarrow> unit io" where
  "dispatch os p c =
     (let p = (if sends_own_sync (cn_state c) then p else without_sync p) in
      io_bind (put_messages (pl_messages p)) (\<lambda>_ c.
        io_bind (flush_if os (flushes_now (cn_state c) (length (cn_outbuf c)))) (\<lambda>_ c.
          io_ok () (c\<lparr> cn_state := append_command (pl_class p) (pl_query p) (cn_state c) \<rparr>)) c) c)"

definition io_result :: "('e \<Rightarrow> connection_error) \<Rightarrow> ('a, 'e) result \<Rightarrow> 'a io" where
  "io_result wrap r c = Some (map_err wrap r, c)"

definition send_query :: "os \<Rightarrow> bytes \<Rightarrow> unit io" where
  "send_query os query =
     io_bind (lift_state CE_Pipeline (begin_send Q_Simple)) (\<lambda>_.
       dispatch os \<lparr> pl_messages = [Query query], pl_class = Q_Simple, pl_query = Some query \<rparr>)"

definition send_query_params :: "os \<Rightarrow> bytes \<Rightarrow> u32 list \<Rightarrow> params \<Rightarrow> unit io" where
  "send_query_params os command param_types p =
     io_bind (lift_state CE_Pipeline (begin_send Q_Extended)) (\<lambda>_.
       io_bind (io_result CE_Argument (query_params command param_types p)) (dispatch os))"

definition send_prepare :: "os \<Rightarrow> bytes \<Rightarrow> bytes \<Rightarrow> u32 list \<Rightarrow> unit io" where
  "send_prepare os statement query param_types =
     io_bind (lift_state CE_Pipeline (begin_send Q_Prepare)) (\<lambda>_.
       io_bind (io_result CE_Argument (prepare statement query param_types)) (dispatch os))"

definition send_query_prepared :: "os \<Rightarrow> bytes \<Rightarrow> params \<Rightarrow> unit io" where
  "send_query_prepared os statement p =
     io_bind (lift_state CE_Pipeline (begin_send Q_Extended)) (\<lambda>_.
       io_bind (io_result CE_Argument (query_prepared statement p)) (dispatch os))"

definition send_typed :: "os \<Rightarrow> typed_command \<Rightarrow> target \<Rightarrow> bytes \<Rightarrow> unit io" where
  "send_typed os command t name =
     (let p = typed_command_plan command t name in
      io_bind (lift_state CE_Pipeline (begin_send (pl_class p))) (\<lambda>_. dispatch os p))"

section \<open>The pipeline mode\<close>

definition conn_enter_pipeline_mode :: "unit io" where
  "conn_enter_pipeline_mode = lift_state CE_Pipeline enter_pipeline_mode"

definition conn_exit_pipeline_mode :: "os \<Rightarrow> unit io" where
  "conn_exit_pipeline_mode os = io_bind (lift_state CE_Pipeline exit_pipeline_mode) (flush_if os)"

definition check_state :: "(pipeline_state \<Rightarrow> (unit, pipeline_error) result) \<Rightarrow> unit io" where
  "check_state f c = io_result CE_Pipeline (f (cn_state c)) c"

definition pipeline_sync_internal :: "os \<Rightarrow> bool \<Rightarrow> unit io" where
  "pipeline_sync_internal os immediate_flush =
     io_bind (check_state begin_pipeline_sync) (\<lambda>_.
     io_bind (put_message Sync) (\<lambda>_ c.
       io_bind (flush_if os (immediate_flush \<or> flushes_now (cn_state c) (length (cn_outbuf c)))) (\<lambda>_ c.
         io_ok () (c\<lparr> cn_state := ps_append Q_Sync (cn_state c) \<rparr>)) c))"

definition send_flush_request :: "os \<Rightarrow> unit io" where
  "send_flush_request os =
     io_bind (check_state begin_flush_request) (\<lambda>_.
     io_bind (put_message Flush) (\<lambda>_ c.
       flush_if os (flushes_now (cn_state c) (length (cn_outbuf c))) c))"

definition conn_set_single_row_mode :: "bool io" where
  "conn_set_single_row_mode c =
     (case set_single_row_mode (cn_state c) of (b, st) \<Rightarrow> io_ok b (c\<lparr> cn_state := st \<rparr>))"

definition conn_set_chunked_rows_mode :: "nat \<Rightarrow> bool io" where
  "conn_set_chunked_rows_mode n c =
     (case set_chunked_rows_mode n (cn_state c) of (b, st) \<Rightarrow> io_ok b (c\<lparr> cn_state := st \<rparr>))"

section \<open>Copying\<close>

definition PUT_MSG_PUSH_THRESHOLD :: nat where
  "PUT_MSG_PUSH_THRESHOLD = 8192"

definition put_copy_data :: "os \<Rightarrow> bytes \<Rightarrow> unit io" where
  "put_copy_data os data =
     io_bind (check_state begin_put_copy) (\<lambda>_.
     io_bind parse_input_io (\<lambda>_.
       if data \<noteq> [] then
         io_bind (put_message (FeCopyData data)) (\<lambda>_ c.
           flush_if os (length (cn_outbuf c) \<ge> PUT_MSG_PUSH_THRESHOLD) c)
       else io_ok ()))"

definition conn_put_copy_end :: "os \<Rightarrow> bytes option \<Rightarrow> unit io" where
  "conn_put_copy_end os error =
     io_bind (check_state begin_put_copy) (\<lambda>_.
     io_bind (put_message (case error of Some m \<Rightarrow> CopyFail m | None \<Rightarrow> FeCopyDone)) (\<lambda>_.
     io_bind (lift_state CE_Pipeline put_copy_end) (\<lambda>sync.
     io_bind (if sync then put_message Sync else io_ok ()) (\<lambda>_.
     io_bind (flush os) (\<lambda>_. io_ok ())))))"

datatype copy_read = CR_Row bytes | CR_WouldBlock | CR_End

text \<open>The \<open>unreachable!\<close> of the source is the \<open>None\<close> for a data message that does not decode to data.\<close>

partial_function (option) get_copy_loop :: "os \<Rightarrow> bool \<Rightarrow> copy_read io" where
  "get_copy_loop os nonblocking c =
     (case next_copy_frame (unparsed c) of
        Incomplete \<Rightarrow>
          if nonblocking then Some (Ok CR_WouldBlock, c)
          else io_bind (read_more os) (\<lambda>_. get_copy_loop os nonblocking) c
      | SyncLoss mid len \<Rightarrow> Some (Err (CE_Protocol (LostSynchronization mid len)), c)
      | Frame_Message mid s e \<Rightarrow>
          (case copy_message mid (cn_state c) of (step, st) \<Rightarrow>
             (case step of
                CS_End \<Rightarrow> Some (Ok CR_End, c\<lparr> cn_state := st \<rparr>)
              | CS_Data \<Rightarrow>
                  (case parse_frame mid s e (c\<lparr> cn_state := st \<rparr>) of (r, c) \<Rightarrow>
                     (case r of
                        Err err \<Rightarrow> Some (Err err, c)
                      | Ok m \<Rightarrow>
                          (case m of
                             CopyData d \<Rightarrow>
                               if d \<noteq> [] then Some (Ok (CR_Row d), c) else get_copy_loop os nonblocking c
                           | _ \<Rightarrow> None)))
              | CS_Async \<Rightarrow>
                  (case parse_frame mid s e (c\<lparr> cn_state := st \<rparr>) of (r, c) \<Rightarrow>
                     (case r of
                        Err err \<Rightarrow> Some (Err err, c)
                      | Ok m \<Rightarrow>
                          (case apply_message m c of (r, c) \<Rightarrow>
                             (case r of
                                Err err \<Rightarrow> Some (Err err, c)
                              | Ok _ \<Rightarrow> get_copy_loop os nonblocking c)))))))"

definition get_copy_data :: "os \<Rightarrow> bool \<Rightarrow> copy_read io" where
  "get_copy_data os nonblocking = io_bind (check_state begin_get_copy) (\<lambda>_. get_copy_loop os nonblocking)"

section \<open>Blocking execution\<close>

partial_function (option) exec_start_loop :: "os \<Rightarrow> unit io" where
  "exec_start_loop os c =
     io_bind (get_result os) (\<lambda>r c.
       case r of
         None \<Rightarrow> io_ok () c
       | Some result \<Rightarrow>
           if qr_status result = CopyIn then
             io_bind (conn_put_copy_end os (Some (bstr ''COPY terminated by new PQexec'')))
               (\<lambda>_. exec_start_loop os) c
           else if qr_status result = CopyOut then
             exec_start_loop os (c\<lparr> cn_state := abandon_copy_out (cn_state c) \<rparr>)
           else if qr_status result = CopyBoth then io_err (CE_Pipeline ExecDuringCopyBoth) c
           else exec_start_loop os c) c"

definition exec_start :: "os \<Rightarrow> unit io" where
  "exec_start os = io_bind (check_state begin_exec) (\<lambda>_. exec_start_loop os)"

partial_function (option) exec_finish_loop :: "os \<Rightarrow> query_result list \<Rightarrow> query_result list io" where
  "exec_finish_loop os results c =
     io_bind (get_result os) (\<lambda>r c.
       case r of
         None \<Rightarrow> io_ok results c
       | Some result \<Rightarrow>
           if qr_status result \<in> {CopyIn, CopyOut, CopyBoth} then io_ok (results @ [result]) c
           else exec_finish_loop os (results @ [result]) c) c"

definition exec_finish :: "os \<Rightarrow> query_result list io" where
  "exec_finish os = exec_finish_loop os []"

definition exec_with :: "os \<Rightarrow> unit io \<Rightarrow> query_result list io" where
  "exec_with os send_it = io_bind (exec_start os) (\<lambda>_. io_bind send_it (\<lambda>_. exec_finish os))"

definition exec :: "os \<Rightarrow> bytes \<Rightarrow> query_result list io" where
  "exec os query = exec_with os (send_query os query)"

definition exec_params :: "os \<Rightarrow> bytes \<Rightarrow> u32 list \<Rightarrow> params \<Rightarrow> query_result list io" where
  "exec_params os command param_types p = exec_with os (send_query_params os command param_types p)"

definition conn_prepare :: "os \<Rightarrow> bytes \<Rightarrow> bytes \<Rightarrow> u32 list \<Rightarrow> query_result list io" where
  "conn_prepare os statement query param_types = exec_with os (send_prepare os statement query param_types)"

definition exec_prepared :: "os \<Rightarrow> bytes \<Rightarrow> params \<Rightarrow> query_result list io" where
  "exec_prepared os statement p = exec_with os (send_query_prepared os statement p)"

definition exec_typed :: "os \<Rightarrow> typed_command \<Rightarrow> target \<Rightarrow> bytes \<Rightarrow> query_result list io" where
  "exec_typed os command t name = exec_with os (send_typed os command t name)"

definition set_client_encoding :: "os \<Rightarrow> bytes \<Rightarrow> query_result option io" where
  "set_client_encoding os enc =
     (if enc = bstr ''auto'' \<or> 128 < 27 + 1 + length enc
      then io_ok None
      else io_bind (exec os (bstr ''set client_encoding to '' @ [39] @ enc @ [39])) (\<lambda>rs.
        io_ok (if rs = [] then None else Some (last rs))))"

section \<open>Describing and closing\<close>

definition send_describe_prepared :: "os \<Rightarrow> bytes \<Rightarrow> unit io" where
  "send_describe_prepared os statement = send_typed os T_Describe Statement statement"

definition send_describe_portal :: "os \<Rightarrow> bytes \<Rightarrow> unit io" where
  "send_describe_portal os portal = send_typed os T_Describe Portal portal"

definition send_close_prepared :: "os \<Rightarrow> bytes \<Rightarrow> unit io" where
  "send_close_prepared os statement = send_typed os T_Close Statement statement"

definition send_close_portal :: "os \<Rightarrow> bytes \<Rightarrow> unit io" where
  "send_close_portal os portal = send_typed os T_Close Portal portal"

definition describe_prepared :: "os \<Rightarrow> bytes \<Rightarrow> query_result list io" where
  "describe_prepared os statement = exec_typed os T_Describe Statement statement"

definition describe_portal :: "os \<Rightarrow> bytes \<Rightarrow> query_result list io" where
  "describe_portal os portal = exec_typed os T_Describe Portal portal"

definition close_prepared :: "os \<Rightarrow> bytes \<Rightarrow> query_result list io" where
  "close_prepared os statement = exec_typed os T_Close Statement statement"

definition close_portal :: "os \<Rightarrow> bytes \<Rightarrow> query_result list io" where
  "close_portal os portal = exec_typed os T_Close Portal portal"

definition pipeline_sync_now :: "os \<Rightarrow> unit io" where
  "pipeline_sync_now os = pipeline_sync_internal os True"

definition send_pipeline_sync :: "os \<Rightarrow> unit io" where
  "send_pipeline_sync os = pipeline_sync_internal os False"

section \<open>Calling a function\<close>

record fn_result =
  fn_query_result :: query_result
  fn_value :: "bytes option"

text \<open>What one message of the reply comes to: the loop goes on with new locals (\<open>value\<close>, \<open>status\<close>, \<open>error\<close>),
  ends, or fails.\<close>

datatype fn_step =
    FN_Next "bytes option" exec_status "query_result option"
  | FN_Done fn_result
  | FN_Protocol

definition fn_finish :: "bytes option \<Rightarrow> exec_status \<Rightarrow> query_result option \<Rightarrow> fn_result" where
  "fn_finish v st error =
     \<lparr> fn_query_result =
         (case error of
            Some r \<Rightarrow> r
          | None \<Rightarrow>
              if st = CommandOk then QueryResult_new st
              else with_error FatalError
                     (ResultError_new [(diag_MESSAGE_PRIMARY, bstr ''protocol error: no function result'')])),
       fn_value = v \<rparr>"

definition fn_message ::
  "backend \<Rightarrow> bytes option \<Rightarrow> exec_status \<Rightarrow> query_result option \<Rightarrow> connection \<Rightarrow> fn_step \<times> connection" where
  "fn_message m v st error c =
     (let enc = ps_client_encoding (cn_state c) in
      case m of
        FunctionCallResponse w \<Rightarrow> (FN_Next w CommandOk error, c)
      | ErrorResponse fs \<Rightarrow>
          (FN_Next v FatalError (Some (with_error FatalError (with_client_encoding fs enc))), c)
      | NotificationResponse pid channel payload \<Rightarrow>
          (FN_Next v st error, take_event (Some (Ev_Notification pid channel payload)) c)
      | NoticeResponse notice \<Rightarrow>
          (FN_Next v st error, take_event (Some (Ev_Notice (with_client_encoding notice enc))) c)
      | ParameterStatus name w \<Rightarrow>
          (FN_Next v st error,
           take_event (Some (Ev_ParameterStatus name w))
             (c\<lparr> cn_state := save_parameter_status (cn_state c) name w \<rparr>))
      | ReadyForQuery xact \<Rightarrow>
          (FN_Done (fn_finish v st error), take_event (Some (Ev_ReadyForQuery xact)) c)
      | _ \<Rightarrow> (FN_Protocol, c))"

definition too_much_data :: "nat option \<Rightarrow> byte \<Rightarrow> nat \<Rightarrow> nat \<Rightarrow> bool" where
  "too_much_data buf_size mid s e =
     (mid = chb CHR ''V'' \<and> (case buf_size of None \<Rightarrow> False | Some limit \<Rightarrow> (e - s) - 4 > limit))"

partial_function (option) nfn_loop ::
  "os \<Rightarrow> nat option \<Rightarrow> bytes option \<Rightarrow> exec_status \<Rightarrow> query_result option \<Rightarrow> fn_result io" where
  "nfn_loop os buf_size v st error c =
     (case next_frame (unparsed c) of
        Incomplete \<Rightarrow> io_bind (read_more os) (\<lambda>_. nfn_loop os buf_size v st error) c
      | SyncLoss mid len \<Rightarrow> Some (Err (CE_Protocol (LostSynchronization mid len)), c)
      | Frame_Message mid s e \<Rightarrow>
          if too_much_data buf_size mid s e then Some (Err (CE_Protocol TooMuchData), c)
          else
            (case parse_frame mid s e c of (r, c) \<Rightarrow>
               (case r of
                  Err err \<Rightarrow> Some (Err err, c)
                | Ok m \<Rightarrow>
                    (case fn_message m v st error c of (step, c) \<Rightarrow>
                       (case step of
                          FN_Next v st error \<Rightarrow> nfn_loop os buf_size v st error c
                        | FN_Done r \<Rightarrow> Some (Ok r, c)
                        | FN_Protocol \<Rightarrow> Some (Err (CE_Protocol (FunctionCallProtocol mid)), c))))))"

definition nfn :: "os \<Rightarrow> u32 \<Rightarrow> bytes option list \<Rightarrow> nat option \<Rightarrow> fn_result io" where
  "nfn os fnid args buf_size =
     io_bind (check_state begin_fn) (\<lambda>_.
     io_bind (put_message (FunctionCall fnid args)) (\<lambda>_.
     io_bind (flush os) (\<lambda>_. nfn_loop os buf_size None FatalError None)))"

definition fn_call :: "os \<Rightarrow> u32 \<Rightarrow> bytes option list \<Rightarrow> fn_result io" where
  "fn_call os fnid args = nfn os fnid args None"

section \<open>Tracing\<close>

definition untrace :: "connection \<Rightarrow> trace_record list option \<times> connection" where
  "untrace c = (map_option tr_records (cn_trace c), c\<lparr> cn_trace := None \<rparr>)"

definition trace :: "connection \<Rightarrow> connection" where
  "trace c = (snd (untrace c))\<lparr> cn_trace := Some \<lparr> tr_flags = 0, tr_records = [] \<rparr> \<rparr>"

definition set_trace_flags :: "u32 \<Rightarrow> connection \<Rightarrow> connection" where
  "set_trace_flags flags c =
     c\<lparr> cn_trace := map_option (\<lambda>t. t\<lparr> tr_flags := flags \<rparr>) (cn_trace c) \<rparr>"

section \<open>What the server has reported\<close>

definition parameter_status :: "connection \<Rightarrow> bytes \<Rightarrow> bytes option" where
  "parameter_status c name = map_option snd (find (\<lambda>(n, _). n = name) (rev (cn_parameters c)))"

definition client_encoding :: "connection \<Rightarrow> encoding" where
  "client_encoding c =
     (case Option.bind (parameter_status c (bstr ''client_encoding'')) enc_from_name of
        Some e \<Rightarrow> e | None \<Rightarrow> SqlAscii)"

definition std_strings :: "connection \<Rightarrow> bool" where
  "std_strings c = (parameter_status c (bstr ''standard_conforming_strings'') = Some (bstr ''on''))"

text \<open>\<open>parse::<i32>\<close> of an optional sign and digits, and checked \<open>i32\<close> arithmetic.\<close>

definition i32_checked :: "int \<Rightarrow> int option" where
  "i32_checked n = (if - (2 ^ 31) \<le> n \<and> n < 2 ^ 31 then Some n else None)"

fun version_numbers :: "nat \<Rightarrow> bytes \<Rightarrow> int list" where
  "version_numbers 0 rest = []"
| "version_numbers (Suc k) rest =
     (let body = dropWhile is_ascii_whitespace rest;
          sign_len = (case body of [] \<Rightarrow> 0 | b # _ \<Rightarrow> if b = 43 \<or> b = 45 then 1 else 0);
          digits = takeWhile is_ascii_digit (drop sign_len body)
      in if digits = [] then []
         else
           case i32_checked (if sign_len = 1 \<and> hd body = 45 then - int (dec_value digits)
                             else int (dec_value digits)) of
             None \<Rightarrow> []
           | Some n \<Rightarrow>
               n # (case drop (sign_len + length digits) body of
                      [] \<Rightarrow> []
                    | b # tail \<Rightarrow> if b = 46 then version_numbers k tail else []))"

text \<open>\<open>100 * a + b\<close> in checked \<open>i32\<close> arithmetic; \<open>None\<close> is the overflow.\<close>

definition scale_add :: "int \<Rightarrow> int \<Rightarrow> int \<Rightarrow> int option" where
  "scale_add k a b = Option.bind (i32_checked (k * a)) (\<lambda>n. i32_checked (n + b))"

definition server_version_number :: "bytes \<Rightarrow> int option" where
  "server_version_number v =
     (case version_numbers 3 v of
        [vmaj, vmin, vrev] \<Rightarrow> Option.bind (scale_add 100 vmaj vmin) (\<lambda>n. scale_add 100 n vrev)
      | [vmaj, vmin] \<Rightarrow>
          if vmaj \<ge> 10 then scale_add (100 * 100) vmaj vmin
          else Option.bind (scale_add 100 vmaj vmin) (\<lambda>n. i32_checked (n * 100))
      | [vmaj] \<Rightarrow> i32_checked (100 * 100 * vmaj)
      | _ \<Rightarrow> Some 0)"

text \<open>A version number that does not fit overflows.\<close>

lemma server_version_overflows: "server_version_number (bstr ''500000'') = None"
  by (simp add: server_version_number_def numeral_3_eq_3 is_ascii_whitespace_def is_ascii_digit_def dec_value_def
      i32_checked_def)

definition server_version :: "connection \<Rightarrow> int option" where
  "server_version c =
     (case parameter_status c (bstr ''server_version'') of None \<Rightarrow> Some 0 | Some v \<Rightarrow> server_version_number v)"

definition escape_string_conn :: "connection \<Rightarrow> bytes \<Rightarrow> bytes \<times> escape_error option" where
  "escape_string_conn c from_bytes = escape_string from_bytes (client_encoding c) (std_strings c)"

definition escape_literal :: "connection \<Rightarrow> bytes \<Rightarrow> (bytes, escape_error) result" where
  "escape_literal c from_bytes = escape_internal from_bytes (client_encoding c) False"

definition escape_identifier :: "connection \<Rightarrow> bytes \<Rightarrow> (bytes, escape_error) result" where
  "escape_identifier c from_bytes = escape_internal from_bytes (client_encoding c) True"

definition escape_bytea_conn :: "connection \<Rightarrow> bytes \<Rightarrow> bytes option" where
  "escape_bytea_conn c from_bytes =
     map_option (\<lambda>v. escape_bytea from_bytes (std_strings c) (v \<ge> 90000)) (server_version c)"

section \<open>Parsing does not depend on how the input arrives\<close>

text \<open>Bytes that arrive, as \<open>read_data\<close> puts them into the buffer.\<close>

definition feed :: "bytes \<Rightarrow> connection \<Rightarrow> connection" where
  "feed bs c = (let c = compact c in c\<lparr> cn_inbuf := cn_inbuf c @ bs \<rparr>)"

text \<open>The same connection, up to the place of the unparsed bytes in the buffer.\<close>

definition alike :: "bytes \<Rightarrow> connection \<Rightarrow> connection \<Rightarrow> bool" where
  "alike extra c d \<longleftrightarrow> session d = session c \<and> unparsed d = unparsed c @ extra"

definition alike_result ::
  "bytes \<Rightarrow> ('a, connection_error) result \<times> connection \<Rightarrow> ('a, connection_error) result \<times> connection \<Rightarrow> bool" where
  "alike_result extra x y \<longleftrightarrow> fst y = fst x \<and> alike extra (snd x) (snd y)"

lemma feed_alike: "alike bs c (feed bs c)"
proof -
  have "session (feed bs c) = session c"
    by (simp add: feed_def Let_def compact_moves)
  moreover have "unparsed (feed bs c) = unparsed c @ bs"
    by (simp add: feed_def Let_def unparsed_def compact_def)
  ultimately show ?thesis
    by (simp add: alike_def)
qed

lemma alike_state: "alike extra c d \<Longrightarrow> cn_state d = cn_state c"
  unfolding alike_def by (blast dest: session_cong(1))

lemma session_state: "session d = session c \<Longrightarrow> session (d\<lparr> cn_state := st \<rparr>) = session (c\<lparr> cn_state := st \<rparr>)"
  by (cases c; cases d; simp add: session_def)

lemma alike_update: "alike extra c d \<Longrightarrow> alike extra (c\<lparr> cn_state := st \<rparr>) (d\<lparr> cn_state := st \<rparr>)"
  using session_state [of d c st] by (simp add: alike_def)

lemma alike_event: "alike extra c d \<Longrightarrow> alike extra (take_event ev c) (take_event ev d)"
proof -
  assume "alike extra c d"
  then have s: "session d = session c" and u: "unparsed d = unparsed c @ extra"
    by (simp_all add: alike_def)
  have "session (take_event ev d) = session (take_event ev c)"
    using s by (cases c; cases d) (auto simp: session_def take_event_def split: option.split event.split)
  then show ?thesis
    using u by (simp add: alike_def)
qed

lemma alike_apply: "alike extra c d \<Longrightarrow> alike_result extra (apply_message m c) (apply_message m d)"
  using alike_state [of extra c d]
  by (auto simp: apply_message_def alike_result_def Let_def split_beta split: result.split
      intro: alike_event alike_update)

lemma parse_frame_session:
  assumes "session d = session c" and "unparsed d = unparsed c @ extra" and "next_frame (unparsed c) = Frame_Message mid s e"
  shows "session (snd (parse_frame mid s e d)) = session (snd (parse_frame mid s e c))"
proof -
  have e: "e \<le> length (unparsed c)" "s \<le> e"
    using next_frame_bounds [OF assms(3)] by auto
  have sl: "slice (unparsed d) i j = slice (unparsed c) i j" if "j \<le> e" for i j
    using that e assms(2) by (simp add: slice_def)
  have at: "slice (cn_inbuf x) (cn_start x + i) (cn_start x + j) = slice (unparsed x) i j" for x i j
    by (simp add: unparsed_def slice_drop)
  have at0: "slice (cn_inbuf x) (cn_start x) (cn_start x + j) = slice (unparsed x) 0 j" for x j
    using at [of x 0 j] by simp
  have tr: "cn_trace d = cn_trace c"
    using assms(1) by (rule session_cong(3))
  have upd: "session (d\<lparr> cn_trace := t \<rparr>) = session (c\<lparr> cn_trace := t \<rparr>)" for t
    using assms(1) by (cases c; cases d; simp add: session_def)
  show ?thesis
    unfolding parse_frame_def Let_def at at0 sl [OF order_refl] tr
    using assms(1) upd by (cases "decode mid (slice (unparsed c) s e)"; cases "cn_trace c") simp_all
qed

lemma alike_frame:
  assumes "alike extra c d" and f: "next_frame (unparsed c) = Frame_Message mid s e"
  shows "alike_result extra (parse_frame mid s e c) (parse_frame mid s e d)"
proof -
  have e: "e \<le> length (unparsed c)"
    using next_frame_bounds [OF f] by simp
  have d: "next_frame (unparsed d) = Frame_Message mid s e"
    using assms next_frame_append by (simp add: alike_def)
  have same: "slice (unparsed d) s e = slice (unparsed c) s e"
    using assms(1) e by (simp add: alike_def slice_def)
  obtain c' where c': "parse_frame mid s e c = (map_err CE_Protocol (decode mid (slice (unparsed c) s e)), c')"
      "if is_ok (decode mid (slice (unparsed c) s e)) then unparsed c' = drop e (unparsed c) else c' = c"
    using parse_frame_cases [OF f] by blast
  obtain d' where d': "parse_frame mid s e d = (map_err CE_Protocol (decode mid (slice (unparsed c) s e)), d')"
      "if is_ok (decode mid (slice (unparsed c) s e)) then unparsed d' = drop e (unparsed d) else d' = d"
    using parse_frame_cases [OF d] same by auto
  have "session d' = session c'"
    using parse_frame_session [OF _ _ f, of d extra] assms(1) c'(1) d'(1) by (simp add: alike_def)
  moreover have "unparsed d' = unparsed c' @ extra"
    using c'(2) d'(2) e assms(1) by (auto simp: alike_def split: if_splits)
  ultimately show ?thesis
    by (simp add: alike_result_def alike_def c'(1) d'(1))
qed

lemma admit_again: "admit mid s = (Wait, s') \<Longrightarrow> admit mid s' = (Wait, s')"
  by (auto simp: admit_def split: if_splits)

text \<open>The six ways in which a call of \<open>parse_input\<close> begins.\<close>

lemma parse_input_cases [case_names incomplete lost waits bad refused parsed]:
  obtains "next_frame (unparsed c) = Incomplete" "parse_input c = (Ok (), c)"
  | mid len where "next_frame (unparsed c) = SyncLoss mid len"
      "parse_input c = (Err (CE_Protocol (LostSynchronization mid len)), c)"
  | mid s e st where "next_frame (unparsed c) = Frame_Message mid s e" "admit mid (cn_state c) = (Wait, st)"
      "parse_input c = (Ok (), c\<lparr> cn_state := st \<rparr>)"
  | mid s e err c1 where "next_frame (unparsed c) = Frame_Message mid s e" "admit mid (cn_state c) = (Process, cn_state c)"
      "parse_frame mid s e c = (Err err, c1)" "parse_input c = (Err err, c1)"
  | mid s e m c1 err c2 where "next_frame (unparsed c) = Frame_Message mid s e"
      "admit mid (cn_state c) = (Process, cn_state c)" "parse_frame mid s e c = (Ok m, c1)"
      "apply_message m c1 = (Err err, c2)" "parse_input c = (Err err, c2)"
  | mid s e m c1 u c2 where "next_frame (unparsed c) = Frame_Message mid s e"
      "admit mid (cn_state c) = (Process, cn_state c)" "parse_frame mid s e c = (Ok m, c1)"
      "apply_message m c1 = (Ok u, c2)" "parse_input c = parse_input c2"
proof (cases "next_frame (unparsed c)")
  case Incomplete
  then show ?thesis
    using that(1) by (simp add: parse_input.simps)
next
  case (SyncLoss mid len)
  then show ?thesis
    using that(2) by (simp add: parse_input.simps)
next
  case f: (Frame_Message mid s e)
  obtain a st where a: "admit mid (cn_state c) = (a, st)"
    by fastforce
  show ?thesis
  proof (cases "a = Wait")
    case True
    then show ?thesis
      using that(3) f a by (simp add: parse_input.simps)
  next
    case False
    then have p: "admit mid (cn_state c) = (Process, cn_state c)"
      using a admit_Process(1) [of mid "cn_state c" st] by (cases a) auto
    obtain r c1 where r: "parse_frame mid s e c = (r, c1)"
      by fastforce
    show ?thesis
    proof (cases r)
      case (Err err)
      then show ?thesis
        using that(4) f p r by (simp add: parse_input.simps)
    next
      case (Ok m)
      obtain r2 c2 where r2: "apply_message m c1 = (r2, c2)"
        by fastforce
      show ?thesis
        using that(5,6) f p r Ok r2 by (cases r2) (simp_all add: parse_input.simps [of c])
    qed
  qed
qed

lemma alike_next:
  assumes "alike extra c d" and "next_frame (unparsed c) \<noteq> Incomplete"
  shows "next_frame (unparsed d) = next_frame (unparsed c)"
  using assms next_frame_append by (simp add: alike_def)

lemma alike_parse_frame:
  assumes "alike extra c d" and "next_frame (unparsed c) = Frame_Message mid s e" and "parse_frame mid s e c = (r, c1)"
  obtains d1 where "parse_frame mid s e d = (r, d1)" "alike extra c1 d1"
  using alike_frame [OF assms(1,2)] assms(3) by (cases "parse_frame mid s e d") (simp add: alike_result_def)

lemma alike_apply_message:
  assumes "alike extra c d" and "apply_message m c = (r, c1)"
  obtains d1 where "apply_message m d = (r, d1)" "alike extra c1 d1"
  using alike_apply [OF assms(1), of m] assms(2) by (cases "apply_message m d") (simp add: alike_result_def)

lemma parse_input_frame:
  assumes "next_frame (unparsed c) = Frame_Message mid s e" and "admit mid (cn_state c) = (Process, cn_state c)"
  shows "parse_input c =
    (case parse_frame mid s e c of
       (Err err, c) \<Rightarrow> (Err err, c)
     | (Ok m, c) \<Rightarrow> (case apply_message m c of (Err err, c) \<Rightarrow> (Err err, c) | (Ok _, c) \<Rightarrow> parse_input c))"
  using assms by (simp add: parse_input.simps [of c])

lemma alike_parsed:
  assumes al: "alike extra c d" and f: "next_frame (unparsed c) = Frame_Message mid s e"
    and a: "admit mid (cn_state c) = (Process, cn_state c)" and p: "parse_frame mid s e c = (Ok m, c1)"
    and r: "apply_message m c1 = (Ok u, c2)"
  shows "\<exists>d2. parse_input d = parse_input d2 \<and> alike extra c2 d2 \<and> length (unparsed c2) < length (unparsed c)"
proof -
  obtain d1 where d1: "parse_frame mid s e d = (Ok m, d1)" "alike extra c1 d1"
    using alike_parse_frame [OF al f p] .
  obtain d2 where d2: "apply_message m d1 = (Ok u, d2)" "alike extra c2 d2"
    using alike_apply_message [OF d1(2) r] .
  have "parse_input d = parse_input d2"
    using parse_input_frame [of d] alike_next [OF al] alike_state [OF al] f a d1 d2 by simp
  moreover have "length (unparsed c2) < length (unparsed c)"
    using parse_frame_consumes [OF f p] unparsed_apply_message [of m c1] unfolding r snd_conv by metis
  ultimately show ?thesis
    using d2(2) by blast
qed

text \<open>Where \<open>c\<close> stops at its first message, \<open>d\<close> stops there too.\<close>

lemma alike_stops:
  assumes al: "alike extra c d" and f: "next_frame (unparsed c) = Frame_Message mid s e"
  shows "admit mid (cn_state c) = (Wait, st) \<Longrightarrow> alike_result extra (parse_input c) (parse_input d)"
    and "admit mid (cn_state c) = (Process, cn_state c) \<Longrightarrow> parse_frame mid s e c = (Err err, c1) \<Longrightarrow>
      alike_result extra (parse_input c) (parse_input d)"
    and "admit mid (cn_state c) = (Process, cn_state c) \<Longrightarrow> parse_frame mid s e c = (Ok m, c1) \<Longrightarrow>
      apply_message m c1 = (Err err, c2) \<Longrightarrow> alike_result extra (parse_input c) (parse_input d)"
proof -
  have d: "next_frame (unparsed d) = Frame_Message mid s e" "cn_state d = cn_state c"
    using alike_next [OF al] alike_state [OF al] f by simp_all
  show "alike_result extra (parse_input c) (parse_input d)" if "admit mid (cn_state c) = (Wait, st)"
    using that d f alike_update [OF al, of st] by (simp add: parse_input.simps alike_result_def)
  show "alike_result extra (parse_input c) (parse_input d)"
    if a: "admit mid (cn_state c) = (Process, cn_state c)" and p: "parse_frame mid s e c = (Err err, c1)"
    using alike_frame [OF al f] parse_input_frame [OF f a] parse_input_frame [OF d(1)] a d(2) p
    by (cases "parse_frame mid s e d") (simp add: alike_result_def)
  show "alike_result extra (parse_input c) (parse_input d)"
    if a: "admit mid (cn_state c) = (Process, cn_state c)" and p: "parse_frame mid s e c = (Ok m, c1)"
      and r: "apply_message m c1 = (Err err, c2)"
  proof -
    obtain d1 where d1: "parse_frame mid s e d = (Ok m, d1)" "alike extra c1 d1"
      using alike_parse_frame [OF al f p] .
    then show ?thesis
      using alike_apply [OF d1(2), of m] parse_input_frame [OF f a] parse_input_frame [OF d(1)] a d(2) p r
      by (cases "apply_message m d1") (simp add: alike_result_def)
  qed
qed

lemma alike_lost:
  assumes al: "alike extra c d" and f: "next_frame (unparsed c) = SyncLoss mid len"
  shows "alike_result extra (parse_input c) (parse_input d)"
  using al alike_next [OF al] f by (simp add: parse_input.simps alike_result_def)

lemma parse_input_same:
  assumes "alike [] c d"
  shows "alike_result [] (parse_input c) (parse_input d)"
  using assms
proof (induction "length (unparsed c)" arbitrary: c d rule: less_induct)
  case less
  show ?case
  proof (cases rule: parse_input_cases [of c])
    case incomplete
    then have "next_frame (unparsed d) = Incomplete"
      using less.prems by (simp add: alike_def)
    then show ?thesis
      using incomplete less.prems by (simp add: parse_input.simps [of d] alike_result_def)
  next
    case (parsed mid s e m c1 u c2)
    then show ?thesis
      using alike_parsed [OF less.prems parsed(1-4)] less.hyps by auto
  qed (use alike_lost [OF less.prems] alike_stops [OF less.prems] in auto)
qed

text \<open>A connection with more input does what one with less does, and beyond that what the one with less does
  when the rest arrives.\<close>

lemma parse_input_alike:
  assumes "alike extra c d"
  shows "if is_ok (fst (parse_input c))
    then (\<forall>d1. alike extra (snd (parse_input c)) d1 \<longrightarrow> alike_result [] (parse_input d1) (parse_input d))
    else alike_result extra (parse_input c) (parse_input d)"
  using assms
proof (induction "length (unparsed c)" arbitrary: c d rule: less_induct)
  case less
  show ?case
  proof (cases rule: parse_input_cases [of c])
    case incomplete
    have "alike_result [] (parse_input d1) (parse_input d)" if "alike extra c d1" for d1
      using that less.prems by (intro parse_input_same) (simp add: alike_def)
    then show ?thesis
      using incomplete by simp
  next
    case (waits mid s e st)
    have "alike_result [] (parse_input d1) (parse_input d)" if al: "alike extra (c\<lparr> cn_state := st \<rparr>) d1" for d1
    proof -
      have d1: "cn_state d1 = st" "next_frame (unparsed d1) = Frame_Message mid s e"
        using alike_next [OF al] alike_state [OF al] waits by simp_all
      then have "parse_input d1 = (Ok (), d1)"
        using admit_again [OF waits(2)] by (simp add: parse_input.simps)
      moreover have "alike_result extra (parse_input c) (parse_input d)"
        using less.prems waits(1,2) by (rule alike_stops(1))
      ultimately show ?thesis
        using al waits(3) by (simp add: alike_result_def alike_def)
    qed
    then show ?thesis
      using waits by simp
  next
    case (parsed mid s e m c1 u c2)
    obtain d2 where "parse_input d = parse_input d2" "alike extra c2 d2" "length (unparsed c2) < length (unparsed c)"
      using alike_parsed [OF less.prems parsed(1-4)] by blast
    then show ?thesis
      using less.hyps [of c2 d2] parsed(5) by simp
  qed (use alike_lost [OF less.prems] alike_stops [OF less.prems] in auto)
qed

text \<open>C6: Parsing does not depend on how the input arrives. When bytes are parsed as soon as they are there and
  the rest when it comes, the outcome, the state, the collected events, the trace and the bytes left
  to parse are the same as when everything arrives at once; an error met in the first part is the
  error of the whole.\<close>

theorem parse_input_chunks:
  "case parse_input (feed a c) of
     (Ok _, c1) \<Rightarrow> alike_result [] (parse_input (feed b c1)) (parse_input (feed (a @ b) c))
   | (Err e, c1) \<Rightarrow> alike_result b (Err e, c1) (parse_input (feed (a @ b) c))"
proof -
  have al: "alike b (feed a c) (feed (a @ b) c)"
    using feed_alike [of a c] feed_alike [of "a @ b" c] by (simp add: alike_def)
  obtain r c1 where p: "parse_input (feed a c) = (r, c1)"
    by fastforce
  show ?thesis
    using parse_input_alike [OF al] feed_alike [of b c1] p by (cases r) auto
qed

section \<open>What a command puts on the wire\<close>

fun encode_all :: "frontend list \<Rightarrow> bytes option" where
  "encode_all [] = Some []"
| "encode_all (m # ms) = Option.bind (encode m) (\<lambda>b. map_option (\<lambda>bs. b @ bs) (encode_all ms))"

text \<open>All that was ever put, whether it is sent or still buffered.\<close>

definition put_so_far :: "connection \<Rightarrow> bytes" where
  "put_so_far c = net_sent (cn_net c) @ cn_outbuf c"

text \<open>The messages of a plan: outside pipeline mode a plan ends with its own Sync.\<close>

definition wire_messages :: "pipeline_state \<Rightarrow> plan \<Rightarrow> frontend list" where
  "wire_messages s p = pl_messages (if sends_own_sync s then p else without_sync p)"

lemma io_bind_Some:
  assumes "io_bind m f c = Some y"
  obtains e c' where "m c = Some (Err e, c')" and "y = (Err e, c')"
  | x c' where "m c = Some (Ok x, c')" and "f x c' = Some y"
  using assms by (auto simp: io_bind_def bind_eq_Some_conv split: result.splits) (metis result.exhaust)

lemma io_bind_Ok: "io_bind m f c = Some (Ok y, c') \<longleftrightarrow> (\<exists>x c1. m c = Some (Ok x, c1) \<and> f x c1 = Some (Ok y, c'))"
  by (auto elim: io_bind_Some) (simp add: io_bind_def)

lemma put_message_result:
  assumes "put_message m c = Some (r, c')"
  shows "\<exists>b. encode m = Some b \<and> r = Ok () \<and> cn_outbuf c' = cn_outbuf c @ b \<and> cn_net c' = cn_net c \<and>
    cn_state c' = cn_state c \<and> cn_nonblocking c' = cn_nonblocking c"
  using assms by (auto simp: put_message_def trace_sent_def Let_def bind_eq_Some_conv split: option.splits)

lemma put_messages_result:
  assumes "put_messages ms c = Some (r, c')"
  shows "\<exists>bs. encode_all ms = Some bs \<and> r = Ok () \<and> cn_outbuf c' = cn_outbuf c @ bs \<and> cn_net c' = cn_net c \<and>
    cn_state c' = cn_state c \<and> cn_nonblocking c' = cn_nonblocking c"
  using assms
proof (induction ms arbitrary: c)
  case Nil
  then show ?case by (simp add: io_ok_def)
next
  case (Cons m ms)
  then have "io_bind (put_message m) (\<lambda>_. put_messages ms) c = Some (r, c')"
    by simp
  then show ?case
  proof (cases rule: io_bind_Some)
    case (1 e c1)
    then show ?thesis
      using put_message_result [OF 1(1)] by simp
  next
    case (2 x c1)
    from Cons.IH [OF 2(2)] put_message_result [OF 2(1)] show ?thesis
      by auto
  qed
qed

lemma flush_if_result:
  assumes "flush_if os b c = Some (Ok u, c')"
  shows "put_so_far c' = put_so_far c \<and> cn_state c' = cn_state c \<and> cn_nonblocking c' = cn_nonblocking c \<and>
    (b \<and> \<not> cn_nonblocking c \<longrightarrow> cn_outbuf c' = [])"
proof (cases b)
  case True
  then obtain f where f: "flush os c = Some (Ok f, c')"
    using assms by (auto simp: flush_if_def io_bind_Ok io_ok_def)
  have "session c' = session c"
    using flush_result [OF f] by (simp add: only_moved_def)
  then have "cn_state c' = cn_state c" "cn_nonblocking c' = cn_nonblocking c"
    using session_cong(1,4) by blast+
  then show ?thesis
    using flush_result [OF f] by (cases f) (auto simp: put_so_far_def)
qed (use assms in \<open>auto simp: flush_if_def io_ok_def\<close>)

lemma dispatch_result:
  assumes "dispatch os p c = Some (Ok u, c')"
  shows "\<exists>bs. encode_all (wire_messages (cn_state c) p) = Some bs \<and> put_so_far c' = put_so_far c @ bs \<and>
    cn_state c' = append_command (pl_class p) (pl_query p) (cn_state c) \<and>
    (ps_pipeline (cn_state c) \<noteq> P_On \<and> \<not> cn_nonblocking c \<longrightarrow> cn_outbuf c' = [])"
proof -
  define q where "q = (if sends_own_sync (cn_state c) then p else without_sync p)"
  have q: "pl_class q = pl_class p" "pl_query q = pl_query p" "pl_messages q = wire_messages (cn_state c) p"
    by (simp_all add: q_def without_sync_def wire_messages_def)
  have "io_bind (put_messages (pl_messages q)) (\<lambda>_ c.
      io_bind (flush_if os (flushes_now (cn_state c) (length (cn_outbuf c)))) (\<lambda>_ c.
        io_ok () (c\<lparr> cn_state := append_command (pl_class q) (pl_query q) (cn_state c) \<rparr>)) c) c = Some (Ok u, c')"
    using assms unfolding dispatch_def Let_def q_def .
  then obtain v c1 w c2 where p: "put_messages (pl_messages q) c = Some (Ok v, c1)"
    and f: "flush_if os (flushes_now (cn_state c1) (length (cn_outbuf c1))) c1 = Some (Ok w, c2)"
    and c': "c' = c2\<lparr> cn_state := append_command (pl_class q) (pl_query q) (cn_state c2) \<rparr>"
    by (auto simp: io_bind_Ok io_ok_def)
  show ?thesis
    using put_messages_result [OF p] flush_if_result [OF f] c' q
    by (auto simp: put_so_far_def flushes_now_def)
qed

text \<open>C19: A command puts exactly its own messages on the wire. When sending a query with parameters succeeds, its
  arguments were accepted, and the bytes added to what was sent and buffered before are the encoded
  messages of its plan, in order and nothing else, with the final Sync outside pipeline mode and
  without it inside; the command is queued; and on a blocking connection outside an unaborted
  pipeline nothing stays buffered.\<close>

theorem query_on_the_wire:
  assumes "send_query_params os command types ps c = Some (Ok u, c')"
  shows "\<exists>p bs. query_params command types ps = Ok p \<and> encode_all (wire_messages (cn_state c) p) = Some bs \<and>
    put_so_far c' = put_so_far c @ bs \<and>
    cn_state c' = append_command Q_Extended (Some command) (snd (begin_send Q_Extended (cn_state c))) \<and>
    (ps_pipeline (cn_state c) \<noteq> P_On \<and> \<not> cn_nonblocking c \<longrightarrow> cn_outbuf c' = [])"
proof -
  obtain s1 p where b: "begin_send Q_Extended (cn_state c) = (Ok (), s1)" and p: "query_params command types ps = Ok p"
    and d: "dispatch os p (c\<lparr> cn_state := s1 \<rparr>) = Some (Ok u, c')"
    using assms
    by (auto simp: send_query_params_def io_bind_Ok lift_state_def io_result_def split: prod.splits)
  have "ps_pipeline s1 = ps_pipeline (cn_state c)"
    using b by (auto simp: begin_send_def clear_async_result_def Let_def split: if_splits)
  moreover have "pl_class p = Q_Extended" "pl_query p = Some command"
    using p by (auto simp: query_params_def query_guts_def Let_def)
  ultimately show ?thesis
    using dispatch_result [OF d] b p by (auto simp: put_so_far_def wire_messages_def sends_own_sync_def)
qed

definition pipelined_connection :: connection where
  "pipelined_connection = demo_connection\<lparr> cn_state := PipelineState_new\<lparr> ps_pipeline := P_On \<rparr> \<rparr>"

lemma demo_messages:
  "\<exists>bs. encode_all [Parse [] [120] [], Bind [] [] [] [] [0], Describe Portal [], Execute [] 0] = Some bs \<and> length bs < 100"
  by (simp add: packet_framed count16_def bind_body_def framed_def)

lemma demo_send:
  "\<exists>c'. send_query_params demo_os [120] [] (Params_text []) pipelined_connection = Some (Ok (), c')"
proof -
  let ?c = "pipelined_connection"
  obtain bs where bs: "encode_all [Parse [] [120] [], Bind [] [] [] [] [0], Describe Portal [], Execute [] 0] = Some bs" "length bs < 100"
    using demo_messages by blast
  have put: "\<exists>c'. put_messages ms c = Some (Ok (), c')" if "encode_all ms \<noteq> None" for ms c
    using that
  proof (induction ms arbitrary: c)
    case (Cons m ms)
    then obtain b where "encode m = Some b" "encode_all ms \<noteq> None"
      by (cases "encode m") auto
    then show ?case
      using Cons.IH by (simp add: io_bind_def put_message_def Let_def)
  qed (simp add: io_ok_def)
  define ms where "ms = [Parse [] [120] [], Bind [] [] [] [] [0], Describe Portal [], Execute [] 0]"
  obtain c1 where c1: "put_messages ms ?c = Some (Ok (), c1)"
    using put [of ms ?c] bs(1) unfolding ms_def by auto
  have c: "cn_state ?c = PipelineState_new\<lparr> ps_pipeline := P_On \<rparr>" "length (cn_outbuf ?c) = 5"
    by (simp_all add: pipelined_connection_def demo_connection_def)
  have "cn_state c1 = cn_state ?c" "cn_outbuf c1 = cn_outbuf ?c @ bs"
    using put_messages_result [OF c1] bs(1) by (auto simp: ms_def)
  then have fl: "flush_if os (flushes_now (cn_state c1) (length (cn_outbuf c1))) c1 = Some (Ok (), c1)" for os
    using c bs(2) by (simp add: flush_if_def io_ok_def flushes_now_def OUTBUFFER_THRESHOLD_def)
  have own: "\<not> sends_own_sync (cn_state ?c)"
    by (simp add: sends_own_sync_def c)
  let ?p = "\<lparr> pl_messages = ms @ [Sync], pl_class = Q_Extended, pl_query = Some [120] \<rparr>"
  have "dispatch demo_os ?p ?c = Some (Ok (), c1\<lparr> cn_state := append_command Q_Extended (Some [120]) (cn_state c1) \<rparr>)"
    using c1 fl own by (simp add: dispatch_def without_sync_def io_bind_def io_ok_def)
  moreover have "query_params [120] [] (Params_text []) = Ok ?p"
    by (simp add: query_params_def check_count_def check_array_def query_guts_def Params_text_def
        PQ_QUERY_PARAM_MAX_LIMIT_def Let_def ms_def)
  moreover have "begin_send Q_Extended (cn_state ?c) = (Ok (), cn_state ?c)"
    by (simp add: begin_send_def c PipelineState_new_def is_copy_def)
  ultimately show ?thesis
    by (simp add: send_query_params_def io_bind_def lift_state_def io_result_def)
qed

theorem query_on_the_wire_witness:
  "\<exists>c' bs. send_query_params demo_os [120] [] (Params_text []) pipelined_connection = Some (Ok (), c') \<and>
     put_so_far c' = put_so_far pipelined_connection @ bs"
proof -
  obtain c' where c': "send_query_params demo_os [120] [] (Params_text []) pipelined_connection = Some (Ok (), c')"
    using demo_send by blast
  show ?thesis
    using query_on_the_wire [OF c'] c' by blast
qed

end
