(* ===== verification/Negotiate.thy ===== *)
theory Negotiate
  imports Conninfo
begin

text \<open>
  \<open>crates/rlibpq/src/negotiate.rs\<close>: which of plaintext, SSL and GSSAPI a connection attempt may
  use, and in what order it tries them. The options are read out of a working copy; the sets of
  allowed and failed methods are the source's bit masks.

  Shown: validated options always leave a method to try; the methods tried are exactly the
  allowed ones, each once, in the order of preference; and no run of refusals and failures ends
  in a method the options forbid, so that a required encryption is never given up.
\<close>

section \<open>Options\<close>

record build =
  use_ssl :: bool
  enable_gss :: bool

definition Build_THIS :: build where
  "Build_THIS = \<lparr> use_ssl = USE_SSL, enable_gss = ENABLE_GSS \<rparr>"

datatype ssl_mode = SslDisable | SslAllow | SslPrefer | SslRequire | SslVerifyCa | SslVerifyFull

definition ssl_mode_parse :: "bytes \<Rightarrow> ssl_mode option" where
  "ssl_mode_parse v =
     (if v = bstr ''disable'' then Some SslDisable
      else if v = bstr ''allow'' then Some SslAllow
      else if v = bstr ''prefer'' then Some SslPrefer
      else if v = bstr ''require'' then Some SslRequire
      else if v = bstr ''verify-ca'' then Some SslVerifyCa
      else if v = bstr ''verify-full'' then Some SslVerifyFull
      else None)"

definition requires_ssl :: "ssl_mode \<Rightarrow> bool" where
  "requires_ssl m = (m \<in> {SslRequire, SslVerifyCa, SslVerifyFull})"

datatype ssl_negotiation = NegPostgres | NegDirect

datatype gss_enc_mode = GssDisable | GssPrefer | GssRequire

record encryption_options =
  eo_sslmode :: ssl_mode
  eo_sslnegotiation :: ssl_negotiation
  eo_gssencmode :: gss_enc_mode

definition invalid :: "string \<Rightarrow> bytes \<Rightarrow> conn_error" where
  "invalid opt v = InvalidValue (bstr opt) v"

definition get_or :: "conn_info \<Rightarrow> string \<Rightarrow> bytes \<Rightarrow> bytes" where
  "get_or ci keyword d = (case conn_get ci (bstr keyword) of Some v \<Rightarrow> v | None \<Rightarrow> d)"

definition sslmode_text :: "conn_info \<Rightarrow> bytes" where
  "sslmode_text ci = get_or ci ''sslmode'' DEFAULT_SSL_MODE"

definition parse_sslnegotiation :: "bytes \<Rightarrow> (ssl_negotiation, conn_error) result" where
  "parse_sslnegotiation raw =
     (if raw = bstr ''postgres'' then Ok NegPostgres
      else if raw = bstr ''direct'' then Ok NegDirect
      else Err (invalid ''sslnegotiation'' raw))"

definition parse_gssencmode :: "bytes \<Rightarrow> (gss_enc_mode, conn_error) result" where
  "parse_gssencmode raw =
     (if raw = bstr ''disable'' then Ok GssDisable
      else if raw = bstr ''prefer'' then Ok GssPrefer
      else if raw = bstr ''require'' then Ok GssRequire
      else Err (invalid ''gssencmode'' raw))"

definition from_conninfo :: "conn_info \<Rightarrow> build \<Rightarrow> (encryption_options, conn_error) result" where
  "from_conninfo ci b =
     (let root = conn_get ci (bstr ''sslrootcert'') in
      if \<not> use_ssl b \<and> root = Some (bstr ''system'')
      then Err (SslNotCompiledIn (bstr ''sslrootcert'') (bstr ''system''))
      else let raw = get_or ci ''sslmode'' DEFAULT_SSL_MODE in
        and_then (ok_or (ssl_mode_parse raw) (invalid ''sslmode'' raw)) (\<lambda>sslmode.
        if \<not> use_ssl b \<and> requires_ssl sslmode then Err (SslNotCompiledIn (bstr ''sslmode'') raw)
        else let raw = get_or ci ''sslnegotiation'' DEFAULT_SSL_NEGOTIATION in
        and_then (parse_sslnegotiation raw) (\<lambda>sslnegotiation.
        if \<not> use_ssl b \<and> sslnegotiation \<noteq> NegPostgres
        then Err (SslNotCompiledIn (bstr ''sslnegotiation'') raw)
        else if sslnegotiation = NegDirect \<and> \<not> requires_ssl sslmode
        then Err (WeakSslModeWithDirect (sslmode_text ci))
        else if use_ssl b \<and> root = Some (bstr ''system'') \<and> sslmode \<noteq> SslVerifyFull
        then Err (WeakSslModeWithSystemRoot (sslmode_text ci))
        else let raw = get_or ci ''gssencmode'' DEFAULT_GSS_MODE in
        and_then (parse_gssencmode raw) (\<lambda>gssencmode.
        if \<not> enable_gss b \<and> gssencmode = GssRequire then Err (GssNotCompiledIn raw)
        else Ok \<lparr> eo_sslmode = sslmode, eo_sslnegotiation = sslnegotiation,
                  eo_gssencmode = gssencmode \<rparr>))))"

section \<open>Negotiation\<close>

datatype enc_method = EncPlaintext | EncGssapi | EncSsl

primrec enc_bit :: "enc_method \<Rightarrow> byte" where
  "enc_bit EncPlaintext = 1"
| "enc_bit EncGssapi = 2"
| "enc_bit EncSsl = 4"

datatype after_refusal = GiveUp | SameConnection | Reconnect

record negotiation =
  ng_sslmode :: ssl_mode
  ng_sslnegotiation :: ssl_negotiation
  ng_allowed :: byte
  ng_failed :: byte
  ng_current :: "enc_method option"

definition method_order :: "ssl_mode \<Rightarrow> enc_method list" where
  "method_order m =
     (if m = SslAllow then [EncGssapi, EncPlaintext, EncSsl] else [EncGssapi, EncSsl, EncPlaintext])"

definition select_next :: "negotiation \<Rightarrow> bool \<times> negotiation" where
  "select_next n =
     (let remaining = ng_allowed n AND NOT (ng_failed n);
          current = find (\<lambda>m. remaining AND enc_bit m \<noteq> 0) (method_order (ng_sslmode n))
      in (current \<noteq> None, n\<lparr> ng_current := current \<rparr>))"

definition mark_current_failed :: "negotiation \<Rightarrow> negotiation" where
  "mark_current_failed n =
     (case ng_current n of
        Some m \<Rightarrow> n\<lparr> ng_failed := ng_failed n OR enc_bit m \<rparr> | None \<Rightarrow> n)"

definition encryption_negotiation_failed :: "negotiation \<Rightarrow> after_refusal \<times> negotiation" where
  "encryption_negotiation_failed n =
     (let (found, n) = select_next (mark_current_failed n) in
      (if \<not> found then GiveUp
       else if ng_current n = Some EncSsl \<and> ng_sslnegotiation n = NegDirect then Reconnect
       else SameConnection, n))"

definition connection_failed :: "negotiation \<Rightarrow> bool \<times> negotiation" where
  "connection_failed n = select_next (mark_current_failed n)"

text \<open>The mask \<open>start\<close> builds for a network connection.\<close>

definition allowed_mask :: "encryption_options \<Rightarrow> build \<Rightarrow> byte" where
  "allowed_mask opts b =
     (let gss_required = (eo_gssencmode opts = GssRequire);
          a = (if use_ssl b \<and> eo_sslmode opts \<noteq> SslDisable \<and> \<not> gss_required
               then 0 OR enc_bit EncSsl else 0);
          a = (if enable_gss b \<and> eo_gssencmode opts \<noteq> GssDisable then a OR enc_bit EncGssapi else a)
      in if \<not> requires_ssl (eo_sslmode opts) \<and> \<not> gss_required
         then a OR enc_bit EncPlaintext else a)"

definition neg_start :: "encryption_options \<Rightarrow> build \<Rightarrow> bool \<Rightarrow> (negotiation, conn_error) result" where
  "neg_start opts b unix_socket =
     (let n = \<lparr> ng_sslmode = eo_sslmode opts, ng_sslnegotiation = eo_sslnegotiation opts,
                ng_allowed = 0, ng_failed = 0, ng_current = None \<rparr> in
      if unix_socket then
        (if eo_gssencmode opts = GssRequire then Err GssapiOverLocalSocket
         else Ok (n\<lparr> ng_allowed := enc_bit EncPlaintext, ng_current := Some EncPlaintext \<rparr>))
      else Ok (snd (select_next (n\<lparr> ng_allowed := allowed_mask opts b \<rparr>))))"

section \<open>The methods as sets\<close>

primrec enc_pos :: "enc_method \<Rightarrow> nat" where
  "enc_pos EncPlaintext = 0"
| "enc_pos EncGssapi = 1"
| "enc_pos EncSsl = 2"

definition methods :: "byte \<Rightarrow> enc_method set" where
  "methods w = {m. bit w (enc_pos m)}"

lemma enc_bit_exp: "enc_bit m = 2 ^ enc_pos m"
  by (cases m) simp_all

lemma and_enc_bit: "w AND enc_bit m \<noteq> 0 \<longleftrightarrow> m \<in> methods w"
  by (simp add: enc_bit_exp methods_def and_exp_eq_0_iff_not_bit)

lemma enc_pos_inject [simp]: "enc_pos m = enc_pos m' \<longleftrightarrow> m = m'"
  by (cases m; cases m') simp_all

lemma enc_pos_less: "enc_pos m < 8"
  by (cases m) simp_all

lemma methods_or [simp]: "methods (w OR enc_bit m) = insert m (methods w)"
  by (auto simp: methods_def enc_bit_exp bit_simps enc_pos_less)

lemma methods_zero [simp]: "methods 0 = {}"
  by (simp add: methods_def)

lemma methods_diff: "methods (a AND NOT f) = methods a - methods f"
  by (auto simp: methods_def bit_simps enc_pos_less)

lemma methods_plaintext [simp]: "methods 1 = {EncPlaintext}"
  using methods_or [of 0 EncPlaintext] by simp

lemma select_next_eq:
  "select_next n =
     (let c = find (\<lambda>m. m \<in> methods (ng_allowed n) - methods (ng_failed n))
                (method_order (ng_sslmode n))
      in (c \<noteq> None, n\<lparr> ng_current := c \<rparr>))"
  by (simp add: select_next_def and_enc_bit methods_diff)

text \<open>What the options allow over a network connection.\<close>

definition allowed_methods :: "encryption_options \<Rightarrow> build \<Rightarrow> bool \<Rightarrow> enc_method set" where
  "allowed_methods opts b unix_socket =
     (if unix_socket then {EncPlaintext}
      else {m. case m of
          EncSsl \<Rightarrow> use_ssl b \<and> eo_sslmode opts \<noteq> SslDisable \<and> eo_gssencmode opts \<noteq> GssRequire
        | EncGssapi \<Rightarrow> enable_gss b \<and> eo_gssencmode opts \<noteq> GssDisable
        | EncPlaintext \<Rightarrow> \<not> requires_ssl (eo_sslmode opts) \<and> eo_gssencmode opts \<noteq> GssRequire})"

lemma methods_mask: "methods (allowed_mask opts b) = allowed_methods opts b False"
proof -
  define s where "s = (use_ssl b \<and> eo_sslmode opts \<noteq> SslDisable \<and> eo_gssencmode opts \<noteq> GssRequire)"
  define g where "g = (enable_gss b \<and> eo_gssencmode opts \<noteq> GssDisable)"
  define p where "p = (\<not> requires_ssl (eo_sslmode opts) \<and> eo_gssencmode opts \<noteq> GssRequire)"
  define a1 where "a1 = (if s then 0 OR enc_bit EncSsl else 0)"
  define a2 where "a2 = (if g then a1 OR enc_bit EncGssapi else a1)"
  define a3 where "a3 = (if p then a2 OR enc_bit EncPlaintext else a2)"
  have "allowed_mask opts b = a3"
    unfolding allowed_mask_def Let_def a3_def a2_def a1_def s_def g_def p_def by (rule refl)
  have m1: "methods a1 = (if s then {EncSsl} else {})"
    unfolding a1_def by (simp only: methods_or methods_zero split: if_split) simp
  have m2: "methods a2 = (if g then insert EncGssapi (methods a1) else methods a1)"
    unfolding a2_def by (simp only: methods_or split: if_split) simp
  have m3: "methods a3 = (if p then insert EncPlaintext (methods a2) else methods a2)"
    unfolding a3_def by (simp only: methods_or split: if_split) simp
  have "methods a3 = {m. case m of EncSsl \<Rightarrow> s | EncGssapi \<Rightarrow> g | EncPlaintext \<Rightarrow> p}"
  proof (rule set_eqI)
    fix m
    show "m \<in> methods a3 \<longleftrightarrow> m \<in> {m. case m of EncSsl \<Rightarrow> s | EncGssapi \<Rightarrow> g | EncPlaintext \<Rightarrow> p}"
      unfolding m3 m2 m1 by (cases m) simp_all
  qed
  with \<open>allowed_mask opts b = a3\<close> show ?thesis
    unfolding allowed_methods_def s_def g_def p_def by simp
qed

lemma neg_start_Ok:
  assumes "neg_start opts b unix = Ok n"
  shows "methods (ng_allowed n) = allowed_methods opts b unix" "ng_failed n = 0"
    "ng_sslmode n = eo_sslmode opts" "ng_sslnegotiation n = eo_sslnegotiation opts"
    "ng_current n = find (\<lambda>m. m \<in> allowed_methods opts b unix) (method_order (eo_sslmode opts))"
proof -
  let ?n = "\<lparr> ng_sslmode = eo_sslmode opts, ng_sslnegotiation = eo_sslnegotiation opts,
              ng_allowed = 0, ng_failed = 0, ng_current = None \<rparr>"
  have n: "n = (if unix
      then ?n\<lparr> ng_allowed := enc_bit EncPlaintext, ng_current := Some EncPlaintext \<rparr>
      else snd (select_next (?n\<lparr> ng_allowed := allowed_mask opts b \<rparr>)))"
    using assms by (simp add: neg_start_def Let_def split: if_splits)
  have m: "methods (ng_allowed n) = allowed_methods opts b unix \<and> ng_failed n = 0 \<and>
    ng_sslmode n = eo_sslmode opts \<and> ng_sslnegotiation n = eo_sslnegotiation opts"
    using methods_mask [of opts b]
    by (simp add: n select_next_eq Let_def allowed_methods_def)
  then show "methods (ng_allowed n) = allowed_methods opts b unix" "ng_failed n = 0"
    "ng_sslmode n = eo_sslmode opts" "ng_sslnegotiation n = eo_sslnegotiation opts"
    by blast+
  show "ng_current n = find (\<lambda>m. m \<in> allowed_methods opts b unix) (method_order (eo_sslmode opts))"
    using methods_mask [of opts b]
    by (simp add: n select_next_eq Let_def allowed_methods_def method_order_def)
qed

section \<open>Runs of a negotiation\<close>

inductive neg_step :: "negotiation \<Rightarrow> negotiation \<Rightarrow> bool" where
  refused: "neg_step n (snd (encryption_negotiation_failed n))"
| failed: "neg_step n (snd (connection_failed n))"

lemma neg_step_iff: "neg_step n n' \<longleftrightarrow> n' = snd (select_next (mark_current_failed n))"
  by (auto simp: neg_step.simps encryption_negotiation_failed_def connection_failed_def
      split: prod.splits)

definition neg_inv :: "encryption_options \<Rightarrow> build \<Rightarrow> bool \<Rightarrow> negotiation \<Rightarrow> bool" where
  "neg_inv opts b unix n =
     (methods (ng_allowed n) = allowed_methods opts b unix \<and>
      (\<forall>m. ng_current n = Some m \<longrightarrow>
         m \<in> allowed_methods opts b unix \<and> m \<notin> methods (ng_failed n)))"

lemma find_Some_in: "find P xs = Some x \<Longrightarrow> x \<in> set xs \<and> P x"
  by (induction xs) (auto split: if_splits)

lemma mark_sel [simp]:
  "ng_allowed (mark_current_failed n) = ng_allowed n"
  "ng_sslmode (mark_current_failed n) = ng_sslmode n"
  "ng_sslnegotiation (mark_current_failed n) = ng_sslnegotiation n"
  "ng_current (mark_current_failed n) = ng_current n"
  by (simp_all add: mark_current_failed_def split: option.splits)

interpretation negotiating: machine "\<lambda>n. neg_start opts b unix = Ok n" neg_step "neg_inv opts b unix"
  for opts b unix
proof unfold_locales
  show "neg_start opts b unix = Ok n \<Longrightarrow> neg_inv opts b unix n" for n
    using neg_start_Ok [of opts b unix n] by (auto simp: neg_inv_def dest: find_Some_in)
  show "neg_inv opts b unix n \<Longrightarrow> neg_step n n' \<Longrightarrow> neg_inv opts b unix n'" for n n'
    by (auto simp: neg_step_iff neg_inv_def select_next_eq Let_def dest: find_Some_in)
qed


text \<open>C12: No downgrade. However an encrypted connection is refused or fails, in any order and any
  number of times, the negotiation never turns to a method the options forbid: with an \<open>sslmode\<close> of
  \<open>require\<close>, \<open>verify-ca\<close> or \<open>verify-full\<close> over a network never to plaintext; with \<open>gssencmode=require\<close>
  to nothing but GSSAPI; with \<open>sslmode=disable\<close> never to SSL; and over a Unix socket to nothing but
  plaintext. Nor does it come back to a method that has failed.\<close>

theorem no_downgrade:
  assumes "reach (\<lambda>n. neg_start opts b unix = Ok n) neg_step n" and "ng_current n = Some m"
  shows "m \<notin> methods (ng_failed n) \<and>
         (\<not> unix \<and> requires_ssl (eo_sslmode opts) \<longrightarrow> m \<noteq> EncPlaintext) \<and>
         (\<not> unix \<and> eo_gssencmode opts = GssRequire \<longrightarrow> m = EncGssapi) \<and>
         (eo_sslmode opts = SslDisable \<longrightarrow> m \<noteq> EncSsl) \<and>
         (\<not> enable_gss b \<longrightarrow> m \<noteq> EncGssapi) \<and> (\<not> use_ssl b \<longrightarrow> m \<noteq> EncSsl) \<and>
         (unix \<longrightarrow> m = EncPlaintext)"
  using negotiating.reach_inv [OF assms(1)] assms(2)
  by (cases m) (auto simp: neg_inv_def allowed_methods_def split: if_splits)

theorem no_downgrade_witness:
  "ng_current (snd (connection_failed
      \<lparr> ng_sslmode = SslRequire, ng_sslnegotiation = NegPostgres, ng_allowed = 4, ng_failed = 0,
        ng_current = Some EncSsl \<rparr>)) \<noteq> Some EncPlaintext"
proof
  let ?o = "\<lparr> eo_sslmode = SslRequire, eo_sslnegotiation = NegPostgres, eo_gssencmode = GssDisable \<rparr>"
  let ?b = "\<lparr> use_ssl = True, enable_gss = False \<rparr>"
  let ?n = "\<lparr> ng_sslmode = SslRequire, ng_sslnegotiation = NegPostgres, ng_allowed = 4, ng_failed = 0,
        ng_current = Some EncSsl \<rparr>"
  assume p: "ng_current (snd (connection_failed ?n)) = Some EncPlaintext"
  have "neg_start ?o ?b False = Ok ?n"
    by (simp add: neg_start_def allowed_mask_def requires_ssl_def select_next_def method_order_def)
  then have "reach (\<lambda>n. neg_start ?o ?b False = Ok n) neg_step ?n"
    by (rule reach_init)
  from reach_step [OF this failed] show False
    using no_downgrade [of ?o ?b False _ EncPlaintext] p by (auto simp: requires_ssl_def)
qed

text \<open>The methods a connection attempt goes through when every one fails.\<close>

fun attempts :: "nat \<Rightarrow> negotiation \<Rightarrow> enc_method list" where
  "attempts 0 n = []"
| "attempts (Suc k) n =
     (case ng_current n of
        None \<Rightarrow> [] | Some m \<Rightarrow> m # attempts k (snd (connection_failed n)))"

lemma find_skip: "\<forall>x \<in> set ys. \<not> P x \<Longrightarrow> find P (ys @ zs) = find P zs"
  by (induction ys) auto

lemma attempts_filter:
  assumes "ng_current n = find (\<lambda>m. m \<in> A - methods (ng_failed n)) ms" and "distinct ms"
    and "methods (ng_allowed n) = A" and "method_order (ng_sslmode n) = ds @ ms"
    and "A \<inter> set ds \<subseteq> methods (ng_failed n)" and "length ms \<le> k"
    and "set ms \<inter> methods (ng_failed n) = {}"
  shows "attempts k n = filter (\<lambda>m. m \<in> A) ms"
  using assms
proof (induction ms arbitrary: ds n k)
  case Nil
  then show ?case
    by (cases k) simp_all
next
  case (Cons m ms)
  show ?case
  proof (cases "m \<in> A")
    case False
    then have "attempts k n = filter (\<lambda>m. m \<in> A) ms"
      using Cons.prems by (intro Cons.IH [of n "ds @ [m]" k]) auto
    then show ?thesis
      using False by simp
  next
    case True
    obtain k' where k: "k = Suc k'"
      using Cons.prems(6) by (cases k) simp_all
    have cur: "ng_current n = Some m"
      using Cons.prems True by auto
    let ?n = "snd (connection_failed n)"
    have f: "methods (ng_failed ?n) = insert m (methods (ng_failed n))"
      "ng_allowed ?n = ng_allowed n" "ng_sslmode ?n = ng_sslmode n"
      "ng_current ?n = find (\<lambda>x. x \<in> methods (ng_allowed n) - methods (ng_failed ?n))
         (method_order (ng_sslmode n))"
      using cur by (simp_all add: connection_failed_def select_next_eq Let_def mark_current_failed_def
          del: enc_bit.simps)
    have "ng_current ?n = find (\<lambda>x. x \<in> A - methods (ng_failed ?n)) ((ds @ [m]) @ ms)"
      using f(4) Cons.prems(3,4) by simp
    also have "\<dots> = find (\<lambda>x. x \<in> A - methods (ng_failed ?n)) ms"
      using Cons.prems(5) f(1) by (intro find_skip) auto
    finally have "attempts k' ?n = filter (\<lambda>m. m \<in> A) ms"
      using Cons.prems f k by (intro Cons.IH [of ?n "ds @ [m]" k']) auto
    then show ?thesis
      using True cur k by simp
  qed
qed

text \<open>The methods are tried in their order, each at most once. When every attempt fails, the
  methods gone through are exactly the allowed ones: GSSAPI first, then SSL before plaintext, or
  plaintext before SSL under \<open>sslmode=allow\<close>; after at most three failures there is nothing left.\<close>

lemma attempts_in_order:
  assumes "neg_start opts b unix = Ok n" and "3 \<le> k"
  shows "attempts k n =
    filter (\<lambda>m. m \<in> allowed_methods opts b unix)
      (if eo_sslmode opts = SslAllow then [EncGssapi, EncPlaintext, EncSsl]
       else [EncGssapi, EncSsl, EncPlaintext])"
proof -
  have "attempts k n =
      filter (\<lambda>m. m \<in> allowed_methods opts b unix) (method_order (eo_sslmode opts))"
    using neg_start_Ok [OF assms(1)] assms(2)
    by (intro attempts_filter [of _ _ _ "[]"]) (auto simp: method_order_def)
  then show ?thesis
    by (simp add: method_order_def)
qed

section \<open>Validated options\<close>

lemma from_conninfo_Ok:
  assumes "from_conninfo ci b = Ok opts"
  shows "\<not> use_ssl b \<Longrightarrow> \<not> requires_ssl (eo_sslmode opts)"
    and "eo_sslnegotiation opts = NegDirect \<Longrightarrow> requires_ssl (eo_sslmode opts)"
    and "\<not> enable_gss b \<Longrightarrow> eo_gssencmode opts \<noteq> GssRequire"
    and "conn_get ci (bstr ''sslrootcert'') = Some (bstr ''system'') \<Longrightarrow>
         use_ssl b \<and> eo_sslmode opts = SslVerifyFull"
    and "ssl_mode_parse (get_or ci ''sslmode'' DEFAULT_SSL_MODE) = Some (eo_sslmode opts)"
  using assms
  by (auto simp: from_conninfo_def Let_def simp del: bstr_Cons split: if_splits)

text \<open>Validated options can be honoured. If \<open>from_conninfo\<close> accepts the options for a build and
  the negotiation starts, there is a method to try; the accepted \<open>sslmode\<close> is the one spelled;
  direct SSL negotiation and \<open>sslrootcert=system\<close> are accepted only with an \<open>sslmode\<close> that cannot fall
  back to plaintext, the latter only with \<open>verify-full\<close>.\<close>

lemma validated_options_usable:
  assumes "from_conninfo ci b = Ok opts" and "neg_start opts b unix = Ok n"
  shows "ng_current n \<noteq> None \<and>
         ssl_mode_parse (sslmode_text ci) = Some (eo_sslmode opts) \<and>
         (eo_sslnegotiation opts = NegDirect \<longrightarrow> requires_ssl (eo_sslmode opts)) \<and>
         (conn_get ci (bstr ''sslrootcert'') = Some (bstr ''system'') \<longrightarrow>
            eo_sslmode opts = SslVerifyFull \<and> (\<not> unix \<longrightarrow> ng_current n \<noteq> Some EncPlaintext))"
proof -
  note o = from_conninfo_Ok [OF assms(1)]
  have "EncPlaintext \<in> allowed_methods opts b unix \<or> EncGssapi \<in> allowed_methods opts b unix \<or>
      EncSsl \<in> allowed_methods opts b unix"
    using o(1,3) by (auto simp: allowed_methods_def requires_ssl_def)
  then have "ng_current n \<noteq> None"
    using neg_start_Ok(5) [OF assms(2)] by (auto simp: method_order_def find_None_iff)
  moreover have "ng_current n \<noteq> Some EncPlaintext" if "\<not> unix" "eo_sslmode opts = SslVerifyFull"
    using neg_start_Ok(5) [OF assms(2)] that
    by (auto simp: allowed_methods_def requires_ssl_def dest: find_Some_in)
  ultimately show ?thesis
    using o(2,4,5) by (simp add: sslmode_text_def)
qed

end
