(* ===== verification/Startup.thy ===== *)
theory Startup
  imports Session Hosts Negotiate
begin

text \<open>
  Opening a connection, \<open>crates/rlibpq/src/connection.rs\<close>: the port and the address of a host, the startup
  packet and the exchange that follows it, and the walk over the hosts of \<open>Connection::connect\<close>.

  The rest of the operating system is the argument \<open>sys\<close>: what a name resolves to, what a connect to an
  address gives (a socket, that is an \<open>os\<close>), random bytes, and the seed that is used without them. Each
  call is answered for its point in the sequence of calls.

  Shown: a port is accepted exactly when it is a decimal number from 1 to 65535 between spaces; every
  connection that is handed out was accepted by the check of the wanted kind of server; the walk never
  ends without a reason.
\<close>

section \<open>The port\<close>

definition DEF_PGPORT :: u16 where
  "DEF_PGPORT = 5432"

definition is_c_space :: "byte \<Rightarrow> bool" where
  "is_c_space b = (b \<in> {32, 9, 10, 11, 12, 13})"

definition without_leading_space :: "bytes \<Rightarrow> bytes" where
  "without_leading_space bs = dropWhile is_c_space bs"

text \<open>One step of the checked \<open>i64\<close> accumulation.\<close>

definition i64_digit :: "int option \<Rightarrow> byte \<Rightarrow> int option" where
  "i64_digit acc d =
     Option.bind acc (\<lambda>acc.
       if 10 * acc < 2 ^ 63 \<and> 10 * acc + int (unat (d - 48)) < 2 ^ 63
       then Some (10 * acc + int (unat (d - 48))) else None)"

definition strtol_int :: "bytes \<Rightarrow> int option" where
  "strtol_int v =
     (let body = without_leading_space v;
          (negative, after_sign) =
            (case body of
               [] \<Rightarrow> (False, body)
             | b # rest \<Rightarrow> if b = 45 then (True, rest) else if b = 43 then (False, rest) else (False, body));
          digits = takeWhile is_ascii_digit after_sign;
          tail = dropWhile is_ascii_digit after_sign
      in if digits = [] \<or> without_leading_space tail \<noteq> [] then None
         else Option.bind (foldl i64_digit (Some 0) digits) (\<lambda>magnitude.
           i32_checked (if negative then - magnitude else magnitude)))"

definition parse_int_param :: "bytes \<Rightarrow> string \<Rightarrow> (int, conn_error) result" where
  "parse_int_param v option = ok_or (strtol_int v) (InvalidIntegerValue v (bstr option))"

definition conn_parse_port :: "bytes option \<Rightarrow> (u16, conn_error) result" where
  "conn_parse_port raw =
     (case (case raw of Some v \<Rightarrow> if v = [] then None else Some v | None \<Rightarrow> None) of
        None \<Rightarrow> Ok DEF_PGPORT
      | Some v \<Rightarrow>
          and_then (parse_int_param v ''port'') (\<lambda>n.
            if 0 < n \<and> n < 2 ^ 16 then Ok (of_int n) else Err (InvalidPortNumber v)))"

section \<open>The address\<close>

datatype address = AddrTcp bytes u16 | AddrUnix bytes

definition unix_socket_path :: "bytes \<Rightarrow> u16 \<Rightarrow> bytes" where
  "unix_socket_path sockdir port = sockdir @ bstr ''/.s.PGSQL.'' @ dec_digits (unat port)"

definition host_text :: "bytes option \<Rightarrow> bytes" where
  "host_text v = utf8_lossy (case v of Some b \<Rightarrow> b | None \<Rightarrow> [])"

definition host_address :: "conn_host \<Rightarrow> u16 \<Rightarrow> address" where
  "host_address host port =
     (case ch_kind host of
        HostAddress \<Rightarrow> AddrTcp (host_text (ch_hostaddr host)) port
      | HostName \<Rightarrow> AddrTcp (host_text (ch_host host)) port
      | UnixSocket \<Rightarrow> AddrUnix (unix_socket_path (host_text (ch_host host)) port))"

definition socket_address :: "conn_info \<Rightarrow> (address, conn_error) result" where
  "socket_address ci =
     and_then (conn_hosts ci) (\<lambda>hosts.
       let first = hosts ! 0 in
       and_then (conn_parse_port (ch_port first)) (\<lambda>port. Ok (host_address first port)))"

section \<open>The startup exchange\<close>

definition RAW_NONCE_LEN :: nat where
  "RAW_NONCE_LEN = 18"

definition get_text :: "conn_info \<Rightarrow> string \<Rightarrow> bytes" where
  "get_text ci keyword = (case conn_get ci (bstr keyword) of Some v \<Rightarrow> v | None \<Rightarrow> [])"

definition add_parameter :: "string \<Rightarrow> bytes \<Rightarrow> (bytes \<times> bytes) list" where
  "add_parameter name v = (if v \<noteq> [] then [(bstr name, v)] else [])"

definition conn_startup_parameters :: "conn_info \<Rightarrow> (bytes \<times> bytes) list" where
  "conn_startup_parameters ci =
     add_parameter ''user'' (get_text ci ''user'') @
     add_parameter ''database'' (get_text ci ''dbname'') @
     add_parameter ''replication'' (get_text ci ''replication'') @
     add_parameter ''options'' (get_text ci ''options'') @
     (let appname = get_text ci ''application_name'' in
      if appname = [] then add_parameter ''application_name'' (get_text ci ''fallback_application_name'')
      else add_parameter ''application_name'' appname) @
     add_parameter ''client_encoding'' (get_text ci ''client_encoding'')"

definition channel_binding_option :: "conn_info \<Rightarrow> channel_binding" where
  "channel_binding_option ci =
     (let v = conn_get ci (bstr ''channel_binding'') in
      if v = Some (bstr ''disable'') then CbDisable
      else if v = Some (bstr ''require'') then CbRequire else CbPrefer)"

definition startup_authenticator :: "conn_info \<Rightarrow> bytes \<Rightarrow> authenticator" where
  "startup_authenticator ci raw_nonce =
     with_channel_binding (channel_binding_option ci)
       (Authenticator_new (get_text ci ''user'') (conn_get ci (bstr ''password'')) raw_nonce)"

definition opened :: "net \<Rightarrow> bytes \<Rightarrow> connection" where
  "opened n startup =
     \<lparr> cn_net = n, cn_inbuf = [], cn_start = 0, cn_outbuf = startup, cn_state = PipelineState_new,
       cn_parameters = [], cn_backend_pid = 0, cn_cancel_key = [], cn_transaction_status = UnknownStatus,
       cn_notices = [], cn_notifications = [], cn_trace = None, cn_raddr = None, cn_nonblocking = False \<rparr>"

text \<open>What one message of the exchange comes to: \<open>SU_Next\<close> goes on, \<open>SU_Answer\<close> sends an answer and goes on.\<close>

datatype startup_step = SU_Next | SU_Answer frontend | SU_Ready | SU_Fail connection_error

definition startup_message ::
  "backend \<Rightarrow> authenticator \<Rightarrow> connection \<Rightarrow> startup_step \<times> authenticator \<times> connection" where
  "startup_message m a c =
     (case m of
        Authentication request \<Rightarrow>
          (case respond a request of (r, a) \<Rightarrow>
             (case r of
                Err e \<Rightarrow> SU_Fail (CE_Auth e)
              | Ok (SendMessage reply) \<Rightarrow> SU_Answer reply
              | Ok _ \<Rightarrow> SU_Next, a, c))
      | ParameterStatus name v \<Rightarrow>
          (SU_Next, a, c\<lparr> cn_state := save_parameter_status (cn_state c) name v,
                          cn_parameters := cn_parameters c @ [(name, v)] \<rparr>)
      | BackendKeyData pid key \<Rightarrow> (SU_Next, a, c\<lparr> cn_backend_pid := pid, cn_cancel_key := key \<rparr>)
      | NoticeResponse notice \<Rightarrow> (SU_Next, a, c\<lparr> cn_notices := cn_notices c @ [notice] \<rparr>)
      | ErrorResponse error \<Rightarrow> (SU_Fail (CE_Server error), a, c)
      | ReadyForQuery status \<Rightarrow> (SU_Ready, a, c\<lparr> cn_transaction_status := status \<rparr>)
      | NegotiateProtocolVersion _ _ \<Rightarrow> (SU_Next, a, c)
      | other \<Rightarrow> (SU_Fail (UnexpectedMessage (message_id other)), a, c))"

partial_function (option) startup_loop :: "os \<Rightarrow> authenticator \<Rightarrow> unit io" where
  "startup_loop os a c =
     io_bind (read_message os) (\<lambda>m c.
       case startup_message m a c of (step, a, c) \<Rightarrow>
         (case step of
            SU_Next \<Rightarrow> startup_loop os a c
          | SU_Answer reply \<Rightarrow> io_bind (send os reply) (\<lambda>_. startup_loop os a) c
          | SU_Ready \<Rightarrow> Some (Ok (), c)
          | SU_Fail e \<Rightarrow> Some (Err e, c))) c"

text \<open>\<open>Connection::start_up\<close> over a socket that was just opened. \<open>None\<close>: the startup packet is longer than its
  length word can say, or the exchange does not end.\<close>

definition start_up :: "os \<Rightarrow> conn_info \<Rightarrow> bytes \<Rightarrow> (connection, connection_error) result option" where
  "start_up os ci raw_nonce =
     Option.bind (encode (Startup PROTOCOL_VERSION_3_0 (conn_startup_parameters ci))) (\<lambda>startup.
     Option.bind
       (io_bind (flush os) (\<lambda>_. startup_loop os (startup_authenticator ci raw_nonce))
          (opened (fresh_net 0) startup))
       (\<lambda>(r, c). Some (and_then r (\<lambda>_. Ok c))))"

section \<open>Holding a server to the target\<close>

definition check_target_conn ::
  "os \<Rightarrow> target_server_type \<Rightarrow> bool \<Rightarrow> target_rejection option io" where
  "check_target_conn os target second_pass c =
     conn_check_target (\<lambda>c query. exec os query c) (\<lambda>c. map_option snd (terminate os c)) (parameter_status c)
       target second_pass c"

section \<open>The walk over the hosts\<close>

record system =
  sys_resolve :: "nat \<Rightarrow> bytes \<Rightarrow> u16 \<Rightarrow> (bytes list, io_error) result"
  sys_connect :: "nat \<Rightarrow> peer \<Rightarrow> (os, io_error) result"
  sys_nonblocking :: "nat \<Rightarrow> (unit, io_error) result"
  sys_random :: "nat \<Rightarrow> nat \<Rightarrow> (bytes, io_error) result"
  sys_seed :: u64
  sys_little_endian :: bool

definition ERRCODE_CANNOT_CONNECT_NOW :: bytes where
  "ERRCODE_CANNOT_CONNECT_NOW = bstr ''57P03''"

definition resolve :: "system \<Rightarrow> nat \<Rightarrow> address \<Rightarrow> (peer list, io_error) result" where
  "resolve sys k a =
     (case a of
        AddrTcp host port \<Rightarrow> and_then (sys_resolve sys k host port) (\<lambda>as. Ok (map PeerTcp as))
      | AddrUnix path \<Rightarrow> Ok [PeerUnix path])"

definition libpq_prng_init :: "system \<Rightarrow> nat \<Rightarrow> prng" where
  "libpq_prng_init sys k =
     (case sys_random sys k 16 of
        Ok bs \<Rightarrow> if length bs = 16 then strong_seed (sys_little_endian sys) bs else prng_seed (sys_seed sys)
      | Err _ \<Rightarrow> prng_seed (sys_seed sys))"

text \<open>How an attempt ends: the call returns, or the host is left with the last error so far.\<close>

datatype attempt =
    Returns "(os \<times> connection, connection_error) result"
  | Left "connection_error option"

definition is_unix_peer :: "peer \<Rightarrow> bool" where
  "is_unix_peer p = (case p of PeerUnix _ \<Rightarrow> True | PeerTcp _ \<Rightarrow> False)"

text \<open>A connected socket: the exchange, then the check of the server.\<close>

definition try_server ::
  "conn_info \<Rightarrow> target_server_type \<Rightarrow> bool \<Rightarrow> peer \<Rightarrow> os \<Rightarrow> bytes \<Rightarrow> attempt option" where
  "try_server ci target second_pass p os nonce =
     Option.bind (start_up os ci nonce) (\<lambda>r.
       case r of
         Ok conn \<Rightarrow>
           Option.bind (check_target_conn os target second_pass (conn\<lparr> cn_raddr := Some p \<rparr>)) (\<lambda>(r, conn).
             Some (case r of
                     Ok None \<Rightarrow> Returns (Ok (os, conn))
                   | Ok (Some rejection) \<Rightarrow> Left (Some (CE_Target rejection))
                   | Err e \<Rightarrow> Returns (Err e)))
       | Err e \<Rightarrow>
           Some (case e of
                   CE_Server err \<Rightarrow>
                     if re_sqlstate err = Some ERRCODE_CANNOT_CONNECT_NOW then Left (Some e)
                     else Returns (Err e)
                 | _ \<Rightarrow> Returns (Err e)))"

text \<open>The addresses of one host. The \<open>debug_assert\<close> on the negotiated method is a \<open>None\<close>.\<close>

fun try_peers ::
  "system \<Rightarrow> conn_info \<Rightarrow> encryption_options \<Rightarrow> target_server_type \<Rightarrow> bool \<Rightarrow> peer list \<Rightarrow>
   connection_error option \<Rightarrow> nat \<Rightarrow> (attempt \<times> nat) option" where
  "try_peers sys ci opts target second_pass [] last_error k = Some (Left last_error, k)"
| "try_peers sys ci opts target second_pass (p # ps) last_error k =
     (case neg_start opts Build_THIS (is_unix_peer p) of
        Err e \<Rightarrow> Some (Returns (Err (CE_Conninfo e)), k)
      | Ok negotiation \<Rightarrow>
          if ng_current negotiation \<noteq> Some EncPlaintext then None
          else
            case sys_connect sys k p of
              Err e \<Rightarrow> try_peers sys ci opts target second_pass ps (Some (CE_Io e)) (Suc k)
            | Ok os \<Rightarrow>
                (case and_then (sys_nonblocking sys k) (\<lambda>_. sys_random sys k RAW_NONCE_LEN) of
                   Err e \<Rightarrow> Some (Returns (Err (CE_Io e)), Suc k)
                 | Ok nonce \<Rightarrow>
                     map_option (\<lambda>a. (a, Suc k)) (try_server ci target second_pass p os nonce)))"

text \<open>The generator is threaded where \<open>load_balance_hosts\<close> asks for one.\<close>

definition shuffled :: "prng option \<Rightarrow> 'a list \<Rightarrow> ('a list \<times> prng option) option" where
  "shuffled g items =
     (case g of None \<Rightarrow> Some (items, None) | Some g \<Rightarrow> map_option (\<lambda>(items, g). (items, Some g)) (shuffle g items))"

fun try_hosts ::
  "system \<Rightarrow> conn_info \<Rightarrow> encryption_options \<Rightarrow> target_server_type \<Rightarrow> bool \<Rightarrow> conn_host list \<Rightarrow>
   connection_error option \<Rightarrow> prng option \<Rightarrow> nat \<Rightarrow> (attempt \<times> prng option \<times> nat) option" where
  "try_hosts sys ci opts target second_pass [] last_error g k = Some (Left last_error, g, k)"
| "try_hosts sys ci opts target second_pass (h # hs) last_error g k =
     (case conn_parse_port (ch_port h) of
        Err e \<Rightarrow>
          (case e of
             InvalidPortNumber _ \<Rightarrow>
               try_hosts sys ci opts target second_pass hs (Some (CE_Conninfo e)) g k
           | _ \<Rightarrow> Some (Returns (Err (CE_Conninfo e)), g, k))
      | Ok port \<Rightarrow>
          (case resolve sys k (host_address h port) of
             Err e \<Rightarrow> try_hosts sys ci opts target second_pass hs (Some (CE_Io e)) g (Suc k)
           | Ok peers \<Rightarrow>
               Option.bind (shuffled g peers) (\<lambda>(peers, g).
                 Option.bind (try_peers sys ci opts target second_pass peers last_error (Suc k)) (\<lambda>(a, k).
                   case a of
                     Returns r \<Rightarrow> Some (Returns r, g, k)
                   | Left last_error \<Rightarrow> try_hosts sys ci opts target second_pass hs last_error g k))))"

fun try_passes ::
  "system \<Rightarrow> conn_info \<Rightarrow> encryption_options \<Rightarrow> target_server_type \<Rightarrow> conn_host list \<Rightarrow> bool list \<Rightarrow>
   connection_error option \<Rightarrow> prng option \<Rightarrow> nat \<Rightarrow> attempt option" where
  "try_passes sys ci opts target hosts [] last_error g k = Some (Left last_error)"
| "try_passes sys ci opts target hosts (second_pass # ps) last_error g k =
     Option.bind (try_hosts sys ci opts target second_pass hosts last_error g k) (\<lambda>(a, g, k).
       case a of
         Returns r \<Rightarrow> Some (Returns r)
       | Left last_error \<Rightarrow> try_passes sys ci opts target hosts ps last_error g k)"

definition passes :: "target_server_type \<Rightarrow> bool list" where
  "passes target = (if target = PreferStandby then [False, True] else [False])"

text \<open>What \<open>connect\<close> settles before it opens a socket.\<close>

definition connect_options ::
  "conn_info \<Rightarrow> (conn_host list \<times> encryption_options \<times> target_server_type \<times> load_balance, conn_error) result" where
  "connect_options ci =
     and_then (conn_hosts ci) (\<lambda>hosts.
     and_then (from_conninfo ci Build_THIS) (\<lambda>opts.
     and_then (target_from_conninfo ci) (\<lambda>target.
     and_then (load_balance_from_conninfo ci) (\<lambda>balance. Ok (hosts, opts, target, balance)))))"

text \<open>\<open>Connection::connect\<close>. The last \<open>None\<close> is the \<open>expect\<close> of an error.\<close>

definition connect :: "system \<Rightarrow> conn_info \<Rightarrow> (os \<times> connection, connection_error) result option" where
  "connect sys ci =
     (case connect_options ci of
        Err e \<Rightarrow> Some (Err (CE_Conninfo e))
      | Ok (hosts, opts, target, balance) \<Rightarrow>
          Option.bind (shuffled (if balance = LbRandom then Some (libpq_prng_init sys 0) else None) hosts) (\<lambda>(hosts, g).
            Option.bind (try_passes sys ci opts target hosts (passes target) None g 1) (\<lambda>a.
              case a of
                Returns r \<Rightarrow> Some r
              | Left (Some e) \<Rightarrow> Some (Err e)
              | Left None \<Rightarrow> None)))"

section \<open>Ports\<close>

lemma i64_digits:
  "foldl i64_digit (Some 0) ds = (if dec_value ds < 2 ^ 63 then Some (int (dec_value ds)) else None)"
proof (induction ds rule: rev_induct)
  case Nil
  then show ?case by (simp add: dec_value_def)
next
  case (snoc d ds)
  have "i64_digit (Some (int n)) d = (if 10 * n + unat (d - 48) < 2 ^ 63 then Some (int (10 * n + unat (d - 48))) else None)" for n
    unfolding i64_digit_def by (simp del: int_nat_eq of_nat_unat add: of_nat_add [symmetric] of_nat_mult [symmetric] flip: of_nat_less_iff)
  moreover have "i64_digit None d = None"
    by (simp add: i64_digit_def)
  ultimately show ?case
    using snoc by (auto simp: dec_value_snoc)
qed

lemma strtol_int_shape:
  assumes "list_all is_c_space before" and "list_all is_c_space after" and "list_all is_ascii_digit ds" and "ds \<noteq> []"
    and "sign \<in> {[], [43], [45]}"
  shows "strtol_int (before @ sign @ ds @ after) =
    (if dec_value ds < 2 ^ 63
     then i32_checked (if sign = [45] then - int (dec_value ds) else int (dec_value ds)) else None)"
proof -
  obtain d ds' where ds: "ds = d # ds'" "is_ascii_digit d"
    using assms(3,4) by (cases ds) auto
  have digit: "\<not> is_c_space b" "b \<noteq> 43" "b \<noteq> 45" if "is_ascii_digit b" for b
    using that by (auto simp: is_ascii_digit_def is_c_space_def)
  have space: "\<not> is_ascii_digit b" if "is_c_space b" for b
    using that digit(1) by blast
  have "without_leading_space (before @ sign @ ds @ after) = sign @ ds @ after"
    using assms(1,5) ds digit unfolding without_leading_space_def
    by (induction before) (auto simp: is_c_space_def)
  moreover have "takeWhile is_ascii_digit (ds @ after) = ds" "dropWhile is_ascii_digit (ds @ after) = after"
    using assms(2,3) space by (induction ds) (auto simp: list_all_iff takeWhile_eq_Nil_iff dropWhile_eq_self_iff)
  moreover have "without_leading_space after = []"
    using assms(2) by (simp add: without_leading_space_def list_all_iff)
  ultimately show ?thesis
    using assms(4,5) ds digit(2,3) [OF ds(2)]
    by (auto simp: strtol_int_def Let_def i64_digits simp del: foldl.simps)
qed

lemma strtol_int_split:
  assumes "strtol_int v = Some n"
  obtains before sign ds after where "v = before @ sign @ ds @ after" "list_all is_c_space before" "list_all is_c_space after"
    "list_all is_ascii_digit ds" "ds \<noteq> []" "sign \<in> {[], [43], [45]}"
proof -
  define before where "before = takeWhile is_c_space v"
  define body where "body = dropWhile is_c_space v"
  define sign where "sign = (case body of [] \<Rightarrow> [] | b # _ \<Rightarrow> if b = 45 \<or> b = 43 then [b] else [])"
  define rest where "rest = drop (length sign) body"
  define ds where "ds = takeWhile is_ascii_digit rest"
  define after where "after = dropWhile is_ascii_digit rest"
  have body: "body = sign @ rest"
    by (auto simp: sign_def rest_def split: list.split)
  have v: "v = before @ sign @ ds @ after"
    using body takeWhile_dropWhile_id [of is_c_space v] by (simp add: before_def body_def ds_def after_def)
  have "ds \<noteq> [] \<and> dropWhile is_c_space after = []"
  proof (rule ccontr)
    assume "\<not> ?thesis"
    then have "strtol_int v = None"
      unfolding strtol_int_def without_leading_space_def body_def [symmetric] ds_def after_def rest_def sign_def
      by (auto simp: Let_def split: list.splits if_splits)
    then show False
      using assms by simp
  qed
  then have "list_all is_c_space after" "ds \<noteq> []"
    by (simp_all add: list_all_iff)
  moreover have "list_all is_c_space before" "list_all is_ascii_digit ds" "sign \<in> {[], [43], [45]}"
    by (auto simp: before_def ds_def sign_def list_all_iff dest: set_takeWhileD split: list.split)
  ultimately show ?thesis
    using that v by blast
qed

text \<open>A port is read exactly: an absent or empty value is 5432, and any other value is accepted if and only
  if it is a decimal number from 1 to 65535 with at most a plus sign before it and only spaces around
  it; the port is then that number. Values too large for the machine are refused like all others.\<close>

lemma parse_port_exact:
  "conn_parse_port None = Ok 5432 \<and>
   (conn_parse_port (Some v) = Ok port \<longleftrightarrow>
      (if v = [] then port = 5432
       else \<exists>before sign ds after. v = before @ sign @ ds @ after \<and> list_all is_c_space before \<and>
         list_all is_c_space after \<and> sign \<in> {[], bstr ''+''} \<and> ds \<noteq> [] \<and> list_all is_ascii_digit ds \<and>
         0 < dec_value ds \<and> dec_value ds < 65536 \<and> port = of_nat (dec_value ds)))"
proof (cases "v = []")
  case False
  have "conn_parse_port (Some v) = Ok port \<longleftrightarrow> (\<exists>n. strtol_int v = Some n \<and> 0 < n \<and> n < 65536 \<and> port = of_int n)"
    using False by (auto simp: conn_parse_port_def parse_int_param_def)
  also have "\<dots> \<longleftrightarrow> (\<exists>before sign ds after. v = before @ sign @ ds @ after \<and> list_all is_c_space before \<and>
         list_all is_c_space after \<and> sign \<in> {[], bstr ''+''} \<and> ds \<noteq> [] \<and> list_all is_ascii_digit ds \<and>
         0 < dec_value ds \<and> dec_value ds < 65536 \<and> port = of_nat (dec_value ds))" (is "_ = ?shape")
  proof
    assume "\<exists>n. strtol_int v = Some n \<and> 0 < n \<and> n < 65536 \<and> port = of_int n"
    then obtain n where n: "strtol_int v = Some n" "0 < n" "n < 65536" "port = of_int n" by blast
    from n(1) obtain before sign ds after where s: "v = before @ sign @ ds @ after" "list_all is_c_space before"
        "list_all is_c_space after" "list_all is_ascii_digit ds" "ds \<noteq> []" "sign \<in> {[], [43], [45]}"
      by (rule strtol_int_split)
    then have "n = int (dec_value ds)" "sign \<noteq> [45]"
      using n strtol_int_shape [OF s(2-6)] by (auto simp: i32_checked_def split: if_splits)
    then show ?shape
      using n s by (intro exI [of _ before] exI [of _ sign] exI [of _ ds] exI [of _ after]) auto
  next
    assume ?shape
    then obtain before sign ds after where s: "v = before @ sign @ ds @ after" "list_all is_c_space before"
        "list_all is_c_space after" "list_all is_ascii_digit ds" "ds \<noteq> []" "sign \<in> {[], bstr ''+''}"
        "0 < dec_value ds" "dec_value ds < 65536" "port = of_nat (dec_value ds)"
      by blast
    moreover have "sign \<in> {[], [43], [45]}" "sign \<noteq> [45]"
      using s(6) by auto
    ultimately show "\<exists>n. strtol_int v = Some n \<and> 0 < n \<and> n < 65536 \<and> port = of_int n"
      using strtol_int_shape [of before after ds sign]
      by (intro exI [of _ "int (dec_value ds)"]) (simp add: i32_checked_def)
  qed
  finally show ?thesis
    using False by (simp add: conn_parse_port_def DEF_PGPORT_def)
qed (auto simp: conn_parse_port_def DEF_PGPORT_def)

section \<open>The walk\<close>

lemma this_build_plaintext:
  assumes "from_conninfo ci Build_THIS = Ok opts"
  shows "\<exists>n. neg_start opts Build_THIS unix = Ok n \<and> ng_current n = Some EncPlaintext"
proof -
  have no_ssl: "\<not> use_ssl Build_THIS" "\<not> enable_gss Build_THIS"
    by (simp_all add: Build_THIS_def USE_SSL_def ENABLE_GSS_def)
  then have "\<not> requires_ssl (eo_sslmode opts)" "eo_gssencmode opts \<noteq> GssRequire"
    using assms by (auto simp: from_conninfo_def Let_def split: if_splits)
  then show ?thesis
    using no_ssl
    by (cases "eo_sslmode opts")
      (auto simp: neg_start_def allowed_mask_def select_next_def method_order_def requires_ssl_def Let_def)
qed

lemma shuffled_mset: "shuffled g xs = Some (ys, g') \<Longrightarrow> mset ys = mset xs"
  by (auto simp: shuffled_def shuffle_def prng_draws.shuffle_from_permutes split: option.splits)

lemma conn_hosts_nonempty: "conn_hosts ci = Ok hosts \<Longrightarrow> hosts \<noteq> []"
proof -
  have "0 < host_count ci"
    by (auto simp: host_count_def elems_def split: option.splits)
  then show "conn_hosts ci = Ok hosts \<Longrightarrow> hosts \<noteq> []"
    by (auto simp: conn_hosts_exact split: if_splits)
qed

text \<open>A connection that an attempt on the peer \<open>p\<close> hands out.\<close>

definition handed_out ::
  "system \<Rightarrow> conn_info \<Rightarrow> target_server_type \<Rightarrow> bool \<Rightarrow> peer \<Rightarrow> os \<Rightarrow> connection \<Rightarrow> bool" where
  "handed_out sys ci target second_pass p os c \<longleftrightarrow>
     (\<exists>k nonce c0. sys_connect sys k p = Ok os \<and> sys_random sys k RAW_NONCE_LEN = Ok nonce \<and>
        start_up os ci nonce = Some (Ok c0) \<and>
        check_target_conn os target second_pass (c0\<lparr> cn_raddr := Some p \<rparr>) = Some (Ok None, c))"

lemma try_server_Ok:
  assumes "try_server ci target second_pass p os nonce = Some (Returns (Ok (os', c)))"
  shows "os' = os \<and> (\<exists>c0. start_up os ci nonce = Some (Ok c0) \<and>
    check_target_conn os target second_pass (c0\<lparr> cn_raddr := Some p \<rparr>) = Some (Ok None, c))"
proof -
  obtain r where r: "start_up os ci nonce = Some r"
    using assms by (auto simp: try_server_def bind_eq_Some_conv)
  show ?thesis
  proof (cases r)
    case (Ok c0)
    then obtain r1 c1 where "check_target_conn os target second_pass (c0\<lparr> cn_raddr := Some p \<rparr>) = Some (r1, c1)"
      using assms r by (auto simp: try_server_def bind_eq_Some_conv)
    then show ?thesis
      using assms r Ok by (cases r1) (auto simp: try_server_def split: option.splits)
  next
    case (Err e)
    then show ?thesis
      using assms r by (cases e) (auto simp: try_server_def split: if_splits)
  qed
qed

lemma try_peers_Ok:
  assumes "try_peers sys ci opts target second_pass ps last_error k = Some (Returns (Ok (os, c)), k')"
  shows "\<exists>p \<in> set ps. handed_out sys ci target second_pass p os c"
  using assms
proof (induction ps arbitrary: last_error k)
  case (Cons p ps)
  obtain n where n: "neg_start opts Build_THIS (is_unix_peer p) = Ok n" "ng_current n = Some EncPlaintext"
    using Cons.prems by (auto split: result.splits if_splits)
  show ?case
  proof (cases "sys_connect sys k p")
    case (Err e)
    then show ?thesis
      using Cons n by auto
  next
    case (Ok os1)
    then obtain nonce where "sys_random sys k RAW_NONCE_LEN = Ok nonce"
        "try_server ci target second_pass p os1 nonce = Some (Returns (Ok (os, c)))"
      using Cons.prems n by (auto split: result.splits)
    then show ?thesis
      using Ok try_server_Ok unfolding handed_out_def by fastforce
  qed
qed simp

lemma try_hosts_Ok:
  assumes "try_hosts sys ci opts target second_pass hs last_error g k = Some (Returns (Ok (os, c)), g', k')"
  shows "\<exists>h \<in> set hs. \<exists>port k peers. conn_parse_port (ch_port h) = Ok port \<and>
    resolve sys k (host_address h port) = Ok peers \<and> (\<exists>p \<in> set peers. handed_out sys ci target second_pass p os c)"
  using assms
proof (induction hs arbitrary: last_error g k)
  case (Cons h hs)
  note IH = Cons.IH
  show ?case
  proof (cases "conn_parse_port (ch_port h)")
    case (Err e)
    then show ?thesis
      using Cons.prems IH by (cases e) fastforce+
  next
    case port: (Ok port)
    show ?thesis
    proof (cases "resolve sys k (host_address h port)")
      case (Err e)
      then show ?thesis
        using Cons.prems IH port by fastforce
    next
      case (Ok peers)
      then obtain peers' g1 a k1 where sh: "shuffled g peers = Some (peers', g1)"
        and t: "try_peers sys ci opts target second_pass peers' last_error (Suc k) = Some (a, k1)"
        and rest: "(case a of Returns r \<Rightarrow> Some (Returns r, g1, k1)
          | Left last_error \<Rightarrow> try_hosts sys ci opts target second_pass hs last_error g1 k1) =
            Some (Returns (Ok (os, c)), g', k')"
        using Cons.prems port by (auto simp: bind_eq_Some_conv)
      show ?thesis
      proof (cases a)
        case (Returns r)
        then have "\<exists>p \<in> set peers'. handed_out sys ci target second_pass p os c"
          using rest t try_peers_Ok by auto
        then show ?thesis
          using port Ok shuffled_mset [OF sh, THEN mset_eq_setD] by auto
      next
        case (Left e)
        then show ?thesis
          using rest IH by fastforce
      qed
    qed
  qed
qed simp

lemma try_passes_Ok:
  assumes "try_passes sys ci opts target hosts ps last_error g k = Some (Returns (Ok (os, c)))"
  shows "\<exists>second_pass \<in> set ps. \<exists>h \<in> set hosts. \<exists>port k peers. conn_parse_port (ch_port h) = Ok port \<and>
    resolve sys k (host_address h port) = Ok peers \<and> (\<exists>p \<in> set peers. handed_out sys ci target second_pass p os c)"
  using assms
proof (induction ps arbitrary: last_error g k)
  case (Cons b ps)
  obtain a g1 k1 where h: "try_hosts sys ci opts target b hosts last_error g k = Some (a, g1, k1)"
    using Cons.prems by (auto simp: bind_eq_Some_conv)
  show ?case
  proof (cases a)
    case (Returns r)
    then show ?thesis
      using Cons.prems h try_hosts_Ok [of sys ci opts target b hosts last_error g k os c g1 k1] by auto
  next
    case (Left e)
    then show ?thesis
      using Cons.prems h Cons.IH [of e g1 k1] by auto
  qed
qed simp

section \<open>Single steps\<close>

lemma read_data_arrives:
  assumes "os_read os (net_time (cn_net c)) = Ok bs" and "bs \<noteq> []" and "length bs \<le> 8192"
  shows "\<exists>c'. read_data os c = Some (Ok True, c') \<and> unparsed c' = unparsed c @ bs \<and> session c' = session c"
proof -
  have "read_chunk os (cn_net c) = Some (Ok (Some bs), (net_tick (cn_net c))\<lparr> net_received := net_received (cn_net c) @ bs \<rparr>)"
    using assms by (simp add: read_chunk.simps net_read_def Let_def)
  then show ?thesis
    using assms(2) compact_moves [of c] by (auto simp: read_data_def Let_def) (auto simp: compact_def unparsed_def)
qed

lemma read_message_ready:
  "next_frame (unparsed c) = Frame_Message mid s e \<Longrightarrow> read_message os c = Some (parse_frame mid s e c)"
  by (simp add: read_message.simps)

lemma read_message_waits:
  assumes "next_frame (unparsed c) = Incomplete" and "read_data os c = Some (Ok True, c')"
  shows "read_message os c = read_message os c'"
  using assms by (simp add: read_message.simps [of os c] read_more.simps io_bind_def io_ok_def)

lemma startup_loop_next:
  assumes "read_message os c = Some (Ok m, c1)" and "startup_message m a c1 = (SU_Next, a', c2)"
  shows "startup_loop os a c = startup_loop os a' c2"
  using assms by (simp add: startup_loop.simps [of os a c] io_bind_def)

lemma startup_loop_ready:
  assumes "read_message os c = Some (Ok (ReadyForQuery st), c1)"
  shows "startup_loop os a c = Some (Ok (), c1\<lparr> cn_transaction_status := st \<rparr>)"
  using assms by (simp add: startup_loop.simps [of os a c] io_bind_def startup_message_def)

lemma flush_at_once:
  assumes "os_write os (net_time (cn_net c)) = Ok k" and "length (cn_outbuf c) \<le> k" and "cn_outbuf c \<noteq> []"
  shows "flush os c = Some (Ok F_Done,
    c\<lparr> cn_net := (net_tick (cn_net c))\<lparr> net_sent := net_sent (cn_net c) @ cn_outbuf c \<rparr>, cn_outbuf := [] \<rparr>)"
  using assms
  by (simp add: flush_def flush_loop.simps net_write_def write_outcome_def Let_def)

text \<open>A server that takes everything it is sent and answers with \<open>AuthenticationOk\<close> and \<open>ReadyForQuery\<close>.\<close>

definition greeting :: bytes where
  "greeting = [82, 0, 0, 0, 8, 0, 0, 0, 0, 90, 0, 0, 0, 5, 73]"

definition greeting_os :: os where
  "greeting_os = \<lparr> os_read = (\<lambda>t. Ok greeting), os_write = (\<lambda>t. Ok 1000), os_wait = (\<lambda>t. Ok ()) \<rparr>"

lemma greeting_frames:
  "next_frame greeting = Frame_Message 82 5 9" "decode 82 (slice greeting 5 9) = Ok (Authentication AuthOk)"
  "next_frame (drop 9 greeting) = Frame_Message 90 5 6" "decode 90 (slice (drop 9 greeting) 5 6) = Ok (ReadyForQuery Idle)"
  by code_simp+

lemma parse_frame_keeps:
  "cn_parameters (snd (parse_frame mid s e c)) = cn_parameters c" "cn_state (snd (parse_frame mid s e c)) = cn_state c"
  "cn_nonblocking (snd (parse_frame mid s e c)) = cn_nonblocking c"
  by (simp_all add: parse_frame_def Let_def split: result.split option.split)

lemma greeting_loop:
  assumes "unparsed c = []"
  shows "\<exists>c'. startup_loop greeting_os a c = Some (Ok (), c') \<and> cn_parameters c' = cn_parameters c \<and>
    unparsed c' = [] \<and> cn_state c' = cn_state c \<and> cn_nonblocking c' = cn_nonblocking c"
proof -
  obtain c1 where c1: "read_data greeting_os c = Some (Ok True, c1)" "unparsed c1 = greeting" "session c1 = session c"
    using read_data_arrives [of greeting_os c greeting] assms by (auto simp: greeting_os_def greeting_def)
  obtain c2 where c2: "parse_frame 82 5 9 c1 = (Ok (Authentication AuthOk), c2)" "unparsed c2 = drop 9 greeting"
    using parse_frame_cases [of c1 82 5 9] c1(2) greeting_frames by auto
  obtain c3 where c3: "parse_frame 90 5 6 c2 = (Ok (ReadyForQuery Idle), c3)" "unparsed c3 = []"
    using parse_frame_cases [of c2 90 5 6] c2(2) greeting_frames by (auto simp: greeting_def)
  have "read_message greeting_os c = Some (Ok (Authentication AuthOk), c2)"
    using read_message_waits [OF _ c1(1)] read_message_ready [of c1] assms c1(2) c2(1) greeting_frames(1)
    by (simp add: next_frame_def)
  then have "startup_loop greeting_os a c = startup_loop greeting_os a c2"
    by (rule startup_loop_next) (simp add: startup_message_def)
  moreover have "read_message greeting_os c2 = Some (Ok (ReadyForQuery Idle), c3)"
    using read_message_ready [of c2] c2(2) c3 greeting_frames(3) by simp
  moreover have "cn_parameters c3 = cn_parameters c" "cn_state c3 = cn_state c" "cn_nonblocking c3 = cn_nonblocking c"
    using parse_frame_keeps [of 82 5 9 c1] parse_frame_keeps [of 90 5 6 c2] c2(1) c3
      session_cong [OF c1(3)] by simp_all
  ultimately show ?thesis
    using startup_loop_ready c3(2) by (simp add: unparsed_def)
qed

lemma greeted: "\<exists>c. start_up greeting_os ConnInfo_new nonce = Some (Ok c) \<and> cn_parameters c = [] \<and>
  unparsed c = [] \<and> cn_state c = PipelineState_new \<and> \<not> cn_nonblocking c"
proof -
  have "conn_startup_parameters ConnInfo_new = []"
    by (simp add: conn_startup_parameters_def add_parameter_def get_text_def conninfo.get_new)
  moreover have "\<exists>startup. encode (Startup PROTOCOL_VERSION_3_0 []) = Some startup \<and> length startup = 9"
    by (simp add: length_word_def startup_parameters_def)
  ultimately obtain startup where enc: "encode (Startup PROTOCOL_VERSION_3_0 (conn_startup_parameters ConnInfo_new)) = Some startup"
    and len: "length startup = 9"
    by auto
  define c where "c = opened (fresh_net 0) startup"
  obtain c1 where "flush greeting_os c = Some (Ok F_Done, c1)" "unparsed c1 = []" "cn_parameters c1 = []"
    "cn_state c1 = PipelineState_new" "\<not> cn_nonblocking c1"
  proof -
    have c: "cn_outbuf c = startup" "unparsed c = []" "cn_parameters c = []"
        "cn_state c = PipelineState_new" "\<not> cn_nonblocking c" and os: "os_write greeting_os t = Ok 1000" for t
      by (simp_all add: c_def opened_def unparsed_def greeting_os_def)
    have "startup \<noteq> []"
      using len by auto
    then show ?thesis
      by (intro that [OF flush_at_once [of greeting_os c 1000]]) (simp_all add: c os len)
  qed
  then show ?thesis
    using greeting_loop [of c1 "startup_authenticator ConnInfo_new nonce"] enc
    by (auto simp: start_up_def io_bind_def c_def)
qed

section \<open>The walk ends with a connection or a reason\<close>

lemma try_server_reason: "try_server ci target second_pass p os nonce \<noteq> Some (Left None)"
proof
  assume l: "try_server ci target second_pass p os nonce = Some (Left None)"
  then obtain r where r: "start_up os ci nonce = Some r"
    by (auto simp: try_server_def bind_eq_Some_conv)
  show False
  proof (cases r)
    case (Ok c0)
    then obtain r1 c1 where "check_target_conn os target second_pass (c0\<lparr> cn_raddr := Some p \<rparr>) = Some (r1, c1)"
      using l r by (auto simp: try_server_def bind_eq_Some_conv)
    then show ?thesis
      using l r Ok by (cases r1) (auto simp: try_server_def split: option.splits)
  next
    case (Err e)
    then show ?thesis
      using l r by (cases e) (auto simp: try_server_def split: if_splits)
  qed
qed

text \<open>Every attempt on a server comes to an end.\<close>

definition servers_return :: "system \<Rightarrow> conn_info \<Rightarrow> target_server_type \<Rightarrow> bool" where
  "servers_return sys ci target \<longleftrightarrow>
     (\<forall>k p os nonce second_pass. sys_connect sys k p = Ok os \<longrightarrow>
        try_server ci target second_pass p os nonce \<noteq> None)"

text \<open>What \<open>getaddrinfo\<close> documents: a name that resolves has an address.\<close>

definition resolver_answers :: "system \<Rightarrow> bool" where
  "resolver_answers sys \<longleftrightarrow> (\<forall>k host port. sys_resolve sys k host port \<noteq> Ok [])"

lemma try_peers_returns:
  assumes "from_conninfo ci Build_THIS = Ok opts" and "servers_return sys ci target"
  shows "\<exists>a k'. try_peers sys ci opts target second_pass ps last_error k = Some (a, k') \<and>
    (a = Left None \<longrightarrow> ps = [] \<and> last_error = None)"
proof (induction ps arbitrary: last_error k)
  case (Cons p ps)
  obtain n where n: "neg_start opts Build_THIS (is_unix_peer p) = Ok n" "ng_current n = Some EncPlaintext"
    using this_build_plaintext [OF assms(1)] by blast
  show ?case
  proof (cases "sys_connect sys k p")
    case (Err e)
    then show ?thesis
      using n Cons [of "Some (CE_Io e)" "Suc k"] by auto
  next
    case (Ok os)
    show ?thesis
    proof (cases "and_then (sys_nonblocking sys k) (\<lambda>_. sys_random sys k RAW_NONCE_LEN)")
      case nonce: (Ok nonce)
      obtain a where "try_server ci target second_pass p os nonce = Some a"
        using assms(2) Ok unfolding servers_return_def by fastforce
      then show ?thesis
        using n Ok nonce try_server_reason [of ci target second_pass p os nonce] by auto
    next
      case (Err e)
      then show ?thesis
        using n Ok by auto
    qed
  qed
qed simp

lemma try_hosts_returns:
  assumes "from_conninfo ci Build_THIS = Ok opts" and "servers_return sys ci target" and "resolver_answers sys"
  shows "\<exists>a k'. try_hosts sys ci opts target second_pass hs last_error None k = Some (a, None, k') \<and>
    (a = Left None \<longrightarrow> hs = [] \<and> last_error = None)"
proof (induction hs arbitrary: last_error k)
  case (Cons h hs)
  note IH = Cons
  show ?case
  proof (cases "conn_parse_port (ch_port h)")
    case (Err e)
    then show ?thesis
      using IH [of "Some (CE_Conninfo e)" k] by (cases e) auto
  next
    case port: (Ok port)
    show ?thesis
    proof (cases "resolve sys k (host_address h port)")
      case (Err e)
      then show ?thesis
        using port IH [of "Some (CE_Io e)" "Suc k"] by auto
    next
      case (Ok peers)
      then have "peers \<noteq> []"
        using assms(3) by (auto simp: resolve_def resolver_answers_def split: address.splits)
      then obtain a k1 where t: "try_peers sys ci opts target second_pass peers last_error (Suc k) = Some (a, k1)"
        and a: "a \<noteq> Left None"
        using try_peers_returns [OF assms(1,2)] by metis
      show ?thesis
      proof (cases a)
        case (Returns r)
        then show ?thesis
          using port Ok t by (auto simp: shuffled_def)
      next
        case (Left e)
        then show ?thesis
          using port Ok t a IH [of e k1] by (auto simp: shuffled_def)
      qed
    qed
  qed
qed simp

lemma try_passes_returns:
  assumes "from_conninfo ci Build_THIS = Ok opts" and "servers_return sys ci target" and "resolver_answers sys"
    and "hosts \<noteq> []"
  shows "\<exists>a. try_passes sys ci opts target hosts ps last_error None k = Some a \<and>
    (a = Left None \<longrightarrow> ps = [] \<and> last_error = None)"
proof (induction ps arbitrary: last_error k)
  case (Cons b ps)
  obtain a k1 where t: "try_hosts sys ci opts target b hosts last_error None k = Some (a, None, k1)"
    and a: "a \<noteq> Left None"
    using try_hosts_returns [OF assms(1-3)] assms(4) by metis
  show ?case
  proof (cases a)
    case (Left e)
    then show ?thesis
      using t a Cons [of e k1] by auto
  qed (use t in auto)
qed simp

lemma connect_options_Ok:
  assumes "connect_options ci = Ok (hosts, opts, target, balance)"
  shows "conn_hosts ci = Ok hosts" "from_conninfo ci Build_THIS = Ok opts" "target_from_conninfo ci = Ok target"
    "load_balance_from_conninfo ci = Ok balance"
  using assms by (auto simp: connect_options_def)

section \<open>Properties of connecting\<close>

text \<open>A system whose only server greets.\<close>

definition demo_sys :: system where
  "demo_sys = \<lparr> sys_resolve = (\<lambda>k host port. Ok [host]), sys_connect = (\<lambda>k p. Ok greeting_os),
     sys_nonblocking = (\<lambda>k. Ok ()), sys_random = (\<lambda>k n. Ok (replicate n 7)), sys_seed = 1,
     sys_little_endian = True \<rparr>"

lemma demo_options:
  "\<exists>hosts opts. connect_options ConnInfo_new = Ok (hosts, opts, AnyServer, LbDisable)"
proof -
  obtain hosts where "conn_hosts ConnInfo_new = Ok hosts"
    using conn_hosts_exact [of ConnInfo_new] by (simp add: given_def conninfo.get_new elems_def host_count_def)
  moreover obtain opts where "from_conninfo ConnInfo_new Build_THIS = Ok opts"
    by (simp add: from_conninfo_def conninfo.get_new get_or_def DEFAULT_SSL_MODE_def DEFAULT_SSL_NEGOTIATION_def
        DEFAULT_GSS_MODE_def ssl_mode_parse_def parse_sslnegotiation_def parse_gssencmode_def requires_ssl_def
        Build_THIS_def USE_SSL_def ENABLE_GSS_def Let_def)
  ultimately show ?thesis
    by (simp add: connect_options_def target_from_conninfo_def load_balance_from_conninfo_def conninfo.get_new)
qed

lemma demo_server: "\<exists>c. try_server ConnInfo_new AnyServer second_pass p greeting_os nonce = Some (Returns (Ok (greeting_os, c)))"
proof -
  obtain c where c: "start_up greeting_os ConnInfo_new nonce = Some (Ok c)" "cn_parameters c = []"
    using greeted by blast
  have "check_target_conn greeting_os AnyServer second_pass (c\<lparr> cn_raddr := Some p \<rparr>) = Some (Ok None, c\<lparr> cn_raddr := Some p \<rparr>)"
    using c(2) by (simp add: check_target_conn_def conn_check_target_def from_parameters_def parameter_status_def
        check_target_loop.simps check_target_def)
  then show ?thesis
    using c(1) by (simp add: try_server_def)
qed

text \<open>C21: Every connection that \<open>connect\<close> hands out was asked for and checked: its socket was opened to an address
  that a host of the list resolves to, on that host's port; the startup exchange over this socket
  succeeded; and the server was held to \<open>target_session_attrs\<close> and accepted. Only with
  \<open>prefer-standby\<close>, in its second pass, is a server accepted that is not what was asked for first.\<close>

theorem connect_hands_out_checked:
  assumes "connect sys ci = Some (Ok (os, c))"
  shows "\<exists>hosts opts target balance h port k peers p second_pass.
    connect_options ci = Ok (hosts, opts, target, balance) \<and> h \<in> set hosts \<and> conn_parse_port (ch_port h) = Ok port \<and>
    resolve sys k (host_address h port) = Ok peers \<and> p \<in> set peers \<and>
    handed_out sys ci target second_pass p os c \<and> (second_pass \<longrightarrow> target = PreferStandby)"
proof -
  obtain hosts opts target balance where o: "connect_options ci = Ok (hosts, opts, target, balance)"
    using assms by (auto simp: connect_def split: result.splits)
  then obtain hosts' g a where sh: "shuffled (if balance = LbRandom then Some (libpq_prng_init sys 0) else None) hosts = Some (hosts', g)"
    and a: "try_passes sys ci opts target hosts' (passes target) None g 1 = Some a"
    and r: "(case a of Returns r \<Rightarrow> Some r | Left (Some e) \<Rightarrow> Some (Err e) | Left None \<Rightarrow> None) = Some (Ok (os, c))"
    using assms by (auto simp: connect_def bind_eq_Some_conv)
  have t: "try_passes sys ci opts target hosts' (passes target) None g 1 = Some (Returns (Ok (os, c)))"
    using a r by (cases a) (auto split: option.splits)
  have "set hosts' = set hosts"
    using shuffled_mset [OF sh] by (rule mset_eq_setD)
  moreover have "b \<in> set (passes target) \<Longrightarrow> b \<longrightarrow> target = PreferStandby" for b
    by (auto simp: passes_def split: if_splits)
  ultimately show ?thesis
    using try_passes_Ok [OF t] o by metis
qed

lemma demo_connects: "\<exists>c. connect demo_sys ConnInfo_new = Some (Ok (greeting_os, c))"
proof -
  obtain hosts opts where o: "connect_options ConnInfo_new = Ok (hosts, opts, AnyServer, LbDisable)"
    using demo_options by blast
  note parts = connect_options_Ok [OF o]
  obtain h hs where h: "hosts = h # hs"
    using conn_hosts_nonempty [OF parts(1)] by (cases hosts) auto
  have "ch_port h = None"
    using parts(1) h by (auto simp: conn_hosts_exact given_def conninfo.get_new nth_port_def mk_conn_host_def
        upt_rec host_count_def elems_def split: prod.splits if_splits)
  then have port: "conn_parse_port (ch_port h) = Ok DEF_PGPORT"
    by (simp add: conn_parse_port_def)
  obtain p where peers: "resolve demo_sys 1 (host_address h DEF_PGPORT) = Ok [p]"
    by (cases "host_address h DEF_PGPORT") (auto simp: resolve_def demo_sys_def)
  obtain n where n: "neg_start opts Build_THIS (is_unix_peer p) = Ok n" "ng_current n = Some EncPlaintext"
    using this_build_plaintext [OF parts(2)] by blast
  obtain c where c: "try_server ConnInfo_new AnyServer False p greeting_os (replicate RAW_NONCE_LEN 7) = Some (Returns (Ok (greeting_os, c)))"
    using demo_server by blast
  have "try_peers demo_sys ConnInfo_new opts AnyServer False [p] None 2 = Some (Returns (Ok (greeting_os, c)), 3)"
    using n c by (simp add: demo_sys_def)
  then have "try_hosts demo_sys ConnInfo_new opts AnyServer False hosts None None 1 = Some (Returns (Ok (greeting_os, c)), None, 3)"
    using port peers by (simp add: h shuffled_def numeral_2_eq_2)
  then show ?thesis
    using o by (simp add: connect_def shuffled_def passes_def)
qed

theorem connect_hands_out_checked_witness:
  "\<exists>c. connect demo_sys ConnInfo_new = Some (Ok (greeting_os, c)) \<and>
     (\<exists>p target second_pass. handed_out demo_sys ConnInfo_new target second_pass p greeting_os c)"
proof -
  obtain c where c: "connect demo_sys ConnInfo_new = Some (Ok (greeting_os, c))"
    using demo_connects by blast
  show ?thesis
    using connect_hands_out_checked [OF c] c by blast
qed

text \<open>The walk over the hosts ends with a connection or with a reason: if names that resolve have an address and
  each attempt on a server comes to an end, then \<open>connect\<close> without load balancing returns; the
  assertion that only plaintext is negotiated and the one that a reason was recorded never fail.\<close>

lemma connect_returns:
  assumes "resolver_answers sys"
    and "\<And>target. target_from_conninfo ci = Ok target \<Longrightarrow> servers_return sys ci target"
    and "load_balance_from_conninfo ci \<noteq> Ok LbRandom"
  shows "\<exists>r. connect sys ci = Some r"
proof (cases "connect_options ci")
  case (Ok y)
  then obtain hosts opts target balance where o: "connect_options ci = Ok (hosts, opts, target, balance)"
    by (cases y) auto
  note parts = connect_options_Ok [OF o]
  have "balance = LbDisable"
    using parts(4) assms(3) by (cases balance) auto
  moreover obtain a where "try_passes sys ci opts target hosts (passes target) None None 1 = Some a" "a \<noteq> Left None"
    using try_passes_returns [OF parts(2) assms(2) [OF parts(3)] assms(1) conn_hosts_nonempty [OF parts(1)], of "passes target" None 1]
    by (auto simp: passes_def split: if_splits)
  ultimately show ?thesis
    using o by (auto simp: connect_def shuffled_def split: attempt.split option.split)
qed (simp add: connect_def)

end
