(* ===== verification/Client.thy ===== *)
theory Client
  imports Startup
begin

text \<open>
  What holds across all the calls of a connection. The calls of \<open>Session\<close> are composed of a few primitive
  changes of the record: bytes move, a frame is parsed, the pipeline state makes one of its steps, a
  message is put, an event is noted. The locale \<open>call_relation\<close> has these as its laws (\<open>moving_relation\<close> those of the
  bytes alone): a reflexive and transitive relation that admits them holds across every call. It is interpreted twice: the state
  of a connection moves by steps of the pipeline machine, and input is cut into whole messages in the
  order it came in.

  The last property is a weakness of the startup exchange: it hands a connection out on a
  \<open>ReadyForQuery\<close> even when the server was never authenticated.
\<close>

section \<open>Calls that keep a relation\<close>

definition keeps :: "(connection \<Rightarrow> connection \<Rightarrow> bool) \<Rightarrow> 'a io \<Rightarrow> bool" where
  "keeps R m \<longleftrightarrow> (\<forall>c y. m c = Some y \<longrightarrow> R c (snd y))"

lemma keepsI: "(\<And>c y. m c = Some y \<Longrightarrow> R c (snd y)) \<Longrightarrow> keeps R m"
  by (simp add: keeps_def)

lemma keepsD: "keeps R m \<Longrightarrow> m c = Some y \<Longrightarrow> R c (snd y)"
  unfolding keeps_def by blast

lemma keeps_here: "(\<And>d. keeps R (f d)) \<Longrightarrow> keeps R (\<lambda>c. f c c)"
  by (simp add: keeps_def)

lemma decode_id: "decode mid body = Ok m \<Longrightarrow> message_id m = mid"
  by (auto simp: decode_def decode_body_def decode_negotiate_protocol_version_def
      decode_parameter_description_def decode_function_call_response_def split: if_splits)

lemma begin_send_again: "begin_send k s = (Ok (), s') \<Longrightarrow> begin_send k s' = (Ok (), s')"
  by (auto simp: begin_send_def clear_async_result_def Let_def split: if_splits)

lemma parse_frame_state: "cn_state (snd (parse_frame mid s e c)) = cn_state c"
  by (simp add: parse_frame_def Let_def split: result.split option.split)

lemma take_event_state [simp]: "cn_state (take_event ev c) = cn_state c"
  by (simp add: take_event_def split: option.split event.split)

lemma put_message_state: "put_message m c = Some y \<Longrightarrow> cn_state (snd y) = cn_state c"
  by (auto simp: put_message_def trace_sent_def Let_def bind_eq_Some_conv split: option.splits)

lemma put_messages_state: "put_messages ms c = Some y \<Longrightarrow> cn_state (snd y) = cn_state c"
proof (induction ms arbitrary: c)
  case Nil
  then show ?case by (auto simp: io_ok_def)
next
  case (Cons m ms)
  from Cons.prems show ?case
    by (auto elim!: io_bind_Some dest!: put_message_state Cons.IH)
qed

lemma flush_moves: "flush os c = Some y \<Longrightarrow> only_moved c (snd y)"
  using flush_result [of os c "fst y" "snd y"] by simp

lemma only_moved_state: "only_moved c c' \<Longrightarrow> cn_state c' = cn_state c"
  using session_cong(1) [of c' c] by (simp add: only_moved_def)

lemma flush_if_moves: "flush_if os b c = Some y \<Longrightarrow> only_moved c (snd y)"
  by (auto simp: flush_if_def io_ok_def elim!: io_bind_Some dest!: flush_moves split: if_splits)

locale moving_relation =
  fixes R :: "connection \<Rightarrow> connection \<Rightarrow> bool"
  assumes R_refl: "R c c"
    and R_trans: "R a b \<Longrightarrow> R b c \<Longrightarrow> R a c"
    and R_moved: "only_moved c c' \<Longrightarrow> R c c'"
begin

lemma keeps_ok: "keeps R (io_ok x)"
  by (auto simp: keeps_def io_ok_def R_refl)

lemma keeps_err: "keeps R (io_err e)"
  by (auto simp: keeps_def io_err_def R_refl)

lemma keeps_result: "keeps R (io_result w r)"
  by (auto simp: keeps_def io_result_def R_refl)

lemma keeps_check: "keeps R (check_state f)"
  by (auto simp: keeps_def check_state_def io_result_def R_refl)

lemma bind_at:
  assumes "io_bind m f c = Some y" and "\<And>y. m c = Some y \<Longrightarrow> R c (snd y)"
    and "\<And>x c'. m c = Some (Ok x, c') \<Longrightarrow> f x c' = Some y \<Longrightarrow> R c' (snd y)"
  shows "R c (snd y)"
  using assms by (elim io_bind_Some) (auto intro: R_trans)

lemma keeps_bind: "keeps R m \<Longrightarrow> (\<And>x. keeps R (f x)) \<Longrightarrow> keeps R (io_bind m f)"
  unfolding keeps_def by (blast intro: bind_at)

lemma keeps_moving: "(\<And>c y. m c = Some y \<Longrightarrow> only_moved c (snd y)) \<Longrightarrow> keeps R m"
  by (auto simp: keeps_def intro: R_moved)

lemma keeps_read_data: "keeps R (read_data os)"
  by (rule keeps_moving) (use read_data_reads in \<open>fastforce simp: only_reads_def\<close>)

lemma keeps_wait: "keeps R (wait_socket os)"
  by (rule keeps_moving) (use wait_socket_reads in \<open>fastforce simp: only_reads_def\<close>)

lemma keeps_flush: "keeps R (flush os)"
  by (rule keeps_moving) (rule flush_moves)

lemma keeps_flush_if: "keeps R (flush_if os b)"
  by (rule keeps_moving) (rule flush_if_moves)

lemmas moving_rules = keeps_ok keeps_err keeps_result keeps_check keeps_bind keeps_read_data keeps_wait keeps_flush
  keeps_flush_if

lemma keeps_read_more: "keeps R (read_more os)"
proof (rule keepsI)
  fix c y
  assume "read_more os c = Some y"
  then show "R c (snd y)"
  proof (rule read_more.raw_induct [rotated])
    fix f os c y
    assume IH: "\<And>os c y. f os c = Some y \<Longrightarrow> R c (snd y)"
      and body: "io_bind (read_data os) (\<lambda>got c.
        if got then io_ok () c else io_bind (wait_socket os) (\<lambda>_. f os) c) c = Some y"
    have "keeps R (f os)"
      using IH by (rule keepsI)
    then have "keeps R (\<lambda>c. if got then io_ok () c else io_bind (wait_socket os) (\<lambda>_. f os) c)" for got
      by (cases got) (simp_all add: moving_rules)
    then show "R c (snd y)"
      using body by (intro keepsD [OF keeps_bind [OF keeps_read_data]])
  qed
qed

lemma keeps_flush_all: "keeps R (flush_all os)"
proof (rule keepsI)
  fix c y
  assume "flush_all os c = Some y"
  then show "R c (snd y)"
  proof (rule flush_all.raw_induct [rotated])
    fix f os c y
    assume IH: "\<And>os c y. f os c = Some y \<Longrightarrow> R c (snd y)"
      and body: "io_bind (flush os) (\<lambda>fl c.
        if fl = F_Pending then io_bind (wait_socket os) (\<lambda>_. f os) c else io_ok () c) c = Some y"
    have "keeps R (f os)"
      using IH by (rule keepsI)
    then have "keeps R (\<lambda>c. if fl = F_Pending then io_bind (wait_socket os) (\<lambda>_. f os) c else io_ok () c)" for fl
      by (cases "fl = F_Pending") (simp_all add: moving_rules)
    then show "R c (snd y)"
      using body by (intro keepsD [OF keeps_bind [OF keeps_flush]])
  qed
qed

end

interpretation moving: moving_relation only_moved
  by unfold_locales (auto intro: only_moved_trans)

lemma read_more_moves: "read_more os c = Some y \<Longrightarrow> only_moved c (snd y)"
  by (rule keepsD [OF moving.keeps_read_more])

lemma read_more_state: "read_more os c = Some y \<Longrightarrow> cn_state (snd y) = cn_state c"
  by (rule only_moved_state [OF read_more_moves])

text \<open>A whole message is at the front of the input, by either of the two framings.\<close>

definition at_frame :: "bytes \<Rightarrow> byte \<Rightarrow> nat \<Rightarrow> nat \<Rightarrow> bool" where
  "at_frame buf mid s e \<longleftrightarrow> next_frame buf = Frame_Message mid s e \<or> next_copy_frame buf = Frame_Message mid s e"

locale call_relation = moving_relation +
  assumes R_frame: "at_frame (unparsed c) mid s e \<Longrightarrow> R c (snd (parse_frame mid s e c))"
    and R_state: "ps_step (cn_state c) st \<Longrightarrow> R c (c\<lparr> cn_state := st \<rparr>)"
    and R_put: "R c (c\<lparr> cn_outbuf := buf \<rparr>)"
    and R_sent: "R c (trace_sent m encoded c)"
    and R_flags: "R c (set_trace_flags flags c)"
    and R_event: "R c (take_event ev c)"
    and R_key: "R c (c\<lparr> cn_backend_pid := pid, cn_cancel_key := key \<rparr>)"
    and R_nonblocking: "R c (c\<lparr> cn_nonblocking := nb \<rparr>)"
begin

lemma keeps_put: "keeps R (put_message m)"
proof (rule keepsI)
  fix c y
  assume "put_message m c = Some y"
  then obtain encoded where "snd y = (trace_sent m encoded c)\<lparr> cn_outbuf := cn_outbuf (trace_sent m encoded c) @ encoded \<rparr>"
    by (auto simp: put_message_def Let_def bind_eq_Some_conv)
  then show "R c (snd y)"
    using R_put R_trans R_sent by metis
qed

lemma keeps_lift: "(\<And>s. ps_step s (snd (f s))) \<Longrightarrow> keeps R (lift_state w f)"
  by (auto simp: keeps_def lift_state_def split_beta intro: R_state)

lemma keeps_update: "(\<And>s. ps_step s (f s)) \<Longrightarrow> keeps R (\<lambda>c. m (c\<lparr> cn_state := f (cn_state c) \<rparr>))" if "keeps R m"
  using that unfolding keeps_def by (blast intro: R_trans R_state)

lemmas keeps_rules = moving_rules keeps_put

lemma R_apply: "ps_step (cn_state c) (snd (ps_apply m (cn_state c))) \<Longrightarrow> R c (snd (apply_message m c))"
  by (auto simp: apply_message_def Let_def split_beta split: result.split
      intro: R_state R_trans [OF R_state R_event])

lemma R_parse_input: "R c (snd (parse_input c))"
proof (induction c rule: parse_input.induct)
  case (1 c)
  show ?case
  proof (cases "next_frame (unparsed c)")
    case Incomplete
    then show ?thesis by (simp add: parse_input.simps R_refl)
  next
    case (SyncLoss mid len)
    then show ?thesis by (simp add: parse_input.simps R_refl)
  next
    case (Frame_Message mid s e)
    obtain a st where a: "admit mid (cn_state c) = (a, st)"
      by fastforce
    define c1 where "c1 = c\<lparr> cn_state := st \<rparr>"
    obtain r c2 where p: "parse_frame mid s e c1 = (r, c2)"
      by fastforce
    show ?thesis
    proof (cases "a = Wait")
      case True
      then show ?thesis
        using Frame_Message a by (simp add: parse_input.simps [of c] R_state ps_step.server_waits)
    next
      case False
      then have st: "a = Process" "st = cn_state c" "c1 = c"
        using a admit_Process(1) [of mid "cn_state c" st] by (cases a; simp add: c1_def)+
      have c2: "R c c2" "cn_state c2 = cn_state c"
        using R_frame [of c mid s e] parse_frame_state [of mid s e c] p st(3) Frame_Message
        by (simp_all add: at_frame_def)
      show ?thesis
      proof (cases r)
        case (Err err)
        then show ?thesis
          using Frame_Message a False p c2 by (simp add: parse_input.simps [of c] c1_def)
      next
        case (Ok m)
        have "message_id m = mid"
          using p st(3) Ok parse_frame_consumes [OF Frame_Message, of m c2] by (auto dest: decode_id)
        then have "ps_step (cn_state c2) (snd (ps_apply m (cn_state c2)))"
          using ps_step.server [of m "cn_state c" st] a st c2(2) by simp
        then have c3: "R c (snd (apply_message m c2))"
          by (rule R_trans [OF c2(1) R_apply])
        obtain r' c3 where ap: "apply_message m c2 = (r', c3)"
          by fastforce
        show ?thesis
        proof (cases r')
          case (Err err)
          then show ?thesis
            using Frame_Message a False p Ok ap c3 by (simp add: parse_input.simps [of c] c1_def)
        next
          case (Ok u)
          then have "R c3 (snd (parse_input c3))"
            using 1 Frame_Message a False p \<open>r = Ok m\<close> ap by (simp add: c1_def)
          then have "R c (snd (parse_input c3))"
            using c3 ap R_trans by fastforce
          then show ?thesis
            using Frame_Message a False p \<open>r = Ok m\<close> ap Ok by (simp add: parse_input.simps [of c] c1_def)
        qed
      qed
    qed
  qed
qed

lemma keeps_parse_input: "keeps R parse_input_io"
  by (auto simp: keeps_def parse_input_io_def intro: R_parse_input)

lemma keeps_get_result: "keeps R (get_result os)"
proof -
  have "R c (snd y)" if "get_result_loop os c = Some y" for c y
    using that
  proof (rule get_result_loop.raw_induct [rotated])
    fix f os c y
    assume IH: "\<And>os c y. f os c = Some y \<Longrightarrow> R c (snd y)"
      and body: "(case next_result (cn_state c) of (nx, st) \<Rightarrow>
        (case nx of
           N_Result r \<Rightarrow> Some (Ok (Some r), c\<lparr> cn_state := st \<rparr>)
         | N_Null \<Rightarrow> Some (Ok None, c\<lparr> cn_state := st \<rparr>)
         | N_Block \<Rightarrow>
             io_bind (flush_all os) (\<lambda>_. io_bind (read_more os) (\<lambda>_.
               io_bind parse_input_io (\<lambda>_. f os))) (c\<lparr> cn_state := st \<rparr>))) = Some y"
    obtain nx st where n: "next_result (cn_state c) = (nx, st)"
      by fastforce
    have st: "R c (c\<lparr> cn_state := st \<rparr>)"
      using ps_step.next_res [of "cn_state c"] n by (intro R_state) simp
    have "keeps R (f os)"
      using IH by (rule keepsI)
    then have "keeps R (io_bind (flush_all os) (\<lambda>_. io_bind (read_more os) (\<lambda>_. io_bind parse_input_io (\<lambda>_. f os))))"
      by (intro keeps_bind keeps_flush_all keeps_read_more keeps_parse_input)
    then show "R c (snd y)"
      using body st by (cases nx) (auto simp: n intro: R_trans dest: keepsD)
  qed
  then have "keeps R (get_result_loop os)"
    by (rule keepsI)
  then show ?thesis
    unfolding get_result_def by (intro keeps_bind keeps_parse_input)
qed

end

section \<open>Sending commands\<close>

context call_relation
begin

lemma keeps_puts: "keeps R (put_messages ms)"
  by (induction ms) (simp_all add: keeps_rules)

lemma R_dispatch:
  assumes "dispatch os p c = Some y" and b: "begin_send (pl_class p) (cn_state c) = (Ok (), cn_state c)"
    and "pl_class p \<noteq> Q_Sync"
  shows "R c (snd y)"
proof -
  define q where "q = (if sends_own_sync (cn_state c) then p else without_sync p)"
  have q: "pl_class q = pl_class p"
    by (simp add: q_def without_sync_def)
  have step: "ps_step (cn_state c) (append_command (pl_class q) qu (cn_state c))" for qu
    using b assms(3) by (intro ps_step.send) (simp_all add: q)
  have "io_bind (put_messages (pl_messages q)) (\<lambda>_ c.
      io_bind (flush_if os (flushes_now (cn_state c) (length (cn_outbuf c)))) (\<lambda>_ c.
        io_ok () (c\<lparr> cn_state := append_command (pl_class q) (pl_query q) (cn_state c) \<rparr>)) c) c = Some y"
    using assms(1) unfolding dispatch_def Let_def q_def .
  then show ?thesis
  proof (rule bind_at, goal_cases)
    case (1 y)
    then show ?case
      by (rule keepsD [OF keeps_puts])
  next
    case (2 x c1)
    then have c1: "cn_state c1 = cn_state c"
      using put_messages_state by fastforce
    from 2(2) show ?case
    proof (rule bind_at, goal_cases)
      case (1 y)
      then show ?case
        by (rule keepsD [OF keeps_flush_if])
    next
      case (2 x c2)
      then have "cn_state c2 = cn_state c"
        using flush_if_moves [OF 2(1)] only_moved_state c1 by fastforce
      then show ?case
        using 2(2) step R_state [of c2] by (auto simp: io_ok_def)
    qed
  qed
qed

text \<open>Every \<open>send_\<close> call: the check, then the plan, if its arguments are accepted.\<close>

lemma keeps_send:
  assumes "\<And>p. planned = Ok p \<Longrightarrow> pl_class p = k" and "k \<noteq> Q_Sync"
  shows "keeps R (io_bind (lift_state CE_Pipeline (begin_send k)) (\<lambda>_. io_bind (io_result w planned) (dispatch os)))"
proof (rule keepsI, erule bind_at, goal_cases)
  case (1 c y y')
  then show ?case
    by (intro keepsD [OF keeps_lift]) (simp_all add: ps_step.send_given_up)
next
  case (2 c y x c1)
  obtain s1 where s1: "begin_send k (cn_state c) = (Ok (), s1)" and c1: "c1 = c\<lparr> cn_state := s1 \<rparr>"
    using 2(1) by (auto simp: lift_state_def split: prod.splits)
  have again: "begin_send k (cn_state c1) = (Ok (), cn_state c1)"
    using begin_send_again [OF s1] by (simp add: c1)
  show ?case
    using 2(2)
  proof (rule bind_at, goal_cases)
    case (1 y)
    then show ?case
      by (rule keepsD [OF keeps_result])
  next
    case (2 p c2)
    then have "planned = Ok p" "c2 = c1"
      by (auto simp: io_result_def)
    then show ?case
      using 2(2) again assms by (intro R_dispatch) auto
  qed
qed

lemma keeps_send_plan:
  assumes "pl_class p \<noteq> Q_Sync"
  shows "keeps R (io_bind (lift_state CE_Pipeline (begin_send (pl_class p))) (\<lambda>_. dispatch os p))"
proof -
  have "io_bind (io_result CE_Argument (Ok p)) (dispatch os) = dispatch os p"
    by (rule ext) (simp add: io_bind_def io_result_def)
  then show ?thesis
    using keeps_send [of "Ok p" "pl_class p" CE_Argument os] assms by simp
qed

lemma plan_class:
  "query_params command types ps = Ok p \<Longrightarrow> pl_class p = Q_Extended"
  "query_prepared statement ps = Ok p \<Longrightarrow> pl_class p = Q_Extended"
  "prepare statement command types = Ok p \<Longrightarrow> pl_class p = Q_Prepare"
  by (auto simp: query_params_def query_prepared_def prepare_def query_guts_def Let_def)

lemma keeps_sends:
  "keeps R (send_query os query)"
  "keeps R (send_query_params os query types ps)"
  "keeps R (send_prepare os statement query types)"
  "keeps R (send_query_prepared os statement ps)"
  "keeps R (send_typed os command t name)"
proof -
  let ?q = "\<lparr> pl_messages = [Query query], pl_class = Q_Simple, pl_query = Some query \<rparr>"
  show "keeps R (send_query os query)"
    using keeps_send_plan [of ?q os] by (simp add: send_query_def)
  show "keeps R (send_query_params os query types ps)"
    unfolding send_query_params_def by (rule keeps_send) (simp_all add: plan_class)
  show "keeps R (send_prepare os statement query types)"
    unfolding send_prepare_def by (rule keeps_send) (simp_all add: plan_class)
  show "keeps R (send_query_prepared os statement ps)"
    unfolding send_query_prepared_def by (rule keeps_send) (simp_all add: plan_class)
  have "pl_class (typed_command_plan command t name) \<noteq> Q_Sync"
    by (simp add: typed_command_plan_def split: typed_command.split)
  then show "keeps R (send_typed os command t name)"
    unfolding send_typed_def Let_def by (rule keeps_send_plan)
qed

lemma keeps_pipeline_sync: "keeps R (pipeline_sync_internal os immediate)"
  unfolding pipeline_sync_internal_def
proof (rule keepsI, erule bind_at, goal_cases)
  case (1 c y y')
  then show ?case
    by (intro keepsD [OF keeps_check])
next
  case (2 c y x c1)
  then have c1: "c1 = c" "begin_pipeline_sync (cn_state c) = Ok ()"
    by (auto simp: check_state_def io_result_def)
  from 2(2) show ?case
  proof (rule bind_at, goal_cases)
    case (1 y)
    then show ?case
      by (rule keepsD [OF keeps_put])
  next
    case (2 x c2)
    then have c2: "cn_state c2 = cn_state c"
      using put_message_state c1 by fastforce
    from 2(2) show ?case
    proof (rule bind_at, goal_cases)
      case (1 y)
      then show ?case
        by (rule keepsD [OF keeps_flush_if])
    next
      case (2 x c3)
      then have "cn_state c3 = cn_state c"
        using flush_if_moves [OF 2(1)] only_moved_state c2 by fastforce
      then show ?case
        using 2(2) c1(2) by (auto simp: io_ok_def intro!: R_state ps_step.pipeline_sync)
    qed
  qed
qed

lemma keeps_flush_request: "keeps R (send_flush_request os)"
  unfolding send_flush_request_def
  by (intro keeps_rules keeps_here [where f = "\<lambda>c. flush_if os (flushes_now (cn_state c) (length (cn_outbuf c)))"])

lemma keeps_modes:
  "keeps R conn_enter_pipeline_mode" "keeps R (conn_exit_pipeline_mode os)"
  "keeps R conn_set_single_row_mode" "keeps R (conn_set_chunked_rows_mode n)"
proof -
  show "keeps R conn_enter_pipeline_mode"
    unfolding conn_enter_pipeline_mode_def by (intro keeps_lift ps_step.enter)
  show "keeps R (conn_exit_pipeline_mode os)"
    unfolding conn_exit_pipeline_mode_def by (intro keeps_rules keeps_lift ps_step.leave)
  show "keeps R conn_set_single_row_mode"
    using ps_step.single_row
    by (auto simp: keeps_def conn_set_single_row_mode_def io_ok_def split_beta intro!: R_state)
  show "keeps R (conn_set_chunked_rows_mode n)"
    using ps_step.chunked
    by (auto simp: keeps_def conn_set_chunked_rows_mode_def io_ok_def split_beta intro!: R_state)
qed

lemma keeps_set_nonblocking: "keeps R (set_nonblocking os nb)"
proof -
  have "keeps R (\<lambda>c. if f = F_Pending then io_err FlushPending c else io_ok () (c\<lparr> cn_nonblocking := nb \<rparr>))" for f
    by (cases f) (auto simp: keeps_def io_ok_def io_err_def intro: R_refl R_nonblocking)
  then have "keeps R (io_bind (flush os)
      (\<lambda>f c. if f = F_Pending then io_err FlushPending c else io_ok () (c\<lparr> cn_nonblocking := nb \<rparr>)))"
    by (intro keeps_rules)
  then show ?thesis
    unfolding set_nonblocking_def keeps_def by (auto simp: io_ok_def intro: R_refl)
qed

lemma keeps_consume: "keeps R (consume_input os)"
proof -
  have "keeps R (io_bind (if d then io_bind (flush os) (\<lambda>_. io_ok ()) else io_ok ())
      (\<lambda>_. io_bind (read_data os) (\<lambda>_. io_ok ())))" for d
    by (cases d) (simp_all add: keeps_rules)
  then show ?thesis
    unfolding consume_input_def keeps_def by blast
qed

lemma keeps_is_busy: "keeps R conn_is_busy"
  unfolding conn_is_busy_def 
  by (intro keeps_bind keeps_parse_input keeps_ok keeps_here [where f = "\<lambda>c. io_ok (is_busy (cn_state c))"])

end

section \<open>Copying, executing, calling\<close>

lemma begin_get_copy_kept:
  assumes "begin_get_copy s = Ok ()" and "message_id m \<in> set (bstr ''ANS'')"
  shows "begin_get_copy (snd (ps_apply m s)) = Ok ()"
  using assms save_message_sel(1) [of m s] by (simp only: ps_apply_async begin_get_copy_def)

lemma apply_message_state: "cn_state (snd (apply_message m c)) = snd (ps_apply m (cn_state c))"
  by (simp add: apply_message_def Let_def split_beta split: result.split)

lemma copy_message_cases:
  assumes "copy_message mid s = (step, s')"
  shows "step = CS_Async \<and> mid \<in> set (bstr ''ANS'') \<and> s' = s \<or> step = CS_Data \<and> mid = chb CHR ''d'' \<and> s' = s \<or>
    step = CS_End"
  using assms by (auto simp: copy_message_def split: if_splits)

lemma parse_frame_message: "parse_frame mid s e c = (Ok m, c') \<Longrightarrow> message_id m = mid"
  by (auto simp: parse_frame_def Let_def split: result.splits dest: decode_id)

context call_relation
begin

lemma keeps_put_copy: "keeps R (put_copy_data os data)" "keeps R (conn_put_copy_end os error)"
proof -
  have "keeps R (if data \<noteq> [] then io_bind (put_message (FeCopyData data))
      (\<lambda>_ c. flush_if os (length (cn_outbuf c) \<ge> PUT_MSG_PUSH_THRESHOLD) c) else io_ok ())"
    by (auto intro!: keeps_rules keeps_here [where f = "\<lambda>c. flush_if os (length (cn_outbuf c) \<ge> PUT_MSG_PUSH_THRESHOLD)"])
  then show "keeps R (put_copy_data os data)"
    unfolding put_copy_data_def by (intro keeps_bind keeps_check keeps_parse_input)
  have "keeps R (if sync then put_message Sync else io_ok ())" for sync
    by (simp add: keeps_rules)
  then show "keeps R (conn_put_copy_end os error)"
    unfolding conn_put_copy_end_def by (intro keeps_rules keeps_lift ps_step.end_copy_in)
qed

text \<open>One turn of the loop of \<open>get_copy_data\<close>, for any continuation.\<close>

lemma R_get_copy:
  assumes "get_copy_loop os nonblocking c = Some y" and "begin_get_copy (cn_state c) = Ok ()"
  shows "R c (snd y)"
proof -
  have "begin_get_copy (cn_state c) = Ok () \<longrightarrow> R c (snd y)"
    using _ assms(1)
  proof (rule get_copy_loop.raw_induct [where P = "\<lambda>os nb c y. begin_get_copy (cn_state c) = Ok () \<longrightarrow> R c (snd y)"],
      intro impI)
    fix f os nonblocking c y
    assume IH: "\<And>os nb c y. f os nb c = Some y \<Longrightarrow> begin_get_copy (cn_state c) = Ok () \<longrightarrow> R c (snd y)"
      and body: "(case next_copy_frame (unparsed c) of
        Frame_Message mid s e \<Rightarrow>
          (case copy_message mid (cn_state c) of (step, st) \<Rightarrow>
             (case step of
                CS_Async \<Rightarrow>
                  (case parse_frame mid s e (c\<lparr> cn_state := st \<rparr>) of (r, c) \<Rightarrow>
                     (case r of
                        Ok m \<Rightarrow>
                          (case apply_message m c of (r, c) \<Rightarrow>
                             (case r of Ok _ \<Rightarrow> f os nonblocking c | Err err \<Rightarrow> Some (Err err, c)))
                      | Err err \<Rightarrow> Some (Err err, c)))
              | CS_Data \<Rightarrow>
                  (case parse_frame mid s e (c\<lparr> cn_state := st \<rparr>) of (r, c) \<Rightarrow>
                     (case r of
                        Ok m \<Rightarrow>
                          (case m of
                             CopyData d \<Rightarrow> if d \<noteq> [] then Some (Ok (CR_Row d), c) else f os nonblocking c
                           | _ \<Rightarrow> None)
                      | Err err \<Rightarrow> Some (Err err, c)))
              | CS_End \<Rightarrow> Some (Ok CR_End, c\<lparr> cn_state := st \<rparr>)))
      | SyncLoss mid len \<Rightarrow> Some (Err (CE_Protocol (LostSynchronization mid len)), c)
      | Incomplete \<Rightarrow>
          if nonblocking then Some (Ok CR_WouldBlock, c)
          else io_bind (read_more os) (\<lambda>_. f os nonblocking) c) = Some y"
      and ok: "begin_get_copy (cn_state c) = Ok ()"
    have go: "R c (snd y)" if "R c c1" "f os nonblocking c1 = Some y" "begin_get_copy (cn_state c1) = Ok ()" for c1
      using that IH R_trans by blast
    show "R c (snd y)"
    proof (cases "next_copy_frame (unparsed c)")
      case Incomplete
      have "R c (snd y)" if "io_bind (read_more os) (\<lambda>_. f os nonblocking) c = Some y"
        using that
      proof (rule bind_at)
        fix x c1
        assume c1: "read_more os c = Some (Ok x, c1)" "f os nonblocking c1 = Some y"
        then show "R c1 (snd y)"
          using IH ok read_more_state by fastforce
      qed (rule keepsD [OF keeps_read_more])
      then show ?thesis
        using body Incomplete by (auto simp: R_refl split: if_splits)
    next
      case (SyncLoss mid len)
      then show ?thesis
        using body by (auto simp: R_refl)
    next
      case (Frame_Message mid s e)
      obtain step st where cm: "copy_message mid (cn_state c) = (step, st)"
        by fastforce
      obtain r c1 where p: "parse_frame mid s e c = (r, c1)"
        by fastforce
      have c1: "R c c1" "cn_state c1 = cn_state c"
        using R_frame [of c mid s e] parse_frame_state [of mid s e c] p Frame_Message
        by (simp_all add: at_frame_def)
      from copy_message_cases [OF cm] show ?thesis
      proof (elim disjE conjE)
        assume "step = CS_End"
        then show ?thesis
          using body Frame_Message cm ps_step.copy_out [OF ok, of mid] by (auto intro: R_state)
      next
        assume st: "step = CS_Data" "st = cn_state c"
        then show ?thesis
          using body Frame_Message cm p c1 ok go [of c1] by (auto split: result.splits backend.splits if_splits)
      next
        assume st: "step = CS_Async" "mid \<in> set (bstr ''ANS'')" "st = cn_state c"
        show ?thesis
        proof (cases r)
          case (Err err)
          then show ?thesis
            using body Frame_Message cm p c1 st by auto
        next
          case (Ok m)
          have m: "message_id m \<in> set (bstr ''ANS'')"
            using parse_frame_message p Ok st(2) by blast
          obtain r2 c2 where ap: "apply_message m c1 = (r2, c2)"
            by fastforce
          have "R c1 (snd (apply_message m c1))"
            using ps_step.copy_async [OF ok m] c1(2) by (intro R_apply) simp
          then have "R c c2" "begin_get_copy (cn_state c2) = Ok ()"
            using ap c1 R_trans begin_get_copy_kept [OF ok m] apply_message_state [of m c1] by auto
          then show ?thesis
            using body Frame_Message cm p st Ok ap go [of c2] by (auto split: result.splits)
        qed
      qed
    qed
  qed
  then show ?thesis
    using assms(2) by blast
qed

end

context call_relation
begin

lemma keeps_get_copy_data: "keeps R (get_copy_data os nonblocking)"
  unfolding get_copy_data_def
proof (rule keepsI, erule bind_at, goal_cases)
  case (1 c y y')
  then show ?case
    by (intro keepsD [OF keeps_check])
next
  case (2 c y x c1)
  then have "begin_get_copy (cn_state c1) = Ok ()"
    by (auto simp: check_state_def io_result_def)
  with 2(2) show ?case
    by (rule R_get_copy)
qed

lemma keeps_exec_start: "keeps R (exec_start os)"
proof -
  have "R c (snd y)" if "exec_start_loop os c = Some y" for c y
    using that
  proof (rule exec_start_loop.raw_induct [rotated])
    fix f os c y
    assume IH: "\<And>os c y. f os c = Some y \<Longrightarrow> R c (snd y)"
      and body: "io_bind (get_result os) (\<lambda>r c.
       case r of
         None \<Rightarrow> io_ok () c
       | Some result \<Rightarrow>
           if qr_status result = CopyIn then
             io_bind (conn_put_copy_end os (Some (bstr ''COPY terminated by new PQexec''))) (\<lambda>_. f os) c
           else if qr_status result = CopyOut then f os (c\<lparr> cn_state := abandon_copy_out (cn_state c) \<rparr>)
           else if qr_status result = CopyBoth then io_err (CE_Pipeline ExecDuringCopyBoth) c
           else f os c) c = Some y"
    have f: "keeps R (f os)"
      using IH by (rule keepsI)
    have "keeps R (\<lambda>c. f os (c\<lparr> cn_state := abandon_copy_out (cn_state c) \<rparr>))"
      using f by (intro keeps_update ps_step.abandon)
    then have "keeps R (\<lambda>c. case r of
         None \<Rightarrow> io_ok () c
       | Some result \<Rightarrow>
           if qr_status result = CopyIn then
             io_bind (conn_put_copy_end os (Some (bstr ''COPY terminated by new PQexec''))) (\<lambda>_. f os) c
           else if qr_status result = CopyOut then f os (c\<lparr> cn_state := abandon_copy_out (cn_state c) \<rparr>)
           else if qr_status result = CopyBoth then io_err (CE_Pipeline ExecDuringCopyBoth) c
           else f os c)" for r
      using keeps_bind [OF keeps_put_copy(2)] f
      by (cases r; cases "qr_status (the r)") (simp_all add: keeps_ok keeps_err)
    then show "R c (snd y)"
      using body by (intro keepsD [OF keeps_bind [OF keeps_get_result]])
  qed
  then have "keeps R (exec_start_loop os)"
    by (rule keepsI)
  then show ?thesis
    unfolding exec_start_def by (intro keeps_bind keeps_check)
qed

lemma keeps_exec_finish: "keeps R (exec_finish os)"
proof -
  have "R c (snd y)" if "exec_finish_loop os rs c = Some y" for rs c y
    using that
  proof (rule exec_finish_loop.raw_induct [rotated])
    fix f os rs c y
    assume IH: "\<And>os rs c y. f os rs c = Some y \<Longrightarrow> R c (snd y)"
      and body: "io_bind (get_result os) (\<lambda>r c.
       case r of
         None \<Rightarrow> io_ok rs c
       | Some result \<Rightarrow>
           if qr_status result \<in> {CopyIn, CopyOut, CopyBoth} then io_ok (rs @ [result]) c
           else f os (rs @ [result]) c) c = Some y"
    have "keeps R (f os rs)" for rs
      using IH by (rule keepsI)
    then have "keeps R (\<lambda>c. case r of
         None \<Rightarrow> io_ok rs c
       | Some result \<Rightarrow>
           if qr_status result \<in> {CopyIn, CopyOut, CopyBoth} then io_ok (rs @ [result]) c
           else f os (rs @ [result]) c)" for r
      by (cases r; cases "qr_status (the r)") (simp_all add: keeps_ok)
    then show "R c (snd y)"
      using body by (intro keepsD [OF keeps_bind [OF keeps_get_result]])
  qed
  then show ?thesis
    unfolding exec_finish_def by (rule keepsI)
qed

lemma keeps_exec_with: "keeps R m \<Longrightarrow> keeps R (exec_with os m)"
  unfolding exec_with_def by (intro keeps_bind keeps_exec_start keeps_exec_finish)

lemma keeps_execs:
  "keeps R (exec os query)"
  "keeps R (exec_params os query types ps)"
  "keeps R (conn_prepare os statement query types)"
  "keeps R (exec_prepared os statement ps)"
  "keeps R (exec_typed os command t name)"
  unfolding exec_def exec_params_def conn_prepare_def exec_prepared_def exec_typed_def
  by (intro keeps_exec_with keeps_sends)+

lemma keeps_set_client_encoding: "keeps R (set_client_encoding os enc)"
  unfolding set_client_encoding_def
  by (cases "enc = bstr ''auto'' \<or> 128 < 27 + 1 + length enc")
    (simp_all only: if_True if_False keeps_ok keeps_bind [OF keeps_execs(1) keeps_ok])

lemma R_fn_message: "R c (snd (fn_message m v st error c))"
proof (cases m)
  case (ParameterStatus name w)
  then show ?thesis
    using R_trans [OF R_state [OF ps_step.parameter] R_event] by (simp add: fn_message_def Let_def)
qed (simp_all add: fn_message_def Let_def R_refl R_event)

lemma keeps_nfn_loop: "keeps R (nfn_loop os buf_size v st error)"
proof (rule keepsI)
  fix c y
  assume "nfn_loop os buf_size v st error c = Some y"
  then show "R c (snd y)"
  proof (rule nfn_loop.raw_induct [rotated])
    fix f os buf_size v st error c y
    assume IH: "\<And>os buf_size v st error c y. f os buf_size v st error c = Some y \<Longrightarrow> R c (snd y)"
      and body: "(case next_frame (unparsed c) of
        Incomplete \<Rightarrow> io_bind (read_more os) (\<lambda>_. f os buf_size v st error) c
      | SyncLoss mid len \<Rightarrow> Some (Err (CE_Protocol (LostSynchronization mid len)), c)
      | Frame_Message mid s e \<Rightarrow>
          if too_much_data buf_size mid s e then Some (Err (CE_Protocol TooMuchData), c)
          else
            (case parse_frame mid s e c of (r, c) \<Rightarrow>
               (case r of
                  Err err \<Rightarrow> Some (Err err, c)
                | Ok m \<Rightarrow>
                    (case fn_message m v st error c of (step, c) \<Rightarrow>
                       (case step of
                          FN_Next v st error \<Rightarrow> f os buf_size v st error c
                        | FN_Done r \<Rightarrow> Some (Ok r, c)
                        | FN_Protocol \<Rightarrow> Some (Err (CE_Protocol (FunctionCallProtocol mid)), c)))))) = Some y"
    have f: "keeps R (f os buf_size v st error)" for v st error
      using IH by (rule keepsI)
    show "R c (snd y)"
    proof (cases "next_frame (unparsed c)")
      case Incomplete
      then show ?thesis
        using body keepsD [OF keeps_bind [OF keeps_read_more f]] by simp
    next
      case (SyncLoss mid len)
      then show ?thesis
        using body by (auto simp: R_refl)
    next
      case (Frame_Message mid s e)
      obtain r c1 where p: "parse_frame mid s e c = (r, c1)"
        by fastforce
      have c1: "R c c1"
        using R_frame [of c mid s e] p Frame_Message by (simp add: at_frame_def)
      have c2: "R c (snd (fn_message m v st error c1))" for m
        using R_trans [OF c1 R_fn_message] .
      have next_turn: "R c (snd y)"
        if "f os buf_size v' st' error' c3 = Some y" "fn_message m v st error c1 = (step, c3)" for m step v' st' error' c3
        using c2 [of m] IH [OF that(1)] R_trans that(2) by auto
      show ?thesis
      proof (cases "\<exists>m. r = Ok m \<and> \<not> too_much_data buf_size mid s e")
        case True
        then obtain m where m: "r = Ok m" "\<not> too_much_data buf_size mid s e" by blast
        obtain step c3 where fm: "fn_message m v st error c1 = (step, c3)"
          by fastforce
        then show ?thesis
          using body Frame_Message p m c2 [of m] next_turn [OF _ fm] by (cases step) auto
      next
        case False
        then show ?thesis
          using body Frame_Message p c1 by (auto simp: R_refl split: if_splits result.splits)
      qed
    qed
  qed
qed

lemma keeps_nfn: "keeps R (nfn os fnid args buf_size)"
  unfolding nfn_def by (intro keeps_rules keeps_nfn_loop)

lemma keeps_terminate: "keeps R (terminate os)"
  unfolding terminate_def by (intro keeps_rules)

lemma R_check_target_loop:
  assumes "check_target_loop ex te target second_pass st c = Some y"
    and "\<And>c query y. ex c query = Some y \<Longrightarrow> R c (snd y)" and "\<And>c c'. te c = Some c' \<Longrightarrow> R c c'"
  shows "R c (snd y)"
proof -
  let ?P = "\<lambda>ex te target second_pass st c y.
    (\<forall>c query y. ex c query = Some y \<longrightarrow> R c (snd y)) \<and> (\<forall>c c'. te c = Some c' \<longrightarrow> R c c') \<longrightarrow> R c (snd y)"
  have "?P ex te target second_pass st c y"
    using _ assms(1)
  proof (rule check_target_loop.raw_induct [where P = ?P], intro impI, elim conjE)
    fix f ex te target second_pass st c y
    assume IH: "\<And>ex te target second_pass st c y. f ex te target second_pass st c = Some y \<Longrightarrow>
        ?P ex te target second_pass st c y"
      and body: "(case check_target target second_pass st of
        Accept \<Rightarrow> Some (Ok None, c)
      | Ask q \<Rightarrow>
          Option.bind (ex c (sql q)) (\<lambda>(r, c').
            case r of
              Err e \<Rightarrow> Some (Err e, c')
            | Ok rs \<Rightarrow>
                (case answer q (case rs of [] \<Rightarrow> None | r # _ \<Rightarrow> Some r) st of
                   Ok st' \<Rightarrow> f ex te target second_pass st' c'
                 | Err rejection \<Rightarrow> map_option (\<lambda>c. (Ok (Some rejection), c)) (te c')))
      | Reject rejection \<Rightarrow> map_option (\<lambda>c. (Ok (Some rejection), c)) (te c)) = Some y"
      and ex: "\<forall>c query y. ex c query = Some y \<longrightarrow> R c (snd y)" and te: "\<forall>c c'. te c = Some c' \<longrightarrow> R c c'"
    show "R c (snd y)"
    proof (cases "check_target target second_pass st")
      case (Ask q)
      then obtain r c' where e: "ex c (sql q) = Some (r, c')"
        and rest: "(case r of
              Err e \<Rightarrow> Some (Err e, c')
            | Ok rs \<Rightarrow>
                (case answer q (case rs of [] \<Rightarrow> None | r # _ \<Rightarrow> Some r) st of
                   Ok st' \<Rightarrow> f ex te target second_pass st' c'
                 | Err rejection \<Rightarrow> map_option (\<lambda>c. (Ok (Some rejection), c)) (te c'))) = Some y"
        using body by (auto simp: bind_eq_Some_conv)
      have "R c c'"
        using ex e by fastforce
      moreover have "R c' (snd y)"
      proof (cases r)
        case (Ok rs)
        then show ?thesis
          using rest IH ex te by (cases "answer q (case rs of [] \<Rightarrow> None | r # _ \<Rightarrow> Some r) st") auto
      qed (use rest in \<open>auto simp: R_refl\<close>)
      ultimately show ?thesis
        by (rule R_trans)
    qed (use body te in \<open>auto simp: R_refl\<close>)
  qed
  then show ?thesis
    using assms(2,3) by blast
qed

lemma keeps_check_target: "keeps R (check_target_conn os target second_pass)"
proof (rule keepsI)
  fix c y
  assume "check_target_conn os target second_pass c = Some y"
  then obtain st where l: "check_target_loop (\<lambda>c query. exec os query c) (\<lambda>c. map_option snd (terminate os c))
      target second_pass st c = Some y"
    by (auto simp: check_target_conn_def conn_check_target_def bind_eq_Some_conv)
  have "R c (snd y)" if "exec os query c = Some y" for query c y
    using that by (rule keepsD [OF keeps_execs(1)])
  moreover have "R c c'" if "map_option snd (terminate os c) = Some c'" for c c'
    using that keepsD [OF keeps_terminate] by blast
  ultimately show "R c (snd y)"
    by (intro R_check_target_loop [OF l])
qed

end

section \<open>The startup exchange\<close>

context call_relation
begin

lemma keeps_read_message: "keeps R (read_message os)"
proof (rule keepsI)
  fix c y
  assume "read_message os c = Some y"
  then show "R c (snd y)"
  proof (rule read_message.raw_induct [rotated])
    fix f os c y
    assume IH: "\<And>os c y. f os c = Some y \<Longrightarrow> R c (snd y)"
      and body: "(case next_frame (unparsed c) of
        Frame_Message mid s e \<Rightarrow> Some (parse_frame mid s e c)
      | SyncLoss mid len \<Rightarrow> Some (Err (CE_Protocol (LostSynchronization mid len)), c)
      | Incomplete \<Rightarrow> io_bind (read_more os) (\<lambda>_. f os) c) = Some y"
    have "keeps R (f os)"
      using IH by (rule keepsI)
    then show "R c (snd y)"
      using body R_frame [of c] keepsD [OF keeps_bind [OF keeps_read_more], of "\<lambda>_. f os" os c y]
      by (cases "next_frame (unparsed c)") (auto simp: R_refl at_frame_def)
  qed
qed

lemma R_startup_message: "startup_message m a c = (step, a', c') \<Longrightarrow> R c c'"
proof (cases m)
  case (ParameterStatus name v)
  moreover have "R c (take_event (Some (Ev_ParameterStatus name v)) (c\<lparr> cn_state := save_parameter_status (cn_state c) name v \<rparr>))"
    using R_trans [OF R_state [OF ps_step.parameter] R_event] .
  ultimately show "startup_message m a c = (step, a', c') \<Longrightarrow> R c c'"
    by (auto simp: startup_message_def take_event_def)
next
  case (NoticeResponse e)
  then show "startup_message m a c = (step, a', c') \<Longrightarrow> R c c'"
    using R_event [of c "Some (Ev_Notice e)"] by (auto simp: startup_message_def take_event_def)
next
  case (ReadyForQuery st)
  then show "startup_message m a c = (step, a', c') \<Longrightarrow> R c c'"
    using R_event [of c "Some (Ev_ReadyForQuery st)"] by (auto simp: startup_message_def take_event_def)
qed (auto simp: startup_message_def R_refl R_key split: prod.splits)

lemma keeps_startup_loop: "keeps R (startup_loop os a)"
proof (rule keepsI)
  fix c y
  assume "startup_loop os a c = Some y"
  then show "R c (snd y)"
  proof (rule startup_loop.raw_induct [rotated])
    fix f os a c y
    assume IH: "\<And>os a c y. f os a c = Some y \<Longrightarrow> R c (snd y)"
      and body: "io_bind (read_message os) (\<lambda>m c.
       case startup_message m a c of (step, a, c) \<Rightarrow>
         (case step of
            SU_Next \<Rightarrow> f os a c
          | SU_Answer reply \<Rightarrow> io_bind (send os reply) (\<lambda>_. f os a) c
          | SU_Ready \<Rightarrow> Some (Ok (), c)
          | SU_Fail e \<Rightarrow> Some (Err e, c))) c = Some y"
    have f: "keeps R (f os a)" for a
      using IH by (rule keepsI)
    have answered: "keeps R (io_bind (send os reply) (\<lambda>_. f os a))" for reply a
      unfolding send_def using f by (intro keeps_rules)
    from body show "R c (snd y)"
    proof (rule bind_at, goal_cases)
      case (1 y)
      then show ?case
        by (rule keepsD [OF keeps_read_message])
    next
      case (2 m c1)
      obtain step a2 c2 where m: "startup_message m a c1 = (step, a2, c2)"
        by (cases "startup_message m a c1")
      note c2 = R_startup_message [OF m]
      have "R c2 (snd y)"
        using 2(2) m keepsD [OF f] keepsD [OF answered] by (cases step) (auto simp: R_refl)
      then show ?case
        by (rule R_trans [OF c2])
    qed
  qed
qed

lemma R_start_up:
  assumes "start_up os ci nonce = Some (Ok c)"
  shows "\<exists>startup. R (opened (fresh_net 0) startup) c"
proof -
  obtain startup where "io_bind (flush os) (\<lambda>_. startup_loop os (startup_authenticator ci nonce))
      (opened (fresh_net 0) startup) = Some (Ok (), c)"
    using assms by (auto simp: start_up_def bind_eq_Some_conv)
  then show ?thesis
    using keepsD [OF keeps_bind [OF keeps_flush keeps_startup_loop]] by fastforce
qed

end

section \<open>A client\<close>

text \<open>A connection as \<open>connect\<close> hands it out, and one call on it; whether the call succeeds or fails, the
  connection is what it leaves behind.\<close>

definition started :: "os \<Rightarrow> connection \<Rightarrow> bool" where
  "started os c \<longleftrightarrow> (\<exists>ci nonce p c0. start_up os ci nonce = Some (Ok c0) \<and> c = c0\<lparr> cn_raddr := p \<rparr>)"

inductive client_call :: "os \<Rightarrow> connection \<Rightarrow> connection \<Rightarrow> bool" for os where
  "flush os c = Some (r, c') \<Longrightarrow> client_call os c c'"
| "terminate os c = Some (r, c') \<Longrightarrow> client_call os c c'"
| "consume_input os c = Some (r, c') \<Longrightarrow> client_call os c c'"
| "set_nonblocking os nb c = Some (r, c') \<Longrightarrow> client_call os c c'"
| "get_result os c = Some (r, c') \<Longrightarrow> client_call os c c'"
| "conn_is_busy c = Some (r, c') \<Longrightarrow> client_call os c c'"
| "send_query os query c = Some (r, c') \<Longrightarrow> client_call os c c'"
| "send_query_params os query types ps c = Some (r, c') \<Longrightarrow> client_call os c c'"
| "send_prepare os statement query types c = Some (r, c') \<Longrightarrow> client_call os c c'"
| "send_query_prepared os statement ps c = Some (r, c') \<Longrightarrow> client_call os c c'"
| "send_typed os command t name c = Some (r, c') \<Longrightarrow> client_call os c c'"
| "conn_enter_pipeline_mode c = Some (r, c') \<Longrightarrow> client_call os c c'"
| "conn_exit_pipeline_mode os c = Some (r, c') \<Longrightarrow> client_call os c c'"
| "pipeline_sync_internal os immediate c = Some (r, c') \<Longrightarrow> client_call os c c'"
| "send_flush_request os c = Some (r, c') \<Longrightarrow> client_call os c c'"
| "conn_set_single_row_mode c = Some (rb, c') \<Longrightarrow> client_call os c c'"
| "conn_set_chunked_rows_mode n c = Some (rb, c') \<Longrightarrow> client_call os c c'"
| "put_copy_data os data c = Some (r, c') \<Longrightarrow> client_call os c c'"
| "conn_put_copy_end os error c = Some (r, c') \<Longrightarrow> client_call os c c'"
| "get_copy_data os nonblocking c = Some (r, c') \<Longrightarrow> client_call os c c'"
| "exec os query c = Some (r, c') \<Longrightarrow> client_call os c c'"
| "exec_params os query types ps c = Some (r, c') \<Longrightarrow> client_call os c c'"
| "conn_prepare os statement query types c = Some (r, c') \<Longrightarrow> client_call os c c'"
| "exec_prepared os statement ps c = Some (r, c') \<Longrightarrow> client_call os c c'"
| "exec_typed os command t name c = Some (r, c') \<Longrightarrow> client_call os c c'"
| "set_client_encoding os enc c = Some (r, c') \<Longrightarrow> client_call os c c'"
| "nfn os fnid args buf_size c = Some (r, c') \<Longrightarrow> client_call os c c'"
| "check_target_conn os target second_pass c = Some (r, c') \<Longrightarrow> client_call os c c'"
| "client_call os c (set_trace_flags flags c)"

inductive client_step :: "os \<Rightarrow> connection \<Rightarrow> connection \<Rightarrow> bool" for os where
  "client_call os c c' \<Longrightarrow> client_step os c c'"
| "client_step os c (trace c)"
| "client_step os c (snd (untrace c))"

context call_relation
begin

lemmas keeps_calls = keeps_flush keeps_terminate keeps_consume keeps_set_nonblocking keeps_get_result keeps_is_busy
  keeps_sends keeps_modes keeps_pipeline_sync keeps_flush_request keeps_put_copy keeps_get_copy_data keeps_execs
  keeps_set_client_encoding keeps_nfn keeps_check_target

lemma R_client_call: "client_call os c c' \<Longrightarrow> R c c'"
  by (induction rule: client_call.induct) (auto simp: R_flags dest!: keeps_calls [THEN keepsD])

lemma R_client_calls: "(client_call os)\<^sup>*\<^sup>* c c' \<Longrightarrow> R c c'"
  by (induction rule: rtranclp_induct) (auto simp: R_refl intro: R_trans R_client_call)

end

text \<open>A relation that turning a trace on or off keeps, too.\<close>

locale step_relation = call_relation +
  assumes R_trace: "R c (c\<lparr> cn_trace := t \<rparr>)"
begin

lemma R_client_step: "client_step os c c' \<Longrightarrow> R c c'"
  by (induction rule: client_step.induct)
    (auto simp: trace_def untrace_def R_trace intro: R_client_call)

end

section \<open>The two relations\<close>

interpretation to_pipeline: step_relation "\<lambda>c c'. ps_step\<^sup>*\<^sup>* (cn_state c) (cn_state c')"
proof unfold_locales
  show "ps_step\<^sup>*\<^sup>* (cn_state c) (cn_state (snd (parse_frame mid s e c)))" for c mid s e
    by (simp add: parse_frame_state)
qed (auto simp: trace_sent_def set_trace_flags_def dest: only_moved_state split: option.split)

lemma reach_steps: "reach init step s \<Longrightarrow> step\<^sup>*\<^sup>* s t \<Longrightarrow> reach init step t"
  by (rotate_tac, induction rule: rtranclp_induct) (auto intro: reach_step)

text \<open>A whole message: a type byte, a length word that counts itself and the body, and a body that can be
  decoded. While a trace is on, each message parsed is recorded in it.\<close>

definition whole_message :: "bytes \<Rightarrow> bool" where
  "whole_message f \<longleftrightarrow> 5 \<le> length f \<and> frame_length f = int (length f) - 1 \<and> is_ok (decode (hd f) (drop 5 f))"

definition parsed_frames :: "connection \<Rightarrow> bytes list" where
  "parsed_frames c =
     (case cn_trace c of
        None \<Rightarrow> []
      | Some t \<Rightarrow> concat (map (\<lambda>r. case r of TR_Parsed f \<Rightarrow> [f] | TR_Sent m encoded \<Rightarrow> []) (tr_records t)))"

definition cut :: "connection \<Rightarrow> connection \<Rightarrow> bool" where
  "cut c c' \<longleftrightarrow>
     (\<exists>new fs. net_received (cn_net c') = net_received (cn_net c) @ new \<and>
        unparsed c @ new = concat fs @ unparsed c' \<and> list_all whole_message fs \<and>
        (cn_trace c' = None \<longleftrightarrow> cn_trace c = None) \<and>
        (cn_trace c \<noteq> None \<longrightarrow> parsed_frames c' = parsed_frames c @ fs))"

lemma cut_none:
  "\<lbrakk>net_received (cn_net c') = net_received (cn_net c); unparsed c' = unparsed c;
    cn_trace c' = None \<longleftrightarrow> cn_trace c = None; parsed_frames c' = parsed_frames c\<rbrakk> \<Longrightarrow> cut c c'"
  unfolding cut_def by (intro exI [of _ "[]"]) simp

lemma cut_moved:
  assumes "only_moved c c'"
  shows "cut c c'"
proof -
  have "cn_trace c' = cn_trace c"
    using assms session_cong(3) [of c' c] by (simp add: only_moved_def)
  then have "parsed_frames c' = parsed_frames c"
    by (simp add: parsed_frames_def)
  then show ?thesis
    using assms \<open>cn_trace c' = cn_trace c\<close> unfolding cut_def only_moved_def
    by (auto intro!: exI [of _ "[] :: bytes list"])
qed

lemma cut_trans:
  assumes "cut a b" and "cut b c"
  shows "cut a c"
proof -
  obtain n1 f1 where 1: "net_received (cn_net b) = net_received (cn_net a) @ n1" "unparsed a @ n1 = concat f1 @ unparsed b"
    "list_all whole_message f1" "cn_trace b = None \<longleftrightarrow> cn_trace a = None"
    "cn_trace a \<noteq> None \<longrightarrow> parsed_frames b = parsed_frames a @ f1"
    using assms(1) unfolding cut_def by metis
  obtain n2 f2 where 2: "net_received (cn_net c) = net_received (cn_net b) @ n2" "unparsed b @ n2 = concat f2 @ unparsed c"
    "list_all whole_message f2" "cn_trace c = None \<longleftrightarrow> cn_trace b = None"
    "cn_trace b \<noteq> None \<longrightarrow> parsed_frames c = parsed_frames b @ f2"
    using assms(2) unfolding cut_def by metis
  have "unparsed a @ n1 @ n2 = concat (f1 @ f2) @ unparsed c"
    using 1(2) 2(2) by simp (metis append_assoc)
  then show ?thesis
    using 1 2 unfolding cut_def by (intro exI [of _ "n1 @ n2"] exI [of _ "f1 @ f2"]) auto
qed

lemma at_frame_slice:
  assumes "at_frame buf mid s e"
  shows "s = 5" "5 \<le> e" "e \<le> length buf" "mid = hd (take e buf)" "frame_length (take e buf) = int (length (take e buf)) - 1"
proof -
  have *: "s = 5 \<and> 5 \<le> e \<and> e \<le> length buf \<and> mid = hd buf \<and> frame_length buf = int e - 1"
    using assms
    by (cases buf) (auto simp: at_frame_def next_frame_def next_copy_frame_def Let_def split: if_splits)
  then show "s = 5" "5 \<le> e" "e \<le> length buf" "mid = hd (take e buf)"
    by (auto simp: hd_take)
  have "frame_length (take e buf) = frame_length buf"
    using * by (simp add: frame_length_def)
  then show "frame_length (take e buf) = int (length (take e buf)) - 1"
    using * by simp
qed

lemma parse_frame_parses:
  assumes "at_frame (unparsed c) mid s e" and "parse_frame mid s e c = (Ok m, c')"
  shows "unparsed c = take e (unparsed c) @ unparsed c'" "whole_message (take e (unparsed c))"
    "decode (hd (take e (unparsed c))) (drop 5 (take e (unparsed c))) = Ok m"
    "cn_net c' = cn_net c" "cn_state c' = cn_state c" "cn_trace c' = None \<longleftrightarrow> cn_trace c = None"
    "cn_trace c \<noteq> None \<Longrightarrow> parsed_frames c' = parsed_frames c @ [take e (unparsed c)]"
proof -
  note at = at_frame_slice [OF assms(1)]
  have body: "slice (cn_inbuf c) (cn_start c + s) (cn_start c + e) = drop 5 (take e (unparsed c))"
    using at(1,2) by (simp add: slice_def unparsed_def drop_take add.commute)
  have whole: "slice (cn_inbuf c) (cn_start c) (cn_start c + e) = take e (unparsed c)"
    by (simp add: slice_def unparsed_def)
  show d: "decode (hd (take e (unparsed c))) (drop 5 (take e (unparsed c))) = Ok m"
    using assms(2) body at(4) by (simp add: parse_frame_def Let_def split: result.splits)
  then show "whole_message (take e (unparsed c))"
    using at by (simp add: whole_message_def)
  have "drop e (unparsed c) = drop (cn_start c + e) (cn_inbuf c)"
    by (simp add: unparsed_def add.commute [of e])
  moreover have dec: "decode mid (slice (cn_inbuf c) (cn_start c + s) (cn_start c + e)) = Ok m"
    using d body at(4) by simp
  ultimately have "unparsed c' = drop e (unparsed c)"
    using assms(2) by (cases "cn_trace c") (auto simp: parse_frame_def Let_def, auto simp: unparsed_def)
  then show "unparsed c = take e (unparsed c) @ unparsed c'"
    by simp
  show "cn_net c' = cn_net c" "cn_state c' = cn_state c" "cn_trace c' = None \<longleftrightarrow> cn_trace c = None"
    using assms(2) dec by (auto simp: parse_frame_def Let_def split: option.splits if_splits)
  show "parsed_frames c' = parsed_frames c @ [take e (unparsed c)]" if "cn_trace c \<noteq> None"
    using that assms(2) dec whole
    by (auto simp: parse_frame_def Let_def parsed_frames_def split: option.splits if_splits)
qed

lemma parse_frame_cut:
  assumes "at_frame (unparsed c) mid s e"
  shows "cut c (snd (parse_frame mid s e c))"
proof (cases "parse_frame mid s e c")
  case (Pair r c')
  show ?thesis
  proof (cases r)
    case (Ok m)
    note p = parse_frame_parses [OF assms Pair [unfolded Ok]]
    show ?thesis
      using p Pair unfolding cut_def by (intro exI [of _ "[]"] exI [of _ "[take e (unparsed c)]"]) simp
  next
    case (Err err)
    then have "c' = c"
      using Pair by (auto simp: parse_frame_def Let_def split: result.splits)
    then show ?thesis
      using Pair by (simp add: cut_none)
  qed
qed

interpretation input_cut: call_relation cut
proof unfold_locales
  show "cut c c" for c
    by (rule cut_none) simp_all
  show "cut a b \<Longrightarrow> cut b c \<Longrightarrow> cut a c" for a b c
    by (rule cut_trans)
  show "cut c (snd (parse_frame mid s e c))" if "at_frame (unparsed c) mid s e" for c mid s e
    using that by (rule parse_frame_cut)
  show "cut c c'" if "only_moved c c'" for c c'
    using that by (rule cut_moved)
  show "cut c (take_event ev c)" for c ev
    by (rule cut_none) (simp_all add: take_event_def parsed_frames_def split: option.split event.split)
  show "cut c (trace_sent m encoded c)" for c m encoded
    by (rule cut_none) (simp_all add: trace_sent_def parsed_frames_def split: option.split)
  show "cut c (set_trace_flags flags c)" for c flags
    by (rule cut_none) (simp_all add: set_trace_flags_def parsed_frames_def unparsed_def split: option.split)
qed (auto intro!: cut_none simp: unparsed_def parsed_frames_def)

text \<open>Whatever is done, tracing included, the bytes received are whole messages and what is left.\<close>

lemma received_cut:
  assumes "reach (started os) (client_step os) c"
  shows "\<exists>fs. list_all whole_message fs \<and> net_received (cn_net c) = concat fs @ unparsed c"
  using assms
proof (induction rule: reach.induct)
  case (reach_init c)
  then obtain ci nonce p c0 where "start_up os ci nonce = Some (Ok c0)" and c: "c = c0\<lparr> cn_raddr := p \<rparr>"
    by (auto simp: started_def)
  then obtain startup where "cut (opened (fresh_net 0) startup) c0"
    using input_cut.R_start_up by blast
  then show ?case
    by (auto simp: c cut_def opened_def fresh_net_def unparsed_def)
next
  case (reach_step c c')
  then obtain fs where fs: "list_all whole_message fs" "net_received (cn_net c) = concat fs @ unparsed c"
    by blast
  show ?case
    using reach_step.hyps(2)
  proof cases
    case 1
    then obtain new gs where "net_received (cn_net c') = net_received (cn_net c) @ new"
      "unparsed c @ new = concat gs @ unparsed c'" "list_all whole_message gs"
      using input_cut.R_client_call [of os c c'] unfolding cut_def by blast
    then show ?thesis
      using fs by (intro exI [of _ "fs @ gs"]) simp
  qed (use fs in \<open>auto simp: trace_def untrace_def unparsed_def\<close>)
qed

text \<open>What \<open>parse_input\<close> takes from the buffer it applies, message by message.\<close>

lemma apply_message_rest:
  "unparsed (snd (apply_message m c)) = unparsed c" "cn_trace (snd (apply_message m c)) = cn_trace c"
  "cn_state (snd (apply_message m c)) = snd (ps_apply m (cn_state c))"
  by (simp_all add: apply_message_def take_event_def Let_def split_beta unparsed_def
      split: result.split option.split event.split)

definition applies :: "connection \<Rightarrow> bytes list \<Rightarrow> backend list \<Rightarrow> connection \<Rightarrow> bool" where
  "applies c fs ms c' \<longleftrightarrow>
     list_all whole_message fs \<and> map (\<lambda>f. decode (hd f) (drop 5 f)) fs = map Ok ms \<and>
     unparsed c = concat fs @ unparsed c' \<and>
     (let s = fold (\<lambda>m s. snd (ps_apply m s)) ms (cn_state c) in
      cn_state c' = s \<or>
      (\<exists>mid i j. next_frame (unparsed c') = Frame_Message mid i j \<and> admit mid s = (Wait, cn_state c')))"

lemma applies_first:
  assumes "next_frame (unparsed c) = Frame_Message mid i j" and "parse_frame mid i j c = (Ok m, c1)"
    and "applies (snd (apply_message m c1)) fs ms c'"
  shows "applies c (take j (unparsed c) # fs) (m # ms) c'"
proof -
  have "at_frame (unparsed c) mid i j"
    using assms(1) by (simp add: at_frame_def)
  note p = parse_frame_parses [OF this assms(2)]
  have "unparsed c = concat (take j (unparsed c) # fs) @ unparsed c'"
    using p(1) assms(3) by (metis applies_def apply_message_rest(1) append_assoc concat.simps(2))
  then show ?thesis
    using p(2,3,5) assms(3) unfolding applies_def apply_message_rest by simp
qed

lemma applies_nothing: "applies c [] [] c"
  by (simp add: applies_def)

lemma parse_input_applies: "\<exists>fs ms. applies c fs ms (snd (parse_input c))"
proof (induction c rule: parse_input.induct)
  case (1 c)
  show ?case
  proof (cases "next_frame (unparsed c)")
    case (Frame_Message mid i j)
    obtain a st where a: "admit mid (cn_state c) = (a, st)"
      by fastforce
    show ?thesis
    proof (cases "a = Wait")
      case True
      then have "applies c [] [] (c\<lparr> cn_state := st \<rparr>)"
        using Frame_Message a by (simp add: applies_def)
      then show ?thesis
        using Frame_Message a True by (auto simp: parse_input.simps [of c])
    next
      case False
      then have c: "c\<lparr> cn_state := st \<rparr> = c"
        using a admit_Process(1) [of mid "cn_state c" st] by (cases a) simp_all
      obtain r c1 where p: "parse_frame mid i j c = (r, c1)"
        by fastforce
      show ?thesis
      proof (cases r)
        case (Err err)
        then have "c1 = c"
          using p by (auto simp: parse_frame_def Let_def split: result.splits)
        then have "snd (parse_input c) = c"
          using Frame_Message a False c p Err by (simp add: parse_input.simps [of c])
        show ?thesis
          unfolding \<open>snd (parse_input c) = c\<close> using applies_nothing by blast
      next
        case (Ok m)
        obtain r2 c2 where m: "apply_message m c1 = (r2, c2)"
          by fastforce
        note first = applies_first [OF Frame_Message p [unfolded Ok], unfolded m snd_conv]
        show ?thesis
        proof (cases r2)
          case (Ok u)
          then have "\<exists>fs ms. applies c2 fs ms (snd (parse_input c2))"
            using 1 Frame_Message a False c p m \<open>r = Ok m\<close> by simp
          moreover have "parse_input c = parse_input c2"
            using Frame_Message a False c p m \<open>r = Ok m\<close> Ok by (simp add: parse_input.simps [of c])
          ultimately show ?thesis
            using first by metis
        next
          case (Err err)
          then have "snd (parse_input c) = c2"
            using Frame_Message a False c p m Ok by (simp add: parse_input.simps [of c])
          then show ?thesis
            using first [OF applies_nothing] by metis
        qed
      qed
    qed
  qed (use applies_nothing in \<open>force simp: parse_input.simps [of c]\<close>)+
qed

lemma greeted_started: "\<exists>c. started greeting_os c"
proof -
  obtain c where "start_up greeting_os ConnInfo_new [] = Some (Ok c)"
    using greeted by blast
  then have "started greeting_os (c\<lparr> cn_raddr := None \<rparr>)"
    unfolding started_def by blast
  then show ?thesis
    by blast
qed

text \<open>The greeting once more, on a connection at rest: both its messages are parsed and noted.\<close>

lemma parse_input_idle:
  assumes "cn_state c = PipelineState_new" and "cn_trace c \<noteq> None" and "next_frame (unparsed c) = Frame_Message mid s e"
    and "decode mid (slice (unparsed c) s e) = Ok m" and "ps_apply m PipelineState_new = (Ok (Some ev), PipelineState_new)"
  shows "\<exists>c'. parse_input c = parse_input c' \<and> unparsed c = take e (unparsed c) @ unparsed c' \<and>
    cn_state c' = PipelineState_new \<and> cn_trace c' \<noteq> None \<and> parsed_frames c' = parsed_frames c @ [take e (unparsed c)]"
proof -
  obtain c1 where c1: "parse_frame mid s e c = (Ok m, c1)"
    using parse_frame_cases [OF assms(3)] assms(4) by auto
  have at: "at_frame (unparsed c) mid s e"
    using assms(3) by (simp add: at_frame_def)
  note p = parse_frame_parses [OF at c1]
  have idle: "admit mid (cn_state c) = (Process, cn_state c)"
    unfolding assms(1) by (simp add: admit_def PipelineState_new_def)
  have a: "apply_message m c1 = (Ok (), snd (apply_message m c1))"
    using assms(1,5) p(5) by (simp add: apply_message_def)
  have "parse_input c = (case apply_message m c1 of (Ok _, c) \<Rightarrow> parse_input c | (Err err, c) \<Rightarrow> (Err err, c))"
    using assms(3) idle c1 by (subst parse_input.simps) simp
  then have "parse_input c = parse_input (snd (apply_message m c1))"
    by (subst (asm) a) simp
  moreover have "parsed_frames (snd (apply_message m c1)) = parsed_frames c1"
    by (simp add: parsed_frames_def apply_message_rest)
  ultimately show ?thesis
    using p assms(1,2,5) by (intro exI [of _ "snd (apply_message m c1)"]) (simp add: apply_message_rest)
qed

lemma parse_input_greeting:
  assumes "cn_state c = PipelineState_new" and "cn_trace c \<noteq> None" and "unparsed c = greeting"
  shows "unparsed (snd (parse_input c)) = []"
    and "parsed_frames (snd (parse_input c)) = parsed_frames c @ [take 9 greeting, drop 9 greeting]"
proof -
  have ap: "\<exists>ev. ps_apply (Authentication AuthOk) PipelineState_new = (Ok (Some ev), PipelineState_new)"
    "\<exists>ev. ps_apply (ReadyForQuery Idle) PipelineState_new = (Ok (Some ev), PipelineState_new)"
    by (simp_all add: ps_apply_def PipelineState_new_def save_message_def stamp_message_def Let_def)
  obtain c1 where c1: "parse_input c = parse_input c1" "greeting = take 9 greeting @ unparsed c1"
      "cn_state c1 = PipelineState_new" "cn_trace c1 \<noteq> None" "parsed_frames c1 = parsed_frames c @ [take 9 greeting]"
    using ap(1) parse_input_idle [OF assms(1,2), unfolded assms(3), OF greeting_frames(1,2)] by metis
  then have u1: "unparsed c1 = drop 9 greeting"
    by (metis append_same_eq append_take_drop_id same_append_eq)
  obtain c2 where c2: "parse_input c1 = parse_input c2" "drop 9 greeting = take 6 (drop 9 greeting) @ unparsed c2"
      "parsed_frames c2 = parsed_frames c1 @ [take 6 (drop 9 greeting)]"
    using ap(2) parse_input_idle [OF c1(3,4), unfolded u1, OF greeting_frames(3,4)] by metis
  have six: "take 6 (drop 9 greeting) = drop 9 greeting"
    by (simp add: greeting_def)
  then have "unparsed c2 = []"
    using c2(2) by simp
  then have "parse_input c2 = (Ok (), c2)"
    by (simp add: parse_input.simps next_frame_def)
  then show "unparsed (snd (parse_input c)) = []"
    and "parsed_frames (snd (parse_input c)) = parsed_frames c @ [take 9 greeting, drop 9 greeting]"
    using c1(1,5) c2(1,3) six \<open>unparsed c2 = []\<close> by simp_all
qed

lemma traced_greeting:
  "\<exists>c0 c. started greeting_os c0 \<and> unparsed c0 = [] \<and> (client_call greeting_os)\<^sup>*\<^sup>* (trace c0) c \<and>
     unparsed c = [] \<and> parsed_frames c = [take 9 greeting, drop 9 greeting]"
proof -
  obtain c where c: "start_up greeting_os ConnInfo_new [] = Some (Ok c)" "unparsed c = []"
      "cn_state c = PipelineState_new" "\<not> cn_nonblocking c"
    using greeted by blast
  define c0 where "c0 = c\<lparr> cn_raddr := None \<rparr>"
  have c0: "started greeting_os c0" "unparsed c0 = []" "cn_state (trace c0) = PipelineState_new"
      "\<not> cn_nonblocking (trace c0)" "unparsed (trace c0) = []" "cn_trace (trace c0) \<noteq> None" "parsed_frames (trace c0) = []"
    using c by (auto simp: c0_def started_def trace_def untrace_def unparsed_def parsed_frames_def)
  obtain c1 where c1: "read_data greeting_os (trace c0) = Some (Ok True, c1)" "unparsed c1 = greeting" "session c1 = session (trace c0)"
    using read_data_arrives [of greeting_os "trace c0" greeting] c0(5) by (auto simp: greeting_os_def greeting_def)
  have "client_call greeting_os (trace c0) c1"
    using c0(4) c1(1) by (intro client_call.intros(3)) (simp add: consume_input_def io_bind_def io_ok_def)
  moreover obtain r c2 where c2: "parse_input c1 = (r, c2)"
    by fastforce
  moreover have "\<exists>r. conn_is_busy c1 = Some (r, c2)"
    using c2 by (cases r) (simp_all add: conn_is_busy_def parse_input_io_def io_bind_def io_ok_def)
  then have "client_call greeting_os c1 c2"
    by (auto intro: client_call.intros(6))
  moreover have "cn_state c1 = PipelineState_new" "cn_trace c1 \<noteq> None" "parsed_frames c1 = []"
    using session_cong [OF c1(3)] c0 by (simp_all add: parsed_frames_def)
  ultimately show ?thesis
    using c0(1,2) parse_input_greeting [of c1] c1(2) by (intro exI [of _ c0] exI [of _ c2]) auto
qed

section \<open>Properties of a client\<close>

text \<open>C4: Every connection refines the pipeline state machine. Whatever the socket answers, in every
  connection that a startup exchange and any sequence of calls leave behind, calls that failed half
  way included, the pipeline state is one the machine can reach: a command is queued only after its
  check, a Sync only in pipeline mode, a message is applied only when it is admitted. Therefore the
  invariant of the machine holds in the connection.\<close>

theorem client_refines_pipeline:
  assumes "reach (started os) (client_step os) c"
  shows "reach ps_init ps_step (cn_state c) \<and> ps_inv (cn_state c)"
proof -
  have "reach ps_init ps_step (cn_state c)"
    using assms
  proof (induction rule: reach.induct)
    case (reach_init c)
    then obtain ci nonce c0 where "start_up os ci nonce = Some (Ok c0)" "cn_state c = cn_state c0"
      by (auto simp: started_def)
    moreover have "reach ps_init ps_step PipelineState_new"
      by (rule reach.reach_init) (simp add: ps_init_def)
    moreover from calculation(1) have "ps_step\<^sup>*\<^sup>* PipelineState_new (cn_state c0)"
      using to_pipeline.R_start_up [of os ci nonce c0] by (simp add: opened_def)
    ultimately show ?case
      using reach_steps [of ps_init ps_step PipelineState_new "cn_state c0"] by simp
  next
    case (reach_step c c')
    then show ?case
      using reach_steps [OF reach_step.IH to_pipeline.R_client_step] by simp
  qed
  then show ?thesis
    using pipeline.reach_inv by blast
qed

theorem client_refines_pipeline_witness:
  "\<exists>c. reach (started greeting_os) (client_step greeting_os) c \<and> ps_inv (cn_state c)"
proof -
  obtain c where "started greeting_os c"
    using greeted_started by blast
  then have c: "reach (started greeting_os) (client_step greeting_os) c"
    by (rule reach_init)
  show ?thesis
    using client_refines_pipeline [OF c] c by blast
qed

text \<open>C5: The input is cut into messages, each parsed exactly once. Let a trace be turned on in any
  connection that a startup exchange and any sequence of calls leave behind, and let any calls follow.
  The messages the trace has recorded, in their order, are exactly the bytes received since, those that
  were waiting then included, up to the ones not yet parsed: none is skipped, repeated or cut
  differently; each is a whole message whose body could be decoded; and the bytes received before
  are whole messages, too. What \<open>parse_input\<close> takes from the buffer is a sequence of whole
  messages, and the state it leaves is the one that their decodings, each applied once and in order, lead to
  (with what \<open>admit\<close> notes if it keeps the next message waiting).\<close>

theorem input_cut_into_messages:
  assumes "reach (started os) (client_step os) c0" and "(client_call os)\<^sup>*\<^sup>* (trace c0) c"
  shows "(\<exists>earlier since.
       net_received (cn_net c0) = concat earlier @ unparsed c0 \<and> list_all whole_message earlier \<and>
       net_received (cn_net c) = net_received (cn_net c0) @ since \<and>
       unparsed c0 @ since = concat (parsed_frames c) @ unparsed c \<and> list_all whole_message (parsed_frames c)) \<and>
     (\<exists>fs ms. applies c fs ms (snd (parse_input c)))"
proof -
  obtain earlier where "list_all whole_message earlier" "net_received (cn_net c0) = concat earlier @ unparsed c0"
    using received_cut [OF assms(1)] by blast
  moreover have "cut (trace c0) c"
    using assms(2) by (rule input_cut.R_client_calls)
  then obtain since where "net_received (cn_net c) = net_received (cn_net c0) @ since"
    "unparsed c0 @ since = concat (parsed_frames c) @ unparsed c" "list_all whole_message (parsed_frames c)"
    by (auto simp: cut_def trace_def untrace_def parsed_frames_def unparsed_def)
  ultimately show ?thesis
    using parse_input_applies by blast
qed

theorem input_cut_into_messages_witness:
  "\<exists>c0 c. reach (started greeting_os) (client_step greeting_os) c0 \<and> (client_call greeting_os)\<^sup>*\<^sup>* (trace c0) c \<and>
     unparsed c0 = [] \<and> parsed_frames c = [take 9 greeting, drop 9 greeting] \<and>
     net_received (cn_net c) = net_received (cn_net c0) @ greeting \<and> list_all whole_message (parsed_frames c)"
proof -
  obtain c0 c where c0: "started greeting_os c0" "unparsed c0 = []"
    and c: "(client_call greeting_os)\<^sup>*\<^sup>* (trace c0) c" "unparsed c = []" "parsed_frames c = [take 9 greeting, drop 9 greeting]"
    using traced_greeting by blast
  have r: "reach (started greeting_os) (client_step greeting_os) c0"
    using c0(1) by (rule reach_init)
  show ?thesis
    using input_cut_into_messages [OF r c(1)] r c0 c by (intro exI [of _ c0] exI [of _ c]) auto
qed

text \<open>C40: A \<open>ReadyForQuery\<close> ends the startup exchange, whatever the authenticator has done so far: the exchange
  neither asks for an \<open>AuthenticationOk\<close> nor for the end of a SCRAM exchange that is under way. A server
  that never proved it knows the password is accepted, although the exchange is documented to
  authenticate before it returns.\<close>

theorem ready_without_authentication:
  assumes "next_frame (unparsed c) = Frame_Message (chb CHR ''Z'') s e"
    and "decode (chb CHR ''Z'') (slice (unparsed c) s e) = Ok (ReadyForQuery st)"
  shows "\<exists>c'. startup_loop os a c = Some (Ok (), c') \<and> cn_transaction_status c' = st"
proof -
  obtain c1 where "parse_frame (chb CHR ''Z'') s e c = (Ok (ReadyForQuery st), c1)"
    using parse_frame_cases [OF assms(1)] assms(2) by auto
  then have "read_message os c = Some (Ok (ReadyForQuery st), c1)"
    using read_message_ready [OF assms(1)] by simp
  then show ?thesis
    using startup_loop_ready by fastforce
qed

theorem ready_without_authentication_witness:
  "\<exists>a c'. au_scram a \<noteq> None \<and> \<not> au_client_finished_auth a \<and>
     startup_loop greeting_os a ((opened (fresh_net 0) [])\<lparr> cn_inbuf := drop 9 greeting \<rparr>) = Some (Ok (), c')"
proof -
  let ?c = "(opened (fresh_net 0) [])\<lparr> cn_inbuf := drop 9 greeting \<rparr>"
  let ?a = "(Authenticator_new [] None [])\<lparr> au_scram := Some (ScramClient_new [112] ScramSha256 []) \<rparr>"
  have "unparsed ?c = drop 9 greeting"
    by (simp add: unparsed_def opened_def)
  then have "\<exists>c'. startup_loop greeting_os ?a ?c = Some (Ok (), c')"
    using ready_without_authentication [of ?c 5 6 Idle greeting_os ?a] greeting_frames(3,4) by auto
  then show ?thesis
    by (intro exI [of _ ?a]) (simp add: Authenticator_new_def)
qed

end
