(* ===== verification/Service.thy ===== *)
theory Service
  imports Conninfo
begin

text \<open>
  \<open>crates/rlibpq/src/service.rs\<close> and \<open>ConnInfo::add_defaults\<close> of \<open>conninfo.rs\<close>: the connection
  service files, which are read before the fallbacks of the environment.

  The filesystem is the record of the two questions of the trait \<open>Files\<close>; it is an argument. The
  working copy of the options is a \<open>&mut\<close> argument of the code that keeps what was set before an
  error, so every operation returns it beside its result.

  Shown: the lines of \<open>fgets\<close> cut a file without losing or splitting anything but overlong lines;
  reading a file that was written as groups of settings gives exactly the settings of the first
  group with the name, for the options still unset; and no outcome of the lookup, errors included,
  changes a value that was given.
\<close>

section \<open>The files\<close>

record service_files =
  sf_exists :: "bytes \<Rightarrow> bool"
  sf_read :: "bytes \<Rightarrow> bytes option"

definition LINE_BUFFER :: nat where "LINE_BUFFER = 1024"

definition SYSCONFDIR :: bytes where "SYSCONFDIR = bstr ''/usr/local/pgsql/etc''"

definition join_path :: "bytes \<Rightarrow> bytes \<Rightarrow> bytes" where
  "join_path dir name = dir @ [chb CHR ''/''] @ name"

text \<open>How long the next line of \<open>fgets\<close> is.\<close>

definition fgets_len :: "bytes \<Rightarrow> nat" where
  "fgets_len rest =
     (let limit = min (length rest) (LINE_BUFFER - 1) in
      case position (\<lambda>b. b = 10) (take limit rest) of None \<Rightarrow> limit | Some newline \<Rightarrow> newline + 1)"

lemma fgets_len_pos: "rest \<noteq> [] \<Longrightarrow> 0 < fgets_len rest"
  by (cases rest) (auto simp: fgets_len_def LINE_BUFFER_def split: option.splits)

function fgets_lines :: "bytes \<Rightarrow> bytes list" where
  "fgets_lines rest =
     (if rest = [] then []
      else take (fgets_len rest) rest # fgets_lines (drop (fgets_len rest) rest))"
  by pat_completeness auto
termination
  by (relation "measure length") (auto simp: fgets_len_pos)

declare fgets_lines.simps [simp del]

text \<open>\<open>Iterator::rposition\<close>.\<close>

definition rposition :: "('a \<Rightarrow> bool) \<Rightarrow> 'a list \<Rightarrow> nat option" where
  "rposition P xs = map_option (\<lambda>i. length xs - 1 - i) (position P (rev xs))"

definition trim_line :: "bytes \<Rightarrow> bytes" where
  "trim_line raw =
     (let e = (case rposition (\<lambda>b. \<not> is_space b) raw of None \<Rightarrow> 0 | Some p \<Rightarrow> p + 1);
          line = take e raw;
          start = (case position (\<lambda>b. \<not> is_space b) line of None \<Rightarrow> e | Some p \<Rightarrow> p)
      in drop start line)"

definition names_service :: "bytes \<Rightarrow> bytes \<Rightarrow> bool" where
  "names_service service line =
     (starts_with service (drop 1 line) \<and>
      length service + 1 < length line \<and> line ! (length service + 1) = chb CHR '']'')"

text \<open>One \<open>key=value\<close> line of the group.\<close>

definition service_setting ::
  "bytes \<Rightarrow> nat \<Rightarrow> bytes \<Rightarrow> conn_info \<Rightarrow> (conn_info, conn_error) result" where
  "service_setting path linenr line ci =
     (case position (\<lambda>b. b = chb CHR ''='') line of
        None \<Rightarrow> Err (ServiceFileSyntaxError path linenr)
      | Some equals \<Rightarrow>
          let key = take equals line; v = drop (equals + 1) line in
          if key = bstr ''service'' then Err (NestedServiceSpecification path linenr)
          else case index_of key of
                 None \<Rightarrow> Err (ServiceFileSyntaxError path linenr)
               | Some row \<Rightarrow> Ok (set_if_unset ci row v))"

fun service_loop ::
  "bytes \<Rightarrow> bytes \<Rightarrow> nat \<Rightarrow> bool \<Rightarrow> bytes list \<Rightarrow> conn_info \<Rightarrow> (bool, conn_error) result \<times> conn_info" where
  "service_loop path service linenr group_found [] ci = (Ok group_found, ci)"
| "service_loop path service linenr group_found (raw # raws) ci =
     (let raw = before_nul raw in
      if LINE_BUFFER - 1 \<le> length raw then (Err (ServiceFileLineTooLong path linenr), ci)
      else
        let line = trim_line raw in
        if line = [] \<or> hd line = chb CHR ''#'' then
          service_loop path service (linenr + 1) group_found raws ci
        else if hd line = chb CHR ''['' then
          (if group_found then (Ok True, ci)
           else service_loop path service (linenr + 1) (names_service service line) raws ci)
        else if group_found then
          (case service_setting path linenr line ci of
             Err e \<Rightarrow> (Err e, ci)
           | Ok ci' \<Rightarrow> service_loop path service (linenr + 1) group_found raws ci')
        else service_loop path service (linenr + 1) group_found raws ci)"

definition parse_service_file ::
  "bytes \<Rightarrow> bytes option \<Rightarrow> bytes \<Rightarrow> conn_info \<Rightarrow> (bool, conn_error) result \<times> conn_info" where
  "parse_service_file path contents service ci =
     (case contents of
        None \<Rightarrow> (Err (ServiceFileNotFound path), ci)
      | Some cs \<Rightarrow> service_loop path service 1 False (fgets_lines cs) ci)"

text \<open>The first file: \<open>PGSERVICEFILE\<close>, or the one of the home directory when it exists.\<close>

definition first_service_file :: "env \<Rightarrow> service_files \<Rightarrow> bytes option" where
  "first_service_file env files =
     (case env (bstr ''PGSERVICEFILE'') of
        Some file \<Rightarrow> Some file
      | None \<Rightarrow>
          (case env (bstr ''HOME'') of
             None \<Rightarrow> None
           | Some home \<Rightarrow>
               if home = [] then None
               else let file = join_path home (bstr ''.pg_service.conf'') in
                    if sf_exists files file then Some file else None))"

definition last_service_file :: "env \<Rightarrow> bytes" where
  "last_service_file env =
     join_path (case env (bstr ''PGSYSCONFDIR'') of Some d \<Rightarrow> d | None \<Rightarrow> SYSCONFDIR)
       (bstr ''pg_service.conf'')"

definition next_service_file ::
  "env \<Rightarrow> service_files \<Rightarrow> bytes \<Rightarrow> conn_info \<Rightarrow> (unit, conn_error) result \<times> conn_info" where
  "next_service_file env files service ci =
     (let file = last_service_file env in
      if sf_exists files file then
        (case parse_service_file file (sf_read files file) service ci of
           (Err e, ci) \<Rightarrow> (Err e, ci)
         | (Ok group_found, ci) \<Rightarrow>
             (if group_found then Ok () else Err (ServiceNotFound service), ci))
      else (Err (ServiceNotFound service), ci))"

definition service_name :: "env \<Rightarrow> conn_info \<Rightarrow> bytes option" where
  "service_name env ci =
     (case conn_get ci (bstr ''service'') of Some s \<Rightarrow> Some s | None \<Rightarrow> env (bstr ''PGSERVICE''))"

definition parse_service_info ::
  "env \<Rightarrow> service_files \<Rightarrow> conn_info \<Rightarrow> (unit, conn_error) result \<times> conn_info" where
  "parse_service_info env files ci =
     (case service_name env ci of
        None \<Rightarrow> (Ok (), ci)
      | Some service \<Rightarrow>
          (case first_service_file env files of
             None \<Rightarrow> next_service_file env files service ci
           | Some file \<Rightarrow>
               (case parse_service_file file (sf_read files file) service ci of
                  (Err e, ci) \<Rightarrow> (Err e, ci)
                | (Ok group_found, ci) \<Rightarrow>
                    if group_found then (Ok (), ci)
                    else next_service_file env files service ci)))"

definition add_defaults ::
  "env \<Rightarrow> service_files \<Rightarrow> conn_info \<Rightarrow> (unit, conn_error) result \<times> conn_info" where
  "add_defaults env files ci =
     (case parse_service_info env files ci of
        (Err e, ci) \<Rightarrow> (Err e, ci)
      | (Ok _, ci) \<Rightarrow> (Ok (), add_fallbacks env ci))"

section \<open>Lines\<close>

lemma position_append_Cons:
  "\<lbrakk>\<forall>x \<in> set xs. \<not> P x; P y\<rbrakk> \<Longrightarrow> position P (xs @ y # ys) = Some (length xs)"
  by (induction xs) auto

lemma position_least:
  "position P xs = Some i \<Longrightarrow> \<forall>x \<in> set (take i xs). \<not> P x"
  by (induction xs arbitrary: i) (auto split: if_splits)

lemma concat_fgets_lines: "concat (fgets_lines cs) = cs"
proof (induction cs rule: fgets_lines.induct)
  case (1 rest)
  then show ?case
    by (subst fgets_lines.simps) simp
qed

lemma fgets_len_le: "fgets_len rest \<le> LINE_BUFFER - 1"
proof (cases "position (\<lambda>b. b = 10) (take (min (length rest) (LINE_BUFFER - 1)) rest)")
  case None
  then show ?thesis
    by (simp add: fgets_len_def)
next
  case (Some i)
  then show ?thesis
    using position_Some [OF Some] by (simp add: fgets_len_def)
qed

text \<open>Every line is as long as the buffer allows at most, and a newline is only at its end.\<close>

definition fgets_line :: "bytes \<Rightarrow> bool" where
  "fgets_line l \<longleftrightarrow> l \<noteq> [] \<and> length l \<le> LINE_BUFFER - 1 \<and> 10 \<notin> set (butlast l)"

lemma fgets_line_take:
  assumes "rest \<noteq> []"
  shows "fgets_line (take (fgets_len rest) rest)"
proof -
  let ?limit = "min (length rest) (LINE_BUFFER - 1)"
  have "10 \<notin> set (butlast (take (fgets_len rest) rest))"
  proof (cases "position (\<lambda>b. b = 10) (take ?limit rest)")
    case None
    then have "10 \<notin> set (take ?limit rest)"
      by (auto simp: position_None)
    then show ?thesis
      using None by (auto simp: fgets_len_def Let_def dest: in_set_butlastD)
  next
    case (Some i)
    have "i < ?limit"
      using position_Some [OF Some] by simp
    then show ?thesis
      using position_least [OF Some] Some by (auto simp: fgets_len_def Let_def butlast_take)
  qed
  then show ?thesis
    using assms fgets_len_pos [OF assms] fgets_len_le [of rest] by (auto simp: fgets_line_def)
qed

lemma fgets_lines_all: "\<forall>l \<in> set (fgets_lines cs). fgets_line l"
proof (induction cs rule: fgets_lines.induct)
  case (1 rest)
  then show ?case
    by (subst fgets_lines.simps) (auto simp: fgets_line_take)
qed

lemma fgets_lines_Cons:
  assumes "10 \<notin> set l" and "length l < LINE_BUFFER - 1"
  shows "fgets_lines (l @ 10 # rest) = (l @ [10]) # fgets_lines rest"
proof -
  let ?limit = "min (length (l @ 10 # rest)) (LINE_BUFFER - 1)"
  have "take ?limit (l @ 10 # rest) = l @ 10 # take (?limit - length l - 1) rest"
    using assms(2) by (cases "?limit - length l") auto
  then have "position (\<lambda>b. b = 10) (take ?limit (l @ 10 # rest)) = Some (length l)"
    using assms(1) position_append_Cons [of l "\<lambda>b. b = 10" 10] by auto
  then have "fgets_len (l @ 10 # rest) = Suc (length l)"
    unfolding fgets_len_def Let_def by simp
  then show ?thesis
    by (subst fgets_lines.simps) simp
qed

lemma rposition_take:
  "take (case rposition P xs of None \<Rightarrow> 0 | Some p \<Rightarrow> p + 1) xs = rev (dropWhile (\<lambda>x. \<not> P x) (rev xs))"
proof (induction xs rule: rev_induct)
  case Nil
  then show ?case
    by (simp add: rposition_def)
next
  case (snoc x xs)
  show ?case
  proof (cases "P x")
    case True
    then show ?thesis
      by (simp add: rposition_def)
  next
    case False
    show ?thesis
    proof (cases "position P (rev xs)")
      case None
      then show ?thesis
        using snoc False by (simp add: rposition_def)
    next
      case (Some i)
      then have "i < length xs"
        using position_Some [OF Some] by simp
      then show ?thesis
        using snoc False Some by (simp add: rposition_def)
    qed
  qed
qed

lemma position_drop:
  "drop (case position P xs of None \<Rightarrow> length xs | Some p \<Rightarrow> p) xs = dropWhile (\<lambda>x. \<not> P x) xs"
  by (induction xs) (auto split: option.splits)

lemma trim_line_eq:
  "trim_line raw = dropWhile is_space (rev (dropWhile is_space (rev raw)))"
proof -
  let ?e = "case rposition (\<lambda>b. \<not> is_space b) raw of None \<Rightarrow> 0 | Some p \<Rightarrow> p + 1"
  have e: "?e \<le> length raw"
  proof (cases "position (\<lambda>b. \<not> is_space b) (rev raw)")
    case (Some i)
    then show ?thesis
      using position_Some [OF Some] by (auto simp: rposition_def)
  qed (simp add: rposition_def)
  define e where "e = ?e"
  have "length (take e raw) = e"
    using e by (simp add: e_def)
  then have "trim_line raw = dropWhile is_space (take e raw)"
    using position_drop [where P = "\<lambda>b. \<not> is_space b" and xs = "take e raw"]
    unfolding trim_line_def Let_def e_def [symmetric] by (simp split: option.splits)
  then show ?thesis
    using rposition_take [where P = "\<lambda>b. \<not> is_space b" and xs = raw] by (simp add: e_def)
qed

lemma trim_line_newline:
  assumes "l \<noteq> []" and "\<not> is_space (hd l)" and "\<not> is_space (last l)"
  shows "trim_line (l @ [10]) = l"
proof -
  have "dropWhile is_space (rev l) = rev l"
    using assms(1,3) by (cases l rule: rev_cases) auto
  moreover have "dropWhile is_space l = l"
    using assms(1,2) by (cases l) auto
  ultimately show ?thesis
    by (simp add: trim_line_eq is_space_def)
qed

section \<open>Filling in\<close>

text \<open>What may happen to a working copy: an unset option may be set, and nothing else.\<close>

definition fills :: "conn_info \<Rightarrow> conn_info \<Rightarrow> bool" where
  "fills ci ci' \<longleftrightarrow> length ci' = length ci \<and> (\<forall>i < length ci. ci ! i \<noteq> None \<longrightarrow> ci' ! i = ci ! i)"

lemma fills_refl [simp]: "fills ci ci"
  by (simp add: fills_def)

lemma fills_trans [trans]: "\<lbrakk>fills a b; fills b c\<rbrakk> \<Longrightarrow> fills a c"
  by (auto simp: fills_def)

lemma fills_set_if_unset: "fills ci (set_if_unset ci i v)"
  by (cases "i < length ci") (auto simp: fills_def set_if_unset_def nth_list_update)

lemma fills_wf: "\<lbrakk>fills ci ci'; conn_wf ci\<rbrakk> \<Longrightarrow> conn_wf ci'"
  by (simp add: fills_def conn_wf_def)

lemma fills_get: "\<lbrakk>fills ci ci'; conn_wf ci; conn_get ci k = Some v\<rbrakk> \<Longrightarrow> conn_get ci' k = Some v"
  using index_of_Some [of k] by (auto simp: fills_def conn_get_def conn_wf_def bind_eq_Some_conv)

lemma fills_service_setting: "service_setting path n line ci = Ok ci' \<Longrightarrow> fills ci ci'"
  by (auto simp: service_setting_def Let_def fills_set_if_unset split: option.splits if_splits)

lemma fills_service_loop: "fills ci (snd (service_loop path service n found raws ci))"
proof (induction raws arbitrary: n found ci)
  case (Cons raw raws)
  show ?case
  proof (cases "service_setting path n (trim_line (before_nul raw)) ci")
    case (Ok ci')
    then have "fills ci (snd (service_loop path service (n + 1) found raws ci'))"
      using fills_trans [OF fills_service_setting Cons.IH] by blast
    then show ?thesis
      using Cons.IH Ok by (cases found) (simp_all add: Let_def)
  next
    case (Err e)
    then show ?thesis
      using Cons.IH by (simp add: Let_def)
  qed
qed simp

lemma fills_service_file: "fills ci (snd (parse_service_file path contents service ci))"
  by (simp add: parse_service_file_def fills_service_loop split: option.split)

lemma fills_next_file: "fills ci (snd (next_service_file env files service ci))"
  using fills_service_file [of ci "last_service_file env" "sf_read files (last_service_file env)" service]
  by (auto simp: next_service_file_def Let_def split: prod.splits result.splits)

lemma fills_service_info: "fills ci (snd (parse_service_info env files ci))"
proof (cases "service_name env ci")
  case (Some service)
  show ?thesis
  proof (cases "first_service_file env files")
    case None
    then show ?thesis
      using Some fills_next_file by (simp add: parse_service_info_def)
  next
    case first: (Some path)
    obtain r ci' where r: "parse_service_file path (sf_read files path) service ci = (r, ci')"
      by (rule prod.exhaust)
    then have "fills ci ci'"
      using fills_service_file [of ci path "sf_read files path" service] by simp
    then show ?thesis
      using Some first r fills_trans [OF _ fills_next_file]
      by (cases r) (auto simp: parse_service_info_def)
  qed
qed (simp add: parse_service_info_def)

lemma conn_get_set_if_unset:
  assumes "conn_wf ci" and "index_of k = Some i"
  shows "conn_get (set_if_unset ci i v) k' =
    (if k' = k \<and> conn_get ci k = None then Some v else conn_get ci k')"
proof (cases "index_of k'")
  case None
  then show ?thesis
    using assms(2) by (auto simp: conn_get_def)
next
  case (Some j)
  then show ?thesis
    using assms index_of_Some [of k i] index_of_Some [of k' j]
    by (auto simp: conn_get_def set_if_unset_def conn_wf_def nth_list_update)
qed

text \<open>The settings of a group fill the copy in one after the other, so the first one of a key
  counts.\<close>

definition fill_setting :: "bytes \<times> bytes \<Rightarrow> conn_info \<Rightarrow> conn_info" where
  "fill_setting kv ci = (case index_of (fst kv) of None \<Rightarrow> ci | Some i \<Rightarrow> set_if_unset ci i (snd kv))"

lemma fills_fill_setting: "fills ci (fill_setting kv ci)"
  by (simp add: fill_setting_def fills_set_if_unset split: option.split)

lemma conn_get_fold_fill:
  assumes "conn_wf ci" and "\<forall>kv \<in> set kvs. known_keyword (fst kv)"
  shows "conn_get (fold fill_setting kvs ci) k =
    (case conn_get ci k of Some v \<Rightarrow> Some v | None \<Rightarrow> map_of kvs k)"
  using assms
proof (induction kvs arbitrary: ci)
  case Nil
  then show ?case
    by (simp split: option.split)
next
  case (Cons kv kvs)
  obtain i where i: "index_of (fst kv) = Some i"
    using Cons.prems(2) by (auto simp: known_keyword_def)
  have "conn_wf (fill_setting kv ci)"
    using fills_wf [OF fills_fill_setting Cons.prems(1)] .
  then show ?case
    using Cons conn_get_set_if_unset [OF Cons.prems(1) i, of "snd kv" k]
    by (auto simp: fill_setting_def i split: option.splits)
qed

section \<open>Reading what was written\<close>

definition print_service_setting :: "bytes \<times> bytes \<Rightarrow> bytes" where
  "print_service_setting kv = fst kv @ [61] @ snd kv"

definition print_header :: "bytes \<Rightarrow> bytes" where
  "print_header name = [91] @ name @ [93]"

definition group_lines :: "bytes \<times> (bytes \<times> bytes) list \<Rightarrow> bytes list" where
  "group_lines g = print_header (fst g) # map print_service_setting (snd g)"

definition print_groups :: "(bytes \<times> (bytes \<times> bytes) list) list \<Rightarrow> bytes" where
  "print_groups gs = concat (map (\<lambda>l. l @ [10]) (concat (map group_lines gs)))"

text \<open>Lines that fit the buffer, keys of the table, values that do not end in a blank.\<close>

definition fits_line :: "bytes \<Rightarrow> bool" where
  "fits_line l \<longleftrightarrow> 0 \<notin> set l \<and> 10 \<notin> set l \<and> length l + 1 < LINE_BUFFER - 1"

definition writable_setting :: "bytes \<times> bytes \<Rightarrow> bool" where
  "writable_setting kv \<longleftrightarrow>
     known_keyword (fst kv) \<and> fst kv \<noteq> bstr ''service'' \<and> fits_line (print_service_setting kv) \<and>
     (snd kv = [] \<or> \<not> is_space (last (snd kv)))"

definition writable_group :: "bytes \<times> (bytes \<times> bytes) list \<Rightarrow> bool" where
  "writable_group g \<longleftrightarrow>
     fits_line (print_header (fst g)) \<and> 93 \<notin> set (fst g) \<and> list_all writable_setting (snd g)"

lemma keywords_start:
  "list_all (\<lambda>def. hd (co_keyword def) \<noteq> 35 \<and> hd (co_keyword def) \<noteq> 91) CONNINFO_OPTIONS"
  unfolding CONNINFO_OPTIONS_def OPTIONS_1_def OPTIONS_2_def OPTIONS_3_def
  by (simp add: conn_option_def)

lemma known_start: "known_keyword k \<Longrightarrow> hd k \<noteq> 35 \<and> hd k \<noteq> 91"
  using keywords_start index_of_Some [of k]
  by (fastforce simp: known_keyword_def list_all_length)

lemma fgets_lines_print:
  "list_all fits_line ls \<Longrightarrow> fgets_lines (concat (map (\<lambda>l. l @ [10]) ls)) = map (\<lambda>l. l @ [10]) ls"
proof (induction ls)
  case Nil
  then show ?case
    by (simp add: fgets_lines.simps)
next
  case (Cons l ls)
  then show ?case
    using fgets_lines_Cons [of l "concat (map (\<lambda>l. l @ [10]) ls)"] by (simp add: fits_line_def)
qed

text \<open>The line of a setting and the line of a header, once they are trimmed.\<close>

lemma trim_setting:
  assumes "writable_setting kv"
  shows "trim_line (print_service_setting kv @ [10]) = print_service_setting kv"
    and "hd (print_service_setting kv) \<noteq> 35" and "hd (print_service_setting kv) \<noteq> 91"
proof -
  have k: "plain_keyword (fst kv)" and last: "snd kv = [] \<or> \<not> is_space (last (snd kv))"
    using assms known_plain by (auto simp: writable_setting_def)
  have start: "hd (fst kv) \<noteq> 35 \<and> hd (fst kv) \<noteq> 91"
    using assms known_start by (simp add: writable_setting_def)
  have ne: "fst kv \<noteq> []" and "\<not> is_space (hd (fst kv))"
    using k by (auto simp: plain_keyword_def list_all_iff)
  then show "trim_line (print_service_setting kv @ [10]) = print_service_setting kv"
    using last by (intro trim_line_newline) (auto simp: print_service_setting_def is_space_def)
  show "hd (print_service_setting kv) \<noteq> 35" "hd (print_service_setting kv) \<noteq> 91"
    using ne start by (auto simp: print_service_setting_def)
qed

lemma trim_header: "trim_line (print_header name @ [10]) = print_header name"
  by (rule trim_line_newline) (auto simp: print_header_def is_space_def)

lemma names_header:
  assumes "93 \<notin> set name"
  shows "names_service service (print_header name) \<longleftrightarrow> name = service"
proof
  assume named: "names_service service (print_header name)"
  have len: "length service \<le> length name"
    using named by (simp add: names_service_def print_header_def)
  have pre: "take (length service) (name @ [93]) = service" and close: "(name @ [93]) ! length service = 93"
    using named by (auto simp: names_service_def print_header_def starts_with_def)
  have "length service = length name"
  proof (rule ccontr)
    assume "length service \<noteq> length name"
    then have "name ! length service = 93" and "length service < length name"
      using len close by (auto simp: nth_append)
    then show False
      using assms nth_mem by metis
  qed
  then show "name = service"
    using pre by simp
qed (simp add: names_service_def print_header_def starts_with_def)

lemma service_setting_print:
  assumes "writable_setting kv"
  shows "service_setting path n (print_service_setting kv) ci = Ok (fill_setting kv ci)"
proof -
  obtain i where i: "index_of (fst kv) = Some i" and ne: "fst kv \<noteq> bstr ''service''"
    using assms by (auto simp: writable_setting_def known_keyword_def)
  have "plain_keyword (fst kv)"
    using assms known_plain by (simp add: writable_setting_def)
  then have "position (\<lambda>b. b = chb CHR ''='') (print_service_setting kv) = Some (length (fst kv))"
    using position_append_Cons [of "fst kv" "\<lambda>b. b = 61" 61 "snd kv"]
    by (auto simp: print_service_setting_def plain_keyword_def list_all_iff)
  then show ?thesis
    using i ne by (simp add: service_setting_def fill_setting_def print_service_setting_def)
qed

text \<open>One printed line of a file, and the lines of a group.\<close>

lemma before_nul_line: "fits_line l \<Longrightarrow> before_nul (l @ [10]) = l @ [10]"
  by (simp add: fits_line_def)

lemma loop_setting:
  assumes "writable_setting kv"
  shows "service_loop path service n found ((print_service_setting kv @ [10]) # raws) ci =
    service_loop path service (n + 1) found raws (if found then fill_setting kv ci else ci)"
proof -
  have fits: "fits_line (print_service_setting kv)"
    using assms by (simp add: writable_setting_def)
  have "print_service_setting kv \<noteq> []"
    by (simp add: print_service_setting_def)
  then show ?thesis
    using trim_setting [OF assms] service_setting_print [OF assms] before_nul_line [OF fits] fits
    by (simp add: fits_line_def)
qed

lemma loop_header:
  assumes "fits_line (print_header name)" and "93 \<notin> set name"
  shows "service_loop path service n found ((print_header name @ [10]) # raws) ci =
    (if found then (Ok True, ci)
     else service_loop path service (n + 1) (name = service) raws ci)"
proof -
  have "hd (print_header name) = 91" "print_header name \<noteq> []"
    by (simp_all add: print_header_def)
  then show ?thesis
    using trim_header [of name] names_header [OF assms(2), of service] before_nul_line [OF assms(1)] assms(1)
    by (simp add: fits_line_def)
qed

lemma loop_settings:
  "list_all writable_setting kvs \<Longrightarrow>
   \<exists>n'. service_loop path service n found (map (\<lambda>kv. print_service_setting kv @ [10]) kvs @ raws) ci =
     service_loop path service n' found raws (if found then fold fill_setting kvs ci else ci)"
proof (induction kvs arbitrary: n ci)
  case (Cons kv kvs)
  then show ?case
    using loop_setting [of kv path service n found] by (cases found) (simp_all del: service_loop.simps)
qed auto

lemma loop_found:
  assumes "list_all writable_group gs"
  shows "service_loop path service n True (map (\<lambda>l. l @ [10]) (concat (map group_lines gs))) ci = (Ok True, ci)"
proof (cases gs)
  case (Cons g gs')
  then show ?thesis
    using assms loop_header [of "fst g" path service n True]
    by (simp add: group_lines_def writable_group_def del: service_loop.simps)
qed simp

lemma loop_groups:
  "list_all writable_group gs \<Longrightarrow>
   service_loop path service n False (map (\<lambda>l. l @ [10]) (concat (map group_lines gs))) ci =
     (case map_of gs service of None \<Rightarrow> (Ok False, ci) | Some kvs \<Rightarrow> (Ok True, fold fill_setting kvs ci))"
proof (induction gs arbitrary: n)
  case (Cons g gs)
  let ?rest = "map (\<lambda>l. l @ [10]) (concat (map group_lines gs))"
  have g: "fits_line (print_header (fst g))" "93 \<notin> set (fst g)" "list_all writable_setting (snd g)"
      and gs: "list_all writable_group gs"
    using Cons.prems by (simp_all add: writable_group_def [of g])
  obtain n' where n': "service_loop path service (n + 1) (fst g = service)
      (map (\<lambda>kv. print_service_setting kv @ [10]) (snd g) @ ?rest) ci =
      service_loop path service n' (fst g = service) ?rest
        (if fst g = service then fold fill_setting (snd g) ci else ci)"
    using loop_settings [OF g(3), of path service "n + 1" "fst g = service" ?rest ci] by blast
  have "service_loop path service n False (map (\<lambda>l. l @ [10]) (concat (map group_lines (g # gs)))) ci =
      service_loop path service n' (fst g = service) ?rest
        (if fst g = service then fold fill_setting (snd g) ci else ci)"
    using n' loop_header [OF g(1,2), of path service n False]
    by (simp add: group_lines_def comp_def del: service_loop.simps)
  then show ?case
    using Cons.IH [OF gs] loop_found [OF gs] by (cases g) auto
qed simp

lemma writable_lines: "list_all writable_group gs \<Longrightarrow> list_all fits_line (concat (map group_lines gs))"
  by (induction gs) (auto simp: group_lines_def writable_group_def writable_setting_def list_all_iff)

lemma parse_print_groups:
  assumes "list_all writable_group gs"
  shows "parse_service_file path (Some (print_groups gs)) service ci =
    (case map_of gs service of None \<Rightarrow> (Ok False, ci) | Some kvs \<Rightarrow> (Ok True, fold fill_setting kvs ci))"
  using assms
  by (simp add: parse_service_file_def print_groups_def fgets_lines_print [OF writable_lines] loop_groups)

lemma group_keys_known:
  "\<lbrakk>list_all writable_group gs; map_of gs service = Some kvs\<rbrakk> \<Longrightarrow> \<forall>kv \<in> set kvs. known_keyword (fst kv)"
  by (fastforce simp: writable_group_def writable_setting_def list_all_iff dest: map_of_SomeD)

text \<open>C32: Reading a service file that holds any groups of settings, for any service name: the group
  is found exactly when one has the name; afterwards an option has the value it had before, and an
  option that was unset has the one the first group of that name sets first, if it sets it.\<close>

theorem service_file_reads_groups:
  assumes "conn_wf ci" and "list_all writable_group gs"
  shows "fst (parse_service_file path (Some (print_groups gs)) service ci) = Ok (service \<in> fst ` set gs) \<and>
    (\<forall>k. conn_get (snd (parse_service_file path (Some (print_groups gs)) service ci)) k =
       (case conn_get ci k of
          Some v \<Rightarrow> Some v
        | None \<Rightarrow> Option.bind (map_of gs service) (\<lambda>kvs. map_of kvs k)))"
proof (cases "map_of gs service")
  case None
  then have "service \<notin> fst ` set gs"
    by (simp add: map_of_eq_None_iff)
  then show ?thesis
    using parse_print_groups [OF assms(2), of path service ci] None by (simp split: option.split)
next
  case (Some kvs)
  then have "service \<in> fst ` set gs"
    by (metis domI dom_map_of_conv_image_fst)
  then show ?thesis
    using parse_print_groups [OF assms(2), of path service ci] Some
      conn_get_fold_fill [OF assms(1) group_keys_known [OF assms(2) Some]]
    by (simp split: option.split)
qed

definition demo_groups :: "(bytes \<times> (bytes \<times> bytes) list) list" where
  "demo_groups =
     [(bstr ''other'', [(bstr ''host'', bstr ''nowhere'')]),
      (bstr ''my_srv'', [(bstr ''port'', bstr ''5433''), (bstr ''port'', bstr ''1''),
                         (bstr ''options'', bstr '' -c a=b'')])]"

lemma demo_groups_writable: "list_all writable_group demo_groups"
  by (simp add: demo_groups_def writable_group_def writable_setting_def fits_line_def known_keyword_def
      print_header_def print_service_setting_def LINE_BUFFER_def is_space_def
      index_of_def CONNINFO_OPTIONS_def OPTIONS_1_def conn_option_def)

theorem service_file_reads_groups_witness:
  "conn_get (snd (parse_service_file (bstr ''f'') (Some (print_groups demo_groups)) (bstr ''my_srv'')
     ConnInfo_new)) (bstr ''port'') = Some (bstr ''5433'')"
  using service_file_reads_groups [OF conninfo.wf_new demo_groups_writable, of "bstr ''f''" "bstr ''my_srv''"]
    conninfo.get_new
  by (simp add: demo_groups_def)

text \<open>Whatever the service files hold and whether or not the lookup of the defaults succeeds, an
  option that has a value before keeps this value.\<close>

lemma add_defaults_keeps_given:
  assumes "conn_wf ci" and "conn_get ci k = Some v"
  shows "conn_get (snd (add_defaults env files ci)) k = Some v"
proof -
  obtain r ci' where r: "parse_service_info env files ci = (r, ci')"
    by (rule prod.exhaust)
  then have f: "fills ci ci'"
    using fills_service_info [of ci env files] by simp
  then have get: "conn_get ci' k = Some v" and wf: "conn_wf ci'"
    using assms fills_get fills_wf by blast+
  then obtain i where "index_of k = Some i"
    by (auto simp: conn_get_def bind_eq_Some_conv)
  then show ?thesis
    using r get add_fallbacks_nth [OF wf] by (cases r) (auto simp: add_defaults_def)
qed

end
