(* ===== verification/Crc32c.thy ===== *)
theory Crc32c
  imports Prelude
begin

text \<open>
  \<open>crates/rinitdb/src/crc32c.rs\<close>: the checksum of \<open>pg_control\<close>, of the WAL records and of the
  template image.

  The reference is the shift register that takes a message bit by bit. Shown: the table-driven
  routine computes it; a message may be taken in pieces; and two messages of the same length that
  differ within a window of at most 32 bits never have the same checksum.
\<close>

unbundle bit_operations_syntax

section \<open>The code\<close>

definition POLYNOMIAL :: u32 where "POLYNOMIAL = 0x82F63B78"
definition CRC_INIT :: u32 where "CRC_INIT = 0xFFFFFFFF"
definition FINAL_XOR :: u32 where "FINAL_XOR = 0xFFFFFFFF"

text \<open>One turn of the inner loop of \<open>build_table\<close>.\<close>

definition crc_shift :: "u32 \<Rightarrow> u32" where
  "crc_shift remainder =
     (if remainder AND 1 = 1 then drop_bit 1 remainder XOR POLYNOMIAL else drop_bit 1 remainder)"

definition build_table :: "u32 list" where
  "build_table = map (\<lambda>index. (crc_shift ^^ 8) (of_nat index)) [0..<256]"

definition crc_byte :: "byte \<Rightarrow> u32 \<Rightarrow> u32" where
  "crc_byte b crc = build_table ! unat ((crc XOR ucast b) AND 0xFF) XOR drop_bit 8 crc"

definition crc_comp :: "u32 \<Rightarrow> bytes \<Rightarrow> u32" where
  "crc_comp crc data = fold crc_byte data crc"

definition crc_fin :: "u32 \<Rightarrow> u32" where
  "crc_fin crc = crc XOR FINAL_XOR"

definition crc32c :: "bytes \<Rightarrow> u32" where
  "crc32c data = crc_fin (crc_comp CRC_INIT data)"

section \<open>The shift register\<close>

definition crc_bit :: "bool \<Rightarrow> u32 \<Rightarrow> u32" where
  "crc_bit b crc = crc_shift (crc XOR of_bool b)"

text \<open>The bits of a message, the least significant one of every byte first.\<close>

definition byte_bits :: "byte \<Rightarrow> bool list" where
  "byte_bits b = map (bit b) [0..<8]"

definition message_bits :: "bytes \<Rightarrow> bool list" where
  "message_bits data = concat (map byte_bits data)"

definition shift_register :: "bool list \<Rightarrow> u32 \<Rightarrow> u32" where
  "shift_register bs crc = fold crc_bit bs crc"

lemma crc_xor_cancel: "a XOR p = b XOR p \<Longrightarrow> a = (b :: u32)"
  by (drule arg_cong [where f = "\<lambda>z. z XOR p"]) (simp add: xor.assoc)

lemma crc_shift_alt:
  "crc_shift w = drop_bit 1 w XOR (if bit w 0 then POLYNOMIAL else 0)"
proof -
  have "w AND 1 = 1 \<longleftrightarrow> bit w 0"
    by (simp add: and_one_eq bit_0 odd_iff_mod_2_eq_one)
  then show ?thesis
    by (simp add: crc_shift_def)
qed

lemma crc_shift_xor: "crc_shift (a XOR b) = crc_shift a XOR crc_shift b"
  by (cases "bit a 0"; cases "bit b 0") (simp_all add: crc_shift_alt bit_xor_iff drop_bit_xor ac_simps)

lemma crc_shift_even: "\<not> bit w 0 \<Longrightarrow> crc_shift w = drop_bit 1 w"
  by (simp add: crc_shift_alt)

lemma crc_shift_power_xor: "(crc_shift ^^ n) (a XOR b) = (crc_shift ^^ n) a XOR (crc_shift ^^ n) b"
  by (induction n) (simp_all add: crc_shift_xor)

lemma crc_shift_power_drop:
  "(\<And>i. i < n \<Longrightarrow> \<not> bit w i) \<Longrightarrow> (crc_shift ^^ n) w = drop_bit n w"
proof (induction n)
  case (Suc n)
  then have "crc_shift (drop_bit n w) = drop_bit 1 (drop_bit n w)"
    by (intro crc_shift_even) (simp add: bit_drop_bit_eq)
  then show ?case
    using Suc by simp
qed simp

text \<open>No information is lost: the top bit tells whether the polynomial was added.\<close>

lemma inj_crc_shift: "inj crc_shift"
proof (rule injI)
  fix a b
  assume eq: "crc_shift a = crc_shift b"
  have top: "bit (crc_shift w) 31 \<longleftrightarrow> bit w 0" for w
    using bit_imp_le_length [of w 32]
    by (auto simp: crc_shift_alt bit_xor_iff bit_drop_bit_eq POLYNOMIAL_def)
  have low: "bit a 0 \<longleftrightarrow> bit b 0"
    using top [of a] top [of b] eq by simp
  have "drop_bit 1 a XOR (if bit a 0 then POLYNOMIAL else 0) =
      drop_bit 1 b XOR (if bit a 0 then POLYNOMIAL else 0)"
    using eq low by (simp only: crc_shift_alt)
  then have "drop_bit 1 a = drop_bit 1 b"
    by (rule crc_xor_cancel)
  then have "bit (drop_bit 1 a) n \<longleftrightarrow> bit (drop_bit 1 b) n" for n
    by simp
  then have high: "bit a (Suc n) \<longleftrightarrow> bit b (Suc n)" for n
    unfolding bit_drop_bit_eq by simp
  have "bit a n \<longleftrightarrow> bit b n" for n
    using low high by (cases n) simp_all
  then show "a = b"
    by (intro bit_eqI)
qed

lemma inj_crc_shift_power: "inj (crc_shift ^^ n)"
  by (rule inj_fn [OF inj_crc_shift])

text \<open>A run of bits enters the register at once, as a word.\<close>

lemma shift_register_word:
  assumes "length bs \<le> 32"
  shows "shift_register bs crc = (crc_shift ^^ length bs) (crc XOR horner_sum of_bool 2 bs)"
  using assms
proof (induction bs arbitrary: crc)
  case Nil
  then show ?case
    by (simp add: shift_register_def)
next
  case (Cons b bs)
  let ?w = "horner_sum of_bool 2 bs :: u32"
  have word: "(horner_sum of_bool 2 (b # bs) :: u32) = of_bool b XOR push_bit 1 ?w"
    by (intro bit_eqI)
      (simp only: bit_horner_sum_bit_word_iff bit_xor_iff bit_push_bit_iff bit_of_bool_iff, auto simp: nth_Cons')
  have "crc_shift (push_bit 1 ?w) = drop_bit 1 (push_bit 1 ?w)"
    by (rule crc_shift_even) (simp only: bit_push_bit_iff; simp)
  also have "\<dots> = ?w"
    using Cons.prems
    by (intro bit_eqI)
      (simp only: bit_horner_sum_bit_word_iff bit_drop_bit_eq bit_push_bit_iff comp_def, auto)
  finally have "crc_shift (crc XOR horner_sum of_bool 2 (b # bs)) = crc_bit b crc XOR ?w"
    unfolding word by (simp add: crc_shift_xor crc_bit_def ac_simps)
  then show ?case
    using Cons by (simp add: shift_register_def funpow_swap1)
qed

section \<open>The routine is the shift register\<close>

lemma bit_0xFF: "bit (0xFF :: u32) n \<longleftrightarrow> n < 8"
proof -
  have "(0xFF :: u32) = mask 8"
    by (simp add: mask_eq_exp_minus_1)
  then show ?thesis
    by (simp only: bit_mask_iff possible_bit_word) auto
qed

lemma table_entry:
  "build_table ! unat (x AND 0xFF) = (crc_shift ^^ 8) (x AND 0xFF)"
proof -
  have "x AND 0xFF \<le> 0xFF"
    by (rule word_and_le1)
  then have "unat (x AND 0xFF) < 256"
    by (simp add: word_le_nat_alt)
  then show ?thesis
    by (simp only: build_table_def nth_map length_upt nth_upt minus_nat.diff_0 add_0 of_nat_unat ucast_id)
qed

lemma crc_shift_8:
  "(crc_shift ^^ 8) x = (crc_shift ^^ 8) (x AND 0xFF) XOR drop_bit 8 x"
proof -
  have "x = (x AND 0xFF) XOR (x AND NOT 0xFF)"
    by (intro bit_eqI) (simp only: bit_xor_iff bit_and_iff bit_not_iff bit_0xFF, auto)
  then have "(crc_shift ^^ 8) x = (crc_shift ^^ 8) (x AND 0xFF) XOR (crc_shift ^^ 8) (x AND NOT 0xFF)"
    by (metis crc_shift_power_xor)
  also have "(crc_shift ^^ 8) (x AND NOT 0xFF) = drop_bit 8 (x AND NOT 0xFF)"
    by (rule crc_shift_power_drop) (simp only: bit_and_iff bit_not_iff bit_0xFF, simp)
  also have "drop_bit 8 (x AND NOT 0xFF) = drop_bit 8 x"
    by (intro bit_eqI)
      (simp only: bit_drop_bit_eq bit_and_iff bit_not_iff bit_0xFF comp_def possible_bit_word, auto dest: bit_imp_le_length)
  finally show ?thesis .
qed

lemma byte_bits_word: "horner_sum of_bool 2 (byte_bits b) = (ucast b :: u32)"
proof (rule bit_eqI)
  fix n
  have "bit b n \<Longrightarrow> n < 8"
    using bit_imp_le_length [of b n] by simp
  then show "bit (horner_sum of_bool 2 (byte_bits b) :: u32) n = bit (ucast b :: u32) n"
    by (auto simp: byte_bits_def bit_horner_sum_bit_word_iff bit_ucast_iff
        simp del: upt_rec_numeral horner_sum_simps)
qed

lemma crc_byte_bits: "crc_byte b crc = shift_register (byte_bits b) crc"
proof -
  have "drop_bit 8 (ucast b :: u32) = 0"
    by (intro bit_eqI) (auto simp: bit_drop_bit_eq bit_ucast_iff dest: bit_imp_le_length)
  then have "drop_bit 8 (crc XOR ucast b) = drop_bit 8 crc"
    by (simp add: drop_bit_xor)
  moreover have "length (byte_bits b) = 8"
    by (simp add: byte_bits_def)
  ultimately show ?thesis
    using shift_register_word [of "byte_bits b" crc] crc_shift_8 [of "crc XOR ucast b"]
    by (simp only: crc_byte_def table_entry byte_bits_word order.refl)
qed

lemma shift_register_append: "shift_register (a @ b) crc = shift_register b (shift_register a crc)"
  by (simp add: shift_register_def)

lemma crc_comp_bits: "crc_comp crc data = shift_register (message_bits data) crc"
proof (induction data arbitrary: crc)
  case (Cons b data)
  then show ?case
    by (simp add: crc_comp_def message_bits_def crc_byte_bits shift_register_append)
qed (simp add: crc_comp_def message_bits_def shift_register_def)

lemma length_message_bits: "length (message_bits data) = 8 * length data"
  by (induction data) (simp_all add: message_bits_def byte_bits_def del: upt_rec_numeral)

lemma message_bits_nth:
  "n < 8 * length data \<Longrightarrow> message_bits data ! n = bit (data ! (n div 8)) (n mod 8)"
proof (induction data arbitrary: n)
  case (Cons b data)
  have bits: "message_bits (b # data) = byte_bits b @ message_bits data" "length (byte_bits b) = 8"
    by (simp_all add: message_bits_def byte_bits_def)
  show ?case
  proof (cases "n < 8")
    case True
    then show ?thesis
      using bits by (simp add: nth_append byte_bits_def del: upt_rec_numeral)
  next
    case False
    then obtain m where "n = m + 8"
      by (metis add.commute le_Suc_ex not_less)
    moreover have "(m + 8) div 8 = Suc (m div 8)"
      by simp
    ultimately show ?thesis
      using Cons bits by (simp add: nth_append)
  qed
qed simp

lemma inj_shift_register: "shift_register bs a = shift_register bs b \<Longrightarrow> a = b"
proof (induction bs arbitrary: a b)
  case (Cons x bs)
  then have "crc_bit x a = crc_bit x b"
    by (simp add: shift_register_def)
  then have "a XOR of_bool x = b XOR of_bool x"
    using inj_crc_shift by (simp only: crc_bit_def inj_eq)
  then show ?case
    using crc_xor_cancel by blast
qed (simp add: shift_register_def)

lemma message_bits_inj: "message_bits x = message_bits y \<Longrightarrow> x = y"
proof (induction x arbitrary: y)
  case Nil
  then have "8 * length y = 8 * length ([] :: bytes)"
    unfolding length_message_bits [symmetric] by simp
  then show ?case
    by simp
next
  case (Cons b x)
  then obtain c y' where y: "y = c # y'"
    using length_message_bits [of "b # x"] length_message_bits [of y] by (cases y) auto
  then have bits: "byte_bits b = byte_bits c" and "message_bits x = message_bits y'"
    using Cons.prems by (simp_all add: message_bits_def byte_bits_def)
  have "b = c"
  proof (rule bit_eqI)
    fix n
    assume "possible_bit TYPE(byte) n"
    then show "bit b n = bit c n"
      using arg_cong [OF bits, of "\<lambda>l. l ! n"] by (simp add: byte_bits_def del: upt_rec_numeral)
  qed
  then show ?case
    using Cons.IH y \<open>message_bits x = message_bits y'\<close> by simp
qed

lemma horner_bits_inj:
  assumes "length a = length b" and "length a \<le> 32"
    and "horner_sum of_bool 2 a = (horner_sum of_bool 2 b :: u32)"
  shows "a = b"
proof (rule nth_equalityI [OF assms(1)])
  fix i
  assume "i < length a"
  then show "a ! i = b ! i"
    using arg_cong [OF assms(3), of "\<lambda>w. bit w i"] assms(1,2)
    by (simp add: bit_horner_sum_bit_word_iff)
qed

lemma burst_detected:
  assumes "length a = length b" and "length a \<le> 32" and "a \<noteq> b"
  shows "shift_register (pre @ a @ post) crc \<noteq> shift_register (pre @ b @ post) crc"
proof
  let ?c = "shift_register pre crc"
  assume "shift_register (pre @ a @ post) crc = shift_register (pre @ b @ post) crc"
  then have "shift_register a ?c = shift_register b ?c"
    using inj_shift_register by (simp add: shift_register_append)
  then have "?c XOR horner_sum of_bool 2 a = ?c XOR horner_sum of_bool 2 b"
    using inj_crc_shift_power assms(1,2) by (simp add: shift_register_word inj_eq)
  then have "horner_sum of_bool 2 a = (horner_sum of_bool 2 b :: u32)"
    using crc_xor_cancel [of _ ?c] by (simp add: xor.commute)
  then show False
    using horner_bits_inj assms by blast
qed

text \<open>Two messages of the same length whose bits differ, but only within a window of at most 32
  consecutive bits, have different checksums.\<close>

lemma crc32c_burst:
  assumes "message_bits x = pre @ a @ post" and "message_bits y = pre @ b @ post"
    and "length a = length b" and "length a \<le> 32" and "x \<noteq> y"
  shows "crc32c x \<noteq> crc32c y"
proof
  assume "crc32c x = crc32c y"
  then have "crc_comp CRC_INIT x = crc_comp CRC_INIT y"
    using crc_xor_cancel by (simp only: crc32c_def crc_fin_def)
  then have "a = b"
    using burst_detected [OF assms(3,4)] assms(1,2) by (auto simp: crc_comp_bits)
  then show False
    using assms message_bits_inj by metis
qed

text \<open>C27: The table-driven checksum of any data is what the shift register of the polynomial leaves
  after all the bits of the data, and it can be accumulated over any pieces of the data.\<close>

theorem crc32c_is_shift_register:
  "crc32c (a @ b) = shift_register (message_bits (a @ b)) CRC_INIT XOR FINAL_XOR \<and>
   crc32c (a @ b) = crc_fin (crc_comp (crc_comp CRC_INIT a) b)"
  by (simp add: crc32c_def crc_fin_def crc_comp_bits) (simp add: shift_register_append message_bits_def)

end
