(* ===== verification/LittleEndian.thy ===== *)
theory LittleEndian
  imports Prelude
begin

text \<open>
  \<open>to_le_bytes\<close> and \<open>from_le_bytes\<close> of the unsigned integers: the bytes of a word, the least significant
  one first. Shown: they are inverse to each other when the word is as wide as the bytes.
\<close>

definition to_le :: "nat \<Rightarrow> 'a::len word \<Rightarrow> bytes" where
  "to_le n w = map (\<lambda>i. ucast (drop_bit (8 * i) w)) [0..<n]"

definition from_le :: "bytes \<Rightarrow> 'a::len word" where
  "from_le bs = word_of_int (horner_sum uint 256 bs)"

lemma length_to_le [simp]: "length (to_le n w) = n"
  by (simp add: to_le_def)

lemma bit_from_le:
  "bit (from_le bs :: 'a::len word) n \<longleftrightarrow>
     n < LENGTH('a) \<and> n div 8 < length bs \<and> bit (bs ! (n div 8)) (n mod 8)"
  using bit_horner_sum_uint_exp_iff [of bs n] by (auto simp: from_le_def bit_word_of_int_iff)

lemma bit_to_le:
  "i < n \<Longrightarrow> bit (to_le n w ! i) k \<longleftrightarrow> k < 8 \<and> bit w (8 * i + k)"
  by (auto simp: to_le_def bit_ucast_iff bit_drop_bit_eq)

lemma from_le_to_le:
  assumes "LENGTH('a::len) = 8 * n"
  shows "from_le (to_le n w) = (w :: 'a word)"
proof (rule bit_eqI)
  fix k
  assume "possible_bit TYPE('a word) k"
  then have "k < 8 * n"
    using assms by simp
  then have "k div 8 < n"
    by (simp add: less_mult_imp_div_less mult.commute)
  then show "bit (from_le (to_le n w) :: 'a word) k = bit w k"
    using \<open>k < 8 * n\<close> assms by (simp add: bit_from_le bit_to_le)
qed

lemma to_le_from_le:
  assumes "LENGTH('a::len) = 8 * length bs"
  shows "to_le (length bs) (from_le bs :: 'a word) = bs"
proof (rule nth_equalityI)
  fix i
  assume "i < length (to_le (length bs) (from_le bs :: 'a word))"
  then have i: "i < length bs"
    by simp
  show "to_le (length bs) (from_le bs :: 'a word) ! i = bs ! i"
  proof (rule bit_eqI)
    fix k
    assume "possible_bit TYPE(byte) k"
    then have k: "k < 8"
      by simp
    then have "8 * i + k < 8 * length bs"
      using i by linarith
    then show "bit (to_le (length bs) (from_le bs :: 'a word) ! i) k = bit (bs ! i) k"
      using i k assms by (simp add: bit_to_le bit_from_le)
  qed
qed simp

lemma from_le_le16 [simp]: "from_le (to_le 2 (w :: u16)) = w"
  and from_le_le32 [simp]: "from_le (to_le 4 (x :: u32)) = x"
  and from_le_le64 [simp]: "from_le (to_le 8 (y :: u64)) = y"
  by (simp_all add: from_le_to_le)

lemma le16_from_le: "length bs = 2 \<Longrightarrow> to_le 2 (from_le bs :: u16) = bs"
  and le32_from_le: "length cs = 4 \<Longrightarrow> to_le 4 (from_le cs :: u32) = cs"
  and le64_from_le: "length ds = 8 \<Longrightarrow> to_le 8 (from_le ds :: u64) = ds"
  using to_le_from_le [where bs = bs and 'a = 16] to_le_from_le [where bs = cs and 'a = 32]
    to_le_from_le [where bs = ds and 'a = 64] by simp_all

section \<open>The byte order of the machine\<close>

text \<open>\<open>to_ne_bytes\<close> and \<open>from_ne_bytes\<close>; whether the machine is little-endian is an argument.\<close>

definition to_ne :: "bool \<Rightarrow> nat \<Rightarrow> 'a::len word \<Rightarrow> bytes" where
  "to_ne little n w = (if little then to_le n w else rev (to_le n w))"

definition from_ne :: "bool \<Rightarrow> bytes \<Rightarrow> 'a::len word" where
  "from_ne little bs = from_le (if little then bs else rev bs)"

lemma length_to_ne [simp]: "length (to_ne little n w) = n"
  by (simp add: to_ne_def)

lemma from_ne32 [simp]: "from_ne little (to_ne little 4 (x :: u32)) = x"
  and from_ne64 [simp]: "from_ne little (to_ne little 8 (y :: u64)) = y"
  by (simp_all add: from_ne_def to_ne_def)

lemma ne32_from_ne: "length bs = 4 \<Longrightarrow> to_ne little 4 (from_ne little bs :: u32) = bs"
  and ne64_from_ne: "length cs = 8 \<Longrightarrow> to_ne little 8 (from_ne little cs :: u64) = cs"
  by (simp_all add: from_ne_def to_ne_def le32_from_le le64_from_le)

end
