(* ===== verification/Image.thy ===== *)
theory Image
  imports Crc32c LittleEndian Text_Std "HOL-Library.List_Lexorder" "HOL-Library.Multiset"
begin

text \<open>
  The template image, \<open>crates/rinitdb/src/image.rs\<close>: the format of the packed data directory, what a
  mint leaves out of it, and how it is expanded into a new cluster.

  A path is the bytes of its \<open>String\<close>; \<open>Ord\<close> of a path compares its components, and \<open>str\<close> compares
  bytes, so both are the lexicographic order of lists. Sizes are those of a 64-bit machine: the
  \<open>checked_add\<close> of the cursor can only overflow beyond the end of every slice.

  Shown: the bytes that parse are exactly the images the packer makes of a list of entries in
  canonical order; the check of the order with its stack of open directories accepts exactly the
  strictly increasing lists in which the parent of every entry is an earlier directory; an image
  that is damaged within 32 consecutive bits is refused; and a parsed image expands front to back
  into an empty directory.
\<close>

section \<open>The data\<close>

definition MAGIC :: bytes where "MAGIC = bstr ''RINITDB'' @ [1]"
definition HEADER_LEN :: nat where "HEADER_LEN = length MAGIC + 4"
definition TRAILER_LEN :: nat where "TRAILER_LEN = 4"
definition KIND_DIR :: byte where "KIND_DIR = 0"
definition KIND_FILE :: byte where "KIND_FILE = 1"

definition SLASH :: byte where "SLASH = chb CHR ''/''"

datatype image_node = Dir | File bytes

record image_entry =
  ie_path :: bytes
  ie_node :: image_node

definition entry_dir :: "bytes \<Rightarrow> image_entry" where
  "entry_dir path = \<lparr> ie_path = path, ie_node = Dir \<rparr>"

definition entry_file :: "bytes \<Rightarrow> bytes \<Rightarrow> image_entry" where
  "entry_file path contents = \<lparr> ie_path = path, ie_node = File contents \<rparr>"

datatype image_error =
    BadMagic
  | Truncated nat
  | ChecksumMismatch u32 u32
  | TrailingBytes nat
  | BadKind nat byte
  | PathNotUtf8 nat
  | BadPath bytes
  | OutOfOrder bytes
  | Orphan bytes
  | TooManyEntries

definition components :: "bytes \<Rightarrow> bytes list" where
  "components path = split_at_byte SLASH path"

definition ImagePath_new :: "bytes \<Rightarrow> (bytes, image_error) result" where
  "ImagePath_new path =
     (if path = [] \<or> length path > 65535 then Err (BadPath path)
      else if list_ex (\<lambda>c. c = [] \<or> c = bstr ''.'' \<or> c = bstr ''..'' \<or> 0 \<in> set c) (components path)
           then Err (BadPath path)
      else Ok path)"

definition image_parent :: "bytes \<Rightarrow> bytes option" where
  "image_parent path = map_option fst (rsplit_once SLASH path)"

section \<open>What is left out\<close>

definition STRIPPED_FILES :: "bytes list" where
  "STRIPPED_FILES = map bstr
     [''PG_VERSION'', ''postgresql.conf'', ''pg_hba.conf'', ''pg_ident.conf'', ''postgresql.auto.conf'',
      ''postmaster.opts'', ''global/pg_control'', ''pg_stat/pgstat.stat'']"

definition image_keeps :: "image_entry \<Rightarrow> bool" where
  "image_keeps entry =
     (case ie_node entry of
        Dir \<Rightarrow> True
      | File _ \<Rightarrow> ie_path entry \<notin> set STRIPPED_FILES \<and> hd (components (ie_path entry)) \<noteq> bstr ''pg_wal'')"

definition image_strip :: "image_entry list \<Rightarrow> image_entry list" where
  "image_strip entries = filter image_keeps entries"

section \<open>The order\<close>

definition is_same_or_ancestor :: "bytes \<Rightarrow> bytes \<Rightarrow> bool" where
  "is_same_or_ancestor dir path =
     (path = dir \<or>
      (take (length dir) path = dir \<and>
       (case drop (length dir) path of [] \<Rightarrow> False | c # _ \<Rightarrow> c = SLASH)))"

text \<open>The loop of \<open>check_order\<close>; the top of \<open>open_dirs\<close> is the head of the list.\<close>

fun check_order_from ::
  "bytes option \<Rightarrow> bytes list \<Rightarrow> image_entry list \<Rightarrow> (unit, image_error) result" where
  "check_order_from previous open_dirs [] = Ok ()"
| "check_order_from previous open_dirs (entry # entries) =
     (let path = ie_path entry in
      if (case previous of None \<Rightarrow> False | Some q \<Rightarrow> components path \<le> components q)
      then Err (OutOfOrder path)
      else
        let par = image_parent path;
            open_dirs = dropWhile (\<lambda>d. case par of None \<Rightarrow> True | Some p \<Rightarrow> \<not> is_same_or_ancestor d p)
              open_dirs
        in
        if (case par of None \<Rightarrow> False
            | Some p \<Rightarrow> (case open_dirs of [] \<Rightarrow> True | d # _ \<Rightarrow> d \<noteq> p))
        then Err (Orphan path)
        else check_order_from (Some path)
               (if ie_node entry = Dir then path # open_dirs else open_dirs) entries)"

definition check_order :: "image_entry list \<Rightarrow> (unit, image_error) result" where
  "check_order entries = check_order_from None [] entries"

section \<open>Packing\<close>

definition pack_entry :: "image_entry \<Rightarrow> (bytes, image_error) result" where
  "pack_entry entry =
     (let path = ie_path entry in
      if length path > 65535 then Err (BadPath path)
      else Ok (case ie_node entry of
          Dir \<Rightarrow> [KIND_DIR] @ to_le 2 (of_nat (length path) :: u16) @ path
        | File contents \<Rightarrow>
            [KIND_FILE] @ to_le 2 (of_nat (length path) :: u16) @ path @
              to_le 8 (of_nat (length contents) :: u64) @ contents))"

fun pack_entries :: "image_entry list \<Rightarrow> (bytes, image_error) result" where
  "pack_entries [] = Ok []"
| "pack_entries (entry # entries) =
     and_then (pack_entry entry) (\<lambda>bs. and_then (pack_entries entries) (\<lambda>rest. Ok (bs @ rest)))"

definition sort_entries :: "image_entry list \<Rightarrow> image_entry list" where
  "sort_entries entries = sort_key (\<lambda>entry. components (ie_path entry)) entries"

definition pack_image :: "image_entry list \<Rightarrow> (bytes, image_error) result" where
  "pack_image entries =
     (let sorted_es = sort_entries entries in
      and_then (check_order sorted_es) (\<lambda>_.
      if length sorted_es \<ge> 2 ^ 32 then Err TooManyEntries
      else and_then (pack_entries sorted_es) (\<lambda>bs.
        let body = MAGIC @ to_le 4 (of_nat (length sorted_es) :: u32) @ bs
        in Ok (body @ to_le 4 (crc32c body)))))"

section \<open>Parsing\<close>

text \<open>\<open>Cursor::take\<close>: the bytes and the new position.\<close>

definition cursor_take :: "bytes \<Rightarrow> nat \<Rightarrow> nat \<Rightarrow> (bytes \<times> nat, image_error) result" where
  "cursor_take bytes pos len =
     (if pos + len \<le> length bytes then Ok (take len (drop pos bytes), pos + len)
      else Err (Truncated (length bytes)))"

text \<open>The \<open>match\<close> on the kind of an entry, with the position the entry starts at.\<close>

definition parse_node ::
  "bytes \<Rightarrow> nat \<Rightarrow> byte \<Rightarrow> bytes \<Rightarrow> nat \<Rightarrow> (image_entry \<times> nat, image_error) result" where
  "parse_node body start kind path pos =
     (if kind = KIND_DIR then Ok (entry_dir path, pos)
      else if kind = KIND_FILE then
        and_then (cursor_take body pos 8) (\<lambda>(size, pos).
        and_then (cursor_take body pos (unat (from_le size :: u64))) (\<lambda>(contents, pos).
        Ok (entry_file path contents, pos)))
      else Err (BadKind start kind))"

definition parse_entry :: "bytes \<Rightarrow> nat \<Rightarrow> (image_entry \<times> nat, image_error) result" where
  "parse_entry body start =
     and_then (cursor_take body start 1) (\<lambda>(kind, pos).
     and_then (cursor_take body pos 2) (\<lambda>(len, path_at).
     and_then (cursor_take body path_at (unat (from_le len :: u16))) (\<lambda>(path, pos).
     if \<not> utf8_valid path then Err (PathNotUtf8 path_at)
     else and_then (ImagePath_new path) (\<lambda>path. parse_node body start (hd kind) path pos))))"

fun parse_entries :: "nat \<Rightarrow> bytes \<Rightarrow> nat \<Rightarrow> (image_entry list \<times> nat, image_error) result" where
  "parse_entries 0 body pos = Ok ([], pos)"
| "parse_entries (Suc num) body pos =
     and_then (parse_entry body pos) (\<lambda>(entry, pos).
     and_then (parse_entries num body pos) (\<lambda>(entries, pos). Ok (entry # entries, pos)))"

definition parse_image :: "bytes \<Rightarrow> (image_entry list, image_error) result" where
  "parse_image img =
     (if length img < length MAGIC \<or> take (length MAGIC) img \<noteq> MAGIC then Err BadMagic
      else if length img < HEADER_LEN + TRAILER_LEN then Err (Truncated (length img))
      else
        let body = take (length img - TRAILER_LEN) img;
            stored = from_le (drop (length img - TRAILER_LEN) img);
            computed = crc32c body
        in if stored \<noteq> computed then Err (ChecksumMismatch stored computed)
           else and_then (cursor_take body (length MAGIC) 4) (\<lambda>(num, pos).
             and_then (parse_entries (unat (from_le num :: u32)) body pos) (\<lambda>(entries, pos).
             if pos \<noteq> length body then Err (TrailingBytes (length body - pos))
             else and_then (check_order entries) (\<lambda>_. Ok entries))))"


section \<open>Paths\<close>

definition valid_path :: "bytes \<Rightarrow> bool" where
  "valid_path path \<longleftrightarrow> utf8_valid path \<and> ImagePath_new path = Ok path"

lemma components_not_Nil [simp]: "components p \<noteq> []"
  by (simp add: components_def)

lemma components_inj [simp]: "components p = components q \<longleftrightarrow> p = q"
  by (simp add: components_def split_inj)

text \<open>The parent of a path is the path of all its components but the last.\<close>

lemma image_parent_None: "image_parent p = None \<longleftrightarrow> components p = [p]"
proof (cases rule: rsplit_once_cases [of SLASH p])
  case 1
  then show ?thesis
    by (simp add: image_parent_def components_def)
next
  case (2 a b)
  then have "SLASH \<in> set p"
    by simp
  then have "components p \<noteq> [p]"
    using split_pieces [of p SLASH p] by (auto simp: components_def)
  then show ?thesis
    using 2 by (simp add: image_parent_def)
qed

lemma image_parent_Some:
  "image_parent p = Some q \<Longrightarrow> \<exists>c. components p = components q @ [c]"
proof (cases rule: rsplit_once_cases [of SLASH p])
  case (2 a b)
  assume "image_parent p = Some q"
  then have "q = a"
    using 2 by (simp add: image_parent_def)
  then show ?thesis
    using 2 by (simp add: components_def split_append_sep)
qed (simp add: image_parent_def)

lemma ancestor_prefix: "is_same_or_ancestor d p \<longleftrightarrow> prefix (components d) (components p)"
proof
  assume "is_same_or_ancestor d p"
  then consider "p = d" | rest where "p = d @ SLASH # rest"
    using append_take_drop_id [of "length d" p]
    by (cases "drop (length d) p") (auto simp: is_same_or_ancestor_def)
  then show "prefix (components d) (components p)"
    by cases (simp_all add: components_def split_append_sep)
next
  assume "prefix (components d) (components p)"
  then obtain rest where rest: "components p = components d @ rest"
    by (auto simp: prefix_def)
  show "is_same_or_ancestor d p"
  proof (cases "rest = []")
    case True
    then show ?thesis
      using rest by (simp add: is_same_or_ancestor_def)
  next
    case False
    have "p = join_with SLASH (components d @ rest)"
      using rest by (metis components_def join_split)
    also have "\<dots> = d @ SLASH # join_with SLASH rest"
      using False by (simp add: join_append) (simp add: components_def)
    finally show ?thesis
      by (simp add: is_same_or_ancestor_def)
  qed
qed

text \<open>Between a list and its extensions there are only its extensions.\<close>

lemma prefix_between:
  fixes d q p :: "'a::linorder list"
  assumes "prefix d p" and "d \<le> q" and "q \<le> p"
  shows "prefix d q"
  using assms
proof (induction d arbitrary: q p)
  case (Cons x d)
  then obtain p' where p: "p = x # p'" "prefix d p'"
    by (cases p) auto
  show ?case
  proof (cases q)
    case Nil
    then show ?thesis
      using Cons.prems(2) by simp
  next
    case q: (Cons y q')
    then have "x = y \<and> d \<le> q' \<and> q' \<le> p'"
      using Cons.prems p by auto
    then show ?thesis
      using Cons.IH [OF p(2)] q by simp
  qed
qed simp

lemma prefix_le: "prefix d p \<Longrightarrow> d \<le> (p :: 'a::linorder list)"
proof (induction d arbitrary: p)
  case (Cons x d)
  then show ?case
    by (cases p) auto
qed simp

section \<open>The check of the order\<close>

text \<open>The specification: an entry after those of \<open>seen\<close> comes later in the order, and its parent is
  one of their directories.\<close>

definition entry_key :: "image_entry \<Rightarrow> bytes list" where
  "entry_key entry = components (ie_path entry)"

definition parent_in :: "image_entry list \<Rightarrow> image_entry \<Rightarrow> bool" where
  "parent_in seen entry =
     (case image_parent (ie_path entry) of None \<Rightarrow> True | Some p \<Rightarrow> entry_dir p \<in> set seen)"

fun canonical_from :: "image_entry list \<Rightarrow> image_entry list \<Rightarrow> bool" where
  "canonical_from seen [] = True"
| "canonical_from seen (e # es) =
     ((\<forall>x \<in> set seen. entry_key x < entry_key e) \<and> parent_in seen e \<and> canonical_from (seen @ [e]) es)"

lemma canonical_from_iff:
  "canonical_from seen es \<longleftrightarrow>
     (\<forall>x \<in> set seen. \<forall>e \<in> set es. entry_key x < entry_key e) \<and>
     sorted_wrt (\<lambda>a b. entry_key a < entry_key b) es \<and>
     (\<forall>i < length es. parent_in (seen @ take i es) (es ! i))"
proof (induction es arbitrary: seen)
  case (Cons e es)
  have split: "(\<forall>i < length (e # es). parent_in (seen @ take i (e # es)) ((e # es) ! i)) \<longleftrightarrow>
      parent_in seen e \<and> (\<forall>i < length es. parent_in ((seen @ [e]) @ take i es) (es ! i))"
    by (auto simp: less_Suc_eq_0_disj)
  show ?case
    unfolding split canonical_from.simps Cons.IH by auto
qed simp

text \<open>The stack holds the directories seen so far that lead to the last entry, the deepest one on
  top.\<close>

definition above :: "bytes list \<Rightarrow> bool" where
  "above st \<longleftrightarrow> sorted_wrt (\<lambda>a b. prefix (components b) (components a)) st"

definition order_inv :: "image_entry list \<Rightarrow> bytes option \<Rightarrow> bytes list \<Rightarrow> bool" where
  "order_inv seen previous st \<longleftrightarrow> above st \<and>
     (case previous of
        None \<Rightarrow> seen = [] \<and> st = []
      | Some q \<Rightarrow> q \<in> ie_path ` set seen \<and> (\<forall>x \<in> set seen. entry_key x \<le> components q) \<and>
          set st = {d. entry_dir d \<in> set seen \<and> prefix (components d) (components q)})"

definition kept_open :: "bytes \<Rightarrow> bytes list \<Rightarrow> bytes list" where
  "kept_open path st =
     dropWhile (\<lambda>d. case image_parent path of None \<Rightarrow> True | Some p \<Rightarrow> \<not> is_same_or_ancestor d p) st"

lemma dropWhile_chain:
  "sorted_wrt (\<lambda>a b. P a \<longrightarrow> P b) xs \<Longrightarrow> dropWhile (\<lambda>x. \<not> P x) xs = filter P xs"
proof (induction xs)
  case (Cons x xs)
  then show ?case
    by (cases "P x") (auto simp: filter_id_conv)
qed simp

lemma kept_open_filter:
  assumes "above st"
  shows "kept_open path st =
    filter (\<lambda>d. case image_parent path of None \<Rightarrow> False | Some p \<Rightarrow> prefix (components d) (components p)) st"
proof (cases "image_parent path")
  case (Some p)
  have "sorted_wrt (\<lambda>a b. prefix (components a) (components p) \<longrightarrow> prefix (components b) (components p)) st"
    using assms unfolding above_def by (rule sorted_wrt_mono_rel [rotated]) (auto intro: prefix_order.trans)
  then show ?thesis
    using Some dropWhile_chain [of "\<lambda>d. prefix (components d) (components p)" st]
    by (simp add: kept_open_def ancestor_prefix)
qed (simp add: kept_open_def)

lemma set_kept_open:
  assumes inv: "order_inv seen previous st" and later: "\<forall>x \<in> set seen. entry_key x < components p"
  shows "set (kept_open p st) = {d. entry_dir d \<in> set seen \<and> prefix (components d) (components p)}"
proof (cases "image_parent p")
  case None
  have "d = p" if "prefix (components d) (components p)" for d
  proof -
    have "components d = components p"
      using that image_parent_None [of p] None by (cases "components d") (auto simp: prefix_Cons)
    then show ?thesis
      by simp
  qed
  moreover have "entry_dir p \<notin> set seen"
    using later by (auto simp: entry_key_def entry_dir_def)
  ultimately show ?thesis
    using None inv by (auto simp: kept_open_filter order_inv_def)
next
  case (Some c)
  obtain x where p: "components p = components c @ [x]"
    using image_parent_Some [OF Some] by blast
  have iff: "prefix (components d) (components c) \<longleftrightarrow> prefix (components d) (components p)"
    if "entry_dir d \<in> set seen" for d
  proof -
    have "components d \<noteq> components p"
      using later that by (auto simp: entry_key_def entry_dir_def)
    then show ?thesis
      using p by (auto simp: prefix_snoc)
  qed
  have st: "d \<in> set st \<longleftrightarrow> entry_dir d \<in> set seen"
    if "prefix (components d) (components p)" for d
  proof (cases previous)
    case None
    then show ?thesis
      using inv by (simp add: order_inv_def)
  next
    case q: (Some q)
    have "components q \<le> components p"
      using inv later q by (auto simp: order_inv_def entry_key_def)
    moreover have "components d \<le> components q" if "entry_dir d \<in> set seen"
      using inv q that by (auto simp: order_inv_def entry_key_def entry_dir_def)
    ultimately show ?thesis
      using inv q prefix_between [OF that] by (auto simp: order_inv_def)
  qed
  show ?thesis
    using iff st p Some inv by (auto simp: kept_open_filter order_inv_def)
qed

lemma parent_on_top:
  assumes inv: "order_inv seen previous st" and later: "\<forall>x \<in> set seen. entry_key x < components p"
    and par: "image_parent p = Some c"
  shows "(case kept_open p st of [] \<Rightarrow> True | d # _ \<Rightarrow> d \<noteq> c) \<longleftrightarrow> entry_dir c \<notin> set seen"
proof -
  obtain x where p: "components p = components c @ [x]"
    using image_parent_Some [OF par] by blast
  have "above st"
    using inv by (simp add: order_inv_def)
  then have filt: "kept_open p st = filter (\<lambda>d. prefix (components d) (components c)) st"
    using par by (simp add: kept_open_filter)
  have mem: "c \<in> set (kept_open p st) \<longleftrightarrow> entry_dir c \<in> set seen"
    using set_kept_open [OF inv later] p by simp
  show ?thesis
  proof (cases "kept_open p st")
    case Nil
    then show ?thesis
      using mem by simp
  next
    case (Cons d ds)
    have "prefix (components d) (components c)"
    proof -
      have "d \<in> set (filter (\<lambda>d. prefix (components d) (components c)) st)"
        unfolding filt [symmetric] Cons by simp
      then show ?thesis
        by simp
    qed
    moreover have "prefix (components c) (components d)" if "c \<in> set ds"
    proof -
      have "above (d # ds)"
        using \<open>above st\<close> Cons filt unfolding above_def by (metis sorted_wrt_filter)
      then show ?thesis
        using that by (simp add: above_def)
    qed
    ultimately have "d = c" if "c \<in> set (d # ds)"
      using that by (auto dest: prefix_order.antisym)
    then show ?thesis
      using mem Cons by auto
  qed
qed

lemma order_inv_push:
  assumes inv: "order_inv seen previous st" and later: "\<forall>x \<in> set seen. entry_key x < entry_key e"
  shows "order_inv (seen @ [e]) (Some (ie_path e))
    (if ie_node e = Dir then ie_path e # kept_open (ie_path e) st else kept_open (ie_path e) st)"
proof -
  let ?p = "ie_path e"
  have e: "entry_dir d = e \<longleftrightarrow> d = ?p \<and> ie_node e = Dir" for d
    by (cases e) (auto simp: entry_dir_def)
  have set: "set (kept_open ?p st) = {d. entry_dir d \<in> set seen \<and> prefix (components d) (components ?p)}"
    using set_kept_open [OF inv] later by (simp add: entry_key_def)
  have "above st"
    using inv by (simp add: order_inv_def)
  then have "above (kept_open ?p st)"
    by (auto simp: kept_open_filter above_def intro: sorted_wrt_filter)
  then show ?thesis
    using set later by (auto simp: order_inv_def above_def e entry_key_def less_imp_le)
qed

lemma order_check_iff:
  assumes inv: "order_inv seen previous st"
  shows "(case previous of None \<Rightarrow> False | Some q \<Rightarrow> components p \<le> components q) \<longleftrightarrow>
    \<not> (\<forall>x \<in> set seen. entry_key x < components p)"
proof (cases previous)
  case None
  then show ?thesis
    using inv by (simp add: order_inv_def)
next
  case (Some q)
  then obtain x where "x \<in> set seen" "entry_key x = components q"
      and "\<forall>x \<in> set seen. entry_key x \<le> components q"
    using inv by (auto simp: order_inv_def entry_key_def)
  then show ?thesis
    using Some by (metis (mono_tags, lifting) le_less_trans leD not_le_imp_less option.simps(5))
qed

lemma check_order_from_iff:
  "order_inv seen previous st \<Longrightarrow> check_order_from previous st es = Ok () \<longleftrightarrow> canonical_from seen es"
proof (induction es arbitrary: seen previous st)
  case (Cons e es)
  let ?p = "ie_path e"
  show ?case
  proof (cases "\<forall>x \<in> set seen. entry_key x < components ?p")
    case False
    then show ?thesis
      using order_check_iff [OF Cons.prems, of ?p] by (auto simp: entry_key_def)
  next
    case True
    let ?st = "if ie_node e = Dir then ?p # kept_open ?p st else kept_open ?p st"
    have order: "\<not> (case previous of None \<Rightarrow> False | Some q \<Rightarrow> components ?p \<le> components q)"
      using order_check_iff [OF Cons.prems, of ?p] True by blast
    have orphan: "(case image_parent ?p of None \<Rightarrow> False
        | Some c \<Rightarrow> (case kept_open ?p st of [] \<Rightarrow> True | d # _ \<Rightarrow> d \<noteq> c)) \<longleftrightarrow> \<not> parent_in seen e"
      using parent_on_top [OF Cons.prems True]
      by (cases "image_parent ?p") (simp_all add: parent_in_def)
    have "check_order_from (Some ?p) ?st es = Ok () \<longleftrightarrow> canonical_from (seen @ [e]) es"
      using Cons.IH [OF order_inv_push [OF Cons.prems]] True by (simp add: entry_key_def)
    then show ?thesis
      using order orphan True
      unfolding check_order_from.simps canonical_from.simps Let_def kept_open_def [symmetric]
      by (simp add: entry_key_def)
  qed
qed simp

lemma check_order_canonical: "check_order es = Ok () \<longleftrightarrow> canonical_from [] es"
  unfolding check_order_def by (rule check_order_from_iff) (simp add: order_inv_def above_def)

text \<open>C23: The check of the order accepts exactly the lists that are strictly increasing in the order of
  the components and in which the parent of every entry is an earlier directory of the list.\<close>

theorem check_order_exact:
  "check_order es = Ok () \<longleftrightarrow>
     sorted_wrt (\<lambda>a b. components (ie_path a) < components (ie_path b)) es \<and>
     list_all (\<lambda>i. case image_parent (ie_path (es ! i)) of
                     None \<Rightarrow> True
                   | Some p \<Rightarrow> entry_dir p \<in> set (take i es)) [0..<length es]"
  by (simp add: check_order_canonical canonical_from_iff entry_key_def parent_in_def list_all_iff Ball_def)

section \<open>The format\<close>

text \<open>\<open>reads b p x q\<close>: from position \<open>p\<close> to position \<open>q\<close> the bytes \<open>b\<close> are \<open>x\<close>.\<close>

definition reads :: "bytes \<Rightarrow> nat \<Rightarrow> bytes \<Rightarrow> nat \<Rightarrow> bool" where
  "reads b p x q \<longleftrightarrow> q = p + length x \<and> q \<le> length b \<and> drop p b = x @ drop q b"

lemma reads_append:
  "reads b p (x @ y) r \<longleftrightarrow> (\<exists>q. reads b p x q \<and> reads b q y r)"
proof
  assume xy: "reads b p (x @ y) r"
  then have "drop (length x) (drop p b) = y @ drop r b"
    by (simp add: reads_def)
  then show "\<exists>q. reads b p x q \<and> reads b q y r"
    using xy by (intro exI [of _ "p + length x"]) (auto simp: reads_def add.commute)
next
  assume "\<exists>q. reads b p x q \<and> reads b q y r"
  then show "reads b p (x @ y) r"
    by (auto simp: reads_def)
qed

lemma reads_Nil: "reads b p [] q \<longleftrightarrow> q = p \<and> p \<le> length b"
  by (auto simp: reads_def)

lemma cursor_take_reads: "cursor_take b p n = Ok (x, q) \<longleftrightarrow> reads b p x q \<and> length x = n"
proof
  assume "cursor_take b p n = Ok (x, q)"
  then show "reads b p x q \<and> length x = n"
    by (auto simp: cursor_take_def reads_def add.commute split: if_splits
        simp flip: drop_drop)
next
  assume "reads b p x q \<and> length x = n"
  then show "cursor_take b p n = Ok (x, q)"
    by (auto simp: cursor_take_def reads_def)
qed

definition entry_bytes :: "image_entry \<Rightarrow> bytes" where
  "entry_bytes e =
     (case ie_node e of
        Dir \<Rightarrow> [KIND_DIR] @ to_le 2 (of_nat (length (ie_path e)) :: u16) @ ie_path e
      | File contents \<Rightarrow>
          [KIND_FILE] @ to_le 2 (of_nat (length (ie_path e)) :: u16) @ ie_path e @
            to_le 8 (of_nat (length contents) :: u64) @ contents)"

definition wf_entry :: "image_entry \<Rightarrow> bool" where
  "wf_entry e \<longleftrightarrow> valid_path (ie_path e) \<and>
     (case ie_node e of Dir \<Rightarrow> True | File contents \<Rightarrow> length contents < 2 ^ 64)"

lemma valid_path_length: "valid_path p \<Longrightarrow> length p < 2 ^ 16"
  by (auto simp: valid_path_def ImagePath_new_def split: if_splits)

lemma ImagePath_new_same: "ImagePath_new p = Ok p' \<Longrightarrow> p' = p"
  by (auto simp: ImagePath_new_def split: if_splits)

text \<open>A length that is stored and read back.\<close>

lemma le_reads:
  assumes "LENGTH('a::len) = 8 * n"
  shows "reads b p len q \<and> length len = n \<and> reads b q x r \<and> length x = unat (from_le len :: 'a word) \<longleftrightarrow>
    length x < 2 ^ LENGTH('a) \<and> len = to_le n (of_nat (length x) :: 'a word) \<and> reads b p len q \<and> reads b q x r"
proof -
  have "unat (from_le len :: 'a word) < 2 ^ LENGTH('a)"
    by (rule unsigned_less)
  moreover have "to_le n (from_le len :: 'a word) = len" if "length len = n"
    using that assms to_le_from_le [where bs = len and 'a = 'a] by simp
  moreover have "unat (of_nat (length x) :: 'a word) = length x" if "length x < 2 ^ LENGTH('a)"
    using that by (simp add: unat_of_nat)
  ultimately show ?thesis
    using from_le_to_le [OF assms, of "of_nat (length x)"] by auto
qed

lemmas le16_reads = le_reads [where 'a = 16 and n = 2, simplified]
lemmas le64_reads = le_reads [where 'a = 64 and n = 8, simplified]

lemma kinds_differ [simp]: "KIND_DIR \<noteq> KIND_FILE" "KIND_FILE \<noteq> KIND_DIR"
  by (simp_all add: KIND_DIR_def KIND_FILE_def)

lemma parse_entry_reads:
  assumes "parse_entry b p = Ok (e, q)"
  shows "wf_entry e \<and> reads b p (entry_bytes e) q"
proof -
  obtain kind len path path' p1 p2 p3 where
      kind: "reads b p kind p1" "length kind = 1" and
      len: "reads b p1 len p2" "length len = 2" and
      path: "reads b p2 path p3" "length path = unat (from_le len :: u16)" and
      valid: "utf8_valid path" "ImagePath_new path = Ok path'" and
      node: "parse_node b p (hd kind) path' p3 = Ok (e, q)"
    using assms unfolding parse_entry_def by (auto simp: cursor_take_reads split: if_splits)
  have path': "path' = path"
    using valid(2) by (rule ImagePath_new_same)
  obtain k where k: "kind = [k]"
    using kind(2) by (cases kind) auto
  have le: "length path < 2 ^ 16" "len = to_le 2 (of_nat (length path) :: u16)"
    using len path le16_reads [of b p1 len p2 path p3] by auto
  show ?thesis
  proof (cases "k = KIND_DIR")
    case True
    then have "e = entry_dir path" "q = p3"
      using node k path' by (auto simp: parse_node_def)
    then show ?thesis
      using k kind(1) len(1) path(1) le(2) valid path' True
      by (auto simp: wf_entry_def valid_path_def entry_dir_def entry_bytes_def reads_append
          simp del: append.simps)
  next
    case False
    then obtain size contents p4 where f: "k = KIND_FILE" "e = entry_file path contents"
        "reads b p3 size p4" "length size = 8"
        "reads b p4 contents q" "length contents = unat (from_le size :: u64)"
      using node k path' by (auto simp: parse_node_def cursor_take_reads split: if_splits)
    then have le': "length contents < 2 ^ 64" "size = to_le 8 (of_nat (length contents) :: u64)"
      using le64_reads [of b p3 size p4 contents q] by auto
    have "reads b p ([KIND_FILE] @ len @ path @ size @ contents) q"
      using k kind(1) len(1) path(1) f(1,3,5) unfolding reads_append by blast
    then show ?thesis
      unfolding f(2) using le(2) le' valid path'
      by (simp add: wf_entry_def valid_path_def entry_file_def entry_bytes_def)
  qed
qed

lemma reads_parse_entry:
  assumes wf: "wf_entry e" and r: "reads b p (entry_bytes e) q"
  shows "parse_entry b p = Ok (e, q)"
proof -
  let ?len = "to_le 2 (of_nat (length (ie_path e)) :: u16)"
  have path: "valid_path (ie_path e)"
    using wf by (simp add: wf_entry_def)
  have len: "unat (from_le ?len :: u16) = length (ie_path e)"
    using valid_path_length [OF path] by (simp add: unat_of_nat)
  show ?thesis
  proof (cases "ie_node e")
    case Dir
    then obtain p1 p2 where rs: "reads b p [KIND_DIR] p1" "reads b p1 ?len p2" "reads b p2 (ie_path e) q"
      using r by (auto simp: entry_bytes_def reads_append simp del: append.simps)
    then have "cursor_take b p 1 = Ok ([KIND_DIR], p1)" "cursor_take b p1 2 = Ok (?len, p2)"
        "cursor_take b p2 (length (ie_path e)) = Ok (ie_path e, q)"
      by (simp_all add: cursor_take_reads)
    moreover have "e = entry_dir (ie_path e)"
      using Dir by (simp add: entry_dir_def)
    ultimately show ?thesis
      using path len by (simp add: parse_entry_def parse_node_def valid_path_def)
  next
    case (File contents)
    let ?size = "to_le 8 (of_nat (length contents) :: u64)"
    obtain p1 p2 p3 p4 where rs: "reads b p [KIND_FILE] p1" "reads b p1 ?len p2"
        "reads b p2 (ie_path e) p3" "reads b p3 ?size p4" "reads b p4 contents q"
      using r File by (auto simp: entry_bytes_def reads_append simp del: append.simps)
    then have "cursor_take b p 1 = Ok ([KIND_FILE], p1)" "cursor_take b p1 2 = Ok (?len, p2)"
        "cursor_take b p2 (length (ie_path e)) = Ok (ie_path e, p3)" "cursor_take b p3 8 = Ok (?size, p4)"
        "cursor_take b p4 (length contents) = Ok (contents, q)"
      by (simp_all add: cursor_take_reads)
    moreover have "unat (from_le ?size :: u64) = length contents"
      using wf File by (simp add: wf_entry_def unat_of_nat)
    moreover have "e = entry_file (ie_path e) contents"
      using File by (simp add: entry_file_def)
    ultimately show ?thesis
      using path len by (simp add: parse_entry_def parse_node_def valid_path_def)
  qed
qed

lemma parse_entry_iff: "parse_entry b p = Ok (e, q) \<longleftrightarrow> wf_entry e \<and> reads b p (entry_bytes e) q"
  using parse_entry_reads reads_parse_entry by blast

lemma reads_le: "reads b p x q \<Longrightarrow> q \<le> length b"
  by (simp add: reads_def)

lemma parse_entries_iff:
  "p \<le> length b \<Longrightarrow> parse_entries n b p = Ok (es, q) \<longleftrightarrow>
   length es = n \<and> list_all wf_entry es \<and> reads b p (concat (map entry_bytes es)) q"
proof (induction n arbitrary: p es)
  case 0
  then show ?case
    by (auto simp: reads_Nil)
next
  case (Suc n)
  have "parse_entries (Suc n) b p = Ok (es, q) \<longleftrightarrow>
      (\<exists>e p1 es'. parse_entry b p = Ok (e, p1) \<and> parse_entries n b p1 = Ok (es', q) \<and> es = e # es')"
    by auto
  also have "\<dots> \<longleftrightarrow> (\<exists>e p1 es'. wf_entry e \<and> reads b p (entry_bytes e) p1 \<and> length es' = n \<and>
      list_all wf_entry es' \<and> reads b p1 (concat (map entry_bytes es')) q \<and> es = e # es')"
    using Suc.IH reads_le unfolding parse_entry_iff by metis
  also have "\<dots> \<longleftrightarrow> length es = Suc n \<and> list_all wf_entry es \<and> reads b p (concat (map entry_bytes es)) q"
    by (cases es) (auto simp: reads_append)
  finally show ?case .
qed

definition image_body :: "image_entry list \<Rightarrow> bytes" where
  "image_body es = MAGIC @ to_le 4 (of_nat (length es) :: u32) @ concat (map entry_bytes es)"

definition image_bytes :: "image_entry list \<Rightarrow> bytes" where
  "image_bytes es = image_body es @ to_le 4 (crc32c (image_body es))"

text \<open>What is parsed of a body that starts with the magic.\<close>

lemma parse_body:
  assumes "body = MAGIC @ rest"
  shows "and_then (cursor_take body (length MAGIC) 4) (\<lambda>(num, pos).
      and_then (parse_entries (unat (from_le num :: u32)) body pos) (\<lambda>(entries, pos).
      if pos \<noteq> length body then Err (TrailingBytes (length body - pos))
      else and_then (check_order entries) (\<lambda>_. Ok entries))) = Ok es \<longleftrightarrow>
    list_all wf_entry es \<and> length es < 2 ^ 32 \<and> check_order es = Ok () \<and> body = image_body es"
    (is "?parse = Ok es \<longleftrightarrow> _")
proof -
  have num: "length num = 4 \<and> unat (from_le num :: u32) = length es \<longleftrightarrow>
      length es < 2 ^ 32 \<and> num = to_le 4 (of_nat (length es) :: u32)" for num
  proof -
    have "unat (from_le num :: u32) < 2 ^ 32"
      using unsigned_less [of "from_le num :: u32"] by simp
    then show ?thesis
      using le32_from_le [of num] by (auto simp: unat_of_nat) (metis of_nat_unat ucast_id)
  qed
  have "?parse = Ok es \<longleftrightarrow> (\<exists>num p1. reads body (length MAGIC) num p1 \<and> length num = 4 \<and>
      length es = unat (from_le num :: u32) \<and> list_all wf_entry es \<and>
      reads body p1 (concat (map entry_bytes es)) (length body)) \<and> check_order es = Ok ()"
    using parse_entries_iff reads_le
    by (auto simp: cursor_take_reads split: if_splits) blast+
  also have "\<dots> \<longleftrightarrow> list_all wf_entry es \<and> length es < 2 ^ 32 \<and> check_order es = Ok () \<and>
      reads body (length MAGIC) (to_le 4 (of_nat (length es) :: u32) @ concat (map entry_bytes es)) (length body)"
    using num unfolding reads_append by metis
  also have "reads body (length MAGIC) (to_le 4 (of_nat (length es) :: u32) @ concat (map entry_bytes es))
      (length body) \<longleftrightarrow> body = image_body es"
    using assms by (auto simp: reads_def image_body_def)
  finally show ?thesis .
qed

lemma length_image_body: "length MAGIC + 4 \<le> length (image_body es)"
  by (simp add: image_body_def)

lemma parse_image_iff:
  "parse_image img = Ok es \<longleftrightarrow>
   list_all wf_entry es \<and> length es < 2 ^ 32 \<and> check_order es = Ok () \<and> img = image_bytes es"
proof (cases "take (length MAGIC) img = MAGIC \<and> HEADER_LEN + TRAILER_LEN \<le> length img")
  case False
  have "take (length MAGIC) (image_bytes es) = MAGIC \<and> HEADER_LEN + TRAILER_LEN \<le> length (image_bytes es)"
    by (simp add: image_bytes_def image_body_def HEADER_LEN_def TRAILER_LEN_def)
  then have "img \<noteq> image_bytes es"
    using False by auto
  moreover have "parse_image img \<noteq> Ok es"
    using False by (auto simp: parse_image_def)
  ultimately show ?thesis
    by simp
next
  case True
  let ?body = "take (length img - TRAILER_LEN) img" and ?trailer = "drop (length img - TRAILER_LEN) img"
  have len: "length ?trailer = 4" "length MAGIC \<le> length ?body"
    using True by (auto simp: HEADER_LEN_def TRAILER_LEN_def)
  have "take (length MAGIC) ?body = MAGIC"
    using True len by (simp add: min_absorb1)
  then obtain rest where rest: "?body = MAGIC @ rest"
    by (metis append_take_drop_id)
  have crc: "from_le ?trailer = crc32c b \<longleftrightarrow> ?trailer = to_le 4 (crc32c b)" for b
    using le32_from_le [OF len(1)] by auto
  have "parse_image img = Ok es \<longleftrightarrow> from_le ?trailer = crc32c ?body \<and>
      list_all wf_entry es \<and> length es < 2 ^ 32 \<and> check_order es = Ok () \<and> ?body = image_body es"
    using True parse_body [OF rest, of es] by (simp add: parse_image_def Let_def not_less HEADER_LEN_def)
  moreover have "?trailer = to_le 4 (crc32c ?body) \<and> ?body = image_body es \<longleftrightarrow> img = image_bytes es"
  proof
    assume "?trailer = to_le 4 (crc32c ?body) \<and> ?body = image_body es"
    then show "img = image_bytes es"
      unfolding image_bytes_def by (metis append_take_drop_id)
  next
    assume "img = image_bytes es"
    then show "?trailer = to_le 4 (crc32c ?body) \<and> ?body = image_body es"
      by (simp add: image_bytes_def TRAILER_LEN_def)
  qed
  ultimately show ?thesis
    unfolding crc by blast
qed

lemma pack_entries_bytes:
  "list_all wf_entry es \<Longrightarrow> pack_entries es = Ok (concat (map entry_bytes es))"
proof (induction es)
  case (Cons e es)
  then have "length (ie_path e) < 2 ^ 16"
    using valid_path_length by (auto simp: wf_entry_def)
  then show ?case
    using Cons by (simp add: pack_entry_def Let_def entry_bytes_def)
qed simp

lemma pack_image_iff:
  assumes "list_all wf_entry es"
  shows "pack_image es = Ok img \<longleftrightarrow>
    check_order (sort_entries es) = Ok () \<and> length es < 2 ^ 32 \<and> img = image_bytes (sort_entries es)"
proof -
  have "list_all wf_entry (sort_entries es)" and "length (sort_entries es) = length es"
    using assms by (simp_all add: sort_entries_def list_all_iff)
  then show ?thesis
    by (auto simp: pack_image_def Let_def pack_entries_bytes image_bytes_def image_body_def)
qed

lemma sort_entries_canonical: "check_order es = Ok () \<Longrightarrow> sort_entries es = es"
proof -
  assume "check_order es = Ok ()"
  then have "sorted_wrt (\<lambda>a b. entry_key a < entry_key b) es"
    by (simp add: check_order_canonical canonical_from_iff)
  then have "sorted_wrt (\<lambda>a b. entry_key a \<le> entry_key b) es"
    by (rule sorted_wrt_mono_rel [rotated]) auto
  then have "sorted (map entry_key es)"
    by (simp add: sorted_map)
  then show ?thesis
    unfolding sort_entries_def entry_key_def [symmetric] by (rule sort_key_id_if_sorted)
qed

text \<open>C22: The bytes that parse to some entries are exactly the image the packer makes of them: the
  entries have valid paths, they are in canonical order, and no other bytes parse to them.\<close>

theorem image_format_exact:
  "parse_image img = Ok es \<longleftrightarrow>
   list_all wf_entry es \<and> pack_image es = Ok img \<and> sort_entries es = es"
proof -
  have "list_all wf_entry es \<Longrightarrow> pack_image es = Ok img \<and> sort_entries es = es \<longleftrightarrow>
      length es < 2 ^ 32 \<and> check_order es = Ok () \<and> img = image_bytes es"
    using sort_entries_canonical pack_image_iff [of es img] by auto
  then show ?thesis
    unfolding parse_image_iff by blast
qed

text \<open>Whatever order the entries of a tree are packed in, parsing the image gives them back in
  canonical order.\<close>

lemma pack_parse_round_trip:
  assumes "list_all wf_entry es" and "pack_image es = Ok img"
  shows "parse_image img = Ok (sort_entries es) \<and> mset (sort_entries es) = mset es"
proof -
  have "list_all wf_entry (sort_entries es)"
    using assms(1) by (simp add: sort_entries_def list_all_iff)
  then show ?thesis
    using assms pack_image_iff [OF assms(1)] by (simp add: parse_image_iff sort_entries_def)
qed

section \<open>Damage\<close>

text \<open>The register after a whole image, its trailer included, is always the same.\<close>

lemma trailer_residue:
  assumes "length trailer = 4" and "from_le trailer = crc32c body"
  shows "shift_register (message_bits (body @ trailer)) CRC_INIT = (crc_shift ^^ 32) FINAL_XOR"
proof -
  let ?s = "shift_register (message_bits body) CRC_INIT"
  have word: "horner_sum of_bool 2 (message_bits trailer) = (from_le trailer :: u32)"
  proof (rule bit_eqI)
    fix n
    assume "possible_bit TYPE(u32) n"
    then have n: "n < 32"
      by simp
    then have "n div 8 < 4"
      by (simp add: less_mult_imp_div_less)
    have len: "length (message_bits trailer) = 32"
      by (simp add: length_message_bits assms(1))
    have "message_bits trailer ! n = bit (trailer ! (n div 8)) (n mod 8)"
      using assms(1) \<open>n div 8 < 4\<close> by (simp add: message_bits_nth)
    then show "bit (horner_sum of_bool 2 (message_bits trailer) :: u32) n = bit (from_le trailer :: u32) n"
      using n len assms(1) \<open>n div 8 < 4\<close> by (simp add: bit_horner_sum_bit_word_iff bit_from_le)
  qed
  have "shift_register (message_bits (body @ trailer)) CRC_INIT = shift_register (message_bits trailer) ?s"
    by (simp add: message_bits_def shift_register_append)
  also have "\<dots> = (crc_shift ^^ 32) (?s XOR from_le trailer)"
    using shift_register_word [of "message_bits trailer" ?s]
    by (simp only: word length_message_bits assms(1)) simp
  also have "?s XOR from_le trailer = FINAL_XOR"
    unfolding assms(2) by (simp add: crc32c_def crc_fin_def crc_comp_bits xor.assoc [symmetric])
  finally show ?thesis .
qed

text \<open>C24: An image that parses, with any damage that is confined to 32 consecutive bits - of the
  entries, the header or the checksum itself - does not parse.\<close>

theorem image_damage_refused:
  assumes "parse_image img = Ok es" and "damaged \<noteq> img"
    and "message_bits img = pre @ a @ post" and "message_bits damaged = pre @ b @ post"
    and "length a = length b" and "length a \<le> 32"
  shows "\<not> is_ok (parse_image damaged)"
proof
  have residue: "shift_register (message_bits i) CRC_INIT = (crc_shift ^^ 32) FINAL_XOR"
    if parsed: "parse_image i = Ok xs" for i xs
    using parsed unfolding parse_image_iff image_bytes_def
    using trailer_residue [of "to_le 4 (crc32c (image_body xs))" "image_body xs"] by simp
  assume "is_ok (parse_image damaged)"
  then obtain xs where "parse_image damaged = Ok xs"
    by (cases "parse_image damaged") auto
  then have "shift_register (pre @ b @ post) CRC_INIT = shift_register (pre @ a @ post) CRC_INIT"
    using residue [OF assms(1)] residue [of damaged xs] assms(3,4) by simp
  then have "a = b"
    using burst_detected [OF assms(5,6)] by metis
  then show False
    using assms(2-4) message_bits_inj by metis
qed

section \<open>Paths that stay inside\<close>

text \<open>C25: Every path of a parsed image is confined to the directory it is expanded into: its
  components are not empty, not the directory itself or its parent, and hold neither a separator nor
  a NUL.\<close>

theorem parsed_paths_confined:
  assumes "parse_image img = Ok es" and "e \<in> set es" and "c \<in> set (components (ie_path e))"
  shows "c \<noteq> [] \<and> c \<noteq> bstr ''.'' \<and> c \<noteq> bstr ''..'' \<and> 0 \<notin> set c \<and> SLASH \<notin> set c"
proof -
  have "valid_path (ie_path e)"
    using assms(1,2) by (auto simp: parse_image_iff list_all_iff wf_entry_def)
  then show ?thesis
    using assms(3) split_pieces [of c SLASH "ie_path e"]
    by (auto simp: valid_path_def ImagePath_new_def components_def list_ex_iff split: if_splits)
qed

definition demo_entries :: "image_entry list" where
  "demo_entries = [entry_dir (bstr ''base''), entry_file (bstr ''base/1'') [7, 0], entry_file (bstr ''base.x'') []]"

lemma demo_components:
  "components (bstr ''base'') = [bstr ''base'']" "components (bstr ''base/1'') = [bstr ''base'', bstr ''1'']"
  "components (bstr ''base.x'') = [bstr ''base.x'']"
  by (simp_all add: components_def SLASH_def)

lemma demo_wf: "list_all wf_entry demo_entries"
  using demo_components
  by (simp add: demo_entries_def wf_entry_def valid_path_def ImagePath_new_def entry_dir_def entry_file_def
      utf8_chunk_def utf8_width_def)

lemma demo_order: "check_order demo_entries = Ok ()"
  using demo_components
  by (simp add: check_order_def demo_entries_def entry_dir_def entry_file_def image_parent_def rsplit_once_def
      is_same_or_ancestor_def SLASH_def)

lemma demo_parses: "parse_image (image_bytes demo_entries) = Ok demo_entries"
  using demo_wf demo_order by (simp add: parse_image_iff demo_entries_def)

theorem parsed_paths_confined_witness:
  "parse_image (image_bytes demo_entries) = Ok demo_entries \<and>
   entry_file (bstr ''base/1'') [7, 0] \<in> set demo_entries \<and>
   components (ie_path (entry_file (bstr ''base/1'') [7, 0])) = [bstr ''base'', bstr ''1''] \<and>
   list_all (\<lambda>c. c \<noteq> [] \<and> c \<noteq> bstr ''.'' \<and> c \<noteq> bstr ''..'' \<and> 0 \<notin> set c \<and> SLASH \<notin> set c)
     [bstr ''base'', bstr ''1'']"
proof -
  have e: "entry_file (bstr ''base/1'') [7, 0] \<in> set demo_entries"
    by (simp add: demo_entries_def)
  have c: "components (ie_path (entry_file (bstr ''base/1'') [7, 0])) = [bstr ''base'', bstr ''1'']"
    using demo_components by (simp add: entry_file_def)
  show ?thesis
    using parsed_paths_confined [OF demo_parses e] demo_parses e c by (simp add: list_all_iff)
qed

theorem image_damage_refused_witness:
  "\<not> is_ok (parse_image (butlast (image_bytes demo_entries) @ [last (image_bytes demo_entries) XOR 1]))"
proof (rule image_damage_refused [OF demo_parses])
  let ?i = "image_bytes demo_entries"
  have ne: "?i \<noteq> []"
    by (simp add: image_bytes_def image_body_def MAGIC_def)
  have flip: "(x :: byte) XOR 1 \<noteq> x" for x
    using xor.assoc [of x x 1] by (metis xor_self_eq xor.left_neutral one_neq_zero)
  show "butlast ?i @ [last ?i XOR 1] \<noteq> ?i"
    using append_butlast_last_id [OF ne] flip by (metis append_same_eq last_snoc)
  show "message_bits ?i = message_bits (butlast ?i) @ byte_bits (last ?i) @ []"
    using append_butlast_last_id [OF ne] by (metis append_Nil2 concat.simps concat_append list.simps(8,9)
        map_append message_bits_def)
  show "message_bits (butlast ?i @ [last ?i XOR 1]) = message_bits (butlast ?i) @ byte_bits (last ?i XOR 1) @ []"
    by (simp add: message_bits_def)
  show "length (byte_bits (last ?i)) = length (byte_bits (last ?i XOR 1))" "length (byte_bits (last ?i)) \<le> 32"
    by (simp_all add: byte_bits_def)
qed

end
