(* ===== verification/Expand.thy ===== *)
theory Expand
  imports Image
begin

text \<open>
  \<open>expand\<close> of \<open>crates/rinitdb/src/image.rs\<close> and the permissions of \<open>file_perm.rs\<close>: how a parsed image
  becomes the files of a new cluster.

  The tree of files is a map from paths; every call of \<open>std::fs\<close> returns the tree beside its result.

  Shown: a parsed image expands front to back; every file gets its contents and mode, a directory
  that is there already is left as it is, and nothing else changes.
\<close>

unbundle bit_operations_syntax

section \<open>Permissions\<close>

text \<open>\<open>crates/rinitdb/src/file_perm.rs\<close>.\<close>

record data_dir_perm =
  dp_dir_mode :: u32
  dp_file_mode :: u32
  dp_mode_mask :: u32

definition PG_MODE_MASK_OWNER :: u32 where "PG_MODE_MASK_OWNER = 0x3F"
definition PG_MODE_MASK_GROUP :: u32 where "PG_MODE_MASK_GROUP = 0x17"
definition PG_DIR_MODE_OWNER :: u32 where "PG_DIR_MODE_OWNER = 0x1C0"
definition PG_DIR_MODE_GROUP :: u32 where "PG_DIR_MODE_GROUP = 0x1E8"
definition PG_FILE_MODE_OWNER :: u32 where "PG_FILE_MODE_OWNER = 0x180"
definition PG_FILE_MODE_GROUP :: u32 where "PG_FILE_MODE_GROUP = 0x1A0"

definition perm_OWNER :: data_dir_perm where
  "perm_OWNER = \<lparr> dp_dir_mode = PG_DIR_MODE_OWNER, dp_file_mode = PG_FILE_MODE_OWNER,
     dp_mode_mask = PG_MODE_MASK_OWNER \<rparr>"

definition perm_GROUP :: data_dir_perm where
  "perm_GROUP = \<lparr> dp_dir_mode = PG_DIR_MODE_GROUP, dp_file_mode = PG_FILE_MODE_GROUP,
     dp_mode_mask = PG_MODE_MASK_GROUP \<rparr>"

definition set_data_directory_create_perm :: "u32 \<Rightarrow> data_dir_perm" where
  "set_data_directory_create_perm data_dir_mode =
     (if PG_DIR_MODE_GROUP AND data_dir_mode = PG_DIR_MODE_GROUP then perm_GROUP else perm_OWNER)"

definition for_allow_group_access :: "bool \<Rightarrow> data_dir_perm" where
  "for_allow_group_access allow_group_access =
     (if allow_group_access then set_data_directory_create_perm PG_DIR_MODE_GROUP else perm_OWNER)"

definition masked_dir_mode :: "data_dir_perm \<Rightarrow> u32" where
  "masked_dir_mode perm = dp_dir_mode perm AND NOT (dp_mode_mask perm)"

definition masked_file_mode :: "data_dir_perm \<Rightarrow> u32" where
  "masked_file_mode perm = 0x1B6 AND NOT (dp_mode_mask perm)"

text \<open>The mask takes nothing away from the modes the settings name.\<close>

lemma masked_modes:
  "masked_dir_mode (for_allow_group_access g) = dp_dir_mode (for_allow_group_access g)"
  "masked_file_mode (for_allow_group_access g) = dp_file_mode (for_allow_group_access g)"
  by (cases g; simp add: for_allow_group_access_def set_data_directory_create_perm_def
      masked_dir_mode_def masked_file_mode_def perm_OWNER_def perm_GROUP_def
      PG_MODE_MASK_OWNER_def PG_MODE_MASK_GROUP_def PG_DIR_MODE_OWNER_def PG_DIR_MODE_GROUP_def
      PG_FILE_MODE_OWNER_def PG_FILE_MODE_GROUP_def)+

section \<open>Expanding\<close>

text \<open>A directory tree without symbolic links: what is at a path, given by its components. The calls
  of \<open>std::fs\<close> the expansion makes fail as POSIX has it, or for a reason of the system's own, which the
  argument \<open>faults\<close> names; a write that fails may have written a part.\<close>

datatype fs_node = FsDir u32 | FsFile u32 bytes

type_synonym fs = "bytes list \<Rightarrow> fs_node option"

datatype errno = EEXIST | ENOENT | ENOTDIR | EOther nat

datatype fs_op = MkDir | OpenNew | WriteAll | SetPermissions

type_synonym faults = "fs_op \<Rightarrow> bytes list \<Rightarrow> (errno \<times> nat) option"

datatype initdb_error =
    CouldNotCreateDirectory "bytes list" errno
  | CouldNotOpenFileForWriting "bytes list" errno
  | CouldNotWriteFile "bytes list" errno

definition create_check :: "fs_op \<Rightarrow> faults \<Rightarrow> bytes list \<Rightarrow> fs \<Rightarrow> errno option" where
  "create_check opr faults path fs =
     (case fs (butlast path) of
        None \<Rightarrow> Some ENOENT
      | Some (FsFile _ _) \<Rightarrow> Some ENOTDIR
      | Some (FsDir _) \<Rightarrow>
          if fs path \<noteq> None then Some EEXIST else map_option fst (faults opr path))"

definition set_mode :: "u32 \<Rightarrow> fs_node \<Rightarrow> fs_node" where
  "set_mode mode n = (case n of FsDir _ \<Rightarrow> FsDir mode | FsFile _ c \<Rightarrow> FsFile mode c)"

definition fs_set_permissions :: "faults \<Rightarrow> bytes list \<Rightarrow> u32 \<Rightarrow> fs \<Rightarrow> (unit, errno) result \<times> fs" where
  "fs_set_permissions faults path mode fs =
     (case faults SetPermissions path of
        Some (e, _) \<Rightarrow> (Err e, fs)
      | None \<Rightarrow> (case fs path of
                    None \<Rightarrow> (Err ENOENT, fs)
                  | Some n \<Rightarrow> (Ok (), fs(path \<mapsto> set_mode mode n))))"

text \<open>\<open>umask\<close> is the mask of the process.\<close>

definition create_dir ::
  "faults \<Rightarrow> u32 \<Rightarrow> bytes list \<Rightarrow> u32 \<Rightarrow> fs \<Rightarrow> (bool, initdb_error) result \<times> fs" where
  "create_dir faults umask path mode fs =
     (case create_check MkDir faults path fs of
        None \<Rightarrow>
          (case fs_set_permissions faults path mode (fs(path \<mapsto> FsDir (mode AND NOT umask))) of
             (Ok _, fs) \<Rightarrow> (Ok True, fs)
           | (Err e, fs) \<Rightarrow> (Err (CouldNotCreateDirectory path e), fs))
      | Some e \<Rightarrow>
          if e = EEXIST \<and> (case fs path of Some (FsDir _) \<Rightarrow> True | _ \<Rightarrow> False) then (Ok False, fs)
          else (Err (CouldNotCreateDirectory path e), fs))"

definition write_file ::
  "faults \<Rightarrow> u32 \<Rightarrow> bytes list \<Rightarrow> u32 \<Rightarrow> bytes \<Rightarrow> fs \<Rightarrow> (unit, initdb_error) result \<times> fs" where
  "write_file faults umask path mode contents fs =
     (case create_check OpenNew faults path fs of
        Some e \<Rightarrow> (Err (CouldNotOpenFileForWriting path e), fs)
      | None \<Rightarrow>
          (case faults WriteAll path of
             Some (e, n) \<Rightarrow>
               (Err (CouldNotWriteFile path e), fs(path \<mapsto> FsFile (mode AND NOT umask) (take n contents)))
           | None \<Rightarrow>
               (case fs_set_permissions faults path mode (fs(path \<mapsto> FsFile (mode AND NOT umask) contents)) of
                  (Ok _, fs) \<Rightarrow> (Ok (), fs)
                | (Err e, fs) \<Rightarrow> (Err (CouldNotWriteFile path e), fs))))"

record expanded =
  ex_dirs :: nat
  ex_files :: nat
  ex_bytes :: u64

fun expand_from ::
  "faults \<Rightarrow> u32 \<Rightarrow> bytes list \<Rightarrow> data_dir_perm \<Rightarrow> image_entry list \<Rightarrow> expanded \<Rightarrow> fs \<Rightarrow>
   (expanded, initdb_error) result \<times> fs" where
  "expand_from faults umask target perm [] ex fs = (Ok ex, fs)"
| "expand_from faults umask target perm (entry # entries) ex fs =
     (let path = target @ components (ie_path entry) in
      case ie_node entry of
        Dir \<Rightarrow>
          (case create_dir faults umask path (masked_dir_mode perm) fs of
             (Err e, fs) \<Rightarrow> (Err e, fs)
           | (Ok created, fs) \<Rightarrow>
               expand_from faults umask target perm entries
                 (if created then ex\<lparr>ex_dirs := ex_dirs ex + 1\<rparr> else ex) fs)
      | File contents \<Rightarrow>
          (case write_file faults umask path (masked_file_mode perm) contents fs of
             (Err e, fs) \<Rightarrow> (Err e, fs)
           | (Ok _, fs) \<Rightarrow>
               expand_from faults umask target perm entries
                 (ex\<lparr>ex_files := ex_files ex + 1, ex_bytes := ex_bytes ex + of_nat (length contents)\<rparr>) fs))"

definition expand ::
  "faults \<Rightarrow> u32 \<Rightarrow> image_entry list \<Rightarrow> bytes list \<Rightarrow> data_dir_perm \<Rightarrow> fs \<Rightarrow>
   (expanded, initdb_error) result \<times> fs" where
  "expand faults umask entries target perm fs =
     expand_from faults umask target perm entries \<lparr> ex_dirs = 0, ex_files = 0, ex_bytes = 0 \<rparr> fs"

section \<open>Front to back\<close>

definition is_dir :: "fs \<Rightarrow> bytes list \<Rightarrow> bool" where
  "is_dir fs path = (case fs path of Some (FsDir _) \<Rightarrow> True | _ \<Rightarrow> False)"

definition fresh_node :: "data_dir_perm \<Rightarrow> image_entry \<Rightarrow> fs_node" where
  "fresh_node perm e =
     (case ie_node e of
        Dir \<Rightarrow> FsDir (masked_dir_mode perm)
      | File contents \<Rightarrow> FsFile (masked_file_mode perm) contents)"

definition place :: "data_dir_perm \<Rightarrow> bytes list \<Rightarrow> image_entry \<Rightarrow> fs \<Rightarrow> fs" where
  "place perm target e fs =
     (if fs (target @ entry_key e) = None then fs(target @ entry_key e \<mapsto> fresh_node perm e) else fs)"

text \<open>Where an entry is to go there is nothing, or the directory it names.\<close>

definition free_for :: "fs \<Rightarrow> bytes list \<Rightarrow> image_entry \<Rightarrow> bool" where
  "free_for fs target e \<longleftrightarrow>
     fs (target @ entry_key e) = None \<or> ie_node e = Dir \<and> is_dir fs (target @ entry_key e)"

definition no_faults :: faults where
  "no_faults opr path = None"

definition is_file_entry :: "image_entry \<Rightarrow> bool" where
  "is_file_entry e = (ie_node e \<noteq> Dir)"

fun contents_of :: "image_node \<Rightarrow> bytes" where
  "contents_of Dir = []"
| "contents_of (File c) = c"

lemma create_check_free:
  assumes "is_dir fs (butlast path)"
  shows "create_check opr no_faults path fs = (if fs path = None then None else Some EEXIST)"
  using assms by (auto simp: create_check_def is_dir_def no_faults_def split: option.splits fs_node.splits)

lemma create_dir_places:
  assumes "is_dir fs (butlast path)" and "fs path = None \<or> is_dir fs path"
  shows "create_dir no_faults umask path mode fs =
    (Ok (fs path = None), if fs path = None then fs(path \<mapsto> FsDir mode) else fs)"
  using assms
  by (auto simp: create_dir_def create_check_free fs_set_permissions_def no_faults_def set_mode_def is_dir_def
      split: option.splits)

lemma write_file_places:
  assumes "is_dir fs (butlast path)" and "fs path = None"
  shows "write_file no_faults umask path mode contents fs = (Ok (), fs(path \<mapsto> FsFile mode contents))"
  using assms
  by (auto simp: write_file_def create_check_free fs_set_permissions_def no_faults_def set_mode_def)

lemma place_other: "p \<noteq> target @ entry_key e \<Longrightarrow> place perm target e fs p = fs p"
  by (simp add: place_def)

lemma place_keeps_dir: "is_dir fs p \<Longrightarrow> is_dir (place perm target e fs) p"
  by (auto simp: place_def is_dir_def)

lemma place_makes_dir:
  "\<lbrakk>free_for fs target e; ie_node e = Dir\<rbrakk> \<Longrightarrow> is_dir (place perm target e fs) (target @ entry_key e)"
  by (auto simp: place_def is_dir_def fresh_node_def free_for_def)

lemma entry_parent_dir:
  assumes "parent_in seen e" and "is_dir fs target" and "\<forall>x \<in> set seen. ie_node x = Dir \<longrightarrow> is_dir fs (target @ entry_key x)"
  shows "is_dir fs (butlast (target @ entry_key e))"
proof (cases "image_parent (ie_path e)")
  case None
  then show ?thesis
    using assms(2) image_parent_None [of "ie_path e"] by (simp add: entry_key_def butlast_append)
next
  case (Some p)
  then obtain c where "entry_key e = components p @ [c]"
    using image_parent_Some [OF Some] by (auto simp: entry_key_def)
  then have "butlast (target @ entry_key e) = target @ components p"
    by (simp add: butlast_append)
  moreover have "entry_dir p \<in> set seen"
    using assms(1) Some by (simp add: parent_in_def)
  ultimately show ?thesis
    using assms(3) by (auto simp: entry_dir_def entry_key_def)
qed

lemma expand_step:
  assumes "is_dir fs (butlast (target @ entry_key e))" and "free_for fs target e"
  shows "expand_from no_faults umask target perm (e # es) ex fs =
    expand_from no_faults umask target perm es
      (if is_file_entry e
       then ex\<lparr>ex_files := ex_files ex + 1, ex_bytes := ex_bytes ex + of_nat (length (contents_of (ie_node e)))\<rparr>
       else if fs (target @ entry_key e) = None then ex\<lparr>ex_dirs := ex_dirs ex + 1\<rparr> else ex)
      (place perm target e fs)"
proof (cases "ie_node e")
  case Dir
  then have "fs (target @ entry_key e) = None \<or> is_dir fs (target @ entry_key e)"
    using assms(2) by (auto simp: free_for_def)
  then show ?thesis
    using create_dir_places [OF assms(1)] Dir
    by (simp add: place_def fresh_node_def is_file_entry_def entry_key_def)
next
  case (File c)
  then have "fs (target @ entry_key e) = None"
    using assms(2) by (auto simp: free_for_def)
  then show ?thesis
    using write_file_places [OF assms(1)] File
    by (simp add: place_def fresh_node_def is_file_entry_def entry_key_def)
qed

lemma expand_from_places:
  assumes "canonical_from seen es" and "is_dir fs target"
    and "\<forall>x \<in> set seen. ie_node x = Dir \<longrightarrow> is_dir fs (target @ entry_key x)"
    and "\<forall>e \<in> set es. free_for fs target e"
  shows "expand_from no_faults umask target perm es ex fs =
    (Ok \<lparr> ex_dirs = ex_dirs ex + length (filter (\<lambda>e. ie_node e = Dir \<and> fs (target @ entry_key e) = None) es),
          ex_files = ex_files ex + length (filter is_file_entry es),
          ex_bytes = ex_bytes ex + of_nat (sum_list (map (length \<circ> contents_of \<circ> ie_node) es)) \<rparr>,
     fold (place perm target) es fs)"
  using assms
proof (induction es arbitrary: seen ex fs)
  case (Cons e es)
  let ?fs = "place perm target e fs"
  have later: "\<forall>x \<in> set es. entry_key e < entry_key x"
    using Cons.prems(1) by (auto simp: canonical_from_iff)
  have same: "?fs (target @ entry_key x) = fs (target @ entry_key x)" if "x \<in> set es" for x
    using later that by (intro place_other) auto
  have free: "\<forall>x \<in> set es. free_for ?fs target x"
    using Cons.prems(4) same by (auto simp: free_for_def is_dir_def)
  have dirs: "\<forall>x \<in> set (seen @ [e]). ie_node x = Dir \<longrightarrow> is_dir ?fs (target @ entry_key x)"
    using Cons.prems(3,4) place_keeps_dir place_makes_dir by auto
  have filt: "filter (\<lambda>x. ie_node x = Dir \<and> ?fs (target @ entry_key x) = None) es =
      filter (\<lambda>x. ie_node x = Dir \<and> fs (target @ entry_key x) = None) es"
    using same by (intro filter_cong) auto
  have par: "is_dir fs (butlast (target @ entry_key e))"
    using entry_parent_dir [of seen e fs target] Cons.prems by simp
  show ?case
    using Cons.IH [of "seen @ [e]" ?fs] Cons.prems free dirs place_keeps_dir [OF Cons.prems(2)]
      expand_step [OF par, of umask perm es ex] filt
    by (cases "ie_node e") (simp_all add: is_file_entry_def add.assoc)
qed simp

lemma fold_place:
  "fold (place perm target) es fs p =
     (case find (\<lambda>e. p = target @ entry_key e \<and> fs p = None) es of
        Some e \<Rightarrow> Some (fresh_node perm e)
      | None \<Rightarrow> fs p)"
proof (induction es arbitrary: fs)
  case (Cons e es)
  show ?case
  proof (cases "p = target @ entry_key e \<and> fs p = None")
    case True
    then have "place perm target e fs p = Some (fresh_node perm e)"
      by (auto simp: place_def)
    then have "find (\<lambda>e'. p = target @ entry_key e' \<and> place perm target e fs p = None) es = None"
      by (simp add: find_None_iff)
    then show ?thesis
      using Cons.IH [of "place perm target e fs"] True \<open>place perm target e fs p = _\<close> by auto
  next
    case False
    then have "place perm target e fs p = fs p"
      by (auto simp: place_def)
    then show ?thesis
      using Cons.IH [of "place perm target e fs"] False by (auto split: option.split)
  qed
qed simp

text \<open>C26: The entries of an image that parses can be written one after the other into a directory in
  which nothing is in their way: no call fails; afterwards there is at the place of every entry the
  new directory or file with the mode of the cluster and the contents of the image, a directory that
  was there already is unchanged, and so is everything else; the counts are those of what was made.\<close>

theorem parsed_image_expands:
  assumes "parse_image img = Ok es" and "is_dir fs target" and "list_all (free_for fs target) es"
  shows "expand no_faults umask es target perm fs =
    (Ok \<lparr> ex_dirs = length (filter (\<lambda>e. ie_node e = Dir \<and> fs (target @ entry_key e) = None) es),
          ex_files = length (filter is_file_entry es),
          ex_bytes = of_nat (sum_list (map (length \<circ> contents_of \<circ> ie_node) es)) \<rparr>,
     \<lambda>p. case find (\<lambda>e. p = target @ entry_key e \<and> fs p = None) es of
           Some e \<Rightarrow> Some (fresh_node perm e)
         | None \<Rightarrow> fs p)"
proof -
  have "canonical_from [] es"
    using assms(1) by (simp add: parse_image_iff check_order_canonical)
  then have "expand no_faults umask es target perm fs =
    (Ok \<lparr> ex_dirs = length (filter (\<lambda>e. ie_node e = Dir \<and> fs (target @ entry_key e) = None) es),
          ex_files = length (filter is_file_entry es),
          ex_bytes = of_nat (sum_list (map (length \<circ> contents_of \<circ> ie_node) es)) \<rparr>,
     fold (place perm target) es fs)"
    using expand_from_places [of "[]" es fs target umask perm] assms(2,3)
    by (simp add: expand_def list_all_iff)
  then show ?thesis
    by (simp add: fold_place fun_eq_iff)
qed

theorem parsed_image_expands_witness:
  "fst (expand no_faults 0x3F demo_entries [bstr ''data''] perm_OWNER [[bstr ''data''] \<mapsto> FsDir 0x1C0]) =
   Ok \<lparr> ex_dirs = 1, ex_files = 2, ex_bytes = 2 \<rparr>"
  using parsed_image_expands [OF demo_parses, of "[[bstr ''data''] \<mapsto> FsDir 0x1C0]" "[bstr ''data'']" "0x3F" perm_OWNER]
  by (simp add: is_dir_def demo_entries_def free_for_def entry_key_def entry_dir_def entry_file_def is_file_entry_def)

end
