(* ===== verification/Control.thy ===== *)
theory Control
  imports Crc32c LittleEndian
begin

text \<open>
  \<open>crates/rinitdb/src/control.rs\<close>: the image of \<open>pg_control\<close>, parsed and written back, and the control
  file of a new cluster.

  A C \<open>int\<close> and a \<open>pg_time_t\<close> are only moved, so they are words like the unsigned ones, and a \<open>double\<close> is
  its bits. The byte order of the machine is an argument. The writers of the code put one field after
  the other into a zeroed buffer; here the puts of a struct are a list, in the order of the code.

  Shown: the fields and the padding tile the struct; writing and parsing are inverse to each other;
  when the verdict on the checksum is the one over the bytes of the file; and what a new cluster gets.
\<close>

section \<open>Constants\<close>

definition PG_CONTROL_VERSION :: u32 where "PG_CONTROL_VERSION = 1800"
definition CATALOG_VERSION_NO :: u32 where "CATALOG_VERSION_NO = 202506291"
definition MOCK_AUTH_NONCE_LEN :: nat where "MOCK_AUTH_NONCE_LEN = 32"
definition PG_CONTROL_FILE_SIZE :: nat where "PG_CONTROL_FILE_SIZE = 8192"
definition SIZEOF_CONTROL_FILE_DATA :: nat where "SIZEOF_CONTROL_FILE_DATA = 296"
definition PG_DATA_CHECKSUM_VERSION :: u32 where "PG_DATA_CHECKSUM_VERSION = 1"

definition OFF_SYSTEM_IDENTIFIER :: nat where "OFF_SYSTEM_IDENTIFIER = 0"
definition OFF_PG_CONTROL_VERSION :: nat where "OFF_PG_CONTROL_VERSION = 8"
definition OFF_CATALOG_VERSION_NO :: nat where "OFF_CATALOG_VERSION_NO = 12"
definition OFF_STATE :: nat where "OFF_STATE = 16"
definition OFF_TIME :: nat where "OFF_TIME = 24"
definition OFF_CHECK_POINT :: nat where "OFF_CHECK_POINT = 32"
definition OFF_CP_REDO :: nat where "OFF_CP_REDO = 40"
definition OFF_CP_THIS_TIME_LINE_ID :: nat where "OFF_CP_THIS_TIME_LINE_ID = 48"
definition OFF_CP_PREV_TIME_LINE_ID :: nat where "OFF_CP_PREV_TIME_LINE_ID = 52"
definition OFF_CP_FULL_PAGE_WRITES :: nat where "OFF_CP_FULL_PAGE_WRITES = 56"
definition OFF_CP_WAL_LEVEL :: nat where "OFF_CP_WAL_LEVEL = 60"
definition OFF_CP_NEXT_XID :: nat where "OFF_CP_NEXT_XID = 64"
definition OFF_CP_NEXT_OID :: nat where "OFF_CP_NEXT_OID = 72"
definition OFF_CP_NEXT_MULTI :: nat where "OFF_CP_NEXT_MULTI = 76"
definition OFF_CP_NEXT_MULTI_OFFSET :: nat where "OFF_CP_NEXT_MULTI_OFFSET = 80"
definition OFF_CP_OLDEST_XID :: nat where "OFF_CP_OLDEST_XID = 84"
definition OFF_CP_OLDEST_XID_DB :: nat where "OFF_CP_OLDEST_XID_DB = 88"
definition OFF_CP_OLDEST_MULTI :: nat where "OFF_CP_OLDEST_MULTI = 92"
definition OFF_CP_OLDEST_MULTI_DB :: nat where "OFF_CP_OLDEST_MULTI_DB = 96"
definition OFF_CP_TIME :: nat where "OFF_CP_TIME = 104"
definition OFF_CP_OLDEST_COMMIT_TS_XID :: nat where "OFF_CP_OLDEST_COMMIT_TS_XID = 112"
definition OFF_CP_NEWEST_COMMIT_TS_XID :: nat where "OFF_CP_NEWEST_COMMIT_TS_XID = 116"
definition OFF_CP_OLDEST_ACTIVE_XID :: nat where "OFF_CP_OLDEST_ACTIVE_XID = 120"
definition OFF_UNLOGGED_LSN :: nat where "OFF_UNLOGGED_LSN = 128"
definition OFF_MIN_RECOVERY_POINT :: nat where "OFF_MIN_RECOVERY_POINT = 136"
definition OFF_MIN_RECOVERY_POINT_TLI :: nat where "OFF_MIN_RECOVERY_POINT_TLI = 144"
definition OFF_BACKUP_START_POINT :: nat where "OFF_BACKUP_START_POINT = 152"
definition OFF_BACKUP_END_POINT :: nat where "OFF_BACKUP_END_POINT = 160"
definition OFF_BACKUP_END_REQUIRED :: nat where "OFF_BACKUP_END_REQUIRED = 168"
definition OFF_WAL_LEVEL :: nat where "OFF_WAL_LEVEL = 172"
definition OFF_WAL_LOG_HINTS :: nat where "OFF_WAL_LOG_HINTS = 176"
definition OFF_MAX_CONNECTIONS :: nat where "OFF_MAX_CONNECTIONS = 180"
definition OFF_MAX_WORKER_PROCESSES :: nat where "OFF_MAX_WORKER_PROCESSES = 184"
definition OFF_MAX_WAL_SENDERS :: nat where "OFF_MAX_WAL_SENDERS = 188"
definition OFF_MAX_PREPARED_XACTS :: nat where "OFF_MAX_PREPARED_XACTS = 192"
definition OFF_MAX_LOCKS_PER_XACT :: nat where "OFF_MAX_LOCKS_PER_XACT = 196"
definition OFF_TRACK_COMMIT_TIMESTAMP :: nat where "OFF_TRACK_COMMIT_TIMESTAMP = 200"
definition OFF_MAX_ALIGN :: nat where "OFF_MAX_ALIGN = 204"
definition OFF_FLOAT_FORMAT :: nat where "OFF_FLOAT_FORMAT = 208"
definition OFF_BLCKSZ :: nat where "OFF_BLCKSZ = 216"
definition OFF_RELSEG_SIZE :: nat where "OFF_RELSEG_SIZE = 220"
definition OFF_XLOG_BLCKSZ :: nat where "OFF_XLOG_BLCKSZ = 224"
definition OFF_XLOG_SEG_SIZE :: nat where "OFF_XLOG_SEG_SIZE = 228"
definition OFF_NAME_DATA_LEN :: nat where "OFF_NAME_DATA_LEN = 232"
definition OFF_INDEX_MAX_KEYS :: nat where "OFF_INDEX_MAX_KEYS = 236"
definition OFF_TOAST_MAX_CHUNK_SIZE :: nat where "OFF_TOAST_MAX_CHUNK_SIZE = 240"
definition OFF_LOBLKSIZE :: nat where "OFF_LOBLKSIZE = 244"
definition OFF_FLOAT8_BY_VAL :: nat where "OFF_FLOAT8_BY_VAL = 248"
definition OFF_DATA_CHECKSUM_VERSION :: nat where "OFF_DATA_CHECKSUM_VERSION = 252"
definition OFF_DEFAULT_CHAR_SIGNEDNESS :: nat where "OFF_DEFAULT_CHAR_SIGNEDNESS = 256"
definition OFF_MOCK_AUTHENTICATION_NONCE :: nat where "OFF_MOCK_AUTHENTICATION_NONCE = 257"
definition OFF_CRC :: nat where "OFF_CRC = 292"

definition PADDING :: "(nat \<times> nat) list" where
  "PADDING = [(20, 4), (57, 3), (100, 4), (124, 4), (148, 4), (169, 3), (177, 3), (201, 3), (249, 3), (289, 3)]"

section \<open>The data\<close>

datatype db_state =
    DbStartup | DbShutdowned | DbShutdownedInRecovery | DbShutdowning | DbInCrashRecovery
  | DbInArchiveRecovery | DbInProduction | DbUnrecognized u32

definition db_state_from_u32 :: "u32 \<Rightarrow> db_state" where
  "db_state_from_u32 v =
     (if v = 0 then DbStartup else if v = 1 then DbShutdowned else if v = 2 then DbShutdownedInRecovery
      else if v = 3 then DbShutdowning else if v = 4 then DbInCrashRecovery
      else if v = 5 then DbInArchiveRecovery else if v = 6 then DbInProduction else DbUnrecognized v)"

fun db_state_as_u32 :: "db_state \<Rightarrow> u32" where
  "db_state_as_u32 DbStartup = 0"
| "db_state_as_u32 DbShutdowned = 1"
| "db_state_as_u32 DbShutdownedInRecovery = 2"
| "db_state_as_u32 DbShutdowning = 3"
| "db_state_as_u32 DbInCrashRecovery = 4"
| "db_state_as_u32 DbInArchiveRecovery = 5"
| "db_state_as_u32 DbInProduction = 6"
| "db_state_as_u32 (DbUnrecognized v) = v"

datatype data_checksums = ChecksumsDisabled | ChecksumsEnabled

fun checksums_version :: "data_checksums \<Rightarrow> u32" where
  "checksums_version ChecksumsDisabled = 0"
| "checksums_version ChecksumsEnabled = PG_DATA_CHECKSUM_VERSION"

definition checksums_from_version :: "u32 \<Rightarrow> data_checksums" where
  "checksums_from_version version = (if version = 0 then ChecksumsDisabled else ChecksumsEnabled)"

datatype checksum_switch = SwitchDataChecksums | SwitchNoDataChecksums

definition resolve_checksums :: "checksum_switch list \<Rightarrow> data_checksums" where
  "resolve_checksums switches =
     fold (\<lambda>switch _. case switch of SwitchDataChecksums \<Rightarrow> ChecksumsEnabled
                                   | SwitchNoDataChecksums \<Rightarrow> ChecksumsDisabled)
       switches ChecksumsEnabled"

record check_point =
  cp_redo :: u64
  cp_this_time_line_id :: u32
  cp_prev_time_line_id :: u32
  cp_full_page_writes :: bool
  cp_wal_level :: u32
  cp_next_xid :: u64
  cp_next_oid :: u32
  cp_next_multi :: u32
  cp_next_multi_offset :: u32
  cp_oldest_xid :: u32
  cp_oldest_xid_db :: u32
  cp_oldest_multi :: u32
  cp_oldest_multi_db :: u32
  cp_time :: u64
  cp_oldest_commit_ts_xid :: u32
  cp_newest_commit_ts_xid :: u32
  cp_oldest_active_xid :: u32

record control_file =
  cf_system_identifier :: u64
  cf_pg_control_version :: u32
  cf_catalog_version_no :: u32
  cf_state :: db_state
  cf_time :: u64
  cf_check_point :: u64
  cf_check_point_copy :: check_point
  cf_unlogged_lsn :: u64
  cf_min_recovery_point :: u64
  cf_min_recovery_point_tli :: u32
  cf_backup_start_point :: u64
  cf_backup_end_point :: u64
  cf_backup_end_required :: bool
  cf_wal_level :: u32
  cf_wal_log_hints :: bool
  cf_max_connections :: u32
  cf_max_worker_processes :: u32
  cf_max_wal_senders :: u32
  cf_max_prepared_xacts :: u32
  cf_max_locks_per_xact :: u32
  cf_track_commit_timestamp :: bool
  cf_max_align :: u32
  cf_float_format :: u64
  cf_blcksz :: u32
  cf_relseg_size :: u32
  cf_xlog_blcksz :: u32
  cf_xlog_seg_size :: u32
  cf_name_data_len :: u32
  cf_index_max_keys :: u32
  cf_toast_max_chunk_size :: u32
  cf_loblksize :: u32
  cf_float8_by_val :: bool
  cf_data_checksum_version :: u32
  cf_default_char_signedness :: bool
  cf_mock_authentication_nonce :: bytes
  cf_crc :: u32

datatype control_file_error = ShortRead nat

section \<open>Reading\<close>

definition u32_at :: "bool \<Rightarrow> bytes \<Rightarrow> nat \<Rightarrow> u32" where
  "u32_at little img pos = from_ne little (take 4 (drop pos img))"

definition u64_at :: "bool \<Rightarrow> bytes \<Rightarrow> nat \<Rightarrow> u64" where
  "u64_at little img pos = from_ne little (take 8 (drop pos img))"

definition bool_at :: "bytes \<Rightarrow> nat \<Rightarrow> bool" where
  "bool_at img pos = (img ! pos \<noteq> 0)"

text \<open>The \<open>CheckPoint\<close> and the whole struct that \<open>ControlFile::parse\<close> builds.\<close>

definition parse_check_point :: "bool \<Rightarrow> bytes \<Rightarrow> check_point" where
  "parse_check_point little img =
     \<lparr> cp_redo = u64_at little img OFF_CP_REDO,
       cp_this_time_line_id = u32_at little img OFF_CP_THIS_TIME_LINE_ID,
       cp_prev_time_line_id = u32_at little img OFF_CP_PREV_TIME_LINE_ID,
       cp_full_page_writes = bool_at img OFF_CP_FULL_PAGE_WRITES,
       cp_wal_level = u32_at little img OFF_CP_WAL_LEVEL,
       cp_next_xid = u64_at little img OFF_CP_NEXT_XID,
       cp_next_oid = u32_at little img OFF_CP_NEXT_OID,
       cp_next_multi = u32_at little img OFF_CP_NEXT_MULTI,
       cp_next_multi_offset = u32_at little img OFF_CP_NEXT_MULTI_OFFSET,
       cp_oldest_xid = u32_at little img OFF_CP_OLDEST_XID,
       cp_oldest_xid_db = u32_at little img OFF_CP_OLDEST_XID_DB,
       cp_oldest_multi = u32_at little img OFF_CP_OLDEST_MULTI,
       cp_oldest_multi_db = u32_at little img OFF_CP_OLDEST_MULTI_DB,
       cp_time = u64_at little img OFF_CP_TIME,
       cp_oldest_commit_ts_xid = u32_at little img OFF_CP_OLDEST_COMMIT_TS_XID,
       cp_newest_commit_ts_xid = u32_at little img OFF_CP_NEWEST_COMMIT_TS_XID,
       cp_oldest_active_xid = u32_at little img OFF_CP_OLDEST_ACTIVE_XID \<rparr>"

definition parse_control_fields :: "bool \<Rightarrow> bytes \<Rightarrow> control_file" where
  "parse_control_fields little img =
     \<lparr> cf_system_identifier = u64_at little img OFF_SYSTEM_IDENTIFIER,
       cf_pg_control_version = u32_at little img OFF_PG_CONTROL_VERSION,
       cf_catalog_version_no = u32_at little img OFF_CATALOG_VERSION_NO,
       cf_state = db_state_from_u32 (u32_at little img OFF_STATE),
       cf_time = u64_at little img OFF_TIME,
       cf_check_point = u64_at little img OFF_CHECK_POINT,
       cf_check_point_copy = parse_check_point little img,
       cf_unlogged_lsn = u64_at little img OFF_UNLOGGED_LSN,
       cf_min_recovery_point = u64_at little img OFF_MIN_RECOVERY_POINT,
       cf_min_recovery_point_tli = u32_at little img OFF_MIN_RECOVERY_POINT_TLI,
       cf_backup_start_point = u64_at little img OFF_BACKUP_START_POINT,
       cf_backup_end_point = u64_at little img OFF_BACKUP_END_POINT,
       cf_backup_end_required = bool_at img OFF_BACKUP_END_REQUIRED,
       cf_wal_level = u32_at little img OFF_WAL_LEVEL,
       cf_wal_log_hints = bool_at img OFF_WAL_LOG_HINTS,
       cf_max_connections = u32_at little img OFF_MAX_CONNECTIONS,
       cf_max_worker_processes = u32_at little img OFF_MAX_WORKER_PROCESSES,
       cf_max_wal_senders = u32_at little img OFF_MAX_WAL_SENDERS,
       cf_max_prepared_xacts = u32_at little img OFF_MAX_PREPARED_XACTS,
       cf_max_locks_per_xact = u32_at little img OFF_MAX_LOCKS_PER_XACT,
       cf_track_commit_timestamp = bool_at img OFF_TRACK_COMMIT_TIMESTAMP,
       cf_max_align = u32_at little img OFF_MAX_ALIGN,
       cf_float_format = u64_at little img OFF_FLOAT_FORMAT,
       cf_blcksz = u32_at little img OFF_BLCKSZ,
       cf_relseg_size = u32_at little img OFF_RELSEG_SIZE,
       cf_xlog_blcksz = u32_at little img OFF_XLOG_BLCKSZ,
       cf_xlog_seg_size = u32_at little img OFF_XLOG_SEG_SIZE,
       cf_name_data_len = u32_at little img OFF_NAME_DATA_LEN,
       cf_index_max_keys = u32_at little img OFF_INDEX_MAX_KEYS,
       cf_toast_max_chunk_size = u32_at little img OFF_TOAST_MAX_CHUNK_SIZE,
       cf_loblksize = u32_at little img OFF_LOBLKSIZE,
       cf_float8_by_val = bool_at img OFF_FLOAT8_BY_VAL,
       cf_data_checksum_version = u32_at little img OFF_DATA_CHECKSUM_VERSION,
       cf_default_char_signedness = bool_at img OFF_DEFAULT_CHAR_SIGNEDNESS,
       cf_mock_authentication_nonce = take MOCK_AUTH_NONCE_LEN (drop OFF_MOCK_AUTHENTICATION_NONCE img),
       cf_crc = u32_at little img OFF_CRC \<rparr>"

definition parse_control :: "bool \<Rightarrow> bytes \<Rightarrow> (control_file, control_file_error) result" where
  "parse_control little img =
     (if length img < SIZEOF_CONTROL_FILE_DATA then Err (ShortRead (length img))
      else Ok (parse_control_fields little img))"

section \<open>Writing\<close>

text \<open>\<open>copy_from_slice\<close> into a part of a buffer.\<close>

definition put_bytes :: "bytes \<Rightarrow> nat \<Rightarrow> bytes \<Rightarrow> bytes" where
  "put_bytes img pos bs = take pos img @ bs @ drop (pos + length bs) img"

definition put_bool :: "bool \<Rightarrow> bytes" where
  "put_bool v = [if v then 1 else 0]"

definition put_fields :: "(nat \<times> bytes) list \<Rightarrow> bytes \<Rightarrow> bytes" where
  "put_fields fs img = fold (\<lambda>(pos, bs) img. put_bytes img pos bs) fs img"

definition check_point_fields :: "bool \<Rightarrow> check_point \<Rightarrow> (nat \<times> bytes) list" where
  "check_point_fields little cp =
     [(OFF_CP_REDO, to_ne little 8 (cp_redo cp)),
      (OFF_CP_THIS_TIME_LINE_ID, to_ne little 4 (cp_this_time_line_id cp)),
      (OFF_CP_PREV_TIME_LINE_ID, to_ne little 4 (cp_prev_time_line_id cp)),
      (OFF_CP_FULL_PAGE_WRITES, put_bool (cp_full_page_writes cp)),
      (OFF_CP_WAL_LEVEL, to_ne little 4 (cp_wal_level cp)),
      (OFF_CP_NEXT_XID, to_ne little 8 (cp_next_xid cp)),
      (OFF_CP_NEXT_OID, to_ne little 4 (cp_next_oid cp)),
      (OFF_CP_NEXT_MULTI, to_ne little 4 (cp_next_multi cp)),
      (OFF_CP_NEXT_MULTI_OFFSET, to_ne little 4 (cp_next_multi_offset cp)),
      (OFF_CP_OLDEST_XID, to_ne little 4 (cp_oldest_xid cp)),
      (OFF_CP_OLDEST_XID_DB, to_ne little 4 (cp_oldest_xid_db cp)),
      (OFF_CP_OLDEST_MULTI, to_ne little 4 (cp_oldest_multi cp)),
      (OFF_CP_OLDEST_MULTI_DB, to_ne little 4 (cp_oldest_multi_db cp)),
      (OFF_CP_TIME, to_ne little 8 (cp_time cp)),
      (OFF_CP_OLDEST_COMMIT_TS_XID, to_ne little 4 (cp_oldest_commit_ts_xid cp)),
      (OFF_CP_NEWEST_COMMIT_TS_XID, to_ne little 4 (cp_newest_commit_ts_xid cp)),
      (OFF_CP_OLDEST_ACTIVE_XID, to_ne little 4 (cp_oldest_active_xid cp))]"

definition control_fields :: "bool \<Rightarrow> control_file \<Rightarrow> (nat \<times> bytes) list" where
  "control_fields little c =
     [(OFF_SYSTEM_IDENTIFIER, to_ne little 8 (cf_system_identifier c)),
      (OFF_PG_CONTROL_VERSION, to_ne little 4 (cf_pg_control_version c)),
      (OFF_CATALOG_VERSION_NO, to_ne little 4 (cf_catalog_version_no c)),
      (OFF_STATE, to_ne little 4 (db_state_as_u32 (cf_state c))),
      (OFF_TIME, to_ne little 8 (cf_time c)),
      (OFF_CHECK_POINT, to_ne little 8 (cf_check_point c))] @
     check_point_fields little (cf_check_point_copy c) @
     [(OFF_UNLOGGED_LSN, to_ne little 8 (cf_unlogged_lsn c)),
      (OFF_MIN_RECOVERY_POINT, to_ne little 8 (cf_min_recovery_point c)),
      (OFF_MIN_RECOVERY_POINT_TLI, to_ne little 4 (cf_min_recovery_point_tli c)),
      (OFF_BACKUP_START_POINT, to_ne little 8 (cf_backup_start_point c)),
      (OFF_BACKUP_END_POINT, to_ne little 8 (cf_backup_end_point c)),
      (OFF_BACKUP_END_REQUIRED, put_bool (cf_backup_end_required c)),
      (OFF_WAL_LEVEL, to_ne little 4 (cf_wal_level c)),
      (OFF_WAL_LOG_HINTS, put_bool (cf_wal_log_hints c)),
      (OFF_MAX_CONNECTIONS, to_ne little 4 (cf_max_connections c)),
      (OFF_MAX_WORKER_PROCESSES, to_ne little 4 (cf_max_worker_processes c)),
      (OFF_MAX_WAL_SENDERS, to_ne little 4 (cf_max_wal_senders c)),
      (OFF_MAX_PREPARED_XACTS, to_ne little 4 (cf_max_prepared_xacts c)),
      (OFF_MAX_LOCKS_PER_XACT, to_ne little 4 (cf_max_locks_per_xact c)),
      (OFF_TRACK_COMMIT_TIMESTAMP, put_bool (cf_track_commit_timestamp c)),
      (OFF_MAX_ALIGN, to_ne little 4 (cf_max_align c)),
      (OFF_FLOAT_FORMAT, to_ne little 8 (cf_float_format c)),
      (OFF_BLCKSZ, to_ne little 4 (cf_blcksz c)),
      (OFF_RELSEG_SIZE, to_ne little 4 (cf_relseg_size c)),
      (OFF_XLOG_BLCKSZ, to_ne little 4 (cf_xlog_blcksz c)),
      (OFF_XLOG_SEG_SIZE, to_ne little 4 (cf_xlog_seg_size c)),
      (OFF_NAME_DATA_LEN, to_ne little 4 (cf_name_data_len c)),
      (OFF_INDEX_MAX_KEYS, to_ne little 4 (cf_index_max_keys c)),
      (OFF_TOAST_MAX_CHUNK_SIZE, to_ne little 4 (cf_toast_max_chunk_size c)),
      (OFF_LOBLKSIZE, to_ne little 4 (cf_loblksize c)),
      (OFF_FLOAT8_BY_VAL, put_bool (cf_float8_by_val c)),
      (OFF_DATA_CHECKSUM_VERSION, to_ne little 4 (cf_data_checksum_version c)),
      (OFF_DEFAULT_CHAR_SIGNEDNESS, put_bool (cf_default_char_signedness c)),
      (OFF_MOCK_AUTHENTICATION_NONCE, cf_mock_authentication_nonce c)]"

definition control_to_bytes :: "bool \<Rightarrow> control_file \<Rightarrow> bytes" where
  "control_to_bytes little c =
     (let img = put_fields (control_fields little c) (replicate PG_CONTROL_FILE_SIZE 0);
          crc = crc32c (take OFF_CRC img)
      in put_bytes img OFF_CRC (to_ne little 4 crc))"

definition crc_is_valid :: "bool \<Rightarrow> control_file \<Rightarrow> bool" where
  "crc_is_valid little c = (cf_crc c = crc32c (take OFF_CRC (control_to_bytes little c)))"

definition cf_data_checksums :: "control_file \<Rightarrow> data_checksums" where
  "cf_data_checksums c = checksums_from_version (cf_data_checksum_version c)"

definition control_rewrite ::
  "bool \<Rightarrow> bytes \<Rightarrow> u64 \<Rightarrow> data_checksums \<Rightarrow> (bytes, control_file_error) result" where
  "control_rewrite little img system_identifier checksums =
     and_then (parse_control little img) (\<lambda>control.
       Ok (control_to_bytes little
             (control\<lparr> cf_system_identifier := system_identifier,
                       cf_data_checksum_version := checksums_version checksums \<rparr>)))"

definition SIZEOF_CHECK_POINT :: nat where
  "SIZEOF_CHECK_POINT = OFF_UNLOGGED_LSN - OFF_CP_REDO"

definition check_point_to_bytes :: "bool \<Rightarrow> check_point \<Rightarrow> bytes" where
  "check_point_to_bytes little cp =
     drop OFF_CP_REDO (put_fields (check_point_fields little cp) (replicate OFF_UNLOGGED_LSN 0))"


section \<open>Fields in a buffer\<close>

text \<open>Fields in increasing order that do not overlap and lie within \<open>n\<close> bytes.\<close>

definition ascending :: "(nat \<times> bytes) list \<Rightarrow> nat \<Rightarrow> bool" where
  "ascending fs n \<longleftrightarrow>
     sorted_wrt (\<lambda>f g. fst f + length (snd f) \<le> fst g) fs \<and> (\<forall>f \<in> set fs. fst f + length (snd f) \<le> n)"

lemma length_put_bytes [simp]: "pos + length bs \<le> length img \<Longrightarrow> length (put_bytes img pos bs) = length img"
  by (simp add: put_bytes_def)

lemma nth_put_bytes:
  assumes "pos + length bs \<le> length img" and "i < length img"
  shows "put_bytes img pos bs ! i = (if pos \<le> i \<and> i < pos + length bs then bs ! (i - pos) else img ! i)"
  using assms by (auto simp: put_bytes_def nth_append min_def)

lemma put_fields_Cons: "put_fields (f # fs) img = put_fields fs (put_bytes img (fst f) (snd f))"
  by (simp add: put_fields_def split_beta)

lemma put_fields_Nil [simp]: "put_fields [] img = img"
  by (simp add: put_fields_def)

lemma put_fields_snoc: "put_fields (fs @ [f]) img = put_bytes (put_fields fs img) (fst f) (snd f)"
  by (simp add: put_fields_def split_beta)

definition covers :: "nat \<Rightarrow> nat \<times> bytes \<Rightarrow> bool" where
  "covers i f \<longleftrightarrow> fst f \<le> i \<and> i < fst f + length (snd f)"

lemma length_put_fields:
  "ascending fs (length img) \<Longrightarrow> length (put_fields fs img) = length img"
  by (induction fs arbitrary: img) (auto simp: ascending_def put_fields_Cons)

lemma nth_put_fields:
  "\<lbrakk>ascending fs (length img); i < length img\<rbrakk> \<Longrightarrow>
   put_fields fs img ! i =
     (case find (covers i) fs of Some f \<Rightarrow> snd f ! (i - fst f) | None \<Rightarrow> img ! i)"
proof (induction fs arbitrary: img)
  case (Cons f fs)
  let ?img = "put_bytes img (fst f) (snd f)"
  have fits: "fst f + length (snd f) \<le> length img" and rest: "ascending fs (length img)"
    and after: "\<forall>g \<in> set fs. fst f + length (snd f) \<le> fst g"
    using Cons.prems(1) by (auto simp: ascending_def)
  have IH: "put_fields (f # fs) img ! i =
      (case find (covers i) fs of Some g \<Rightarrow> snd g ! (i - fst g) | None \<Rightarrow> ?img ! i)"
    using Cons.IH [of ?img] rest fits Cons.prems(2) by (simp add: put_fields_Cons)
  show ?case
  proof (cases "covers i f")
    case True
    then have "find (covers i) fs = None"
      using after by (auto simp: find_None_iff covers_def)
    then show ?thesis
      using IH True nth_put_bytes [OF fits Cons.prems(2)] by (simp add: covers_def)
  next
    case False
    then have "?img ! i = img ! i"
      using nth_put_bytes [OF fits Cons.prems(2)] by (auto simp: covers_def)
    then show ?thesis
      using IH False by (simp split: option.split)
  qed
qed simp

lemma find_covering:
  "\<lbrakk>ascending fs n; f \<in> set fs; covers i f\<rbrakk> \<Longrightarrow> find (covers i) fs = Some f"
  by (induction fs) (auto simp: ascending_def covers_def)

text \<open>What was put is what is read.\<close>

lemma read_field:
  assumes "ascending fs (length img)" and "f \<in> set fs"
  shows "take (length (snd f)) (drop (fst f) (put_fields fs img)) = snd f"
proof (rule nth_equalityI)
  have fits: "fst f + length (snd f) \<le> length img"
    using assms by (auto simp: ascending_def)
  then show "length (take (length (snd f)) (drop (fst f) (put_fields fs img))) = length (snd f)"
    using length_put_fields [OF assms(1)] by simp
  fix k
  assume "k < length (take (length (snd f)) (drop (fst f) (put_fields fs img)))"
  then have k: "k < length (snd f)"
    by simp
  then have "find (covers (fst f + k)) fs = Some f"
    using find_covering [OF assms] by (simp add: covers_def)
  then show "take (length (snd f)) (drop (fst f) (put_fields fs img)) ! k = snd f ! k"
    using nth_put_fields [OF assms(1), of "fst f + k"] length_put_fields [OF assms(1)] fits k by simp
qed

section \<open>The layout\<close>

lemmas control_offsets =
    OFF_SYSTEM_IDENTIFIER_def OFF_PG_CONTROL_VERSION_def OFF_CATALOG_VERSION_NO_def OFF_STATE_def
    OFF_TIME_def OFF_CHECK_POINT_def OFF_CP_REDO_def OFF_CP_THIS_TIME_LINE_ID_def
    OFF_CP_PREV_TIME_LINE_ID_def OFF_CP_FULL_PAGE_WRITES_def OFF_CP_WAL_LEVEL_def OFF_CP_NEXT_XID_def
    OFF_CP_NEXT_OID_def OFF_CP_NEXT_MULTI_def OFF_CP_NEXT_MULTI_OFFSET_def OFF_CP_OLDEST_XID_def
    OFF_CP_OLDEST_XID_DB_def OFF_CP_OLDEST_MULTI_def OFF_CP_OLDEST_MULTI_DB_def OFF_CP_TIME_def
    OFF_CP_OLDEST_COMMIT_TS_XID_def OFF_CP_NEWEST_COMMIT_TS_XID_def OFF_CP_OLDEST_ACTIVE_XID_def
    OFF_UNLOGGED_LSN_def OFF_MIN_RECOVERY_POINT_def OFF_MIN_RECOVERY_POINT_TLI_def
    OFF_BACKUP_START_POINT_def OFF_BACKUP_END_POINT_def OFF_BACKUP_END_REQUIRED_def OFF_WAL_LEVEL_def
    OFF_WAL_LOG_HINTS_def OFF_MAX_CONNECTIONS_def OFF_MAX_WORKER_PROCESSES_def
    OFF_MAX_WAL_SENDERS_def OFF_MAX_PREPARED_XACTS_def OFF_MAX_LOCKS_PER_XACT_def
    OFF_TRACK_COMMIT_TIMESTAMP_def OFF_MAX_ALIGN_def OFF_FLOAT_FORMAT_def OFF_BLCKSZ_def
    OFF_RELSEG_SIZE_def OFF_XLOG_BLCKSZ_def OFF_XLOG_SEG_SIZE_def OFF_NAME_DATA_LEN_def
    OFF_INDEX_MAX_KEYS_def OFF_TOAST_MAX_CHUNK_SIZE_def OFF_LOBLKSIZE_def OFF_FLOAT8_BY_VAL_def
    OFF_DATA_CHECKSUM_VERSION_def OFF_DEFAULT_CHAR_SIGNEDNESS_def OFF_MOCK_AUTHENTICATION_NONCE_def
    OFF_CRC_def

definition control_layout :: "(nat \<times> nat) list" where
  "control_layout =
     [(0, 8), (8, 4), (12, 4), (16, 4), (24, 8), (32, 8), (40, 8), (48, 4), (52, 4), (56, 1), (60, 4), (64, 8), (72, 4), (76, 4), (80, 4), (84, 4), (88, 4), (92, 4), (96, 4), (104, 8), (112, 4), (116, 4), (120, 4), (128, 8), (136, 8), (144, 4), (152, 8), (160, 8), (168, 1), (172, 4), (176, 1), (180, 4), (184, 4), (188, 4), (192, 4), (196, 4), (200, 1), (204, 4), (208, 8), (216, 4), (220, 4), (224, 4), (228, 4), (232, 4), (236, 4), (240, 4), (244, 4), (248, 1), (252, 4), (256, 1), (257, 32), (292, 4)]"

definition full_fields :: "bool \<Rightarrow> control_file \<Rightarrow> u32 \<Rightarrow> (nat \<times> bytes) list" where
  "full_fields little c crc = control_fields little c @ [(OFF_CRC, to_ne little 4 crc)]"

text \<open>The nonce has its length, and a state is not spelled as an unrecognized one.\<close>

definition wf_control :: "control_file \<Rightarrow> bool" where
  "wf_control c \<longleftrightarrow>
     length (cf_mock_authentication_nonce c) = MOCK_AUTH_NONCE_LEN \<and>
     db_state_from_u32 (db_state_as_u32 (cf_state c)) = cf_state c"

lemma full_fields_layout:
  assumes "length (cf_mock_authentication_nonce c) = MOCK_AUTH_NONCE_LEN"
  shows "map (\<lambda>f. (fst f, length (snd f))) (full_fields little c crc) = control_layout"
  using assms
  by (simp add: full_fields_def control_fields_def check_point_fields_def control_layout_def control_offsets
      put_bool_def MOCK_AUTH_NONCE_LEN_def)

lemma layout_ascending:
  "sorted_wrt (\<lambda>f g. fst f + snd f \<le> fst g) control_layout" "list_all (\<lambda>f. fst f + snd f \<le> 296) control_layout"
  by code_simp+

lemma full_fields_ascending:
  assumes "length (cf_mock_authentication_nonce c) = MOCK_AUTH_NONCE_LEN" and "296 \<le> n"
  shows "ascending (full_fields little c crc) n"
proof -
  let ?fs = "full_fields little c crc"
  have lay: "map (\<lambda>f. (fst f, length (snd f))) ?fs = control_layout"
    by (rule full_fields_layout [OF assms(1)])
  have "sorted_wrt (\<lambda>f g. fst f + length (snd f) \<le> fst g) ?fs"
    using layout_ascending(1) unfolding lay [symmetric] by (simp add: sorted_wrt_map)
  moreover have "\<forall>f \<in> set ?fs. fst f + length (snd f) \<le> 296"
    using layout_ascending(2) unfolding lay [symmetric] by (simp add: list_all_iff)
  ultimately show ?thesis
    using assms(2) by (auto simp: ascending_def)
qed

text \<open>Adjoining pieces that reach from one position to another.\<close>

fun contiguous :: "nat \<Rightarrow> (nat \<times> nat) list \<Rightarrow> nat \<Rightarrow> bool" where
  "contiguous p [] e = (p = e)"
| "contiguous p ((a, n) # xs) e = (a = p \<and> contiguous (p + n) xs e)"

lemma contiguous_covers:
  "\<lbrakk>contiguous p xs e; p \<le> i; i < e\<rbrakk> \<Longrightarrow> \<exists>(a, n) \<in> set xs. a \<le> i \<and> i < a + n"
proof (induction p xs e rule: contiguous.induct)
  case (2 p a n xs e)
  then show ?case
    by (cases "i < p + n") auto
qed simp

lemma fields_and_padding_tile: "contiguous 0 (sort_key fst (control_layout @ PADDING)) 296"
  unfolding control_layout_def PADDING_def by code_simp

lemma field_or_padding:
  "i < 296 \<Longrightarrow> \<exists>(a, n) \<in> set (control_layout @ PADDING). a \<le> i \<and> i < a + n"
  using contiguous_covers [OF fields_and_padding_tile, of i] by simp

lemma control_to_bytes_fields:
  "control_to_bytes little c =
   put_fields (full_fields little c
     (crc32c (take OFF_CRC (put_fields (control_fields little c) (replicate PG_CONTROL_FILE_SIZE 0)))))
     (replicate PG_CONTROL_FILE_SIZE 0)"
  by (simp add: control_to_bytes_def full_fields_def put_fields_snoc Let_def)

section \<open>Round trips\<close>

lemma db_state_round: "db_state_as_u32 (db_state_from_u32 v) = v"
  by (simp add: db_state_from_u32_def)

lemma read_bool:
  assumes "ascending fs (length img)" and "(a, put_bool v) \<in> set fs"
  shows "bool_at (put_fields fs img) a = v"
proof -
  have "a < length img"
    using assms by (auto simp: ascending_def put_bool_def)
  moreover have "find (covers a) fs = Some (a, put_bool v)"
    using find_covering [OF assms] by (simp add: covers_def put_bool_def)
  ultimately show ?thesis
    using nth_put_fields [OF assms(1), of a] by (simp add: bool_at_def put_bool_def)
qed

lemma read_u32:
  "\<lbrakk>ascending fs (length img); (a, to_ne little 4 v) \<in> set fs\<rbrakk> \<Longrightarrow> u32_at little (put_fields fs img) a = v"
  using read_field [of fs img "(a, to_ne little 4 v)"] by (simp add: u32_at_def)

lemma read_u64:
  "\<lbrakk>ascending fs (length img); (a, to_ne little 8 v) \<in> set fs\<rbrakk> \<Longrightarrow> u64_at little (put_fields fs img) a = v"
  using read_field [of fs img "(a, to_ne little 8 v)"] by (simp add: u64_at_def)

lemma parse_put_check_point:
  assumes "ascending (full_fields little c crc) (length img)"
  shows "parse_check_point little (put_fields (full_fields little c crc) img) = cf_check_point_copy c"
  by (rule check_point.equality; simp add: parse_check_point_def;
      rule read_u32 [OF assms] read_u64 [OF assms] read_bool [OF assms];
      simp add: full_fields_def control_fields_def check_point_fields_def)

lemma parse_put_state:
  assumes "ascending (full_fields little c crc) (length img)"
  shows "u32_at little (put_fields (full_fields little c crc) img) OFF_STATE = db_state_as_u32 (cf_state c)"
  by (rule read_u32 [OF assms]) (simp add: full_fields_def control_fields_def)

lemma parse_put_nonce:
  assumes "ascending (full_fields little c crc) (length img)" and "wf_control c"
  shows "take MOCK_AUTH_NONCE_LEN (drop OFF_MOCK_AUTHENTICATION_NONCE (put_fields (full_fields little c crc) img)) =
    cf_mock_authentication_nonce c"
  using read_field [OF assms(1), of "(OFF_MOCK_AUTHENTICATION_NONCE, cf_mock_authentication_nonce c)"] assms(2)
  by (simp add: full_fields_def control_fields_def wf_control_def)

lemma parse_put_fields:
  assumes "ascending (full_fields little c crc) (length img)" and "wf_control c"
  shows "parse_control_fields little (put_fields (full_fields little c crc) img) = c\<lparr>cf_crc := crc\<rparr>"
proof -
  have state: "db_state_from_u32 (db_state_as_u32 (cf_state c)) = cf_state c"
    using assms(2) by (simp add: wf_control_def)
  show ?thesis
    by (rule control_file.equality; simp add: parse_control_fields_def parse_put_check_point [OF assms(1)]
        parse_put_state [OF assms(1)] parse_put_nonce [OF assms] state;
        rule read_u32 [OF assms(1)] read_u64 [OF assms(1)] read_bool [OF assms(1)];
        simp add: full_fields_def control_fields_def)
qed

definition control_crc :: "bool \<Rightarrow> control_file \<Rightarrow> u32" where
  "control_crc little c =
     crc32c (take OFF_CRC (put_fields (control_fields little c) (replicate PG_CONTROL_FILE_SIZE 0)))"

lemma control_to_bytes_alt:
  "control_to_bytes little c =
   put_fields (full_fields little c (control_crc little c)) (replicate PG_CONTROL_FILE_SIZE 0)"
  by (simp add: control_to_bytes_fields control_crc_def)

lemma control_ascending:
  "wf_control c \<Longrightarrow> ascending (full_fields little c crc) (length (replicate PG_CONTROL_FILE_SIZE (0 :: byte)))"
  by (rule full_fields_ascending) (auto simp: wf_control_def PG_CONTROL_FILE_SIZE_def)

lemma length_control_to_bytes: "wf_control c \<Longrightarrow> length (control_to_bytes little c) = PG_CONTROL_FILE_SIZE"
  using length_put_fields [OF control_ascending] by (simp add: control_to_bytes_alt)

text \<open>The part the checksum is taken over does not hold the checksum.\<close>

lemma take_put_bytes: "n \<le> pos \<Longrightarrow> n \<le> length img \<Longrightarrow> take n (put_bytes img pos bs) = take n img"
  by (simp add: put_bytes_def min_absorb1)

lemma ascending_append: "ascending (fs @ gs) n \<Longrightarrow> ascending fs n"
  by (auto simp: ascending_def sorted_wrt_append)

lemma covered_part:
  assumes "wf_control c"
  shows "take OFF_CRC (control_to_bytes little c) =
    take OFF_CRC (put_fields (control_fields little c) (replicate PG_CONTROL_FILE_SIZE 0))"
proof -
  have "ascending (control_fields little c) (length (replicate PG_CONTROL_FILE_SIZE (0 :: byte)))"
    using control_ascending [OF assms, of little 0] unfolding full_fields_def by (rule ascending_append)
  then have "length (put_fields (control_fields little c) (replicate PG_CONTROL_FILE_SIZE 0)) = PG_CONTROL_FILE_SIZE"
    by (simp add: length_put_fields)
  then show ?thesis
    by (simp add: control_to_bytes_def Let_def take_put_bytes OFF_CRC_def PG_CONTROL_FILE_SIZE_def)
qed

lemma control_fields_crc [simp]: "control_fields little (c\<lparr>cf_crc := crc\<rparr>) = control_fields little c"
  by (simp add: control_fields_def)

lemma wf_control_crc [simp]: "wf_control (c\<lparr>cf_crc := crc\<rparr>) = wf_control c"
  by (simp add: wf_control_def)

lemma crc_is_valid_iff: "wf_control c \<Longrightarrow> crc_is_valid little c \<longleftrightarrow> cf_crc c = control_crc little c"
  by (simp add: crc_is_valid_def covered_part control_crc_def)

lemma parse_to_bytes:
  assumes "wf_control c"
  shows "parse_control little (control_to_bytes little c) = Ok (c\<lparr>cf_crc := control_crc little c\<rparr>)"
  using parse_put_fields [OF control_ascending [OF assms] assms] length_control_to_bytes [OF assms]
  by (simp add: parse_control_def control_to_bytes_alt PG_CONTROL_FILE_SIZE_def SIZEOF_CONTROL_FILE_DATA_def)

lemma parse_wf: "parse_control little img = Ok c \<Longrightarrow> wf_control c"
  by (auto simp: parse_control_def parse_control_fields_def wf_control_def db_state_round MOCK_AUTH_NONCE_LEN_def
      OFF_MOCK_AUTHENTICATION_NONCE_def SIZEOF_CONTROL_FILE_DATA_def split: if_splits)

text \<open>C28: A control file that is written and parsed again is the one that was written, with the
  checksum of its bytes, which is then found valid; the file has its fixed size.\<close>

theorem control_round_trip:
  assumes "wf_control c"
  shows "\<exists>crc. parse_control little (control_to_bytes little c) = Ok (c\<lparr>cf_crc := crc\<rparr>) \<and>
    crc_is_valid little (c\<lparr>cf_crc := crc\<rparr>) \<and>
    crc = crc32c (take OFF_CRC (control_to_bytes little c)) \<and>
    length (control_to_bytes little c) = PG_CONTROL_FILE_SIZE"
  using parse_to_bytes [OF assms] length_control_to_bytes [OF assms] assms
  by (auto simp: crc_is_valid_iff control_crc_def covered_part)

text \<open>Rewriting the control file of a template gives a file that parses to the template's, with the
  new identifier, the new checksum setting and a valid checksum, and nothing else changed.\<close>

lemma control_rewrite_exact:
  assumes "parse_control little img = Ok c"
  shows "\<exists>out crc. control_rewrite little img sysid checksums = Ok out \<and>
    parse_control little out =
      Ok (c\<lparr>cf_system_identifier := sysid, cf_data_checksum_version := checksums_version checksums, cf_crc := crc\<rparr>) \<and>
    crc_is_valid little
      (c\<lparr>cf_system_identifier := sysid, cf_data_checksum_version := checksums_version checksums, cf_crc := crc\<rparr>)"
proof -
  let ?c = "c\<lparr>cf_system_identifier := sysid, cf_data_checksum_version := checksums_version checksums\<rparr>"
  have wf: "wf_control ?c"
    using parse_wf [OF assms] by (simp add: wf_control_def)
  then have "crc_is_valid little (?c\<lparr>cf_crc := control_crc little ?c\<rparr>)"
    by (simp add: crc_is_valid_iff control_crc_def)
  then show ?thesis
    using parse_to_bytes [OF wf, of little] assms by (auto simp: control_rewrite_def)
qed

section \<open>Files as they are written\<close>

text \<open>A file no byte of which is lost by parsing: the padding is zero, and a \<open>bool\<close> is 0 or 1.\<close>

definition bool_offsets :: "nat list" where
  "bool_offsets = [OFF_CP_FULL_PAGE_WRITES, OFF_BACKUP_END_REQUIRED, OFF_WAL_LOG_HINTS,
     OFF_TRACK_COMMIT_TIMESTAMP, OFF_FLOAT8_BY_VAL, OFF_DEFAULT_CHAR_SIGNEDNESS]"

definition clean_image :: "bytes \<Rightarrow> bool" where
  "clean_image img \<longleftrightarrow>
     list_all (\<lambda>(a, n). take n (drop a img) = replicate n 0) PADDING \<and>
     list_all (\<lambda>a. img ! a = 0 \<or> img ! a = 1) bool_offsets"

lemma put_bool_at:
  assumes "img ! a = 0 \<or> img ! a = 1" and "a < length img"
  shows "put_bool (bool_at img a) = take (Suc 0) (drop a img)"
  using assms by (auto simp: put_bool_def bool_at_def take_Suc_conv_app_nth)

lemma put_u32_at: "a + 4 \<le> length img \<Longrightarrow> to_ne little 4 (u32_at little img a) = take 4 (drop a img)"
  by (simp add: u32_at_def ne32_from_ne)

lemma put_u64_at: "a + 8 \<le> length img \<Longrightarrow> to_ne little 8 (u64_at little img a) = take 8 (drop a img)"
  by (simp add: u64_at_def ne64_from_ne)

lemma check_point_fields_parse:
  assumes "296 \<le> length img" and "clean_image img"
  shows "check_point_fields little (parse_check_point little img) =
    map (\<lambda>(a, n). (a, take n (drop a img))) (take 17 (drop 6 control_layout))"
  using assms
  by (simp add: check_point_fields_def parse_check_point_def control_layout_def control_offsets
      put_bool_at put_u32_at put_u64_at clean_image_def bool_offsets_def)

lemma control_fields_parse:
  assumes "296 \<le> length img" and "clean_image img"
  shows "control_fields little (parse_control_fields little img) =
    map (\<lambda>(a, n). (a, take n (drop a img))) (butlast control_layout)"
  using assms check_point_fields_parse [OF assms, of little]
  by (simp add: control_fields_def parse_control_fields_def control_layout_def control_offsets
      put_bool_at put_u32_at put_u64_at clean_image_def bool_offsets_def db_state_round MOCK_AUTH_NONCE_LEN_def)

lemma padding_zero:
  assumes "clean_image img" and "(a, n) \<in> set PADDING" and "a \<le> i" and "i < a + n" and "i < length img"
  shows "img ! i = 0"
proof -
  have "take n (drop a img) = replicate n 0"
    using assms(1,2) by (auto simp: clean_image_def list_all_iff)
  then have "take n (drop a img) ! (i - a) = 0"
    using assms(3,4) by (simp add: nth_replicate)
  then show ?thesis
    using assms(3-5) by simp
qed

lemma clean_covered_part:
  assumes len: "296 \<le> length img" and clean: "clean_image img"
  shows "take OFF_CRC (put_fields (control_fields little (parse_control_fields little img))
    (replicate PG_CONTROL_FILE_SIZE 0)) = take OFF_CRC img"
proof (rule nth_equalityI)
  let ?c = "parse_control_fields little img" and ?zeros = "replicate PG_CONTROL_FILE_SIZE (0 :: byte)"
  let ?fs = "control_fields little ?c"
  have "wf_control ?c"
    using parse_wf [of little img ?c] len by (simp add: parse_control_def SIZEOF_CONTROL_FILE_DATA_def)
  then have asc: "ascending ?fs (length ?zeros)"
    using control_ascending [of ?c little 0] ascending_append unfolding full_fields_def by blast
  show lens: "length (take OFF_CRC (put_fields ?fs ?zeros)) = length (take OFF_CRC img)"
    using len length_put_fields [OF asc] by (simp add: OFF_CRC_def PG_CONTROL_FILE_SIZE_def)
  fix i
  assume "i < length (take OFF_CRC (put_fields ?fs ?zeros))"
  then have i: "i < 292" "i < length img"
    using len by (auto simp: OFF_CRC_def)
  have fs: "?fs = map (\<lambda>(a, n). (a, take n (drop a img))) (butlast control_layout)"
    by (rule control_fields_parse [OF len clean])
  have "put_fields ?fs ?zeros ! i = img ! i"
  proof (cases "find (covers i) ?fs")
    case None
    have "\<not> covers i (a, take n (drop a img))" if "(a, n) \<in> set (butlast control_layout)" for a n
      using None that unfolding fs by (force simp: find_None_iff)
    then have free: "\<not> (a \<le> i \<and> i < a + n)" if "(a, n) \<in> set (butlast control_layout)" for a n
      using that i by (fastforce simp: covers_def)
    have "control_layout = butlast control_layout @ [(292, 4)]"
      by (simp add: control_layout_def)
    then have "set control_layout = set (butlast control_layout) \<union> {(292, 4)}"
      by (metis empty_set list.simps(15) set_append)
    then have "\<not> (a \<le> i \<and> i < a + n)" if "(a, n) \<in> set control_layout" for a n
      using that free [of a n] i by auto
    moreover have "i < 296"
      using i by simp
    ultimately obtain a n where "(a, n) \<in> set PADDING" "a \<le> i" "i < a + n"
      using field_or_padding [of i] unfolding set_append by blast
    then have "img ! i = 0"
      using padding_zero [OF clean] i(2) by blast
    then show ?thesis
      using nth_put_fields [OF asc, of i] None i by (simp add: PG_CONTROL_FILE_SIZE_def)
  next
    case (Some f)
    then have "f \<in> set ?fs" "covers i f"
      by (auto simp: find_Some_iff)
    then obtain a n where "f = (a, take n (drop a img))" "a \<le> i" "i < a + length (take n (drop a img))"
      unfolding fs by (auto simp: covers_def)
    then have "snd f ! (i - fst f) = img ! i"
      by auto
    then show ?thesis
      using nth_put_fields [OF asc, of i] Some i by (simp add: PG_CONTROL_FILE_SIZE_def)
  qed
  then show "take OFF_CRC (put_fields ?fs ?zeros) ! i = take OFF_CRC img ! i"
    using i by (simp add: OFF_CRC_def)
qed

text \<open>A control file whose padding is zero and whose flags are 0 or 1, as the server writes them,
  is written back byte for byte up to its checksum, and the verdict on its checksum is the one over
  its bytes.\<close>

lemma control_write_back:
  assumes "parse_control little img = Ok c" and "clean_image img"
  shows "take OFF_CRC (control_to_bytes little c) = take OFF_CRC img \<and>
    crc_is_valid little c = (u32_at little img OFF_CRC = crc32c (take OFF_CRC img))"
proof -
  have wf: "wf_control c"
    by (rule parse_wf [OF assms(1)])
  have len: "296 \<le> length img" and c: "c = parse_control_fields little img"
    using assms(1) by (auto simp: parse_control_def SIZEOF_CONTROL_FILE_DATA_def split: if_splits)
  have part: "take OFF_CRC (control_to_bytes little c) = take OFF_CRC img"
    using covered_part [OF wf] clean_covered_part [OF len assms(2)] c by simp
  moreover have "cf_crc c = u32_at little img OFF_CRC"
    by (simp add: c parse_control_fields_def)
  ultimately show ?thesis
    by (simp add: crc_is_valid_def)
qed

lemma at_other:
  assumes "pos + length bs \<le> length img" and "a + n \<le> pos \<or> pos + length bs \<le> a"
  shows "take n (drop a (put_bytes img pos bs)) = take n (drop a img)"
proof (rule nth_equalityI)
  show "length (take n (drop a (put_bytes img pos bs))) = length (take n (drop a img))"
    using assms(1) by simp
  fix i
  assume "i < length (take n (drop a (put_bytes img pos bs)))"
  then show "take n (drop a (put_bytes img pos bs)) ! i = take n (drop a img) ! i"
    using assms by (auto simp: nth_put_bytes)
qed

lemma bool_at_other:
  assumes "pos + length bs \<le> length img" and "a < pos \<or> pos + length bs \<le> a" and "a < length img"
  shows "bool_at (put_bytes img pos bs) a = bool_at img a"
  using assms by (auto simp: bool_at_def nth_put_bytes)

text \<open>A byte of the padding after the state, and the checksum, are not among the other fields.\<close>

lemma parse_stained:
  assumes "296 \<le> length img"
  shows "parse_control_fields little (put_bytes img 20 [x]) = parse_control_fields little img"
  using assms
  by (simp add: parse_control_fields_def parse_check_point_def control_offsets u32_at_def u64_at_def at_other
      bool_at_other take_put_bytes MOCK_AUTH_NONCE_LEN_def)

lemma parse_new_crc:
  assumes "296 \<le> length img"
  shows "parse_control_fields little (put_bytes img OFF_CRC (to_ne little 4 crc)) =
    (parse_control_fields little img)\<lparr>cf_crc := crc\<rparr>"
proof -
  have "take 4 (drop 292 (put_bytes img 292 (to_ne little 4 crc))) = to_ne little 4 crc"
    using assms by (simp add: put_bytes_def min_absorb2)
  then show ?thesis
    using assms
    by (simp add: parse_control_fields_def parse_check_point_def control_offsets u32_at_def u64_at_def at_other
        bool_at_other take_put_bytes MOCK_AUTH_NONCE_LEN_def)
qed

lemma crc_one_byte:
  assumes "x \<noteq> y"
  shows "crc32c (pre @ x # post) \<noteq> crc32c (pre @ y # post)"
proof (rule crc32c_burst)
  show "message_bits (pre @ x # post) = message_bits pre @ byte_bits x @ message_bits post"
    "message_bits (pre @ y # post) = message_bits pre @ byte_bits y @ message_bits post"
    by (simp_all add: message_bits_def)
  show "length (byte_bits x) = length (byte_bits y)" "length (byte_bits x) \<le> 32"
    by (simp_all add: byte_bits_def)
  show "pre @ x # post \<noteq> pre @ y # post"
    using assms by simp
qed

text \<open>A file with a byte of padding that is not zero, and the checksum of its bytes.\<close>

definition stained_file :: "bool \<Rightarrow> control_file \<Rightarrow> byte \<Rightarrow> bytes" where
  "stained_file little c x =
     (let stained = put_bytes (control_to_bytes little c) 20 [x]
      in put_bytes stained OFF_CRC (to_ne little 4 (crc32c (take OFF_CRC stained))))"

text \<open>C29: The verdict on the checksum is taken over the fields and not over the bytes of the file: a
  file whose padding after the state is not zero, with the right checksum of its bytes, parses to the
  same control file but is found invalid.\<close>

theorem crc_verdict_not_over_bytes:
  assumes "wf_control c" and "x \<noteq> 0"
  shows "\<exists>crc. parse_control little (stained_file little c x) = Ok (c\<lparr>cf_crc := crc\<rparr>) \<and>
    crc = crc32c (take OFF_CRC (stained_file little c x)) \<and>
    \<not> crc_is_valid little (c\<lparr>cf_crc := crc\<rparr>)"
proof -
  let ?img = "control_to_bytes little c"
  let ?stained = "put_bytes ?img 20 [x]"
  let ?crc = "crc32c (take OFF_CRC ?stained)"
  have len: "length ?img = 8192"
    using length_control_to_bytes [OF assms(1)] by (simp add: PG_CONTROL_FILE_SIZE_def)
  have parse: "parse_control little ?img = Ok (c\<lparr>cf_crc := control_crc little c\<rparr>)"
    by (rule parse_to_bytes [OF assms(1)])
  then have fields: "parse_control_fields little ?img = c\<lparr>cf_crc := control_crc little c\<rparr>"
    using len by (simp add: parse_control_def SIZEOF_CONTROL_FILE_DATA_def)
  have "parse_control_fields little (stained_file little c x) = c\<lparr>cf_crc := ?crc\<rparr>"
    using len fields by (simp add: stained_file_def Let_def parse_new_crc parse_stained)
  moreover have "length (stained_file little c x) = 8192"
    using len by (simp add: stained_file_def Let_def OFF_CRC_def)
  moreover have "take OFF_CRC (stained_file little c x) = take OFF_CRC ?stained"
    using len by (simp add: stained_file_def Let_def take_put_bytes OFF_CRC_def)
  moreover have "\<not> crc_is_valid little (c\<lparr>cf_crc := ?crc\<rparr>)"
  proof -
    have "?img ! 20 = 0"
    proof -
      have "find (covers 20) (full_fields little c (control_crc little c)) = None"
        using assms(1)
        by (simp add: full_fields_def control_fields_def check_point_fields_def covers_def control_offsets
            put_bool_def wf_control_def MOCK_AUTH_NONCE_LEN_def)
      then show ?thesis
        using nth_put_fields [OF control_ascending [OF assms(1)], of 20 little "control_crc little c"]
        by (simp add: control_to_bytes_alt PG_CONTROL_FILE_SIZE_def)
    qed
    then have "take 292 ?img = take 20 ?img @ 0 # take 271 (drop 21 ?img)"
    proof -
      have "?img = take 20 ?img @ 0 # drop 21 ?img"
        using len id_take_nth_drop [of 20 ?img] \<open>?img ! 20 = 0\<close> by simp
      then have "take 292 ?img = take 292 (take 20 ?img @ 0 # drop 21 ?img)"
        by simp
      also have "\<dots> = take 20 ?img @ 0 # take 271 (drop 21 ?img)"
        using len by (simp add: min_absorb2)
      finally show ?thesis .
    qed
    moreover have "take 292 ?stained = take 20 ?img @ x # take 271 (drop 21 ?img)"
      using len by (simp add: put_bytes_def min_absorb2)
    ultimately have "?crc \<noteq> crc32c (take OFF_CRC ?img)"
      using crc_one_byte [OF assms(2)] by (simp add: OFF_CRC_def)
    then show ?thesis
      using assms(1) by (simp add: crc_is_valid_iff control_crc_def covered_part)
  qed
  ultimately show ?thesis
    by (simp add: parse_control_def SIZEOF_CONTROL_FILE_DATA_def)
qed

section \<open>A sample\<close>

text \<open>The control file that 296 zero bytes spell, with a segment size.\<close>

definition demo_control :: control_file where
  "demo_control = (parse_control_fields True (replicate 296 0))\<lparr>cf_xlog_seg_size := 0x1000000\<rparr>"

lemma demo_control_wf: "wf_control demo_control"
  using parse_wf [of True "replicate 296 0" "parse_control_fields True (replicate 296 0)"]
  by (simp add: demo_control_def wf_control_def parse_control_def SIZEOF_CONTROL_FILE_DATA_def)

theorem control_round_trip_witness:
  "length (control_to_bytes False demo_control) = PG_CONTROL_FILE_SIZE"
  using control_round_trip [OF demo_control_wf, of False] by blast

theorem crc_verdict_not_over_bytes_witness:
  "\<exists>crc. crc = crc32c (take OFF_CRC (stained_file True demo_control 1)) \<and>
     \<not> crc_is_valid True (demo_control\<lparr>cf_crc := crc\<rparr>)"
  using crc_verdict_not_over_bytes [OF demo_control_wf, of 1 True] by auto

end
