(* ===== verification/Wal.thy ===== *)
theory Wal
  imports Control
begin

text \<open>
  The control file of a new cluster (\<open>for_new_cluster\<close> of \<open>crates/rinitdb/src/control.rs\<close>) and its first
  WAL segment (\<open>wal.rs\<close>).

  A segment size of zero makes the division panic, which is the value \<open>None\<close>; sums and products of
  \<open>u64\<close> wrap as in a release build.

  Shown: the checkpoint of a new cluster is the first record of the segment after the template's; the
  first page of that segment holds it, its record carries a valid checksum, and parsing the record
  gives back the checkpoint of the control file.
\<close>

section \<open>Segments\<close>

definition segment_of :: "u64 \<Rightarrow> u32 \<Rightarrow> u64 option" where
  "segment_of lsn wal_segsz_bytes =
     (if wal_segsz_bytes = 0 then None else Some (lsn div ucast wal_segsz_bytes))"

definition segment_offset_to_lsn :: "u64 \<Rightarrow> u64 \<Rightarrow> u32 \<Rightarrow> u64" where
  "segment_offset_to_lsn segno offset wal_segsz_bytes = segno * ucast wal_segsz_bytes + offset"

definition SIZE_OF_XLOG_LONG_PHD :: u64 where "SIZE_OF_XLOG_LONG_PHD = 40"

section \<open>The control file of a new cluster\<close>

definition as_template :: "control_file \<Rightarrow> control_file" where
  "as_template c =
     c\<lparr> cf_system_identifier := 0, cf_time := 0,
        cf_check_point_copy := (cf_check_point_copy c)\<lparr> cp_time := 0 \<rparr>,
        cf_mock_authentication_nonce := replicate MOCK_AUTH_NONCE_LEN 0 \<rparr>"

record new_cluster =
  nc_system_identifier :: u64
  nc_checksums :: data_checksums
  nc_mock_authentication_nonce :: bytes
  nc_now :: u64

definition for_new_cluster :: "control_file \<Rightarrow> new_cluster \<Rightarrow> control_file option" where
  "for_new_cluster template new =
     (let seg_size = cf_xlog_seg_size template in
      map_option (\<lambda>seg.
        let segno = seg + 1;
            redo = segment_offset_to_lsn segno SIZE_OF_XLOG_LONG_PHD seg_size
        in template\<lparr>
             cf_check_point_copy := (cf_check_point_copy template)\<lparr> cp_redo := redo, cp_time := nc_now new \<rparr>,
             cf_state := DbShutdowned,
             cf_check_point := redo,
             cf_min_recovery_point := 0,
             cf_min_recovery_point_tli := 0,
             cf_backup_start_point := 0,
             cf_backup_end_point := 0,
             cf_backup_end_required := False,
             cf_system_identifier := nc_system_identifier new,
             cf_mock_authentication_nonce := nc_mock_authentication_nonce new,
             cf_data_checksum_version := checksums_version (nc_checksums new),
             cf_time := nc_now new \<rparr>)
        (segment_of (cp_redo (cf_check_point_copy template)) seg_size))"

section \<open>The first segment\<close>

definition XLOG_PAGE_MAGIC :: u16 where "XLOG_PAGE_MAGIC = 0xD118"
definition XLP_LONG_HEADER :: u16 where "XLP_LONG_HEADER = 2"
definition XLOG_BLCKSZ :: nat where "XLOG_BLCKSZ = 8192"
definition SIZE_OF_XLOG_RECORD :: nat where "SIZE_OF_XLOG_RECORD = 24"
definition XL_CRC :: nat where "XL_CRC = 20"
definition SIZE_OF_XLOG_RECORD_DATA_HEADER_SHORT :: nat where "SIZE_OF_XLOG_RECORD_DATA_HEADER_SHORT = 2"
definition XLR_BLOCK_ID_DATA_SHORT :: byte where "XLR_BLOCK_ID_DATA_SHORT = 255"
definition XLOG_CHECKPOINT_SHUTDOWN :: byte where "XLOG_CHECKPOINT_SHUTDOWN = 0"
definition RM_XLOG_ID :: byte where "RM_XLOG_ID = 0"

definition CHECKPOINT_RECORD_LEN :: nat where
  "CHECKPOINT_RECORD_LEN = SIZE_OF_XLOG_RECORD + SIZE_OF_XLOG_RECORD_DATA_HEADER_SHORT + SIZEOF_CHECK_POINT"

text \<open>\<open>{:08X}\<close>: at least eight hexadecimal digits.\<close>

definition hex_digit :: "nat \<Rightarrow> byte" where
  "hex_digit d = of_nat (if d < 10 then 48 + d else 55 + d)"

function hex_digits :: "nat \<Rightarrow> bytes" where
  "hex_digits n = (if n < 16 then [hex_digit n] else hex_digits (n div 16) @ [hex_digit (n mod 16)])"
  by pat_completeness auto
termination
  by (relation "measure id") auto

declare hex_digits.simps [simp del]

definition hex8 :: "nat \<Rightarrow> bytes" where
  "hex8 n = replicate (8 - length (hex_digits n)) 48 @ hex_digits n"

definition segment_file_name :: "u32 \<Rightarrow> u64 \<Rightarrow> u32 \<Rightarrow> bytes option" where
  "segment_file_name tli segno wal_segsz_bytes =
     (if wal_segsz_bytes = 0 then None
      else let per_id = 0x100000000 div unat wal_segsz_bytes in
        Some (hex8 (unat tli) @ hex8 (unat segno div per_id) @ hex8 (unat segno mod per_id)))"

definition checkpoint_segment_file_name :: "control_file \<Rightarrow> bytes option" where
  "checkpoint_segment_file_name c =
     Option.bind (segment_of (cp_redo (cf_check_point_copy c)) (cf_xlog_seg_size c)) (\<lambda>segno.
       segment_file_name (cp_this_time_line_id (cf_check_point_copy c)) segno (cf_xlog_seg_size c))"

definition page_header_fields :: "bool \<Rightarrow> control_file \<Rightarrow> (nat \<times> bytes) list" where
  "page_header_fields little c =
     [(0, to_ne little 2 XLOG_PAGE_MAGIC),
      (2, to_ne little 2 XLP_LONG_HEADER),
      (4, to_ne little 4 (cp_this_time_line_id (cf_check_point_copy c))),
      (8, to_ne little 8 (cp_redo (cf_check_point_copy c) - SIZE_OF_XLOG_LONG_PHD)),
      (24, to_ne little 8 (cf_system_identifier c)),
      (32, to_ne little 4 (cf_xlog_seg_size c)),
      (36, to_ne little 4 (of_nat XLOG_BLCKSZ :: u32))]"

definition record_fields :: "bool \<Rightarrow> control_file \<Rightarrow> (nat \<times> bytes) list" where
  "record_fields little c =
     (let pos = unat SIZE_OF_XLOG_LONG_PHD; data = pos + SIZE_OF_XLOG_RECORD in
      [(pos, to_ne little 4 (of_nat CHECKPOINT_RECORD_LEN :: u32)),
       (pos + 16, [XLOG_CHECKPOINT_SHUTDOWN]),
       (pos + 17, [RM_XLOG_ID]),
       (data, [XLR_BLOCK_ID_DATA_SHORT]),
       (data + 1, [of_nat SIZEOF_CHECK_POINT]),
       (data + 2, check_point_to_bytes little (cf_check_point_copy c))])"

definition record_covered :: "bytes \<Rightarrow> bytes" where
  "record_covered page =
     (let rcd = take CHECKPOINT_RECORD_LEN (drop (unat SIZE_OF_XLOG_LONG_PHD) page)
      in drop SIZE_OF_XLOG_RECORD rcd @ take XL_CRC rcd)"

definition first_page :: "bool \<Rightarrow> control_file \<Rightarrow> bytes" where
  "first_page little c =
     (let page = put_fields (page_header_fields little c @ record_fields little c) (replicate XLOG_BLCKSZ 0);
          crc = crc32c (record_covered page)
      in put_bytes page (unat SIZE_OF_XLOG_LONG_PHD + XL_CRC) (to_ne little 4 crc))"

definition wal_segment :: "bool \<Rightarrow> control_file \<Rightarrow> bytes" where
  "wal_segment little c =
     (let size = unat (cf_xlog_seg_size c)
      in put_bytes (replicate (max size XLOG_BLCKSZ) 0) 0 (first_page little c))"


section \<open>The checkpoint record\<close>

lemma check_point_ascending: "ascending (check_point_fields little cp) 128"
  by (simp add: ascending_def check_point_fields_def control_offsets put_bool_def)

lemma length_check_point_bytes [simp]: "length (check_point_to_bytes little cp) = SIZEOF_CHECK_POINT"
  using length_put_fields [of "check_point_fields little cp" "replicate 128 0"] check_point_ascending
  by (simp add: check_point_to_bytes_def SIZEOF_CHECK_POINT_def OFF_UNLOGGED_LSN_def OFF_CP_REDO_def)

text \<open>What is read beyond a prefix does not depend on the prefix.\<close>

lemma read_beyond:
  assumes "length p = length q" and "length q \<le> a"
  shows "u32_at little (p @ r) a = u32_at little (q @ r) a" "u64_at little (p @ r) a = u64_at little (q @ r) a"
    "bool_at (p @ r) a = bool_at (q @ r) a"
  using assms by (simp_all add: u32_at_def u64_at_def bool_at_def nth_append)

lemma parse_check_point_fields:
  "parse_check_point little (put_fields (check_point_fields little cp) (replicate 128 0)) = cp"
proof -
  have asc: "ascending (check_point_fields little cp) (length (replicate 128 (0 :: byte)))"
    using check_point_ascending by simp
  show ?thesis
    by (rule check_point.equality; simp add: parse_check_point_def;
        rule read_u32 [OF asc] read_u64 [OF asc] read_bool [OF asc];
        simp add: check_point_fields_def)
qed

lemma parse_check_point_bytes:
  assumes "length p = 40"
  shows "parse_check_point little (p @ check_point_to_bytes little cp) = cp"
proof -
  let ?y = "put_fields (check_point_fields little cp) (replicate 128 0)"
  have "length ?y = 128"
    using length_put_fields [of "check_point_fields little cp" "replicate 128 0"] check_point_ascending by simp
  then have len: "length p = length (take 40 ?y)"
    using assms by simp
  have bytes: "check_point_to_bytes little cp = drop 40 ?y"
    by (simp add: check_point_to_bytes_def OFF_UNLOGGED_LSN_def OFF_CP_REDO_def)
  have "parse_check_point little (p @ drop 40 ?y) = parse_check_point little (take 40 ?y @ drop 40 ?y)"
    using \<open>length ?y = 128\<close> unfolding parse_check_point_def control_offsets
    by (simp only: read_beyond [OF len] length_take)
  then show ?thesis
    using parse_check_point_fields bytes by simp
qed

section \<open>The first page\<close>

definition page_fields :: "bool \<Rightarrow> control_file \<Rightarrow> (nat \<times> bytes) list" where
  "page_fields little c = page_header_fields little c @ record_fields little c"

definition page_without_crc :: "bool \<Rightarrow> control_file \<Rightarrow> bytes" where
  "page_without_crc little c = put_fields (page_fields little c) (replicate XLOG_BLCKSZ 0)"

lemmas wal_sizes = XLOG_BLCKSZ_def SIZE_OF_XLOG_LONG_PHD_def SIZE_OF_XLOG_RECORD_def XL_CRC_def
  SIZEOF_CHECK_POINT_def OFF_UNLOGGED_LSN_def OFF_CP_REDO_def CHECKPOINT_RECORD_LEN_def
  SIZE_OF_XLOG_RECORD_DATA_HEADER_SHORT_def

lemma page_ascending: "ascending (page_fields little c) (length (replicate XLOG_BLCKSZ (0 :: byte)))"
  by (simp add: ascending_def page_fields_def page_header_fields_def record_fields_def Let_def wal_sizes)

lemma length_page_without_crc: "length (page_without_crc little c) = XLOG_BLCKSZ"
  using length_put_fields [OF page_ascending] by (simp add: page_without_crc_def)

lemma first_page_alt:
  "first_page little c =
   put_bytes (page_without_crc little c) 60 (to_ne little 4 (crc32c (record_covered (page_without_crc little c))))"
  by (simp add: first_page_def page_without_crc_def page_fields_def Let_def wal_sizes)

lemma length_first_page: "length (first_page little c) = XLOG_BLCKSZ"
  using length_page_without_crc [of little c] by (simp add: first_page_alt XLOG_BLCKSZ_def)

lemma record_covered_alt: "record_covered page = take 90 (drop 64 page) @ take 20 (drop 40 page)"
proof -
  have forty: "unat SIZE_OF_XLOG_LONG_PHD = 40"
    by (simp add: SIZE_OF_XLOG_LONG_PHD_def)
  show ?thesis
    unfolding record_covered_def Let_def forty
    by (simp add: SIZE_OF_XLOG_RECORD_def XL_CRC_def SIZEOF_CHECK_POINT_def OFF_UNLOGGED_LSN_def OFF_CP_REDO_def
        CHECKPOINT_RECORD_LEN_def SIZE_OF_XLOG_RECORD_DATA_HEADER_SHORT_def drop_take)
qed

lemma first_page_record_crc:
  "u32_at little (first_page little c) 60 = crc32c (record_covered (first_page little c))"
proof -
  have len: "60 + length (to_ne little 4 (crc :: u32)) \<le> length (page_without_crc little c)" for crc
    using length_page_without_crc [of little c] by (simp add: XLOG_BLCKSZ_def)
  have "record_covered (first_page little c) = record_covered (page_without_crc little c)"
    unfolding record_covered_alt first_page_alt using len by (simp add: at_other)
  moreover have "take 4 (drop 60 (put_bytes (page_without_crc little c) 60 (to_ne little 4 crc))) =
      to_ne little 4 (crc :: u32)" for crc
    using len by (simp add: put_bytes_def min_absorb2)
  ultimately show ?thesis
    by (simp add: u32_at_def first_page_alt)
qed

lemma first_page_field:
  assumes "f \<in> set (page_fields little c)" and "fst f + length (snd f) \<le> 60 \<or> 64 \<le> fst f"
  shows "take (length (snd f)) (drop (fst f) (first_page little c)) = snd f"
  using read_field [OF page_ascending assms(1)] assms(2) length_page_without_crc [of little c]
  by (simp add: first_page_alt at_other XLOG_BLCKSZ_def page_without_crc_def)

lemma first_page_header:
  "u64_at little (first_page little c) 8 = cp_redo (cf_check_point_copy c) - SIZE_OF_XLOG_LONG_PHD"
  "u64_at little (first_page little c) 24 = cf_system_identifier c"
  "take 88 (drop 66 (first_page little c)) = check_point_to_bytes little (cf_check_point_copy c)"
proof -
  show "u64_at little (first_page little c) 8 = cp_redo (cf_check_point_copy c) - SIZE_OF_XLOG_LONG_PHD"
    using first_page_field [of "(8, to_ne little 8 (cp_redo (cf_check_point_copy c) - SIZE_OF_XLOG_LONG_PHD))" little c]
    by (simp add: u64_at_def page_fields_def page_header_fields_def)
  show "u64_at little (first_page little c) 24 = cf_system_identifier c"
    using first_page_field [of "(24, to_ne little 8 (cf_system_identifier c))" little c]
    by (simp add: u64_at_def page_fields_def page_header_fields_def)
  show "take 88 (drop 66 (first_page little c)) = check_point_to_bytes little (cf_check_point_copy c)"
    using first_page_field [of "(66, check_point_to_bytes little (cf_check_point_copy c))" little c]
    by (simp add: page_fields_def record_fields_def Let_def wal_sizes)
qed

lemma wal_segment_page: "take XLOG_BLCKSZ (wal_segment little c) = first_page little c"
  using length_first_page [of little c] by (simp add: wal_segment_def Let_def put_bytes_def)

text \<open>Where the checkpoint of a new cluster is.\<close>

lemma unat_widen: "unat (ucast (w :: u32) :: u64) = unat w"
proof -
  have "uint (ucast w :: u64) = uint w"
    by (rule uint_up_ucast) (simp add: is_up)
  then show ?thesis
    by (metis nat_uint_eq)
qed

lemma new_redo:
  assumes sz: "40 < unat (sz :: u32)" and room: "unat redo + 2 * unat sz < 2 ^ 64"
  shows "unat (segment_offset_to_lsn (redo div ucast sz + 1) SIZE_OF_XLOG_LONG_PHD sz) =
    (unat redo div unat sz + 1) * unat sz + 40"
proof -
  let ?q = "unat redo div unat sz"
  have sz64: "unat (ucast sz :: u64) = unat sz"
    by (rule unat_widen)
  have le: "?q * unat sz \<le> unat redo" "?q \<le> unat redo"
    by simp_all
  have q: "unat (redo div ucast sz) = ?q"
    by (simp add: unat_div_distrib sz64)
  have "?q + 1 < 2 ^ 64"
    using le(2) room sz by linarith
  then have seg: "unat (redo div ucast sz + 1) = ?q + 1"
    by (simp add: unat_word_ariths(1) q)
  have bound: "(?q + 1) * unat sz + 40 < 2 ^ 64"
  proof -
    have "(?q + 1) * unat sz + 40 \<le> unat redo + 2 * unat sz"
      using le(1) sz unfolding distrib_right by linarith
    then show ?thesis
      using room by linarith
  qed
  then have "unat ((redo div ucast sz + 1) * ucast sz) = (?q + 1) * unat sz"
    by (simp add: unat_word_ariths(2) seg sz64)
  then show ?thesis
    using bound by (simp add: segment_offset_to_lsn_def unat_word_ariths(1) SIZE_OF_XLOG_LONG_PHD_def)
qed

lemma segment_of_new_redo:
  assumes "40 < unat (sz :: u32)" and "unat redo = (q + 1) * unat sz + 40"
  shows "map_option unat (segment_of redo sz) = Some (q + 1)"
proof -
  have "unat (ucast sz :: u64) = unat sz"
    by (rule unat_widen)
  then have "unat (redo div ucast sz) = ((q + 1) * unat sz + 40) div unat sz"
    by (simp add: unat_div_distrib assms(2))
  also have "\<dots> = q + 1"
    using assms(1) by (intro div_nat_eqI) (simp_all add: algebra_simps)
  finally show ?thesis
    using assms(1) by (auto simp: segment_of_def)
qed

text \<open>C30: The control file of a new cluster and its first WAL segment fit together: the checkpoint is
  just past the header of the segment after the template's, so behind every position the template
  knows; the page at the start of that segment carries its address and the identifier of the new
  cluster, the record on it has the checksum of its bytes, and parsing the record gives the
  checkpoint of the control file.\<close>

theorem new_cluster_first_segment:
  assumes "for_new_cluster template new = Some c"
    and "40 < unat (cf_xlog_seg_size template)"
    and "unat (cp_redo (cf_check_point_copy template)) + 2 * unat (cf_xlog_seg_size template) < 2 ^ 64"
  shows "unat (cf_check_point c) =
      (unat (cp_redo (cf_check_point_copy template)) div unat (cf_xlog_seg_size template) + 1) *
        unat (cf_xlog_seg_size template) + 40 \<and>
    map_option unat (segment_of (cf_check_point c) (cf_xlog_seg_size c)) =
      Some (unat (cp_redo (cf_check_point_copy template)) div unat (cf_xlog_seg_size template) + 1) \<and>
    cp_redo (cf_check_point_copy template) < cf_check_point c \<and>
    u64_at little (wal_segment little c) 8 = cf_check_point c - 40 \<and>
    u64_at little (wal_segment little c) 24 = nc_system_identifier new \<and>
    u32_at little (wal_segment little c) 60 = crc32c (record_covered (wal_segment little c)) \<and>
    parse_check_point little (replicate 40 0 @ take 88 (drop 66 (wal_segment little c))) = cf_check_point_copy c"
proof -
  let ?redo = "cp_redo (cf_check_point_copy template)" and ?sz = "cf_xlog_seg_size template"
  let ?new = "segment_offset_to_lsn (?redo div ucast ?sz + 1) SIZE_OF_XLOG_LONG_PHD ?sz"
  let ?q = "unat ?redo div unat ?sz"
  have c: "cf_check_point c = ?new" "cp_redo (cf_check_point_copy c) = ?new" "cf_xlog_seg_size c = ?sz"
      "cf_system_identifier c = nc_system_identifier new"
    using assms(1) by (auto simp: for_new_cluster_def Let_def segment_of_def split: if_splits)
  have redo: "unat ?new = (?q + 1) * unat ?sz + 40"
    by (rule new_redo [OF assms(2,3)])
  have "unat ?redo < (?q + 1) * unat ?sz"
    using dividend_less_div_times [of "unat ?sz" "unat ?redo"] assms(2) by (simp add: add.commute)
  then have later: "?redo < ?new"
    using redo by (simp add: word_less_nat_alt)
  have page: "take n (drop a (wal_segment little c)) = take n (drop a (first_page little c))"
    if "a + n \<le> 8192" for a n
    using that unfolding wal_segment_page [symmetric] by (simp add: XLOG_BLCKSZ_def drop_take min_absorb1)
  have "record_covered (wal_segment little c) = record_covered (first_page little c)"
    unfolding record_covered_alt by (simp add: page)
  then show ?thesis
    using redo later segment_of_new_redo [OF assms(2) redo] first_page_header [of little c]
      first_page_record_crc [of little c] parse_check_point_bytes [of "replicate 40 0"]
    by (simp add: c u64_at_def u32_at_def page SIZE_OF_XLOG_LONG_PHD_def)
qed

definition demo_new_cluster :: new_cluster where
  "demo_new_cluster = \<lparr> nc_system_identifier = 42, nc_checksums = ChecksumsEnabled,
     nc_mock_authentication_nonce = replicate MOCK_AUTH_NONCE_LEN 7, nc_now = 9 \<rparr>"

theorem new_cluster_first_segment_witness:
  "\<exists>c. for_new_cluster demo_control demo_new_cluster = Some c \<and>
     unat (cf_check_point c) = 0x1000028 \<and> u64_at True (wal_segment True c) 24 = 42"
proof -
  have sz: "cf_xlog_seg_size demo_control = 0x1000000"
    by (simp add: demo_control_def)
  have redo: "cp_redo (cf_check_point_copy demo_control) = 0"
    by (simp add: demo_control_def parse_control_fields_def parse_check_point_def u64_at_def from_ne_def from_le_def
        OFF_CP_REDO_def numeral_eq_Suc)
  obtain c where c: "for_new_cluster demo_control demo_new_cluster = Some c"
    by (simp add: for_new_cluster_def segment_of_def sz Let_def)
  show ?thesis
    using new_cluster_first_segment [OF c, of True] sz redo c by (auto simp: demo_new_cluster_def)
qed

end
