(* ===== verification/SystemId.thy ===== *)
theory SystemId
  imports Prelude
begin

text \<open>
  \<open>SystemIdentifier\<close> of \<open>crates/rinitdb/src/control.rs\<close>: how the identifier of a cluster is derived from
  the clock, and \<open>generate\<close>, which several threads may run at once.

  \<open>LAST_GENERATED\<close> is the value handed out last; a state also keeps all that were handed out, the last
  one first, and where each thread is in the loop. A relaxed load may return any value the variable
  has had; the exchange compares with the current one. The clock gives any value.

  Shown: an identifier spells the second, the microsecond and the process; no two threads ever get the
  same identifier, the largest one apart, where the addition saturates.
\<close>

section \<open>The derivation\<close>

definition from_boot_parts :: "u64 \<Rightarrow> u64 \<Rightarrow> u32 \<Rightarrow> u64" where
  "from_boot_parts tv_sec tv_usec pid =
     (push_bit 32 tv_sec OR push_bit 12 tv_usec) OR (ucast pid AND 0xFFF)"

text \<open>A \<open>Duration\<close> is its seconds and nanoseconds.\<close>

definition from_unix_time :: "u64 \<times> u32 \<Rightarrow> u32 \<Rightarrow> u64" where
  "from_unix_time since_epoch pid = from_boot_parts (fst since_epoch) (ucast (snd since_epoch div 1000)) pid"

definition saturating_add :: "u64 \<Rightarrow> u64 \<Rightarrow> u64" where
  "saturating_add a b = (if a + b < a then - 1 else a + b)"

definition next_identifier :: "u64 \<Rightarrow> u64 \<Rightarrow> u64" where
  "next_identifier candidate previous = max candidate (saturating_add previous 1)"

section \<open>The loop\<close>

datatype id_thread =
    Idle
  | Entered
  | HasCandidate u64
  | HasNext u64 u64

record id_state =
  is_last :: u64
  is_given :: "u64 list"
  is_thread :: "nat \<Rightarrow> id_thread"

inductive id_step :: "id_state \<Rightarrow> id_state \<Rightarrow> bool" where
  call: "is_thread s t = Idle \<Longrightarrow> id_step s (s\<lparr>is_thread := (is_thread s)(t := Entered)\<rparr>)"
| clock: "is_thread s t = Entered \<Longrightarrow>
    id_step s (s\<lparr>is_thread := (is_thread s)(t := HasCandidate (from_unix_time now pid))\<rparr>)"
| load: "\<lbrakk>is_thread s t = HasCandidate candidate; previous \<in> set (is_given s @ [0])\<rbrakk> \<Longrightarrow>
    id_step s (s\<lparr>is_thread :=
      (is_thread s)(t := HasNext previous (next_identifier candidate previous))\<rparr>)"
| exchange: "\<lbrakk>is_thread s t = HasNext previous nxt; is_last s = previous\<rbrakk> \<Longrightarrow>
    id_step s (s\<lparr>is_last := nxt, is_given := nxt # is_given s, is_thread := (is_thread s)(t := Idle)\<rparr>)"
| retry: "\<lbrakk>is_thread s t = HasNext previous nxt; is_last s \<noteq> previous\<rbrakk> \<Longrightarrow>
    id_step s (s\<lparr>is_thread := (is_thread s)(t := Entered)\<rparr>)"

definition id_init :: "id_state \<Rightarrow> bool" where
  "id_init s \<longleftrightarrow> is_last s = 0 \<and> is_given s = [] \<and> is_thread s = (\<lambda>_. Idle)"

section \<open>What an identifier spells\<close>

lemma from_boot_parts_spells:
  assumes "tv_usec < 2 ^ 20"
  shows "drop_bit 32 (from_boot_parts tv_sec tv_usec pid) = take_bit 32 tv_sec"
    and "take_bit 20 (drop_bit 12 (from_boot_parts tv_sec tv_usec pid)) = tv_usec"
    and "take_bit 12 (from_boot_parts tv_sec tv_usec pid) = take_bit 12 (ucast pid)"
proof -
  have low: "take_bit 20 tv_usec = tv_usec"
    using assms by (simp add: take_bit_eq_mod word_less_nat_alt word_unat_eq_iff unat_mod)
  have usec: "bit tv_usec n \<Longrightarrow> n < 20" for n
    using low bit_take_bit_iff [of 20 tv_usec n] by simp
  have fff: "(0xFFF :: u64) = mask 12"
    by (simp add: mask_eq_exp_minus_1)
  have bits: "bit (from_boot_parts tv_sec tv_usec pid) n \<longleftrightarrow>
      n < 64 \<and> (32 \<le> n \<and> bit tv_sec (n - 32) \<or> 12 \<le> n \<and> bit tv_usec (n - 12) \<or> n < 12 \<and> bit pid n)" for n
    unfolding from_boot_parts_def fff
    by (auto simp: bit_or_iff bit_and_iff bit_push_bit_iff bit_mask_iff bit_ucast_iff)
  show "drop_bit 32 (from_boot_parts tv_sec tv_usec pid) = take_bit 32 tv_sec"
    by (intro bit_eqI) (auto simp: bit_drop_bit_eq bits bit_take_bit_iff dest: usec)
  show "take_bit 20 (drop_bit 12 (from_boot_parts tv_sec tv_usec pid)) = tv_usec"
    by (intro bit_eqI) (auto simp: bit_drop_bit_eq bits bit_take_bit_iff dest: usec)
  show "take_bit 12 (from_boot_parts tv_sec tv_usec pid) = take_bit 12 (ucast pid)"
    by (intro bit_eqI) (auto simp: bits bit_take_bit_iff bit_ucast_iff)
qed

section \<open>No two alike\<close>

text \<open>The identifiers given out go up, until the largest one.\<close>

definition going_up :: "u64 list \<Rightarrow> bool" where
  "going_up ids \<longleftrightarrow> sorted_wrt (\<lambda>later earlier. earlier < later \<or> later = - 1) ids"

definition id_inv :: "id_state \<Rightarrow> bool" where
  "id_inv s \<longleftrightarrow> is_last s = hd (is_given s @ [0]) \<and> going_up (is_given s) \<and>
     (\<forall>t previous nxt. is_thread s t = HasNext previous nxt \<longrightarrow> previous < nxt \<or> nxt = - 1)"

lemma top_word: "(w :: u64) \<le> - 1"
  by simp

lemma next_identifier_up: "previous < next_identifier candidate previous \<or> next_identifier candidate previous = - 1"
proof (cases "previous + 1 < previous")
  case True
  then show ?thesis
    using top_word [of candidate] by (simp add: next_identifier_def saturating_add_def max_def)
next
  case False
  then have "previous < previous + 1"
    by (metis add_cancel_right_right linorder_neqE one_neq_zero)
  then have "previous < max candidate (previous + 1)"
    by (simp add: less_max_iff_disj)
  then show ?thesis
    using False by (simp add: next_identifier_def saturating_add_def)
qed

lemma going_up_Cons:
  assumes "going_up ids" and "hd (ids @ [0]) < n \<or> n = - 1"
  shows "going_up (n # ids)"
proof (cases ids)
  case Nil
  then show ?thesis
    by (simp add: going_up_def)
next
  case (Cons m ms)
  have "x < n \<or> n = - 1" if "x \<in> set ids" for x
  proof -
    have "x = m \<or> x < m \<or> m = - 1"
      using that assms(1) Cons by (auto simp: going_up_def)
    then show ?thesis
      using assms(2) Cons top_word [of n] by (auto dest: leD)
  qed
  then show ?thesis
    using assms(1) by (simp add: going_up_def)
qed

interpretation id_machine: machine id_init id_step id_inv
proof unfold_locales
  show "id_inv s" if "id_init s" for s
    using that by (simp add: id_init_def id_inv_def going_up_def)
next
  fix s t
  assume inv: "id_inv s" and step: "id_step s t"
  show "id_inv t"
    using step
  proof cases
    case (load th candidate previous)
    then show ?thesis
      using inv next_identifier_up [of previous candidate] by (auto simp: id_inv_def split: if_splits)
  next
    case (exchange th previous nxt)
    then have "going_up (nxt # is_given s)"
      using inv by (intro going_up_Cons) (auto simp: id_inv_def)
    then show ?thesis
      using inv exchange by (auto simp: id_inv_def split: if_splits)
  qed (use inv in \<open>auto simp: id_inv_def split: if_splits\<close>)
qed

lemma going_up_distinct: "going_up ids \<Longrightarrow> distinct (filter (\<lambda>i. i \<noteq> - 1) ids)"
  by (induction ids) (auto simp: going_up_def)

text \<open>C31: However the calls of several threads interleave, and whatever the clock shows, no identifier
  is given out twice, the largest one apart; and the value kept is the one given out last.\<close>

theorem identifiers_distinct:
  assumes "reach id_init id_step s"
  shows "distinct (filter (\<lambda>i. i \<noteq> - 1) (is_given s)) \<and> is_last s = hd (is_given s @ [0])"
  using id_machine.reach_inv [OF assms] going_up_distinct by (simp add: id_inv_def)

text \<open>Two threads that see the same clock: both load the first value, one of them wins the exchange, the
  other one tries again.\<close>

definition id_at :: "u64 list \<Rightarrow> id_thread \<Rightarrow> id_thread \<Rightarrow> id_state" where
  "id_at given seven eight =
     \<lparr> is_last = hd (given @ [0]), is_given = given, is_thread = (\<lambda>_. Idle)(7 := seven, 8 := eight) \<rparr>"

lemma id_at_updates:
  "(id_at g a b)\<lparr>is_thread := (is_thread (id_at g a b))(7 := x)\<rparr> = id_at g x b"
  "(id_at g a b)\<lparr>is_thread := (is_thread (id_at g a b))(8 := x)\<rparr> = id_at g a x"
  "(id_at g a b)\<lparr>is_last := n, is_given := n # is_given (id_at g a b),
     is_thread := (is_thread (id_at g a b))(7 := x)\<rparr> = id_at (n # g) x b"
  "(id_at g a b)\<lparr>is_last := n, is_given := n # is_given (id_at g a b),
     is_thread := (is_thread (id_at g a b))(8 := x)\<rparr> = id_at (n # g) a x"
  by (auto simp: id_at_def fun_upd_twist)

lemma id_at_steps:
  "id_step (id_at g Idle b) (id_at g Entered b)"
  "id_step (id_at g a Idle) (id_at g a Entered)"
  "id_step (id_at g Entered b) (id_at g (HasCandidate (from_unix_time now pid)) b)"
  "id_step (id_at g a Entered) (id_at g a (HasCandidate (from_unix_time now pid)))"
  "previous \<in> set (g @ [0]) \<Longrightarrow>
     id_step (id_at g (HasCandidate c) b) (id_at g (HasNext previous (next_identifier c previous)) b)"
  "previous \<in> set (g @ [0]) \<Longrightarrow>
     id_step (id_at g a (HasCandidate c)) (id_at g a (HasNext previous (next_identifier c previous)))"
  "hd (g @ [0]) = previous \<Longrightarrow> id_step (id_at g (HasNext previous n) b) (id_at (n # g) Idle b)"
  "hd (g @ [0]) = previous \<Longrightarrow> id_step (id_at g a (HasNext previous n)) (id_at (n # g) a Idle)"
  "hd (g @ [0]) \<noteq> previous \<Longrightarrow> id_step (id_at g a (HasNext previous n)) (id_at g a Entered)"
  using call [of "id_at g Idle b" 7] call [of "id_at g a Idle" 8]
    clock [of "id_at g Entered b" 7 now pid] clock [of "id_at g a Entered" 8 now pid]
    load [of "id_at g (HasCandidate c) b" 7 c previous] load [of "id_at g a (HasCandidate c)" 8 c previous]
    exchange [of "id_at g (HasNext previous n) b" 7 previous n] exchange [of "id_at g a (HasNext previous n)" 8 previous n]
    retry [of "id_at g a (HasNext previous n)" 8 previous n]
  unfolding id_at_updates by (simp_all add: id_at_def)

lemmas id_go = reach_step [where init = id_init and step = id_step]

theorem identifiers_distinct_witness:
  "\<exists>s. reach id_init id_step s \<and>
     is_given s = [from_unix_time (1, 0) 5 + 1, from_unix_time (1, 0) 5] \<and>
     distinct (filter (\<lambda>i. i \<noteq> - 1) (is_given s)) \<and> is_last s = hd (is_given s @ [0])"
proof -
  let ?c = "from_unix_time (1, 0) 5"
  have nxt: "next_identifier ?c 0 = ?c" "next_identifier ?c ?c = ?c + 1"
    by (simp_all add: next_identifier_def saturating_add_def from_unix_time_def from_boot_parts_def push_bit_eq_mult)
  have c0: "?c \<noteq> 0"
    by (simp add: from_unix_time_def from_boot_parts_def push_bit_eq_mult)
  have "reach id_init id_step (id_at [] Idle Idle)"
    by (rule reach_init) (auto simp: id_init_def id_at_def)
  then have "reach id_init id_step (id_at [] Entered Entered)"
    by (meson reach_step id_at_steps(1,2))
  then have "reach id_init id_step (id_at [] (HasCandidate ?c) (HasCandidate ?c))"
    by (meson reach_step id_at_steps(3,4))
  then have "reach id_init id_step (id_at [] (HasNext 0 (next_identifier ?c 0)) (HasNext 0 (next_identifier ?c 0)))"
    by (rule id_go [OF id_go [OF _ id_at_steps(5)] id_at_steps(6)]) simp_all
  then have "reach id_init id_step (id_at [?c] Idle (HasNext 0 ?c))"
    unfolding nxt by (rule id_go [OF _ id_at_steps(7)]) simp
  then have "reach id_init id_step (id_at [?c] Idle Entered)"
    by (rule id_go [OF _ id_at_steps(9)]) (simp add: c0)
  then have "reach id_init id_step (id_at [?c] Idle (HasNext ?c (next_identifier ?c ?c)))"
    by (rule id_go [OF id_go [OF _ id_at_steps(4)] id_at_steps(6)]) simp
  then have r: "reach id_init id_step (id_at [?c + 1, ?c] Idle Idle)"
    unfolding nxt by (rule id_go [OF _ id_at_steps(8)]) simp
  have "is_given (id_at [?c + 1, ?c] Idle Idle) = [?c + 1, ?c]"
    by (simp add: id_at_def)
  then show ?thesis
    using r identifiers_distinct [OF r] by blast
qed

end
