(* ===== verification/Scan.thy ===== *)
theory Scan
  imports Prelude Text_Std
begin

text \<open>
  The SQL statement splitter of the interactive client, \<^verbatim>\<open>crates/rpsql/src/scan.rs\<close>: the flex lexer of
  the original program as a state machine over bytes. The lexer keeps a start condition, nesting
  depths and the first identifiers of the statement from line to line, and a stack of input buffers:
  the line itself and the values of the variables being expanded in it. \<open>lex_step\<close> is one rule
  firing, \<open>lex_loop\<close> the loop of \<open>Scanner::scan\<close> around it (a \<open>partial_function\<close>, so that a scan that
  does not come back, or that is started without an input line, is \<open>None\<close>).

  Bytes are written as numerals: 39 is the single and 34 the double quote, 92 the backslash, 36 the
  dollar sign, 42 the star, 47 the slash, 45 and 43 the signs, 58 the colon, 59 the semicolon, 40 and
  41 the parentheses, 46 the dot. The variable source is the argument \<open>vars\<close>, the trait
  \<open>VariableSource\<close> with its one method. The nesting depths are \<open>i32\<close> in the source and integers here;
  no rule firing raises one by more than the bytes it consumes (\<open>depth_bounded\<close>).
\<close>

section \<open>Data\<close>

datatype lex_res = LexEol | LexSemi | LexBackslash

datatype scan_result = ScanSemicolon | ScanBackslash | ScanIncomplete | ScanEol

datatype prompt_status =
  PromptReady | PromptContinue | PromptComment | PromptSingleQuote | PromptDoubleQuote
| PromptDollarQuote | PromptParen | PromptCopy

datatype quote_type = Plain | SqlLiteral | SqlIdent | ShellArg

type_synonym variable_source = "bytes \<Rightarrow> quote_type \<Rightarrow> bytes option"

definition no_variables :: variable_source where
  "no_variables name quote = None"

datatype start_state = Initial | Xb | Xc | Xd | Xh | Xq | Xqs | Xe | Xdolq | Xui | Xus

record buf =
  buf_data :: bytes
  buf_pos :: nat
  buf_var :: "bytes option"

record scan_state =
  start_state :: start_state
  state_before_str_stop :: start_state
  paren_depth :: int
  xcdepth :: int
  dolqstart :: "bytes option"
  begin_depth :: int
  copy_stdin_count :: int
  init_idents_count :: nat
  init_idents :: bytes
  std_strings :: bool

text \<open>The stack of buffers has its top first.\<close>

record scanner =
  lex_state :: scan_state
  stack :: "buf list"

section \<open>Character classes\<close>

definition is_space_lex :: "byte \<Rightarrow> bool" where
  "is_space_lex c = (c \<in> {32, 9, 10, 13, 12, 11})"

definition is_non_newline_space :: "byte \<Rightarrow> bool" where
  "is_non_newline_space c = (c \<in> {32, 9, 12, 11})"

definition is_newline :: "byte \<Rightarrow> bool" where
  "is_newline c = (c \<in> {10, 13})"

definition is_ident_start :: "byte \<Rightarrow> bool" where
  "is_ident_start c = (65 \<le> c \<and> c \<le> 90 \<or> 97 \<le> c \<and> c \<le> 122 \<or> c = 95 \<or> 0x80 \<le> c)"

definition is_ident_cont :: "byte \<Rightarrow> bool" where
  "is_ident_cont c = (is_ident_start c \<or> is_ascii_digit c \<or> c = 36)"

definition is_dolq_start :: "byte \<Rightarrow> bool" where
  "is_dolq_start c = is_ident_start c"

definition is_dolq_cont :: "byte \<Rightarrow> bool" where
  "is_dolq_cont c = (is_ident_start c \<or> is_ascii_digit c)"

definition is_variable_char :: "byte \<Rightarrow> bool" where
  "is_variable_char c = is_dolq_cont c"

definition is_self :: "byte \<Rightarrow> bool" where
  "is_self c = (c \<in> {44, 40, 41, 91, 93, 46, 59, 58, 43, 45, 42, 47, 37, 94, 60, 62, 61})"

definition is_op_char :: "byte \<Rightarrow> bool" where
  "is_op_char c = (c \<in> {126, 33, 64, 35, 94, 38, 124, 96, 63, 43, 45, 42, 47, 37, 60, 62, 61})"

definition qualifies_trailing_sign :: "byte \<Rightarrow> bool" where
  "qualifies_trailing_sign c = (c \<in> {126, 33, 64, 35, 94, 38, 124, 96, 63, 37})"

definition is_hexdigit :: "byte \<Rightarrow> bool" where
  "is_hexdigit c = (is_ascii_digit c \<or> 65 \<le> c \<and> c \<le> 70 \<or> 97 \<le> c \<and> c \<le> 102)"

definition is_octdigit :: "byte \<Rightarrow> bool" where
  "is_octdigit c = (48 \<le> c \<and> c \<le> 55)"

definition is_digit_in_radix :: "byte \<Rightarrow> nat \<Rightarrow> bool" where
  "is_digit_in_radix c radix =
     (if radix = 16 then is_hexdigit c else if radix = 8 then is_octdigit c else c \<in> {48, 49})"

section \<open>Slices\<close>

text \<open>\<open>take_while(..).count()\<close>, \<open>starts_with\<close> and \<open>get\<close> on the rest of the buffer.\<close>

definition run_len :: "(byte \<Rightarrow> bool) \<Rightarrow> bytes \<Rightarrow> nat" where
  "run_len P bs = length (takeWhile P bs)"

definition begins_with :: "bytes \<Rightarrow> bytes \<Rightarrow> bool" where
  "begins_with pre bs = (take (length pre) bs = pre)"

definition byte_at :: "bytes \<Rightarrow> nat \<Rightarrow> byte option" where
  "byte_at bs i = (if i < length bs then Some (bs ! i) else None)"

definition find_window :: "bytes \<Rightarrow> bytes \<Rightarrow> nat option" where
  "find_window haystack needle =
     find (\<lambda>i. take (length needle) (drop i haystack) = needle) [0..<Suc (length haystack) - length needle]"

definition lower_ascii :: "byte \<Rightarrow> byte" where
  "lower_ascii c = (if 65 \<le> c \<and> c \<le> 90 then c + 32 else c)"

definition upper_ascii :: "byte \<Rightarrow> byte" where
  "upper_ascii c = (if 97 \<le> c \<and> c \<le> 122 then c - 32 else c)"

definition eq_ignore_case :: "bytes \<Rightarrow> bytes \<Rightarrow> bool" where
  "eq_ignore_case a b = (length a = length b \<and> list_all (\<lambda>(x, y). lower_ascii x = lower_ascii y) (zip a b))"

section \<open>The matchers\<close>

definition match_xcstop :: "bytes \<Rightarrow> nat option" where
  "match_xcstop r =
     (let stars = run_len (\<lambda>c. c = 42) r
      in if stars > 0 \<and> byte_at r stars = Some 47 then Some (stars + 1) else None)"

definition match_dolqdelim :: "bytes \<Rightarrow> nat option" where
  "match_dolqdelim r =
     (if byte_at r 0 \<noteq> Some 36 then None
      else if byte_at r 1 = Some 36 then Some 2
      else case byte_at r 1 of
        None \<Rightarrow> None
      | Some start \<Rightarrow>
          if \<not> is_dolq_start start then None
          else let tag = 1 + run_len is_dolq_cont (drop 2 r)
               in if byte_at r (1 + tag) = Some 36 then Some (2 + tag) else None)"

definition match_xe_escape :: "bytes \<Rightarrow> nat" where
  "match_xe_escape r =
     (case byte_at r 1 of
        None \<Rightarrow> 1
      | Some d \<Rightarrow>
          if d \<in> {117, 85} then
            2 + min (run_len is_hexdigit (drop 2 r)) (if d = 117 then 4 else 8)
          else
            let have = min (run_len is_hexdigit (drop 2 r)) 2
            in if d = 120 \<and> have > 0 then 2 + have
               else if is_octdigit d then 1 + min (run_len is_octdigit (drop 1 r)) 3
               else 2)"

text \<open>The two loops of \<open>match_quotecontinue\<close>: white space and comments before the newline, and after it.\<close>

function skip_before_newline :: "bytes \<Rightarrow> nat \<Rightarrow> nat" where
  "skip_before_newline r i =
     (if i < length r \<and> is_non_newline_space (r ! i) then skip_before_newline r (i + 1)
      else if begins_with (bstr ''--'') (drop i r)
        then skip_before_newline r (i + run_len (\<lambda>c. \<not> is_newline c) (drop i r))
      else i)"
  by pat_completeness auto
termination
proof (relation "measure (\<lambda>(r, i). length r - i)", goal_cases)
  case (3 r i)
  then have "drop i r \<noteq> []" "hd (drop i r) = 45"
    by (cases "drop i r"; simp add: begins_with_def)+
  then show ?case
    by (cases "drop i r") (auto simp: run_len_def is_newline_def not_less_eq_eq intro!: diff_less_mono2
      dest: arg_cong [where f = length])
qed auto

function skip_after_newline :: "bytes \<Rightarrow> nat \<Rightarrow> nat" where
  "skip_after_newline r i =
     (if i < length r \<and> is_space_lex (r ! i) then skip_after_newline r (i + 1)
      else if begins_with (bstr ''--'') (drop i r) then
        let comment = run_len (\<lambda>c. \<not> is_newline c) (drop i r)
        in if (case byte_at r (i + comment) of None \<Rightarrow> False | Some c \<Rightarrow> is_newline c)
           then skip_after_newline r (i + comment + 1) else i
      else i)"
  by pat_completeness auto
termination
  by (relation "measure (\<lambda>(r, i). length r - i)") (auto simp: byte_at_def split: option.splits if_splits)

declare skip_before_newline.simps [simp del] skip_after_newline.simps [simp del]

definition match_quotecontinue :: "bytes \<Rightarrow> nat option" where
  "match_quotecontinue r =
     (let i = skip_before_newline r 0
      in if i \<ge> length r \<or> \<not> is_newline (r ! i) then None
         else let j = skip_after_newline r (i + 1)
              in if byte_at r j = Some 39 then Some (j + 1) else None)"

definition digits_from :: "bytes \<Rightarrow> nat \<Rightarrow> nat" where
  "digits_from r i = run_len (\<lambda>c. is_ascii_digit c \<or> c = 95) (drop i r)"

definition match_radix_number :: "nat \<Rightarrow> bytes \<Rightarrow> nat" where
  "match_radix_number radix r =
     (let n = run_len (\<lambda>c. c = 95 \<or> is_digit_in_radix c radix) (drop 2 r);
          n = (if n = 0 then (if byte_at r 2 = Some 95 then 1 else 0) else n)
      in 2 + n + run_len is_ident_cont (drop (2 + n) r))"

definition match_exponent :: "bytes \<Rightarrow> nat \<Rightarrow> nat" where
  "match_exponent r i =
     (if byte_at r i \<in> {Some 101, Some 69} then
        let j = (if byte_at r (i + 1) \<in> {Some 43, Some 45} then i + 2 else i + 1);
            e = digits_from r j
        in if e > 0 then j + e else j
      else i)"

definition number_radix :: "bytes \<Rightarrow> nat option" where
  "number_radix r =
     (if byte_at r 0 \<noteq> Some 48 then None
      else if byte_at r 1 \<in> {Some 120, Some 88} then Some 16
      else if byte_at r 1 \<in> {Some 111, Some 79} then Some 8
      else if byte_at r 1 \<in> {Some 98, Some 66} then Some 2
      else None)"

definition match_number :: "bytes \<Rightarrow> nat" where
  "match_number r =
     (case number_radix r of
        Some radix \<Rightarrow> match_radix_number radix r
      | None \<Rightarrow>
          let i = digits_from r 0
          in if begins_with (bstr ''..'') (drop i r) then i
             else let i = (if byte_at r i = Some 46 then i + 1 + digits_from r (i + 1) else i);
                      i = match_exponent r i
                  in i + run_len is_ident_cont (drop i r))"

text \<open>The loop of \<open>operator_length\<close> that gives the trailing signs back.\<close>

fun strip_signs :: "bytes \<Rightarrow> nat \<Rightarrow> nat" where
  "strip_signs r 0 = 0"
| "strip_signs r (Suc n) = (if 1 < Suc n \<and> r ! n \<in> {43, 45} then strip_signs r n else Suc n)"

definition operator_length :: "bytes \<Rightarrow> nat" where
  "operator_length r =
     (let yyleng = run_len is_op_char r;
          slashstar = find_window (take yyleng r) (bstr ''/*'');
          dashdash = find_window (take yyleng r) (bstr ''--'');
          stop = (case (slashstar, dashdash) of
                    (Some a, Some b) \<Rightarrow> Some (min a b)
                  | (Some a, None) \<Rightarrow> Some a
                  | (None, b) \<Rightarrow> b);
          nchars = (case stop of Some n \<Rightarrow> n | None \<Rightarrow> yyleng);
          nchars = (if nchars > 1 \<and> r ! (nchars - 1) \<in> {43, 45} \<and>
                       \<not> list_ex qualifies_trailing_sign (rev (take (nchars - 1) r))
                    then strip_signs r nchars else nchars)
      in max nchars 1)"

section \<open>Escaping (\<^verbatim>\<open>variables.rs\<close>)\<close>

text \<open>Both functions walk over the characters of a string; the quotes are ASCII, so that walking over
  its bytes is the same.\<close>

fun double_byte :: "byte \<Rightarrow> bytes \<Rightarrow> bytes" where
  "double_byte q [] = []"
| "double_byte q (c # cs) = (if c = q then [q, c] else [c]) @ double_byte q cs"

definition escape_literal_text :: "bytes \<Rightarrow> bytes" where
  "escape_literal_text value = [39] @ double_byte 39 value @ [39]"

definition escape_identifier_text :: "bytes \<Rightarrow> bytes" where
  "escape_identifier_text value = [34] @ double_byte 34 value @ [34]"

section \<open>The lexer\<close>

definition upd :: "(scan_state \<Rightarrow> scan_state) \<Rightarrow> scanner \<Rightarrow> scanner" where
  "upd f s = s\<lparr>lex_state := f (lex_state s)\<rparr>"

definition goto :: "start_state \<Rightarrow> scanner \<Rightarrow> scanner" where
  "goto st s = upd (\<lambda>t. t\<lparr>start_state := st\<rparr>) s"

definition new_scanner :: scanner where
  "new_scanner =
     \<lparr>lex_state = \<lparr>start_state = Initial, state_before_str_stop = Initial, paren_depth = 0, xcdepth = 0,
                   dolqstart = None, begin_depth = 0, copy_stdin_count = 0, init_idents_count = 0,
                   init_idents = replicate 8 0, std_strings = True\<rparr>,
      stack = []\<rparr>"

definition setup_line :: "bytes \<Rightarrow> bool \<Rightarrow> scanner \<Rightarrow> scanner" where
  "setup_line line std s =
     (upd (\<lambda>t. t\<lparr>std_strings := std\<rparr>) s)\<lparr>stack := [\<lparr>buf_data = line, buf_pos = 0, buf_var = None\<rparr>]\<rparr>"

definition finish_line :: "scanner \<Rightarrow> scanner" where
  "finish_line s = s\<lparr>stack := []\<rparr>"

definition reset_scanner :: "scanner \<Rightarrow> scanner" where
  "reset_scanner s =
     upd (\<lambda>t. t\<lparr>start_state := Initial, paren_depth := 0, xcdepth := 0, dolqstart := None, begin_depth := 0,
               copy_stdin_count := 0, init_idents_count := 0\<rparr>) s"

definition in_quote :: "scanner \<Rightarrow> bool" where
  "in_quote s = (start_state (lex_state s) \<noteq> Initial)"

text \<open>Without a line the source panics here and in \<open>echo\<close>; \<open>lex_loop\<close> below is \<open>None\<close> then.\<close>

definition rest :: "scanner \<Rightarrow> bytes" where
  "rest s = (case stack s of [] \<Rightarrow> [] | b # bs \<Rightarrow> drop (buf_pos b) (buf_data b))"

definition skip_bytes :: "nat \<Rightarrow> scanner \<Rightarrow> scanner" where
  "skip_bytes n s =
     (case stack s of [] \<Rightarrow> s | b # bs \<Rightarrow> s\<lparr>stack := b\<lparr>buf_pos := buf_pos b + n\<rparr> # bs\<rparr>)"

definition echo :: "nat \<Rightarrow> scanner \<Rightarrow> bytes \<Rightarrow> scanner \<times> bytes" where
  "echo n s out = (skip_bytes n s, out @ take n (rest s))"

subsection \<open>Identifiers\<close>

definition is_create_routine :: "bytes \<Rightarrow> bool" where
  "is_create_routine idents =
     (idents ! 0 = 99 \<and>
      (idents ! 1 = 102 \<or> idents ! 1 = 112 \<or>
       idents ! 1 = 111 \<and> idents ! 2 = 114 \<and> (idents ! 3 = 102 \<or> idents ! 3 = 112)))"

definition is_copy_from_stdin :: "scan_state \<Rightarrow> bool" where
  "is_copy_from_stdin t =
     (let idents = init_idents t
      in idents ! 0 = 67 \<and>
         (case find (\<lambda>i. idents ! i = 70) [1..<length idents - 1] of
            None \<Rightarrow> False
          | Some i \<Rightarrow> idents ! (i + 1) = 83))"

definition record_initial_keyword :: "bytes \<Rightarrow> scan_state \<Rightarrow> scan_state" where
  "record_initial_keyword identifier t =
     (let n = init_idents_count t; first = hd identifier
      in if n < length (init_idents t) then
           let t = (if list_ex (eq_ignore_case identifier)
                         [bstr ''create'', bstr ''function'', bstr ''procedure'', bstr ''or'', bstr ''replace'']
                    then t\<lparr>init_idents := (init_idents t)[n := lower_ascii first]\<rparr>
                    else if list_ex (eq_ignore_case identifier)
                         [bstr ''copy'', bstr ''from'', bstr ''stdin'', bstr ''stdout'']
                    then t\<lparr>init_idents := (init_idents t)[n := upper_ascii first]\<rparr>
                    else t)
           in t\<lparr>init_idents_count := n + 1\<rparr>
         else t)"

definition track_identifier :: "bytes \<Rightarrow> scan_state \<Rightarrow> scan_state" where
  "track_identifier identifier t =
     (if paren_depth t \<noteq> 0 then t
      else
        let t = (if init_idents_count t = 0 then t\<lparr>init_idents := replicate 8 0\<rparr> else t);
            t = record_initial_keyword identifier t
        in if is_create_routine (init_idents t) then
             if eq_ignore_case identifier (bstr ''begin'') then t\<lparr>begin_depth := begin_depth t + 1\<rparr>
             else if eq_ignore_case identifier (bstr ''case'') then
               (if begin_depth t \<ge> 1 then t\<lparr>begin_depth := begin_depth t + 1\<rparr> else t)
             else if eq_ignore_case identifier (bstr ''end'') \<and> begin_depth t > 0
               then t\<lparr>begin_depth := begin_depth t - 1\<rparr>
             else t
           else t)"

text \<open>The bookkeeping at the end of a statement, and the count of the copies asked for at the end.\<close>

definition statement_end :: "scan_state \<Rightarrow> scan_state" where
  "statement_end t =
     (let t = (if is_copy_from_stdin t then t\<lparr>copy_stdin_count := copy_stdin_count t + 1\<rparr> else t)
      in t\<lparr>init_idents_count := 0\<rparr>)"

definition count_copy_from_stdin :: "scanner \<Rightarrow> int \<times> scanner" where
  "count_copy_from_stdin s =
     (let s = (if init_idents_count (lex_state s) > 0 then upd statement_end s else s)
      in (copy_stdin_count (lex_state s), s))"

subsection \<open>The rules inside quotes and comments\<close>

definition step_xc :: "scanner \<Rightarrow> bytes \<Rightarrow> scanner \<times> bytes" where
  "step_xc s out =
     (let r = rest s
      in if begins_with (bstr ''/*'') r then echo 2 (upd (\<lambda>t. t\<lparr>xcdepth := xcdepth t + 1\<rparr>) s) out
         else case match_xcstop r of
           Some n \<Rightarrow>
             echo n (if xcdepth (lex_state s) \<le> 0 then goto Initial s
                     else upd (\<lambda>t. t\<lparr>xcdepth := xcdepth t - 1\<rparr>) s) out
         | None \<Rightarrow>
             let inside = run_len (\<lambda>c. c \<noteq> 42 \<and> c \<noteq> 47) r
             in if inside > 0 then echo inside s out
                else echo (max (run_len (\<lambda>c. c = 42) r) 1) s out)"

definition quote_stop :: "start_state \<Rightarrow> scanner \<Rightarrow> scanner" where
  "quote_stop here s = upd (\<lambda>t. t\<lparr>state_before_str_stop := here, start_state := Xqs\<rparr>) s"

definition step_xb_xh :: "scanner \<Rightarrow> bytes \<Rightarrow> start_state \<Rightarrow> scanner \<times> bytes" where
  "step_xb_xh s out here =
     (let r = rest s
      in if r ! 0 = 39 then echo 1 (quote_stop here s) out
         else echo (run_len (\<lambda>c. c \<noteq> 39) r) s out)"

definition step_xq :: "scanner \<Rightarrow> bytes \<Rightarrow> scanner \<times> bytes" where
  "step_xq s out =
     (let r = rest s
      in if begins_with [39, 39] r then echo 2 s out
         else if r ! 0 = 39 then echo 1 (quote_stop (start_state (lex_state s)) s) out
         else echo (run_len (\<lambda>c. c \<noteq> 39) r) s out)"

definition step_xe :: "scanner \<Rightarrow> bytes \<Rightarrow> scanner \<times> bytes" where
  "step_xe s out =
     (let r = rest s
      in if begins_with [39, 39] r then echo 2 s out
         else if r ! 0 = 39 then echo 1 (quote_stop Xe s) out
         else if r ! 0 = 92 then echo (match_xe_escape r) s out
         else echo (run_len (\<lambda>c. c \<noteq> 92 \<and> c \<noteq> 39) r) s out)"

definition step_xqs :: "scanner \<Rightarrow> bytes \<Rightarrow> scanner \<times> bytes" where
  "step_xqs s out =
     (case match_quotecontinue (rest s) of
        Some n \<Rightarrow> echo n (goto (state_before_str_stop (lex_state s)) s) out
      | None \<Rightarrow> (goto Initial s, out))"

definition step_xdolq :: "scanner \<Rightarrow> bytes \<Rightarrow> scanner \<times> bytes" where
  "step_xdolq s out =
     (let r = rest s
      in case match_dolqdelim r of
           Some n \<Rightarrow>
             if dolqstart (lex_state s) = Some (take n r)
             then echo n (upd (\<lambda>t. t\<lparr>dolqstart := None, start_state := Initial\<rparr>) s) out
             else echo (n - 1) s out
         | None \<Rightarrow>
             if r ! 0 = 36 then echo (1 + run_len is_dolq_cont (drop 1 r)) s out
             else echo (run_len (\<lambda>c. c \<noteq> 36) r) s out)"

definition step_xd :: "scanner \<Rightarrow> bytes \<Rightarrow> scanner \<times> bytes" where
  "step_xd s out =
     (let r = rest s
      in if begins_with [34, 34] r then echo 2 s out
         else if r ! 0 = 34 then echo 1 (goto Initial s) out
         else echo (run_len (\<lambda>c. c \<noteq> 34) r) s out)"

subsection \<open>Variables\<close>

definition var_is_current_source :: "bytes \<Rightarrow> scanner \<Rightarrow> bool" where
  "var_is_current_source name s = list_ex (\<lambda>b. buf_var b = Some name) (stack s)"

definition push_buf :: "bytes \<Rightarrow> bytes \<Rightarrow> scanner \<Rightarrow> scanner" where
  "push_buf name value s = s\<lparr>stack := \<lparr>buf_data = value, buf_pos = 0, buf_var = Some name\<rparr> # stack s\<rparr>"

definition step_quoted_variable :: "variable_source \<Rightarrow> byte \<Rightarrow> scanner \<Rightarrow> bytes \<Rightarrow> scanner \<times> bytes" where
  "step_quoted_variable vars delim s out =
     (let r = rest s; name_len = run_len is_variable_char (drop 2 r)
      in if name_len > 0 \<and> byte_at r (2 + name_len) = Some delim then
           let name = utf8_lossy (take name_len (drop 2 r));
               value = (case vars name (if delim = 39 then SqlLiteral else SqlIdent) of
                          Some v \<Rightarrow> v
                        | None \<Rightarrow> if delim = 39 then escape_literal_text [] else escape_identifier_text name)
           in (skip_bytes (3 + name_len) s, out @ value)
         else echo 1 s out)"

definition step_variable_test :: "variable_source \<Rightarrow> scanner \<Rightarrow> bytes \<Rightarrow> scanner \<times> bytes" where
  "step_variable_test vars s out =
     (let r = rest s; name_len = run_len is_variable_char (drop 3 r)
      in if name_len > 0 \<and> byte_at r (3 + name_len) = Some 125 then
           (skip_bytes (4 + name_len) s,
            out @ (if vars (utf8_lossy (take name_len (drop 3 r))) Plain \<noteq> None
                   then bstr ''TRUE'' else bstr ''FALSE''))
         else echo 1 s out)"

definition step_plain_variable :: "variable_source \<Rightarrow> scanner \<Rightarrow> bytes \<Rightarrow> scanner \<times> bytes" where
  "step_plain_variable vars s out =
     (let r = rest s; name_len = run_len is_variable_char (drop 1 r)
      in if name_len = 0 then echo 1 s out
         else let name = utf8_lossy (take name_len (drop 1 r))
              in case vars name Plain of
                   None \<Rightarrow> echo (1 + name_len) s out
                 | Some value \<Rightarrow>
                     if var_is_current_source name s then echo (1 + name_len) s out
                     else (push_buf name value (skip_bytes (1 + name_len) s), out))"

definition step_colon :: "variable_source \<Rightarrow> scanner \<Rightarrow> bytes \<Rightarrow> scanner \<times> bytes" where
  "step_colon vars s out =
     (let r = rest s
      in if byte_at r 1 = Some 61 \<or> byte_at r 1 = Some 58 then echo (operator_length r) s out
         else if byte_at r 1 = Some 39 then step_quoted_variable vars 39 s out
         else if byte_at r 1 = Some 34 then step_quoted_variable vars 34 s out
         else if byte_at r 1 = Some 123 \<and> byte_at r 2 = Some 63 then step_variable_test vars s out
         else step_plain_variable vars s out)"

subsection \<open>The initial state\<close>

definition keep :: "scanner \<times> bytes \<Rightarrow> scanner \<times> bytes \<times> lex_res option" where
  "keep p = (fst p, snd p, None)"

text \<open>White space and line comments are dropped until the query buffer holds something.\<close>

definition suppressed :: "nat \<Rightarrow> scanner \<Rightarrow> bytes \<Rightarrow> scanner \<times> bytes" where
  "suppressed n s out = (if out = [] then (skip_bytes n s, out) else echo n s out)"

text \<open>The rules that open a quoted token after a letter: \<open>None\<close> when none of them applies.\<close>

definition step_prefixed_quote :: "scanner \<Rightarrow> bytes \<Rightarrow> (scanner \<times> bytes) option" where
  "step_prefixed_quote s out =
     (let r = rest s; c = r ! 0
      in if byte_at r 1 = Some 39 \<and> c \<in> {98, 66} then Some (echo 2 (goto Xb s) out)
         else if byte_at r 1 = Some 39 \<and> c \<in> {120, 88} then Some (echo 2 (goto Xh s) out)
         else if byte_at r 1 = Some 39 \<and> c \<in> {110, 78} then Some (echo 1 s out)
         else if byte_at r 1 = Some 39 \<and> c \<in> {101, 69} then Some (echo 2 (goto Xe s) out)
         else if c \<in> {117, 85} \<and> byte_at r 1 = Some 38 then
           Some (if byte_at r 2 = Some 39 then echo 3 (goto Xus s) out
                 else if byte_at r 2 = Some 34 then echo 3 (goto Xui s) out
                 else echo 1 s out)
         else None)"

definition step_dollar :: "scanner \<Rightarrow> bytes \<Rightarrow> scanner \<times> bytes" where
  "step_dollar s out =
     (let r = rest s
      in case match_dolqdelim r of
           Some n \<Rightarrow> echo n (upd (\<lambda>t. t\<lparr>dolqstart := Some (take n r), start_state := Xdolq\<rparr>) s) out
         | None \<Rightarrow>
             if (case byte_at r 1 of None \<Rightarrow> False | Some c \<Rightarrow> is_dolq_start c) then echo 1 s out
             else let digits = run_len is_ascii_digit (drop 1 r)
                  in if digits > 0 then echo (1 + digits + run_len is_ident_cont (drop (1 + digits) r)) s out
                     else echo 1 s out)"

definition at_top_level :: "scan_state \<Rightarrow> bool" where
  "at_top_level t = (paren_depth t = 0 \<and> begin_depth t = 0)"

definition step_semicolon :: "scanner \<Rightarrow> bytes \<Rightarrow> scanner \<times> bytes \<times> lex_res option" where
  "step_semicolon s out =
     (case echo 1 s out of (s, out) \<Rightarrow>
        if at_top_level (lex_state s) then (upd statement_end s, out, Some LexSemi) else (s, out, None))"

definition step_backslash :: "scanner \<Rightarrow> bytes \<Rightarrow> scanner \<times> bytes \<times> lex_res option" where
  "step_backslash s out =
     (let next_byte = byte_at (rest s) 1
      in if next_byte = Some 59 then
           let s = skip_bytes 2 s
           in (if at_top_level (lex_state s) then upd statement_end s else s, out @ [59], None)
         else if next_byte = Some 58 then (skip_bytes 2 s, out @ [58], None)
         else (skip_bytes 1 s, out, Some LexBackslash))"

definition step_identifier :: "scanner \<Rightarrow> bytes \<Rightarrow> scanner \<times> bytes" where
  "step_identifier s out =
     (let r = rest s; n = 1 + run_len is_ident_cont (drop 1 r)
      in echo n (upd (track_identifier (take n r)) s) out)"

definition step_initial ::
  "variable_source \<Rightarrow> scanner \<Rightarrow> bytes \<Rightarrow> scanner \<times> bytes \<times> lex_res option" where
  "step_initial vars s out =
     (let r = rest s; c = r ! 0
      in if is_space_lex c then keep (suppressed (run_len is_space_lex r) s out)
         else if begins_with (bstr ''--'') r then keep (suppressed (run_len (\<lambda>b. \<not> is_newline b) r) s out)
         else if begins_with (bstr ''/*'') r then
           keep (echo 2 (upd (\<lambda>t. t\<lparr>xcdepth := 0, start_state := Xc\<rparr>) s) out)
         else case step_prefixed_quote s out of
           Some p \<Rightarrow> keep p
         | None \<Rightarrow>
             if c = 39 then keep (echo 1 (goto (if std_strings (lex_state s) then Xq else Xe) s) out)
             else if c = 34 then keep (echo 1 (goto Xd s) out)
             else if c = 36 then keep (step_dollar s out)
             else if c = 40 then keep (echo 1 (upd (\<lambda>t. t\<lparr>paren_depth := paren_depth t + 1\<rparr>) s) out)
             else if c = 41 then
               keep (echo 1 (if paren_depth (lex_state s) > 0
                             then upd (\<lambda>t. t\<lparr>paren_depth := paren_depth t - 1\<rparr>) s else s) out)
             else if c = 59 then step_semicolon s out
             else if c = 92 then step_backslash s out
             else if c = 58 then keep (step_colon vars s out)
             else if is_op_char c then keep (echo (operator_length r) s out)
             else if is_ascii_digit c \<or>
                     c = 46 \<and> (case byte_at r 1 of None \<Rightarrow> False | Some d \<Rightarrow> is_ascii_digit d)
               then keep (echo (match_number r) s out)
             else if is_ident_start c then keep (step_identifier s out)
             else if is_self c then keep (echo 1 s out)
             else keep (echo 1 s out))"

subsection \<open>One rule firing, and the scan\<close>

definition lex_step ::
  "variable_source \<Rightarrow> scanner \<Rightarrow> bytes \<Rightarrow> scanner \<times> bytes \<times> lex_res option" where
  "lex_step vars s out =
     (if rest s = [] then
        (if length (stack s) > 1 then (s\<lparr>stack := tl (stack s)\<rparr>, out, None) else (s, out, Some LexEol))
      else case start_state (lex_state s) of
        Xc \<Rightarrow> keep (step_xc s out)
      | Xb \<Rightarrow> keep (step_xb_xh s out Xb)
      | Xh \<Rightarrow> keep (step_xb_xh s out Xh)
      | Xq \<Rightarrow> keep (step_xq s out)
      | Xus \<Rightarrow> keep (step_xq s out)
      | Xe \<Rightarrow> keep (step_xe s out)
      | Xqs \<Rightarrow> keep (step_xqs s out)
      | Xdolq \<Rightarrow> keep (step_xdolq s out)
      | Xd \<Rightarrow> keep (step_xd s out)
      | Xui \<Rightarrow> keep (step_xd s out)
      | Initial \<Rightarrow> step_initial vars s out)"

partial_function (option) lex_loop ::
  "variable_source \<Rightarrow> scanner \<Rightarrow> bytes \<Rightarrow> (lex_res \<times> scanner \<times> bytes) option" where
  "lex_loop vars s out =
     (if stack s = [] then None
      else case lex_step vars s out of (s', out', r) \<Rightarrow>
        (case r of Some res \<Rightarrow> Some (res, s', out') | None \<Rightarrow> lex_loop vars s' out'))"

declare lex_loop.simps [code]

definition scan_outcome :: "lex_res \<Rightarrow> scan_state \<Rightarrow> bytes \<Rightarrow> scan_result \<times> prompt_status" where
  "scan_outcome res t out =
     (case res of
        LexSemi \<Rightarrow> (ScanSemicolon, PromptReady)
      | LexBackslash \<Rightarrow> (ScanBackslash, PromptReady)
      | LexEol \<Rightarrow>
          if start_state t \<in> {Initial, Xqs} then
            if paren_depth t > 0 then (ScanIncomplete, PromptParen)
            else if begin_depth t > 0 then (ScanIncomplete, PromptContinue)
            else if out = [] then (ScanIncomplete, PromptReady)
            else (ScanEol, PromptContinue)
          else if start_state t \<in> {Xb, Xh, Xe, Xq, Xus} then (ScanIncomplete, PromptSingleQuote)
          else if start_state t = Xc then (ScanIncomplete, PromptComment)
          else if start_state t \<in> {Xd, Xui} then (ScanIncomplete, PromptDoubleQuote)
          else (ScanIncomplete, PromptDollarQuote))"

definition scan_query ::
  "variable_source \<Rightarrow> scanner \<Rightarrow> bytes \<Rightarrow> ((scan_result \<times> prompt_status) \<times> scanner \<times> bytes) option" where
  "scan_query vars s out =
     (case lex_loop vars s out of
        None \<Rightarrow> None
      | Some (res, s', out') \<Rightarrow> Some (scan_outcome res (lex_state s') out', s', out'))"

text \<open>\<open>common.rs\<close> asks a fresh scanner how many copies from standard input a query holds; an answer
  outside \<open>usize\<close> counts as none.\<close>

definition query_copy_count :: "bytes \<Rightarrow> bool \<Rightarrow> nat option" where
  "query_copy_count query std =
     (case scan_query no_variables (setup_line query std new_scanner) [] of
        None \<Rightarrow> None
      | Some (_, s, _) \<Rightarrow> Some (nat (fst (count_copy_from_stdin s))))"

section \<open>Lengths of the lexemes\<close>

text \<open>Every matcher answers with at least one byte and no more than the buffer holds, so that no slice of
  the source is taken out of range and every echo moves the read position forward.\<close>

named_theorems lexeme_simps \<open>bounds of the matchers\<close>

lemma run_len_le [lexeme_simps]: "run_len P r \<le> length r"
  by (simp add: run_len_def length_takeWhile_le)

lemma run_len_drop_le [lexeme_simps]: "k \<le> length r \<Longrightarrow> k + run_len P (drop k r) \<le> length r"
  using run_len_le [of P "drop k r"] by simp

lemma run_len_pos: "\<lbrakk>r \<noteq> []; P (r ! 0)\<rbrakk> \<Longrightarrow> 0 < run_len P r"
  by (cases r) (simp_all add: run_len_def)

lemma run_len_all: "list_all P (take (run_len P r) r)"
  by (simp add: run_len_def takeWhile_eq_take [symmetric] list_all_iff) (meson set_takeWhileD)

lemma byte_at_Some [simp]: "byte_at r i = Some c \<longleftrightarrow> i < length r \<and> r ! i = c"
  by (auto simp: byte_at_def)

lemma byte_at_append [simp]: "byte_at (xs @ ys) (length xs) = byte_at ys 0"
  by (simp add: byte_at_def nth_append)

lemma begins_with_length: "begins_with p r \<Longrightarrow> length p \<le> length r"
  by (auto simp: begins_with_def dest: arg_cong [where f = length])

lemma match_xcstop_bounds: "match_xcstop r = Some n \<Longrightarrow> 0 < n \<and> n \<le> length r"
  by (auto simp: match_xcstop_def Let_def split: if_splits)

lemma match_dolqdelim_bounds: "match_dolqdelim r = Some n \<Longrightarrow> 2 \<le> n \<and> n \<le> length r"
  by (auto simp: match_dolqdelim_def Let_def byte_at_def split: if_splits)

lemma match_xe_escape_bounds:
  assumes "r \<noteq> []"
  shows "0 < match_xe_escape r \<and> match_xe_escape r \<le> length r"
proof (cases "byte_at r 1")
  case None
  then show ?thesis
    using assms by (cases r) (simp_all add: match_xe_escape_def)
next
  case (Some d)
  then have "2 \<le> length r" and "2 + min (run_len is_hexdigit (drop 2 r)) k \<le> length r"
    and "1 + min (run_len is_octdigit (drop 1 r)) k \<le> length r" for k
    using run_len_drop_le [of 2 r is_hexdigit] run_len_drop_le [of 1 r is_octdigit] by simp_all
  then show ?thesis
    unfolding match_xe_escape_def Let_def Some option.case by simp
qed

lemma skip_before_newline_le: "i \<le> length r \<Longrightarrow> skip_before_newline r i \<le> length r"
proof (induction r i rule: skip_before_newline.induct)
  case (1 r i)
  have "i + run_len (\<lambda>c. \<not> is_newline c) (drop i r) \<le> length r"
    using "1.prems" by (rule run_len_drop_le)
  with 1 show ?case
    by (subst skip_before_newline.simps) auto
qed

lemma skip_after_newline_le: "i \<le> length r \<Longrightarrow> skip_after_newline r i \<le> length r"
proof (induction r i rule: skip_after_newline.induct)
  case (1 r i)
  then show ?case
    by (subst skip_after_newline.simps) (simp add: Let_def split: option.split)
qed

lemma match_quotecontinue_bounds: "match_quotecontinue r = Some n \<Longrightarrow> 0 < n \<and> n \<le> length r"
  by (auto simp: match_quotecontinue_def Let_def split: if_splits)

lemma digits_from_le [lexeme_simps]: "i \<le> length r \<Longrightarrow> i + digits_from r i \<le> length r"
  by (simp add: digits_from_def run_len_drop_le)

lemma match_radix_number_bounds: "2 \<le> length r \<Longrightarrow> 0 < match_radix_number b r \<and> match_radix_number b r \<le> length r"
proof -
  assume two: "2 \<le> length r"
  let ?n = "run_len (\<lambda>c. c = 95 \<or> is_digit_in_radix c b) (drop 2 r)"
  let ?m = "if ?n = 0 then (if byte_at r 2 = Some 95 then 1 else 0) else ?n"
  have "2 + ?m \<le> length r"
    using two run_len_drop_le [OF two] by auto
  then have "2 + ?m + run_len is_ident_cont (drop (2 + ?m) r) \<le> length r"
    by (rule run_len_drop_le)
  then show ?thesis
    by (simp add: match_radix_number_def Let_def)
qed

lemma match_exponent_bounds: "i \<le> length r \<Longrightarrow> i \<le> match_exponent r i \<and> match_exponent r i \<le> length r"
  using digits_from_le [of _ r] by (auto simp: match_exponent_def Let_def)

lemma match_number_bounds:
  assumes "r \<noteq> []" and "is_ascii_digit (r ! 0) \<or> r ! 0 = 46 \<and> 1 < length r \<and> is_ascii_digit (r ! 1)"
  shows "0 < match_number r \<and> match_number r \<le> length r"
proof (cases "number_radix r")
  case None
  let ?d = "digits_from r 0"
  let ?i = "if byte_at r ?d = Some 46 then ?d + 1 + digits_from r (?d + 1) else ?d"
  have d: "?d \<le> length r"
    using digits_from_le [of 0 r] by simp
  have i: "?i \<le> length r"
    using d digits_from_le [of "?d + 1" r] by auto
  have dot: "?d = 0 \<and> 1 < length r \<and> r ! 1 \<noteq> 46" if "\<not> is_ascii_digit (r ! 0)"
    using assms that by (cases r) (auto simp: digits_from_def run_len_def is_ascii_digit_def)
  have digit: "0 < ?d" if "is_ascii_digit (r ! 0)"
    using assms that by (cases r) (auto simp: digits_from_def run_len_def)
  have nodots: "\<not> begins_with (bstr ''..'') (drop ?d r)" if "\<not> is_ascii_digit (r ! 0)"
    using dot [OF that] by (cases r; cases "tl r") (auto simp: begins_with_def)
  have pos: "0 < ?i" if "\<not> begins_with (bstr ''..'') (drop ?d r)"
    using digit dot assms by (cases "is_ascii_digit (r ! 0)") auto
  show ?thesis
  proof (cases "begins_with (bstr ''..'') (drop ?d r)")
    case True
    then show ?thesis
      using None d digit nodots by (simp add: match_number_def Let_def) blast
  next
    case False
    then show ?thesis
      using None pos [OF False] match_exponent_bounds [OF i]
        run_len_drop_le [of "match_exponent r ?i" r is_ident_cont]
      unfolding match_number_def Let_def by simp
  qed
next
  case (Some b)
  then have "2 \<le> length r"
    by (auto simp: number_radix_def split: if_splits)
  then show ?thesis
    using Some match_radix_number_bounds by (simp add: match_number_def)
qed

lemma strip_signs_le: "strip_signs r n \<le> n"
  by (induction n) auto

lemma find_window_le: "find_window h m = Some n \<Longrightarrow> n \<le> length h"
  by (auto simp: find_window_def find_Some_iff)

lemma operator_length_bounds:
  assumes "r \<noteq> []"
  shows "0 < operator_length r \<and> operator_length r \<le> length r"
proof -
  let ?k = "run_len is_op_char r"
  have k: "?k \<le> length r"
    by (rule run_len_le)
  have w: "n \<le> length r" if "find_window (take ?k r) m = Some n" for n m
    using find_window_le [OF that] by simp
  have strip: "strip_signs r n \<le> length r" if "n \<le> length r" for n
    using strip_signs_le [of r n] that by simp
  have one: "1 \<le> length r"
    using assms by (cases r) simp_all
  show ?thesis
    unfolding operator_length_def Let_def
    using k w strip one by (simp add: less_max_iff_disj min_le_iff_disj split: option.split)
qed

section \<open>The rules as a step relation\<close>

text \<open>The states the lexer can be in: depths are not negative, at most eight identifiers are recorded, a
  dollar quote is open exactly while its opening delimiter is remembered, and the quote stop remembers
  which kind of string it may have to go back to.\<close>

definition state_ok :: "scan_state \<Rightarrow> bool" where
  "state_ok t =
     (0 \<le> paren_depth t \<and> 0 \<le> xcdepth t \<and> 0 \<le> begin_depth t \<and> 0 \<le> copy_stdin_count t \<and>
      length (init_idents t) = 8 \<and> init_idents_count t \<le> 8 \<and>
      (start_state t = Xdolq \<longleftrightarrow> dolqstart t \<noteq> None) \<and>
      (start_state t = Xqs \<longrightarrow> state_before_str_stop t \<in> {Xb, Xh, Xq, Xus, Xe}))"

text \<open>What a rule that consumes \<open>n\<close> bytes may do to the state.\<close>

definition fits :: "scan_state \<Rightarrow> nat \<Rightarrow> scan_state \<Rightarrow> bool" where
  "fits t n t' =
     (state_ok t \<longrightarrow> state_ok t' \<and> paren_depth t' \<le> paren_depth t + int n \<and> xcdepth t' \<le> xcdepth t + int n \<and>
        begin_depth t' \<le> begin_depth t + int n \<and> copy_stdin_count t' \<le> copy_stdin_count t + int n \<and>
        std_strings t' = std_strings t)"

definition blank_lexeme :: "bytes \<Rightarrow> bool" where
  "blank_lexeme l =
     (l \<noteq> [] \<and> (list_all is_space_lex l \<or> begins_with (bstr ''--'') l \<and> list_all (\<lambda>c. \<not> is_newline c) l))"

definition substitutes :: "bytes \<Rightarrow> bool" where
  "substitutes r =
     (r \<noteq> [] \<and> (r ! 0 = 92 \<or> r ! 0 = 58 \<and> byte_at r 1 \<in> {Some 39, Some 34, Some 123}))"

inductive fired :: "variable_source \<Rightarrow> scanner \<Rightarrow> bytes \<Rightarrow> scanner \<Rightarrow> bytes \<Rightarrow> bool" for vars where
  fired_echo: "\<lbrakk>0 < n; n \<le> length (rest s); fits (lex_state s) n t\<rbrakk> \<Longrightarrow>
    fired vars s out (skip_bytes n (s\<lparr>lex_state := t\<rparr>)) (out @ take n (rest s))"
| fired_drop: "\<lbrakk>0 < n; n \<le> length (rest s); blank_lexeme (take n (rest s))\<rbrakk> \<Longrightarrow>
    fired vars s [] (skip_bytes n s) []"
| fired_reread: "\<lbrakk>rest s \<noteq> []; start_state (lex_state s) = Xqs\<rbrakk> \<Longrightarrow> fired vars s out (goto Initial s) out"
| fired_substitute: "\<lbrakk>0 < n; n \<le> length (rest s); substitutes (rest s); start_state (lex_state s) = Initial;
    fits (lex_state s) n t\<rbrakk> \<Longrightarrow>
    fired vars s out (skip_bytes n (s\<lparr>lex_state := t\<rparr>)) (out @ v)"
| fired_expand: "\<lbrakk>0 < n; n \<le> length (rest s); start_state (lex_state s) = Initial;
    vars name Plain = Some v; \<not> var_is_current_source name s\<rbrakk> \<Longrightarrow>
    fired vars s out (push_buf name v (skip_bytes n s)) out"
| fired_pop: "\<lbrakk>rest s = []; stack s = b # b' # bs\<rbrakk> \<Longrightarrow> fired vars s out (s\<lparr>stack := b' # bs\<rparr>) out"

lemma rest_upd [simp]: "rest (upd f s) = rest s" "rest (goto st s) = rest s" "rest (quote_stop st s) = rest s"
  by (simp_all add: rest_def upd_def goto_def quote_stop_def)

lemma upd_id: "s = s\<lparr>lex_state := lex_state s\<rparr>"
  by simp

lemma fits_refl [simp]: "fits t n t"
  by (simp add: fits_def)

definition echoes :: "scanner \<Rightarrow> bytes \<Rightarrow> scanner \<times> bytes \<Rightarrow> bool" where
  "echoes s out p = (\<exists>n t. 0 < n \<and> n \<le> length (rest s) \<and> fits (lex_state s) n t \<and>
     p = (skip_bytes n (s\<lparr>lex_state := t\<rparr>), out @ take n (rest s)))"

lemma echoes_fired: "echoes s out p \<Longrightarrow> fired vars s out (fst p) (snd p)"
  unfolding echoes_def by (elim exE conjE) (simp add: fired_echo)

lemma echoes_upd: "\<lbrakk>0 < n; n \<le> length (rest s); fits (lex_state s) n (f (lex_state s))\<rbrakk> \<Longrightarrow> echoes s out (echo n (upd f s) out)"
  unfolding echoes_def echo_def rest_upd by (intro exI [of _ n] exI [of _ "f (lex_state s)"]) (simp add: upd_def)

lemma echoes_same: "\<lbrakk>0 < n; n \<le> length (rest s)\<rbrakk> \<Longrightarrow> echoes s out (echo n s out)"
  using echoes_upd [of n s id out] by (simp add: upd_def)

lemmas echoes_intros = echoes_upd echoes_same

text \<open>Every rule inside a quote or a comment echoes.\<close>

lemma rest_nonempty: "rest s \<noteq> [] \<Longrightarrow> 0 < length (rest s)"
  by simp

lemmas fits_defs = fits_def state_ok_def

lemma step_xc_echoes:
  assumes "rest s \<noteq> []" "start_state (lex_state s) = Xc"
  shows "echoes s out (step_xc s out)"
proof (cases "begins_with (bstr ''/*'') (rest s)")
  case True
  then show ?thesis
    using begins_with_length [OF True] assms
    by (simp add: step_xc_def) (rule echoes_upd; auto simp: fits_defs)
next
  case False
  have stars: "max (run_len (\<lambda>c. c = 42) (rest s)) 1 \<le> length (rest s)"
    using run_len_le [of _ "rest s"] assms(1) by (simp add: Suc_le_eq)
  show ?thesis
  proof (cases "match_xcstop (rest s)")
    case None
    then show ?thesis
      using False stars run_len_le [of _ "rest s"] unfolding step_xc_def Let_def
      by (auto intro!: echoes_same)
  next
    case (Some n)
    then show ?thesis
      using False match_xcstop_bounds [OF Some] assms unfolding step_xc_def Let_def goto_def
      by (auto intro!: echoes_upd simp: fits_defs)
  qed
qed

lemma step_quote_echoes:
  assumes "rest s \<noteq> []"
  shows "start_state (lex_state s) = here \<Longrightarrow> here \<in> {Xb, Xh} \<Longrightarrow> echoes s out (step_xb_xh s out here)"
    and "start_state (lex_state s) \<in> {Xq, Xus} \<Longrightarrow> echoes s out (step_xq s out)"
    and "start_state (lex_state s) = Xe \<Longrightarrow> echoes s out (step_xe s out)"
    and "start_state (lex_state s) \<in> {Xd, Xui} \<Longrightarrow> echoes s out (step_xd s out)"
  using assms run_len_pos [OF assms] run_len_le [of _ "rest s"] match_xe_escape_bounds [OF assms]
  unfolding step_xb_xh_def step_xq_def step_xe_def step_xd_def Let_def quote_stop_def goto_def
  by (auto intro!: echoes_intros simp: fits_defs Suc_le_eq dest: begins_with_length)

lemma step_xdolq_echoes:
  assumes "rest s \<noteq> []" "start_state (lex_state s) = Xdolq"
  shows "echoes s out (step_xdolq s out)"
proof (cases "match_dolqdelim (rest s)")
  case None
  have "1 + run_len is_dolq_cont (drop 1 (rest s)) \<le> length (rest s)"
    using assms(1) by (intro run_len_drop_le) (simp add: Suc_le_eq)
  then show ?thesis
    using None run_len_pos [OF assms(1)] run_len_le [of _ "rest s"]
    unfolding step_xdolq_def Let_def by (auto intro!: echoes_same)
next
  case (Some n)
  then show ?thesis
    using match_dolqdelim_bounds [OF Some] assms unfolding step_xdolq_def Let_def
    by (auto intro!: echoes_intros simp: fits_defs)
qed

lemma step_xqs_fired:
  assumes "rest s \<noteq> []" "start_state (lex_state s) = Xqs"
  shows "fired vars s out (fst (step_xqs s out)) (snd (step_xqs s out))"
proof (cases "match_quotecontinue (rest s)")
  case None
  then show ?thesis
    using assms by (simp add: step_xqs_def fired_reread)
next
  case (Some n)
  have "echoes s out (step_xqs s out)"
    using match_quotecontinue_bounds [OF Some] assms(2) unfolding step_xqs_def Some option.case goto_def
    by (intro echoes_upd) (auto simp: fits_defs)
  then show ?thesis
    by (rule echoes_fired)
qed

text \<open>The initial state.\<close>

lemma record_initial_keyword_same:
  "paren_depth (record_initial_keyword i t) = paren_depth t" "xcdepth (record_initial_keyword i t) = xcdepth t"
  "begin_depth (record_initial_keyword i t) = begin_depth t" "dolqstart (record_initial_keyword i t) = dolqstart t"
  "start_state (record_initial_keyword i t) = start_state t" "std_strings (record_initial_keyword i t) = std_strings t"
  "copy_stdin_count (record_initial_keyword i t) = copy_stdin_count t"
  "state_before_str_stop (record_initial_keyword i t) = state_before_str_stop t"
  "length (init_idents (record_initial_keyword i t)) = length (init_idents t)"
  by (simp_all add: record_initial_keyword_def Let_def)

lemma record_initial_keyword_count:
  "\<lbrakk>length (init_idents t) = 8; init_idents_count t \<le> 8\<rbrakk> \<Longrightarrow> init_idents_count (record_initial_keyword i t) \<le> 8"
  by (simp add: record_initial_keyword_def Let_def)

lemma track_identifier_fits: "0 < n \<Longrightarrow> fits t n (track_identifier i t)"
proof -
  assume "0 < n"
  define u where "u = (if init_idents_count t = 0 then t\<lparr>init_idents := replicate 8 0\<rparr> else t)"
  have u: "state_ok t \<Longrightarrow> init_idents_count (record_initial_keyword i u) \<le> 8"
    by (rule record_initial_keyword_count) (auto simp: u_def state_ok_def)
  have same: "paren_depth u = paren_depth t" "xcdepth u = xcdepth t" "begin_depth u = begin_depth t"
    "dolqstart u = dolqstart t" "start_state u = start_state t" "std_strings u = std_strings t"
    "copy_stdin_count u = copy_stdin_count t" "state_before_str_stop u = state_before_str_stop t"
    "state_ok t \<Longrightarrow> length (init_idents u) = 8"
    by (simp_all add: u_def state_ok_def)
  show ?thesis
    using \<open>0 < n\<close> u same unfolding track_identifier_def Let_def u_def [symmetric]
    by (simp add: fits_defs record_initial_keyword_same)
qed

lemma statement_end_fits: "0 < n \<Longrightarrow> fits t n (statement_end t)"
  by (simp add: fits_defs statement_end_def Let_def)

lemma step_dollar_echoes:
  assumes "rest s \<noteq> []" "start_state (lex_state s) = Initial"
  shows "echoes s out (step_dollar s out)"
proof (cases "match_dolqdelim (rest s)")
  case None
  have one: "1 \<le> length (rest s)"
    using assms(1) by (simp add: Suc_le_eq)
  let ?d = "run_len is_ascii_digit (drop 1 (rest s))"
  have "1 + ?d \<le> length (rest s)"
    using one by (rule run_len_drop_le)
  then have "1 + ?d + run_len is_ident_cont (drop (1 + ?d) (rest s)) \<le> length (rest s)"
    by (rule run_len_drop_le)
  then show ?thesis
    using None one unfolding step_dollar_def Let_def by (auto intro!: echoes_same split: option.split)
next
  case (Some n)
  then show ?thesis
    using match_dolqdelim_bounds [OF Some] assms(2) unfolding step_dollar_def Let_def
    by (auto intro!: echoes_upd simp: fits_defs)
qed

lemma step_identifier_echoes:
  assumes "rest s \<noteq> []"
  shows "echoes s out (step_identifier s out)"
proof -
  have "1 + run_len is_ident_cont (drop 1 (rest s)) \<le> length (rest s)"
    using assms by (intro run_len_drop_le) (simp add: Suc_le_eq)
  then show ?thesis
    unfolding step_identifier_def Let_def by (intro echoes_upd track_identifier_fits) simp_all
qed

lemma step_prefixed_quote_echoes:
  assumes "rest s \<noteq> []" "start_state (lex_state s) = Initial" "step_prefixed_quote s out = Some p"
  shows "echoes s out p"
  using assms unfolding step_prefixed_quote_def Let_def goto_def
  by (auto intro!: echoes_intros simp: fits_defs Suc_le_eq split: if_splits)

lemma suppressed_fired:
  assumes "0 < n" "n \<le> length (rest s)" "blank_lexeme (take n (rest s))"
  shows "fired vars s out (fst (suppressed n s out)) (snd (suppressed n s out))"
  using assms echoes_fired [OF echoes_same] by (auto simp: suppressed_def fired_drop)

lemma substitute_fired:
  assumes "0 < n" "n \<le> length (rest s)" "substitutes (rest s)" "start_state (lex_state s) = Initial"
  shows "fired vars s out (skip_bytes n s) (out @ v)"
  using fired_substitute [OF assms fits_refl] by simp

lemma step_colon_fired:
  assumes "rest s \<noteq> []" "start_state (lex_state s) = Initial" "rest s ! 0 = 58"
  shows "fired vars s out (fst (step_colon vars s out)) (snd (step_colon vars s out))"
proof -
  let ?r = "rest s"
  have one: "1 \<le> length ?r"
    using assms(1) by (simp add: Suc_le_eq)
  have echo1: "fired vars s out (fst (echo 1 s out)) (snd (echo 1 s out))"
    using one by (intro echoes_fired echoes_same) simp_all
  have name: "1 + run_len is_variable_char (drop 1 ?r) \<le> length ?r"
    using one by (rule run_len_drop_le)
  have plain: "fired vars s out (fst (step_plain_variable vars s out)) (snd (step_plain_variable vars s out))"
    using echo1 name assms echoes_fired [OF echoes_same, of _ s] fired_expand [of _ s]
    unfolding step_plain_variable_def Let_def by (auto split: option.split)
  have quoted: "fired vars s out (fst (step_quoted_variable vars q s out)) (snd (step_quoted_variable vars q s out))"
    if "byte_at ?r 1 = Some q" "q \<in> {39, 34}" for q
    using echo1 that assms substitute_fired [of _ s] unfolding step_quoted_variable_def Let_def
    by (auto simp: substitutes_def)
  have test: "fired vars s out (fst (step_variable_test vars s out)) (snd (step_variable_test vars s out))"
    if "byte_at ?r 1 = Some 123"
    using echo1 that assms substitute_fired [of _ s] unfolding step_variable_test_def Let_def
    by (auto simp: substitutes_def)
  have oper: "fired vars s out (fst (echo (operator_length ?r) s out)) (snd (echo (operator_length ?r) s out))"
    using operator_length_bounds [OF assms(1)] by (intro echoes_fired echoes_same) simp_all
  show ?thesis
    unfolding step_colon_def Let_def using plain quoted [of 39] quoted [of 34] test oper by simp
qed

lemma keep_None: "keep p = (s', out', r) \<longleftrightarrow> r = None \<and> s' = fst p \<and> out' = snd p"
  by (auto simp: keep_def)

text \<open>How a scan ends: at a semicolon outside every quote, comment, parenthesis and routine body; at a
  backslash outside every quote and comment; or at the end of the line.\<close>

definition ends_with :: "scanner \<Rightarrow> bytes \<Rightarrow> lex_res \<Rightarrow> scanner \<Rightarrow> bytes \<Rightarrow> bool" where
  "ends_with s out res s' out' =
     (case res of
        LexEol \<Rightarrow> rest s = [] \<and> length (stack s) \<le> 1 \<and> s' = s \<and> out' = out
      | LexSemi \<Rightarrow> start_state (lex_state s) = Initial \<and> at_top_level (lex_state s) \<and> (\<exists>r. rest s = 59 # r) \<and>
          s' = upd statement_end (skip_bytes 1 s) \<and> out' = out @ [59]
      | LexBackslash \<Rightarrow> start_state (lex_state s) = Initial \<and> (\<exists>r. rest s = 92 # r) \<and>
          s' = skip_bytes 1 s \<and> out' = out)"

lemma skip_bytes_lex_state [simp]: "lex_state (skip_bytes n s) = lex_state s"
  by (simp add: skip_bytes_def split: list.split)

lemma upd_skip: "upd f (skip_bytes n s) = skip_bytes n (s\<lparr>lex_state := f (lex_state s)\<rparr>)"
  by (simp add: upd_def skip_bytes_def split: list.split)

lemma step_semicolon_cases:
  assumes "rest s \<noteq> []" "rest s ! 0 = 59" "start_state (lex_state s) = Initial"
    and "step_semicolon s out = (s', out', r)"
  shows "case r of None \<Rightarrow> fired vars s out s' out' | Some res \<Rightarrow> ends_with s out res s' out'"
proof -
  obtain tl where tl: "rest s = 59 # tl"
    using assms(1,2) by (cases "rest s") simp_all
  then have "fired vars s out (skip_bytes 1 s) (out @ [59])"
    using fired_echo [of 1 s "lex_state s"] by simp
  then show ?thesis
    using tl assms(3,4) by (auto simp: step_semicolon_def echo_def ends_with_def split: if_splits)
qed

lemma step_backslash_cases:
  assumes "rest s \<noteq> []" "rest s ! 0 = 92" "start_state (lex_state s) = Initial"
    and "step_backslash s out = (s', out', r)"
  shows "case r of None \<Rightarrow> fired vars s out s' out' | Some res \<Rightarrow> ends_with s out res s' out'"
proof -
  have sub: "substitutes (rest s)"
    using assms(1,2) by (simp add: substitutes_def)
  obtain tl where tl: "rest s = 92 # tl"
    using assms(1,2) by (cases "rest s") simp_all
  have "fired vars s out (skip_bytes 2 s) (out @ v)" "fired vars s out (upd statement_end (skip_bytes 2 s)) (out @ v)"
    if "byte_at (rest s) 1 = Some c" for c v
    using that sub assms(3) substitute_fired [of 2 s] fired_substitute [OF _ _ sub assms(3) statement_end_fits, of 2]
    by (auto simp: upd_skip)
  then show ?thesis
    using tl assms(3,4) unfolding step_backslash_def Let_def
    by (auto simp: ends_with_def split: if_splits)
qed

lemma step_initial_cases:
  assumes ne: "rest s \<noteq> []" and init: "start_state (lex_state s) = Initial"
    and step: "step_initial vars s out = (s', out', r)"
  shows "case r of None \<Rightarrow> fired vars s out s' out' | Some res \<Rightarrow> ends_with s out res s' out'"
proof -
  let ?r = "rest s"
  have one: "1 \<le> length ?r"
    using ne by (simp add: Suc_le_eq)
  have space: "blank_lexeme (take (run_len is_space_lex ?r) ?r)" if "is_space_lex (?r ! 0)"
    using run_len_pos [OF ne, of is_space_lex] run_len_all [of is_space_lex ?r] that ne by (simp add: blank_lexeme_def)
  have comment: "2 \<le> run_len (\<lambda>b. \<not> is_newline b) ?r \<and> blank_lexeme (take (run_len (\<lambda>b. \<not> is_newline b) ?r) ?r)"
    if dashes: "begins_with (bstr ''--'') ?r"
  proof -
    obtain tail where "?r = 45 # 45 # tail"
      using dashes by (cases ?r; cases "tl ?r") (auto simp: begins_with_def)
    then show ?thesis
      using run_len_all [of "\<lambda>b. \<not> is_newline b" ?r]
      by (auto simp: blank_lexeme_def begins_with_def run_len_def is_newline_def)
  qed
  have e: "fired vars s out (fst (echo n (upd f s) out)) (snd (echo n (upd f s) out))"
    if "0 < n" "n \<le> length ?r" "fits (lex_state s) n (f (lex_state s))" for n f
    using that by (intro echoes_fired echoes_upd)
  have e0: "fired vars s out (fst (echo n s out)) (snd (echo n s out))" if "0 < n" "n \<le> length ?r" for n
    using echoes_fired [OF echoes_same [OF that]] .
  have num: "0 < match_number ?r \<and> match_number ?r \<le> length ?r"
    if "is_ascii_digit (?r ! 0) \<or> ?r ! 0 = 46 \<and> (case byte_at ?r 1 of None \<Rightarrow> False | Some d \<Rightarrow> is_ascii_digit d)"
    using match_number_bounds [OF ne] that by (auto simp: byte_at_def split: option.splits if_splits)
  have semi: "?r ! 0 = 59 \<Longrightarrow> step_semicolon s out = (s', out', None) \<Longrightarrow> fired vars s out s' out'"
      "?r ! 0 = 59 \<Longrightarrow> step_semicolon s out = (s', out', Some res) \<Longrightarrow> ends_with s out res s' out'" for res
    using step_semicolon_cases [OF ne _ init] by fastforce+
  have bsl: "?r ! 0 = 92 \<Longrightarrow> step_backslash s out = (s', out', None) \<Longrightarrow> fired vars s out s' out'"
      "?r ! 0 = 92 \<Longrightarrow> step_backslash s out = (s', out', Some res) \<Longrightarrow> ends_with s out res s' out'" for res
    using step_backslash_cases [OF ne _ init] by fastforce+
  note pre = echoes_fired [OF step_prefixed_quote_echoes [OF ne init]]
  note rules = space comment pre num operator_length_bounds [OF ne] run_len_le [of _ ?r]
    run_len_pos [OF ne] echoes_fired [OF step_dollar_echoes [OF ne init]]
    echoes_fired [OF step_identifier_echoes [OF ne]] step_colon_fired [OF ne init]
    semi bsl
  show ?thesis
    using step one rules unfolding step_initial_def Let_def goto_def
    by (auto simp: keep_None fits_defs init intro!: suppressed_fired e e0 dest: begins_with_length
        split: if_splits option.splits)
qed

lemma lex_step_cases:
  assumes "stack s \<noteq> []" "lex_step vars s out = (s', out', r)"
  shows "case r of None \<Rightarrow> fired vars s out s' out' | Some res \<Rightarrow> ends_with s out res s' out'"
proof (cases "rest s = []")
  case True
  then show ?thesis
    using assms by (cases "stack s"; cases "tl (stack s)")
      (auto simp: lex_step_def ends_with_def intro: fired_pop split: if_splits)
next
  case False
  then show ?thesis
    using assms(2) echoes_fired [OF step_xc_echoes [OF False]] echoes_fired [OF step_quote_echoes(1) [OF False]]
      echoes_fired [OF step_quote_echoes(2) [OF False]] echoes_fired [OF step_quote_echoes(3) [OF False]]
      echoes_fired [OF step_quote_echoes(4) [OF False]] echoes_fired [OF step_xdolq_echoes [OF False]]
      step_xqs_fired [OF False] step_initial_cases [OF False]
    by (cases "start_state (lex_state s)") (auto simp: lex_step_def keep_None)
qed

inductive lexes :: "variable_source \<Rightarrow> scanner \<Rightarrow> bytes \<Rightarrow> scanner \<Rightarrow> bytes \<Rightarrow> bool" for vars where
  lexes_refl: "lexes vars s out s out"
| lexes_step: "\<lbrakk>stack s \<noteq> []; fired vars s out s1 out1; lexes vars s1 out1 s' out'\<rbrakk> \<Longrightarrow> lexes vars s out s' out'"

text \<open>A scan that returns is a sequence of rule firings and one final step.\<close>

lemma lex_loop_sound:
  assumes "lex_loop vars s out = Some y"
  shows "\<exists>s1 out1. lexes vars s out s1 out1 \<and> stack s1 \<noteq> [] \<and> ends_with s1 out1 (fst y) (fst (snd y)) (snd (snd y))"
  using assms
proof (rule lex_loop.raw_induct [rotated])
  fix loop vars s out y
  assume IH: "\<And>vars s out y. loop vars s out = Some y \<Longrightarrow>
      \<exists>s1 out1. lexes vars s out s1 out1 \<and> stack s1 \<noteq> [] \<and> ends_with s1 out1 (fst y) (fst (snd y)) (snd (snd y))"
    and body: "(if stack s = [] then None
      else case lex_step vars s out of (s', out', r) \<Rightarrow>
        (case r of Some res \<Rightarrow> Some (res, s', out') | None \<Rightarrow> loop vars s' out')) = Some y"
  obtain s1 out1 r where st: "lex_step vars s out = (s1, out1, r)"
    by (cases "lex_step vars s out")
  from body have ne: "stack s \<noteq> []"
    by (auto split: if_splits)
  show "\<exists>s1 out1. lexes vars s out s1 out1 \<and> stack s1 \<noteq> [] \<and> ends_with s1 out1 (fst y) (fst (snd y)) (snd (snd y))"
  proof (cases r)
    case None
    then have "loop vars s1 out1 = Some y" and "fired vars s out s1 out1"
      using body st ne lex_step_cases [OF ne st] by auto
    then show ?thesis
      using IH ne lexes_step by meson
  next
    case (Some x)
    then show ?thesis
      using body st ne lex_step_cases [OF ne st] lexes_refl by fastforce
  qed
qed

subsection \<open>The state\<close>

lemma fired_state:
  assumes "fired vars s out s' out'" "state_ok (lex_state s)"
  shows "state_ok (lex_state s') \<and> std_strings (lex_state s') = std_strings (lex_state s)"
  using assms by (cases rule: fired.cases) (auto simp: fits_def goto_def upd_def push_buf_def state_ok_def)

lemma fired_stack_pos:
  assumes "fired vars s out s' out'" "\<forall>b \<in> set (stack s). buf_pos b \<le> length (buf_data b)" "stack s \<noteq> []"
  shows "stack s' \<noteq> [] \<and> (\<forall>b \<in> set (stack s'). buf_pos b \<le> length (buf_data b))"
  using assms
  by (cases rule: fired.cases) (auto simp: skip_bytes_def rest_def goto_def upd_def push_buf_def split: list.splits)

lemma rest_lex_state [simp]: "rest (s\<lparr>lex_state := t\<rparr>) = rest s"
  by (simp add: rest_def)

lemma rest_skip: "rest (skip_bytes n s) = drop n (rest s)"
  by (simp add: rest_def skip_bytes_def add.commute split: list.split)

text \<open>A firing that leaves the stack alone raises no depth by more than the bytes it consumes, and pushing or
  popping a buffer changes none: a depth never exceeds the number of bytes lexed.\<close>

lemma depth_bounded:
  assumes "fired vars s out s' out'" "state_ok (lex_state s)" "length (stack s') = length (stack s)"
  shows "paren_depth (lex_state s') + int (length (rest s')) \<le> paren_depth (lex_state s) + int (length (rest s)) \<and>
    xcdepth (lex_state s') + int (length (rest s')) \<le> xcdepth (lex_state s) + int (length (rest s)) \<and>
    begin_depth (lex_state s') + int (length (rest s')) \<le> begin_depth (lex_state s) + int (length (rest s)) \<and>
    copy_stdin_count (lex_state s') + int (length (rest s')) \<le> copy_stdin_count (lex_state s) + int (length (rest s))"
  using assms
proof (cases rule: fired.cases)
  case (fired_reread)
  then show ?thesis
    by (simp add: goto_def upd_def rest_def)
next
  case (fired_expand n name v)
  then show ?thesis
    using assms(3) by (simp add: push_buf_def skip_bytes_def split: list.splits)
qed (auto simp: rest_skip fits_def of_nat_diff)

subsection \<open>Termination\<close>

text \<open>A variable is not expanded inside its own value, so the buffers on the stack have different names and
  the nesting is bounded by the number of variables that are set. \<open>weight k\<close> bounds what one byte of a
  buffer can cost in whose expansion \<open>k\<close> more variables may be expanded, when no value is longer than \<open>l\<close>.\<close>

definition source_names :: "buf list \<Rightarrow> bytes set" where
  "source_names bs = {n. \<exists>b \<in> set bs. buf_var b = Some n}"

primrec weight :: "nat \<Rightarrow> nat \<Rightarrow> nat" where
  "weight l 0 = 2"
| "weight l (Suc k) = l * weight l k + 3"

fun stack_cost :: "bytes set \<Rightarrow> nat \<Rightarrow> buf list \<Rightarrow> nat" where
  "stack_cost N l [] = 0"
| "stack_cost N l (b # bs) =
     (length (buf_data b) - buf_pos b) * weight l (card (N - source_names (b # bs))) + 1 + stack_cost N l bs"

definition lex_cost :: "bytes set \<Rightarrow> nat \<Rightarrow> scanner \<Rightarrow> nat" where
  "lex_cost N l s = stack_cost N l (stack s) + (if start_state (lex_state s) = Xqs then 1 else 0)"

lemma weight_ge: "2 \<le> weight l k"
  by (cases k) simp_all

lemma source_names_skip [simp]: "source_names (b\<lparr>buf_pos := p\<rparr> # bs) = source_names (b # bs)"
  by (auto simp: source_names_def)

lemma stack_cost_skip:
  assumes "stack s = b # bs" "n \<le> length (rest s)"
  shows "stack_cost N l (stack (skip_bytes n s)) + n * weight l (card (N - source_names (stack s))) =
    stack_cost N l (stack s)"
proof -
  have "length (buf_data b) - (buf_pos b + n) + n = length (buf_data b) - buf_pos b"
    using assms by (simp add: rest_def)
  then show ?thesis
    using assms(1) by (simp add: skip_bytes_def add_mult_distrib [symmetric])
qed

lemma skip_cost_less:
  assumes "stack s \<noteq> []" "0 < n" "n \<le> length (rest s)"
  shows "stack_cost N l (stack (skip_bytes n (s\<lparr>lex_state := t\<rparr>))) + 2 \<le> stack_cost N l (stack s)"
proof -
  obtain b bs where st: "stack s = b # bs"
    using assms(1) by (cases "stack s") simp_all
  let ?s = "s\<lparr>lex_state := t\<rparr>"
  have "stack_cost N l (stack (skip_bytes n ?s)) + n * weight l (card (N - source_names (stack ?s))) =
      stack_cost N l (stack ?s)"
    using st assms(3) by (intro stack_cost_skip) (simp_all add: rest_def)
  moreover have "1 * 2 \<le> n * weight l (card (N - source_names (stack ?s)))"
    using assms(2) weight_ge by (intro mult_le_mono) simp_all
  ultimately show ?thesis
    by simp
qed

lemma expand_cost_less:
  assumes "finite N" "name \<in> N" "length v \<le> l" "stack s \<noteq> []" "0 < n" "n \<le> length (rest s)"
    and "\<not> var_is_current_source name s"
  shows "stack_cost N l (stack (push_buf name v (skip_bytes n s))) < stack_cost N l (stack s)"
proof -
  obtain b bs where st: "stack s = b # bs"
    using assms(4) by (cases "stack s") simp_all
  define free where "free = N - source_names (stack s)"
  have mem: "name \<in> free" and fin: "finite free"
    using assms by (auto simp: free_def source_names_def var_is_current_source_def list_ex_iff)
  then obtain k where k: "card free = Suc k"
    by (metis card_gt_0_iff empty_iff gr0_implies_Suc)
  have names: "source_names (stack (push_buf name v (skip_bytes n s))) = insert name (source_names (stack s))"
    by (auto simp: push_buf_def skip_bytes_def st source_names_def)
  then have "N - source_names (stack (push_buf name v (skip_bytes n s))) = free - {name}"
    by (auto simp: free_def)
  then have below: "card (N - source_names (stack (push_buf name v (skip_bytes n s)))) = k"
    using mem fin k by simp
  have "stack_cost N l (stack (push_buf name v (skip_bytes n s))) =
      length v * weight l k + 1 + stack_cost N l (stack (skip_bytes n s))"
    using below by (simp add: push_buf_def)
  also have "\<dots> < 1 * weight l (Suc k) + stack_cost N l (stack (skip_bytes n s))"
    using mult_le_mono1 [OF assms(3), of "weight l k"] unfolding weight.simps mult_1 by linarith
  also have "\<dots> \<le> n * weight l (Suc k) + stack_cost N l (stack (skip_bytes n s))"
    using assms(5) by (intro add_mono mult_le_mono) simp_all
  also have "\<dots> = stack_cost N l (stack s)"
    using stack_cost_skip [OF st assms(6), of N l] k by (simp add: free_def)
  finally show ?thesis .
qed

lemma fired_cost:
  assumes "fired vars s out s' out'" "stack s \<noteq> []" "finite {n. vars n Plain \<noteq> None}"
    and "\<And>n v. vars n Plain = Some v \<Longrightarrow> length v \<le> l"
  shows "lex_cost {n. vars n Plain \<noteq> None} l s' < lex_cost {n. vars n Plain \<noteq> None} l s"
proof -
  let ?N = "{n. vars n Plain \<noteq> None}"
  note skip = skip_cost_less [OF assms(2), of _ ?N l]
  show ?thesis
    using assms(1)
  proof (cases rule: fired.cases)
    case (fired_echo n t)
    then show ?thesis
      using skip [of n t] by (simp add: lex_cost_def)
  next
    case (fired_drop n)
    then show ?thesis
      using skip [of n "lex_state s"] by (simp add: lex_cost_def)
  next
    case fired_reread
    then show ?thesis
      by (simp add: lex_cost_def goto_def upd_def)
  next
    case (fired_substitute n t v)
    then show ?thesis
      using skip [of n t] by (simp add: lex_cost_def)
  next
    case (fired_expand n name v)
    then show ?thesis
      using expand_cost_less [OF assms(3) _ assms(4) assms(2), of name name v n] by (simp add: lex_cost_def push_buf_def)
  next
    case (fired_pop b b' bs)
    then show ?thesis
      by (simp add: lex_cost_def)
  qed
qed

definition scanner_ok :: "scanner \<Rightarrow> bool" where
  "scanner_ok s = (state_ok (lex_state s) \<and> stack s \<noteq> [] \<and> (\<forall>b \<in> set (stack s). buf_pos b \<le> length (buf_data b)))"

lemma fired_ok: "\<lbrakk>fired vars s out s' out'; scanner_ok s\<rbrakk> \<Longrightarrow> scanner_ok s'"
  using fired_state fired_stack_pos unfolding scanner_ok_def by blast

lemma lexes_ok: "\<lbrakk>lexes vars s out s' out'; scanner_ok s\<rbrakk> \<Longrightarrow> scanner_ok s'"
  by (induction rule: lexes.induct) (auto intro: fired_ok)

lemma statement_end_ok: "state_ok t \<Longrightarrow> state_ok (statement_end t)"
  using statement_end_fits [of 1 t] by (simp add: fits_def)

lemma ends_ok:
  assumes "ends_with s out res s' out'" "scanner_ok s"
  shows "scanner_ok s'"
proof -
  have "scanner_ok (skip_bytes 1 s)" if "rest s = c # r" for c r
  proof -
    obtain b bs where st: "stack s = b # bs" and pos: "buf_pos b \<le> length (buf_data b)"
      using assms(2) by (cases "stack s") (auto simp: scanner_ok_def)
    then have "buf_pos b + 1 \<le> length (buf_data b)"
      using that by (auto simp: rest_def le_less)
    then show ?thesis
      using assms(2) st by (auto simp: scanner_ok_def skip_bytes_def)
  qed
  then show ?thesis
    using assms statement_end_ok
    by (cases res) (auto simp: ends_with_def upd_def scanner_ok_def)
qed

lemma lex_loop_returns:
  assumes fin: "finite {n. vars n Plain \<noteq> None}" and "scanner_ok s"
  shows "\<exists>y. lex_loop vars s out = Some y"
proof -
  let ?l = "Max (insert 0 ((\<lambda>n. length (the (vars n Plain))) ` {n. vars n Plain \<noteq> None}))"
  have l: "length v \<le> ?l" if "vars n Plain = Some v" for n v
  proof (rule Max_ge)
    show "length v \<in> insert 0 ((\<lambda>n. length (the (vars n Plain))) ` {n. vars n Plain \<noteq> None})"
      using that by (intro insertI2 image_eqI [of _ _ n]) simp_all
  qed (use fin in simp)
  show ?thesis
    using assms(2)
  proof (induction "lex_cost {n. vars n Plain \<noteq> None} ?l s" arbitrary: s out rule: less_induct)
    case less
    obtain s1 out1 r where st: "lex_step vars s out = (s1, out1, r)"
      by (cases "lex_step vars s out")
    have ne: "stack s \<noteq> []"
      using less.prems by (simp add: scanner_ok_def)
    show ?case
    proof (cases r)
      case None
      then have f: "fired vars s out s1 out1"
        using lex_step_cases [OF ne st] by simp
      have "lex_cost {n. vars n Plain \<noteq> None} ?l s1 < lex_cost {n. vars n Plain \<noteq> None} ?l s"
        using f ne fin l by (rule fired_cost)
      then have "\<exists>y. lex_loop vars s1 out1 = Some y"
        using less.hyps fired_ok [OF f less.prems] by blast
      then show ?thesis
        using st ne None by (subst lex_loop.simps) simp
    next
      case (Some res)
      then show ?thesis
        using st ne by (subst lex_loop.simps) simp
    qed
  qed
qed

lemma setup_line_ok: "state_ok (lex_state s) \<Longrightarrow> scanner_ok (setup_line line std s)"
  by (simp add: scanner_ok_def setup_line_def upd_def state_ok_def)

lemma new_scanner_ok: "state_ok (lex_state new_scanner)"
  by (simp add: new_scanner_def state_ok_def)

lemma reset_scanner_ok: "scanner_ok s \<Longrightarrow> scanner_ok (reset_scanner s)"
  by (simp add: scanner_ok_def reset_scanner_def upd_def state_ok_def)

lemma count_copy_ok: "scanner_ok s \<Longrightarrow> scanner_ok (snd (count_copy_from_stdin s))"
  by (simp add: scanner_ok_def count_copy_from_stdin_def Let_def upd_def statement_end_ok)

text \<open>What a scan leaves behind, by its result.\<close>

definition scan_left :: "scan_result \<Rightarrow> scanner \<Rightarrow> bytes \<Rightarrow> bool" where
  "scan_left res s out =
     (case res of
        ScanSemicolon \<Rightarrow> out \<noteq> [] \<and> last out = 59 \<and> start_state (lex_state s) = Initial \<and> at_top_level (lex_state s)
      | ScanBackslash \<Rightarrow> start_state (lex_state s) = Initial
      | ScanIncomplete \<Rightarrow> rest s = [] \<and> length (stack s) = 1 \<and>
          (out = [] \<or> start_state (lex_state s) \<notin> {Initial, Xqs} \<or> \<not> at_top_level (lex_state s))
      | ScanEol \<Rightarrow> rest s = [] \<and> length (stack s) = 1 \<and>
          out \<noteq> [] \<and> start_state (lex_state s) \<in> {Initial, Xqs} \<and> at_top_level (lex_state s))"

lemma ends_left:
  assumes "ends_with s out res s' out'" "scanner_ok s"
  shows "scan_left (fst (scan_outcome res (lex_state s') out')) s' out'"
proof (cases res)
  case LexEol
  then have "length (stack s) = 1"
    using assms by (cases "stack s") (auto simp: ends_with_def scanner_ok_def)
  then show ?thesis
    using assms LexEol
    by (auto simp: ends_with_def scan_outcome_def scan_left_def at_top_level_def scanner_ok_def state_ok_def)
qed (use assms in \<open>auto simp: ends_with_def scan_outcome_def scan_left_def upd_def statement_end_def Let_def at_top_level_def\<close>)

lemma scan_query_run:
  assumes fin: "finite {n. vars n Plain \<noteq> None}" and ok: "scanner_ok s"
  obtains res s1 out1 s' out' where "lexes vars s out s1 out1" "ends_with s1 out1 res s' out'" "scanner_ok s1"
    "scan_query vars s out = Some (scan_outcome res (lex_state s') out', s', out')"
proof -
  obtain y where y: "lex_loop vars s out = Some y"
    using lex_loop_returns [of vars s out, OF assms] by blast
  obtain res s' out' where p: "y = (res, s', out')"
    by (cases y)
  obtain s1 out1 where "lexes vars s out s1 out1" "ends_with s1 out1 res s' out'"
    using lex_loop_sound [OF y] p by auto
  then show ?thesis
    using that [of s1 out1 res s' out'] y p lexes_ok [OF _ ok] by (simp add: scan_query_def)
qed

text \<open>The contract of the lexer with its variable source: finitely many variables are set. A scan then comes
  back, from any state the lexer can be in.\<close>

locale variable_provider =
  fixes vars :: variable_source
  assumes finitely_many: "finite {n. vars n Plain \<noteq> None}"
begin

lemma line_scans:
  assumes "scanner_ok s"
  shows "\<exists>res prompt s' out'. scan_query vars s out = Some ((res, prompt), s', out') \<and> scanner_ok s' \<and> scan_left res s' out'"
proof -
  obtain res s1 out1 s' out' where e: "ends_with s1 out1 res s' out'" "scanner_ok s1"
    and q: "scan_query vars s out = Some (scan_outcome res (lex_state s') out', s', out')"
    using scan_query_run [of vars s out, OF finitely_many assms] by metis
  then show ?thesis
    using ends_ok [OF e] ends_left [OF e] by (metis prod.collapse)
qed

end

interpretation unset: variable_provider no_variables
  by unfold_locales (simp add: no_variables_def)

text \<open>C34: A scan returns. Whatever the variables that are set (finitely many, as the variable space has) and
  however their values refer to each other and to themselves, scanning a line in any state the lexer
  can be in comes to an end, with no buffer read past its end; it leaves the lexer in such a state again.
  It says \<open>Semicolon\<close> only after putting a semicolon into the query buffer outside every quote,
  comment, parenthesis and routine body, and \<open>Incomplete\<close> or \<open>Eol\<close> only when the line and every
  variable value in it are used up, \<open>Eol\<close> exactly when what was collected can be a whole statement.\<close>

theorem scan_returns:
  assumes "finite {n. vars n Plain \<noteq> None}" "scanner_ok s"
  shows "\<exists>res prompt s' out'. scan_query vars s out = Some ((res, prompt), s', out') \<and> scanner_ok s' \<and> scan_left res s' out'"
  by (rule variable_provider.line_scans [OF variable_provider.intro [of vars, OF assms(1)] assms(2)])

text \<open>The count of the copies of a query always comes back.\<close>

lemma query_copy_count_returns: "\<exists>n. query_copy_count query std = Some n"
  using unset.line_scans [OF setup_line_ok [OF new_scanner_ok], of query std "[]"]
  by (auto simp: query_copy_count_def)

definition self_reference :: variable_source where
  "self_reference name quote = (if name = bstr ''x'' then Some (bstr ''1 + :x'') else None)"

theorem scan_returns_witness:
  "finite {n. self_reference n Plain \<noteq> None} \<and>
   scanner_ok (setup_line (bstr ''select :x;'') True new_scanner) \<and>
   (\<exists>res prompt s' out'. scan_query self_reference (setup_line (bstr ''select :x;'') True new_scanner) [] =
      Some ((res, prompt), s', out') \<and> scanner_ok s' \<and> scan_left res s' out')"
proof -
  have fin: "finite {n. self_reference n Plain \<noteq> None}"
    by (simp add: self_reference_def)
  moreover have ok: "scanner_ok (setup_line (bstr ''select :x;'') True new_scanner)"
    by (rule setup_line_ok [OF new_scanner_ok])
  ultimately show ?thesis
    using scan_returns [of self_reference _ "[]", OF fin ok] by blast
qed

section \<open>Nothing is lost\<close>

definition blank_text :: "bytes \<Rightarrow> bool" where
  "blank_text pre = (\<exists>ls. list_all blank_lexeme ls \<and> pre = concat ls)"

text \<open>No backslash, and no colon before a quote or a brace.\<close>

fun plain_text :: "bytes \<Rightarrow> bool" where
  "plain_text [] = True"
| "plain_text (c # cs) =
     (c \<noteq> 92 \<and> (c = 58 \<longrightarrow> cs = [] \<or> hd cs \<notin> {39, 34, 123}) \<and> plain_text cs)"

lemma plain_text_drop: "plain_text r \<Longrightarrow> plain_text (drop n r)"
  by (induction r arbitrary: n) (auto simp: drop_Cons split: nat.split)

lemma plain_text_not_substitutes: "plain_text r \<Longrightarrow> \<not> substitutes r"
  by (cases r; cases "tl r") (auto simp: substitutes_def byte_at_def)

lemma length_stack_skip [simp]: "length (stack (skip_bytes n s)) = length (stack s)"
  by (simp add: skip_bytes_def split: list.split)

lemma blank_text_Nil [simp]: "blank_text []"
  unfolding blank_text_def by (intro exI [of _ "[]"]) simp

lemma blank_text_lexeme: "\<lbrakk>blank_lexeme l; blank_text pre\<rbrakk> \<Longrightarrow> blank_text (l @ pre)"
  unfolding blank_text_def by (elim exE, rule_tac x = "l # ls" in exI) simp

lemma fired_plain:
  assumes "fired vars s out s1 out1" "length (stack s) = 1" "\<forall>n. vars n Plain = None" "plain_text (rest s)"
  shows "length (stack s1) = 1 \<and>
    (\<exists>l. rest s = l @ rest s1 \<and> (out1 = out @ l \<or> out = [] \<and> out1 = [] \<and> blank_lexeme l))"
  using assms(1)
proof (cases rule: fired.cases)
  case (fired_echo n t)
  then show ?thesis
    using assms(2) by (auto simp: rest_skip intro!: exI [of _ "take n (rest s)"])
next
  case (fired_drop n)
  then show ?thesis
    using assms(2) by (auto simp: rest_skip intro!: exI [of _ "take n (rest s)"])
qed (use assms plain_text_not_substitutes in \<open>auto simp: goto_def upd_def\<close>)

lemma lexes_plain:
  assumes "lexes vars s out s' out'" "length (stack s) = 1" "\<forall>n. vars n Plain = None" "plain_text (rest s)"
  shows "length (stack s') = 1 \<and> plain_text (rest s') \<and>
    (\<exists>pre mid. rest s = pre @ mid @ rest s' \<and> out' = out @ mid \<and> blank_text pre \<and> (out \<noteq> [] \<longrightarrow> pre = []))"
  using assms
proof (induction rule: lexes.induct)
  case (lexes_refl s out)
  then show ?case
    by (auto intro!: exI [of _ "[]"])
next
  case (lexes_step s out s1 out1 s' out')
  obtain l where l: "rest s = l @ rest s1" "out1 = out @ l \<or> out = [] \<and> out1 = [] \<and> blank_lexeme l"
    and one: "length (stack s1) = 1"
    using fired_plain [OF lexes_step.hyps(2) lexes_step.prems] by blast
  have "plain_text (rest s1)"
    using plain_text_drop [OF lexes_step.prems(3), of "length l"] l(1) by simp
  then obtain pre mid where ih: "length (stack s') = 1" "plain_text (rest s')" "rest s1 = pre @ mid @ rest s'"
    "out' = out1 @ mid" "blank_text pre" "out1 \<noteq> [] \<longrightarrow> pre = []"
    using lexes_step.IH [OF one lexes_step.prems(2)] by blast
  show ?case
  proof (cases "out1 = out @ l \<and> pre = []")
    case True
    then show ?thesis
      using ih l by (auto intro!: exI [of _ "[]"])
  next
    case False
    then have "out = []" "out1 = []" "l = [] \<or> blank_lexeme l"
      using l(2) ih(6) by auto
    then have "blank_text (l @ pre)"
      using ih(5) blank_text_lexeme by auto
    then show ?thesis
      using ih l(1) \<open>out = []\<close> \<open>out1 = []\<close> by (auto intro!: exI [of _ "l @ pre"])
  qed
qed

lemma none_set: "\<forall>n. vars n Plain = None \<Longrightarrow> finite {n. vars n Plain \<noteq> None}"
  by simp

text \<open>C35: Nothing is lost or invented. When no variable is set and the line has no backslash and no colon before
  a quote or a brace (casts and assignments are fine), the scan returns, and what it appends to the
  query buffer followed by what it leaves unread is the line, byte for byte, except that before the
  query buffer holds anything white space and line comments in front of the statement are dropped.
  It stops early only at a semicolon, which it keeps.\<close>

theorem scan_lossless:
  assumes "scanner_ok s" "length (stack s) = 1" "\<forall>n. vars n Plain = None" "plain_text (rest s)"
  shows "\<exists>res prompt s' pre mid. scan_query vars s out = Some ((res, prompt), s', out @ mid) \<and>
    rest s = pre @ mid @ rest s' \<and> blank_text pre \<and> (out \<noteq> [] \<longrightarrow> pre = []) \<and>
    (if res = ScanSemicolon then mid \<noteq> [] \<and> last mid = 59 else rest s' = [])"
proof -
  obtain res s1 out1 s' out' where lex: "lexes vars s out s1 out1" and e: "ends_with s1 out1 res s' out'"
    and q: "scan_query vars s out = Some (scan_outcome res (lex_state s') out', s', out')"
    using scan_query_run [of vars s out, OF none_set [of vars, OF assms(3)] assms(1)] by metis
  obtain pre mid where p: "plain_text (rest s1)" "rest s = pre @ mid @ rest s1" "out1 = out @ mid" "blank_text pre"
    "out \<noteq> [] \<longrightarrow> pre = []"
    using lexes_plain [OF lex assms(2,3,4)] by blast
  have "\<exists>mid'. out' = out @ mid' \<and> rest s = pre @ mid' @ rest s' \<and>
      (if fst (scan_outcome res (lex_state s') out') = ScanSemicolon then mid' \<noteq> [] \<and> last mid' = 59 else rest s' = [])"
  proof (cases res)
    case LexEol
    then show ?thesis
      using e p by (auto simp: ends_with_def scan_outcome_def)
  next
    case LexSemi
    then show ?thesis
      using e p by (auto simp: ends_with_def scan_outcome_def upd_skip rest_skip intro!: exI [of _ "mid @ [59]"])
  next
    case LexBackslash
    then show ?thesis
      using e p(1) by (auto simp: ends_with_def)
  qed
  then show ?thesis
    using q p(4,5) by (metis prod.collapse)
qed

theorem scan_lossless_witness:
  "\<exists>res prompt s' pre mid.
     scan_query no_variables (setup_line (bstr '' select a::int; x'') True new_scanner) [] = Some ((res, prompt), s', [] @ mid) \<and>
     rest (setup_line (bstr '' select a::int; x'') True new_scanner) = pre @ mid @ rest s' \<and> blank_text pre \<and>
     ([] \<noteq> ([] :: bytes) \<longrightarrow> pre = []) \<and>
     (if res = ScanSemicolon then mid \<noteq> [] \<and> last mid = 59 else rest s' = [])"
  by (rule scan_lossless [OF setup_line_ok [OF new_scanner_ok]])
    (simp_all add: setup_line_def no_variables_def rest_def upd_def)

section \<open>Two deviations\<close>

lemma lex_loop_step:
  "\<lbrakk>stack s \<noteq> []; lex_step vars s out = (s', out', None)\<rbrakk> \<Longrightarrow> lex_loop vars s out = lex_loop vars s' out'"
  by (subst lex_loop.simps) simp

lemma run_len_stop: "\<lbrakk>list_all P a; b = [] \<or> \<not> P (hd b)\<rbrakk> \<Longrightarrow> run_len P (a @ b) = length a"
proof -
  assume "list_all P a"
  moreover assume "b = [] \<or> \<not> P (hd b)"
  ultimately have "takeWhile P (a @ b) = a"
    by (cases b) (simp_all add: list_all_iff)
  then show ?thesis
    unfolding run_len_def by (rule arg_cong)
qed

lemma utf8_lossy_ascii: "\<forall>b \<in> set bs. b < 0x80 \<Longrightarrow> utf8_lossy bs = bs"
  by (induction bs) (simp_all add: utf8_chunk_def utf8_width_def Let_def)

lemma skip_skip: "skip_bytes n (skip_bytes m s) = skip_bytes (m + n) s"
  by (simp add: skip_bytes_def add.assoc split: list.split)

lemma var_is_current_source_skip [simp]: "var_is_current_source name (skip_bytes n s) = var_is_current_source name s"
  by (simp add: var_is_current_source_def skip_bytes_def split: list.split)

lemma variable_char_not_special: "is_variable_char c \<Longrightarrow> c \<notin> {61, 58, 39, 34, 123}"
  by (auto simp: is_variable_char_def is_dolq_cont_def is_ident_start_def is_ascii_digit_def)

lemma colon_step:
  assumes "start_state (lex_state s) = Initial" "rest s = 58 # r"
  shows "lex_step vars s out = keep (step_colon vars s out)"
  using assms by (simp add: lex_step_def step_initial_def is_space_lex_def begins_with_def step_prefixed_quote_def)

text \<open>C38: The cast operator does not protect the name after it. A comment at the rule for the colon says that
  \<^verbatim>\<open>::\<close> is an operator and not a variable; but the operator characters the rule measures do not include
  the colon, so that it consumes one colon only and the second begins a variable reference: with a
  variable of the type's name set, the scan of \<^verbatim>\<open>::name\<close> goes on with the value of the variable in place of
  the name and one colon in the query buffer.\<close>

theorem cast_expands_variable:
  assumes "stack s \<noteq> []" "start_state (lex_state s) = Initial" "rest s = [58, 58] @ name @ tail"
    and "name \<noteq> []" "list_all is_variable_char name" "\<forall>b \<in> set name. b < 0x80"
    and "tail = [] \<or> \<not> is_variable_char (hd tail)"
    and "vars name Plain = Some v" "\<not> var_is_current_source name s"
  shows "scan_query vars s out = scan_query vars (push_buf name v (skip_bytes (2 + length name) s)) (out @ [58])"
proof -
  obtain c w where name: "name = c # w"
    using assms(4) by (cases name) simp_all
  let ?s = "skip_bytes 1 s"
  have "operator_length (rest s) = 1"
    using assms(3) by (simp add: operator_length_def run_len_def is_op_char_def find_window_def Let_def)
  then have "lex_step vars s out = (?s, out @ [58], None)"
    using colon_step [of s "58 # name @ tail"] assms(2,3) by (simp add: step_colon_def keep_def echo_def)
  then have one: "lex_loop vars s out = lex_loop vars ?s (out @ [58])"
    using lex_loop_step [OF assms(1)] by blast
  have r: "rest ?s = 58 # name @ tail"
    using assms(3) by (simp add: rest_skip)
  have "run_len is_variable_char (name @ tail) = length name"
    using assms(5,7) by (rule run_len_stop)
  then have "step_colon vars ?s (out @ [58]) = (push_buf name v (skip_bytes (1 + length name) ?s), out @ [58])"
    using r name assms variable_char_not_special [of c] utf8_lossy_ascii [OF assms(6)]
    by (simp add: step_colon_def step_plain_variable_def byte_at_def)
  then have "lex_step vars ?s (out @ [58]) = (push_buf name v (skip_bytes (2 + length name) s), out @ [58], None)"
    using colon_step [OF _ r] assms(2) by (simp add: keep_def skip_skip)
  moreover have "stack ?s \<noteq> []"
    using assms(1) by (auto simp: skip_bytes_def split: list.split)
  ultimately show ?thesis
    using one lex_loop_step [of ?s] by (simp add: scan_query_def)
qed

definition type_named :: variable_source where
  "type_named name quote = (if name = bstr ''int'' then Some (bstr ''9'') else None)"

theorem cast_expands_witness:
  "scan_query type_named (setup_line ([58, 58] @ bstr ''int'' @ [59]) True new_scanner) [] =
   scan_query type_named
     (push_buf (bstr ''int'') (bstr ''9'')
       (skip_bytes (2 + length (bstr ''int'')) (setup_line ([58, 58] @ bstr ''int'' @ [59]) True new_scanner)))
     ([] @ [58])"
proof (rule cast_expands_variable)
  show "rest (setup_line ([58, 58] @ bstr ''int'' @ [59]) True new_scanner) = [58, 58] @ bstr ''int'' @ [59]"
    by (simp add: setup_line_def rest_def upd_def)
qed (simp_all add: setup_line_def upd_def new_scanner_def type_named_def var_is_current_source_def is_variable_char_def
    is_dolq_cont_def is_ident_start_def is_ascii_digit_def)

text \<open>An unset variable in quotes is not copied through. The documentation of the variable source says that
  the lexer copies the text unchanged when a variable is unset, and the comment at the rule that its name
  is emitted in quotes; for \<^verbatim>\<open>:'name'\<close> the lexer emits an empty literal instead, so that the name is lost
  from the query.\<close>

lemma unset_literal_is_empty:
  assumes "stack s \<noteq> []" "start_state (lex_state s) = Initial" "rest s = [58, 39] @ name @ [39] @ tail"
    and "name \<noteq> []" "list_all is_variable_char name" "vars (utf8_lossy name) SqlLiteral = None"
  shows "scan_query vars s out = scan_query vars (skip_bytes (3 + length name) s) (out @ [39, 39])"
proof -
  have "\<not> is_variable_char 39"
    using variable_char_not_special [of 39] by auto
  then have "run_len is_variable_char (name @ 39 # tail) = length name"
    using assms(5) by (intro run_len_stop) simp_all
  then have "step_colon vars s out = (skip_bytes (3 + length name) s, out @ [39, 39])"
    using assms(3,4,6)
    by (simp add: step_colon_def step_quoted_variable_def escape_literal_text_def byte_at_def nth_append)
  then have "lex_step vars s out = (skip_bytes (3 + length name) s, out @ [39, 39], None)"
    using colon_step [OF assms(2), of "39 # name @ 39 # tail"] assms(3) by (simp add: keep_def)
  then show ?thesis
    using lex_loop_step [OF assms(1)] by (simp add: scan_query_def)
qed

end
