(* ===== verification/Variables.thy ===== *)
theory Variables
  imports Scan Encoding
begin

text \<open>
  The variables of the interactive client, \<^verbatim>\<open>crates/rpsql/src/variables.rs\<close>: the space of named values in
  the order of their names, the substitute and assign hooks that some of them carry, the settings that
  are derived from the hooked ones, and the view of the space that the lexer asks for values.

  The one hook that reads a floating-point number, that of WATCH_INTERVAL, is the argument \<open>watch\<close>: what
  \<open>variable_double\<close> answers for a value, the number or a message that mentions the name; \<open>'f\<close> is the type
  of doubles. Strings are byte strings.
\<close>

section \<open>Hooks\<close>

datatype substitute_hook = SubBool | SubDefault bytes | SubIgnoreEof

datatype bool_field =
  BF_Autocommit | BF_OnErrorStop | BF_Quiet | BF_Singleline | BF_Singlestep | BF_ShowAllResults
| BF_HideCompression | BF_HideTableam

datatype num_field = NF_FetchCount | NF_Histsize | NF_Ignoreeof

datatype enum_field =
  EF_Echo | EF_EchoHidden | EF_OnErrorRollback | EF_CompCase | EF_Histcontrol | EF_Verbosity | EF_ShowContext

datatype prompt_field = PF_Prompt1 | PF_Prompt2 | PF_Prompt3

datatype assign_hook =
  AssignBool bool_field | AssignNum num_field | AssignWatchInterval | AssignEnum enum_field
| AssignPrompt prompt_field | AssignAccept

record variable =
  var_name :: bytes
  var_value :: "bytes option"
  var_substitute :: "substitute_hook option"
  var_assign :: "assign_hook option"

type_synonym variable_space = "variable list"

type_synonym 'f watch_reader = "bytes option \<Rightarrow> ('f, bytes \<Rightarrow> bytes) result"

section \<open>Reading values\<close>

text \<open>\<open>ParseVariableBool\<close>: \<open>None\<close> is a value that is not recognised, which leaves the slot alone.\<close>

definition prefix_word :: "bytes \<Rightarrow> string \<Rightarrow> bool" where
  "prefix_word value whole = (0 < length value \<and> length value \<le> length whole \<and> take (length value) (bstr whole) = value)"

definition parse_variable_bool :: "bytes option \<Rightarrow> bool option" where
  "parse_variable_bool value =
     (let value = map lower_ascii (case value of None \<Rightarrow> [] | Some v \<Rightarrow> v);
          at_least_two = (\<lambda>whole. 2 \<le> length value \<and> prefix_word value whole)
      in if prefix_word value ''true'' \<or> prefix_word value ''yes'' then Some True
         else if prefix_word value ''false'' \<or> prefix_word value ''no'' then Some False
         else if at_least_two ''on'' then Some True
         else if at_least_two ''off'' then Some False
         else if value = bstr ''1'' then Some True
         else if value = bstr ''0'' then Some False
         else None)"

text \<open>\<open>str::trim_start\<close>: the white space of Unicode, in UTF-8.\<close>

definition space_char_len :: "bytes \<Rightarrow> nat" where
  "space_char_len s =
     (if s \<noteq> [] \<and> (hd s = 32 \<or> 9 \<le> hd s \<and> hd s \<le> 13) then 1
      else if begins_with [0xC2, 0x85] s \<or> begins_with [0xC2, 0xA0] s then 2
      else if begins_with [0xE1, 0x9A, 0x80] s \<or> begins_with [0xE2, 0x81, 0x9F] s \<or> begins_with [0xE3, 0x80, 0x80] s then 3
      else if begins_with [0xE2, 0x80] s \<and> 2 < length s \<and>
              (0x80 \<le> s ! 2 \<and> s ! 2 \<le> 0x8A \<or> s ! 2 \<in> {0xA8, 0xA9, 0xAF}) then 3
      else 0)"

function trim_start :: "bytes \<Rightarrow> bytes" where
  "trim_start s = (if space_char_len s = 0 then s else trim_start (drop (space_char_len s) s))"
  by pat_completeness auto
termination
proof (relation "measure length", goal_cases)
  case (2 s)
  then have "s \<noteq> []"
    by (auto simp: space_char_len_def begins_with_def)
  with 2 show ?case
    by simp
qed simp

declare trim_start.simps [simp del]

text \<open>\<open>i64::from_str_radix\<close>: one sign, then at least one digit, and a value that fits.\<close>

definition radix_digit :: "byte \<Rightarrow> nat" where
  "radix_digit c =
     (if 48 \<le> c \<and> c \<le> 57 then unat (c - 48)
      else if 97 \<le> c \<and> c \<le> 122 then unat (c - 87)
      else if 65 \<le> c \<and> c \<le> 90 then unat (c - 55)
      else 36)"

definition from_str_radix :: "bytes \<Rightarrow> nat \<Rightarrow> int option" where
  "from_str_radix s radix =
     (let negative = (s \<noteq> [] \<and> hd s = 45);
          ds = (if s \<noteq> [] \<and> hd s \<in> {43, 45} then tl s else s);
          n = int (foldl (\<lambda>n c. radix * n + radix_digit c) 0 ds);
          v = (if negative then - n else n)
      in if ds = [] \<or> \<not> list_all (\<lambda>c. radix_digit c < radix) ds then None
         else if - (2 ^ 63) \<le> v \<and> v < 2 ^ 63 then Some v else None)"

text \<open>The source negates an \<open>i64\<close>, and the only magnitude whose negation does not fit is the smallest \<open>i64\<close>, which
  can be spelled because the digits may have a sign of their own (\<open>negation_overflows\<close>). A build with overflow
  checks panics there; without them the negation wraps and the number is refused as too large for
  an \<open>i32\<close>, which is what the model does.\<close>

definition parse_variable_num :: "bytes option \<Rightarrow> int option" where
  "parse_variable_num value =
     (let value = trim_start (case value of None \<Rightarrow> [] | Some v \<Rightarrow> v);
          negative = (value \<noteq> [] \<and> hd value = 45);
          digits = (if value \<noteq> [] \<and> hd value \<in> {43, 45} then tl value else value);
          (radix, digits) =
            (if begins_with (bstr ''0x'') digits \<or> begins_with (bstr ''0X'') digits then (16, drop 2 digits)
             else if 1 < length digits \<and> hd digits = 48 then (8, tl digits)
             else (10, digits))
      in case from_str_radix digits radix of
           None \<Rightarrow> None
         | Some magnitude \<Rightarrow>
             let v = (if negative then - magnitude else magnitude)
             in if - (2 ^ 31) \<le> v \<and> v < 2 ^ 31 then Some v else None)"

datatype echo_mode = EchoNone | EchoQueries | EchoErrors | EchoAll

definition parse_echo :: "bytes \<Rightarrow> echo_mode option" where
  "parse_echo value =
     (if value = bstr ''none'' then Some EchoNone
      else if value = bstr ''errors'' then Some EchoErrors
      else if value = bstr ''queries'' then Some EchoQueries
      else if value = bstr ''all'' then Some EchoAll
      else None)"

datatype echo_hidden_mode = EchoHiddenOff | EchoHiddenOn | EchoHiddenNoExec

definition parse_echo_hidden :: "bytes \<Rightarrow> echo_hidden_mode option" where
  "parse_echo_hidden value =
     (if value = bstr ''noexec'' then Some EchoHiddenNoExec
      else map_option (\<lambda>on. if on then EchoHiddenOn else EchoHiddenOff) (parse_variable_bool (Some value)))"

datatype rollback_mode = RollbackOff | RollbackInteractive | RollbackOn

definition parse_error_rollback :: "bytes \<Rightarrow> rollback_mode option" where
  "parse_error_rollback value =
     (if value = bstr ''interactive'' then Some RollbackInteractive
      else map_option (\<lambda>on. if on then RollbackOn else RollbackOff) (parse_variable_bool (Some value)))"

datatype comp_case_mode = PreserveUpper | PreserveLower | CompUpper | CompLower

definition parse_comp_case :: "bytes \<Rightarrow> comp_case_mode option" where
  "parse_comp_case value =
     (if value = bstr ''lower'' then Some CompLower
      else if value = bstr ''upper'' then Some CompUpper
      else if value = bstr ''preserve-lower'' then Some PreserveLower
      else if value = bstr ''preserve-upper'' then Some PreserveUpper
      else None)"

datatype hist_mode = HistNone | HistIgnoreSpace | HistIgnoreDups | HistIgnoreBoth

definition parse_histcontrol :: "bytes \<Rightarrow> hist_mode option" where
  "parse_histcontrol value =
     (if value = bstr ''none'' then Some HistNone
      else if value = bstr ''ignorespace'' then Some HistIgnoreSpace
      else if value = bstr ''ignoredups'' then Some HistIgnoreDups
      else if value = bstr ''ignoreboth'' then Some HistIgnoreBoth
      else None)"

datatype verbosity_mode = VerbosityTerse | VerbosityDefault | VerbosityVerbose | VerbositySqlstate

definition parse_verbosity :: "bytes \<Rightarrow> verbosity_mode option" where
  "parse_verbosity value =
     (if value = bstr ''default'' then Some VerbosityDefault
      else if value = bstr ''verbose'' then Some VerbosityVerbose
      else if value = bstr ''terse'' then Some VerbosityTerse
      else if value = bstr ''sqlstate'' then Some VerbositySqlstate
      else None)"

datatype context_mode = ContextNever | ContextErrors | ContextAlways

definition parse_show_context :: "bytes \<Rightarrow> context_mode option" where
  "parse_show_context value =
     (if value = bstr ''never'' then Some ContextNever
      else if value = bstr ''errors'' then Some ContextErrors
      else if value = bstr ''always'' then Some ContextAlways
      else None)"

section \<open>What the hooks do\<close>

fun apply_substitute :: "substitute_hook \<Rightarrow> bytes option \<Rightarrow> bytes option" where
  "apply_substitute SubBool newval =
     (case newval of None \<Rightarrow> Some (bstr ''off'') | Some v \<Rightarrow> Some (if v = [] then bstr ''on'' else v))"
| "apply_substitute (SubDefault d) newval = Some (case newval of None \<Rightarrow> d | Some v \<Rightarrow> v)"
| "apply_substitute SubIgnoreEof newval =
     (case newval of
        None \<Rightarrow> Some (bstr ''0'')
      | Some v \<Rightarrow> if parse_variable_num (Some v) \<noteq> None then Some v else Some (bstr ''10''))"

fun enum_suggestions :: "enum_field \<Rightarrow> bytes" where
  "enum_suggestions EF_Echo = bstr ''none, errors, queries, all''"
| "enum_suggestions EF_EchoHidden = bstr ''on, off, noexec''"
| "enum_suggestions EF_OnErrorRollback = bstr ''on, off, noexec''"
| "enum_suggestions EF_CompCase = bstr ''lower, upper, preserve-lower, preserve-upper''"
| "enum_suggestions EF_Histcontrol = bstr ''none, ignorespace, ignoredups, ignoreboth''"
| "enum_suggestions EF_Verbosity = bstr ''default, verbose, terse, sqlstate''"
| "enum_suggestions EF_ShowContext = bstr ''never, errors, always''"

definition quoted_name :: "bytes \<Rightarrow> bytes" where
  "quoted_name n = [34] @ n @ [34]"

definition text_or_empty :: "bytes option \<Rightarrow> bytes" where
  "text_or_empty value = (case value of None \<Rightarrow> [] | Some v \<Rightarrow> v)"

fun enum_accepts :: "enum_field \<Rightarrow> bytes \<Rightarrow> bool" where
  "enum_accepts EF_Echo v = (parse_echo v \<noteq> None)"
| "enum_accepts EF_EchoHidden v = (parse_echo_hidden v \<noteq> None)"
| "enum_accepts EF_OnErrorRollback v = (parse_error_rollback v \<noteq> None)"
| "enum_accepts EF_CompCase v = (parse_comp_case v \<noteq> None)"
| "enum_accepts EF_Histcontrol v = (parse_histcontrol v \<noteq> None)"
| "enum_accepts EF_Verbosity v = (parse_verbosity v \<noteq> None)"
| "enum_accepts EF_ShowContext v = (parse_show_context v \<noteq> None)"

fun check_assign :: "'f watch_reader \<Rightarrow> assign_hook \<Rightarrow> bytes \<Rightarrow> bytes option \<Rightarrow> (unit, bytes) result" where
  "check_assign watch (AssignBool f) name value =
     (if parse_variable_bool value \<noteq> None then Ok ()
      else Err (bstr ''unrecognized value '' @ quoted_name (text_or_empty value) @ bstr '' for '' @ quoted_name name @
                bstr '': Boolean expected''))"
| "check_assign watch (AssignNum f) name value =
     (if parse_variable_num value \<noteq> None then Ok ()
      else Err (bstr ''invalid value '' @ quoted_name (text_or_empty value) @ bstr '' for '' @ quoted_name name @
                bstr '': integer expected''))"
| "check_assign watch AssignWatchInterval name value =
     (case watch value of Ok _ \<Rightarrow> Ok () | Err message \<Rightarrow> Err (message name))"
| "check_assign watch (AssignEnum f) name value =
     (let v = text_or_empty value
      in if enum_accepts f v then Ok ()
         else Err (bstr ''unrecognized value '' @ quoted_name v @ bstr '' for '' @ quoted_name name @ [10] @
                   bstr ''Available values are: '' @ enum_suggestions f @ bstr ''.''))"
| "check_assign watch (AssignPrompt f) name value = Ok ()"
| "check_assign watch AssignAccept name value = Ok ()"

section \<open>The variable space\<close>

text \<open>\<open>binary_search_by\<close> on the names: \<open>Ok\<close> is where the name is, \<open>Err\<close> where it belongs.\<close>

definition var_position :: "variable_space \<Rightarrow> bytes \<Rightarrow> (nat, nat) result" where
  "var_position sp name =
     (if sp = [] then Err 0
      else let tbl = map (\<lambda>v. (var_name v, ())) sp;
               i = bsearch_loop tbl name 0 (length tbl)
           in if var_name (sp ! i) = name then Ok i
              else Err (if var_name (sp ! i) < name then i + 1 else i))"

definition insert_at :: "nat \<Rightarrow> 'a \<Rightarrow> 'a list \<Rightarrow> 'a list" where
  "insert_at i x xs = take i xs @ x # drop i xs"

definition remove_at :: "nat \<Rightarrow> 'a list \<Rightarrow> 'a list" where
  "remove_at i xs = take i xs @ drop (Suc i) xs"

definition get_var :: "variable_space \<Rightarrow> bytes \<Rightarrow> bytes option" where
  "get_var sp name = (case var_position sp name of Ok i \<Rightarrow> var_value (sp ! i) | Err _ \<Rightarrow> None)"

definition get_var_bool :: "variable_space \<Rightarrow> bytes \<Rightarrow> bool" where
  "get_var_bool sp name = (case parse_variable_bool (get_var sp name) of None \<Rightarrow> False | Some b \<Rightarrow> b)"

definition set_hooks ::
  "bytes \<Rightarrow> substitute_hook option \<Rightarrow> assign_hook option \<Rightarrow> variable_space \<Rightarrow> variable_space" where
  "set_hooks name substitute assign sp =
     (let value = get_var sp name;
          value = (case substitute of Some hook \<Rightarrow> apply_substitute hook value | None \<Rightarrow> value);
          entry = \<lparr>var_name = name, var_value = value, var_substitute = substitute, var_assign = assign\<rparr>
      in case var_position sp name of Ok i \<Rightarrow> sp[i := entry] | Err i \<Rightarrow> insert_at i entry sp)"

definition valid_variable_name :: "bytes \<Rightarrow> bool" where
  "valid_variable_name name = (name \<noteq> [] \<and> list_all is_variable_char name)"

definition set_var ::
  "'f watch_reader \<Rightarrow> bytes \<Rightarrow> bytes option \<Rightarrow> variable_space \<Rightarrow> (unit, bytes) result \<times> variable_space" where
  "set_var watch name value sp =
     (if \<not> valid_variable_name name then
        (case value of
           None \<Rightarrow> (Ok (), sp)
         | Some _ \<Rightarrow> (Err (bstr ''invalid variable name: '' @ quoted_name name), sp))
      else case var_position sp name of
        Ok i \<Rightarrow>
          let entry = sp ! i;
              new_value = (case var_substitute entry of Some hook \<Rightarrow> apply_substitute hook value | None \<Rightarrow> value)
          in case (case var_assign entry of Some hook \<Rightarrow> check_assign watch hook name new_value | None \<Rightarrow> Ok ()) of
               Err m \<Rightarrow> (Err m, sp)
             | Ok _ \<Rightarrow>
                 (Ok (), if new_value = None \<and> var_substitute entry = None \<and> var_assign entry = None
                         then remove_at i sp else sp[i := entry\<lparr>var_value := new_value\<rparr>])
      | Err i \<Rightarrow>
          (Ok (), case value of
                    Some v \<Rightarrow> insert_at i \<lparr>var_name = name, var_value = Some v, var_substitute = None, var_assign = None\<rparr> sp
                  | None \<Rightarrow> sp))"

definition set_var_bool :: "'f watch_reader \<Rightarrow> bytes \<Rightarrow> variable_space \<Rightarrow> (unit, bytes) result \<times> variable_space" where
  "set_var_bool watch name sp = set_var watch name (Some (bstr ''on'')) sp"

definition delete_var :: "'f watch_reader \<Rightarrow> bytes \<Rightarrow> variable_space \<Rightarrow> (unit, bytes) result \<times> variable_space" where
  "delete_var watch name sp = set_var watch name None sp"

definition print_vars :: "variable_space \<Rightarrow> bytes" where
  "print_vars sp =
     concat (map (\<lambda>v. case var_value v of
                       None \<Rightarrow> []
                     | Some value \<Rightarrow> var_name v @ bstr '' = '' @ [39] @ value @ [39, 10]) sp)"

definition hook_table :: "(bytes \<times> substitute_hook option \<times> assign_hook option) list" where
  "hook_table =
     [(bstr ''AUTOCOMMIT'', Some SubBool, Some (AssignBool BF_Autocommit)),
      (bstr ''ON_ERROR_STOP'', Some SubBool, Some (AssignBool BF_OnErrorStop)),
      (bstr ''QUIET'', Some SubBool, Some (AssignBool BF_Quiet)),
      (bstr ''SINGLELINE'', Some SubBool, Some (AssignBool BF_Singleline)),
      (bstr ''SINGLESTEP'', Some SubBool, Some (AssignBool BF_Singlestep)),
      (bstr ''FETCH_COUNT'', Some (SubDefault (bstr ''0'')), Some (AssignNum NF_FetchCount)),
      (bstr ''HISTFILE'', None, Some AssignAccept),
      (bstr ''HISTSIZE'', Some (SubDefault (bstr ''500'')), Some (AssignNum NF_Histsize)),
      (bstr ''IGNOREEOF'', Some SubIgnoreEof, Some (AssignNum NF_Ignoreeof)),
      (bstr ''ECHO'', Some (SubDefault (bstr ''none'')), Some (AssignEnum EF_Echo)),
      (bstr ''ECHO_HIDDEN'', Some SubBool, Some (AssignEnum EF_EchoHidden)),
      (bstr ''ON_ERROR_ROLLBACK'', Some SubBool, Some (AssignEnum EF_OnErrorRollback)),
      (bstr ''COMP_KEYWORD_CASE'', Some (SubDefault (bstr ''preserve-upper'')), Some (AssignEnum EF_CompCase)),
      (bstr ''HISTCONTROL'', Some (SubDefault (bstr ''none'')), Some (AssignEnum EF_Histcontrol)),
      (bstr ''PROMPT1'', None, Some (AssignPrompt PF_Prompt1)),
      (bstr ''PROMPT2'', None, Some (AssignPrompt PF_Prompt2)),
      (bstr ''PROMPT3'', None, Some (AssignPrompt PF_Prompt3)),
      (bstr ''VERBOSITY'', Some (SubDefault (bstr ''default'')), Some (AssignEnum EF_Verbosity)),
      (bstr ''SHOW_ALL_RESULTS'', Some SubBool, Some (AssignBool BF_ShowAllResults)),
      (bstr ''SHOW_CONTEXT'', Some (SubDefault (bstr ''errors'')), Some (AssignEnum EF_ShowContext)),
      (bstr ''HIDE_TOAST_COMPRESSION'', Some SubBool, Some (AssignBool BF_HideCompression)),
      (bstr ''HIDE_TABLEAM'', Some SubBool, Some (AssignBool BF_HideTableam)),
      (bstr ''WATCH_INTERVAL'', Some (SubDefault (bstr ''2'')), Some AssignWatchInterval)]"

definition new_space :: variable_space where
  "new_space = fold (\<lambda>(name, substitute, assign). set_hooks name substitute assign) hook_table []"

text \<open>The view the lexer has of the space. Asked for shell quoting, which no rule of the lexer does, the source
  stops; \<open>None\<close> stands for that.\<close>

definition var_view :: "variable_space \<Rightarrow> variable_source" where
  "var_view sp name quote =
     (case get_var sp name of
        None \<Rightarrow> None
      | Some value \<Rightarrow>
          (case quote of
             Plain \<Rightarrow> Some value
           | SqlLiteral \<Rightarrow> Some (escape_literal_text value)
           | SqlIdent \<Rightarrow> Some (escape_identifier_text value)
           | ShellArg \<Rightarrow> None))"

section \<open>The settings the hooks keep\<close>

text \<open>The fields of \<open>PsqlSettings\<close> that assign hooks own.\<close>

record 'f hooked_settings =
  ps_autocommit :: bool
  ps_on_error_stop :: bool
  ps_quiet :: bool
  ps_singleline :: bool
  ps_singlestep :: bool
  ps_hide_compression :: bool
  ps_hide_tableam :: bool
  ps_fetch_count :: int
  ps_histsize :: int
  ps_ignoreeof :: int
  ps_watch_interval :: 'f
  ps_echo :: echo_mode
  ps_echo_hidden :: echo_hidden_mode
  ps_on_error_rollback :: rollback_mode
  ps_comp_case :: comp_case_mode
  ps_histcontrol :: hist_mode
  ps_prompt1 :: bytes
  ps_prompt2 :: bytes
  ps_prompt3 :: bytes
  ps_verbosity :: verbosity_mode
  ps_show_all_results :: bool
  ps_show_context :: context_mode

text \<open>A slot is written when the value parses and left alone otherwise.\<close>

definition store :: "'a option \<Rightarrow> ('a \<Rightarrow> 'r \<Rightarrow> 'r) \<Rightarrow> 'r \<Rightarrow> 'r" where
  "store parsed write r = (case parsed of Some v \<Rightarrow> write v r | None \<Rightarrow> r)"

fun write_bool :: "bool_field \<Rightarrow> bool \<Rightarrow> 'f hooked_settings \<Rightarrow> 'f hooked_settings" where
  "write_bool BF_Autocommit b p = p\<lparr>ps_autocommit := b\<rparr>"
| "write_bool BF_OnErrorStop b p = p\<lparr>ps_on_error_stop := b\<rparr>"
| "write_bool BF_Quiet b p = p\<lparr>ps_quiet := b\<rparr>"
| "write_bool BF_Singleline b p = p\<lparr>ps_singleline := b\<rparr>"
| "write_bool BF_Singlestep b p = p\<lparr>ps_singlestep := b\<rparr>"
| "write_bool BF_ShowAllResults b p = p\<lparr>ps_show_all_results := b\<rparr>"
| "write_bool BF_HideCompression b p = p\<lparr>ps_hide_compression := b\<rparr>"
| "write_bool BF_HideTableam b p = p\<lparr>ps_hide_tableam := b\<rparr>"

fun write_num :: "num_field \<Rightarrow> int \<Rightarrow> 'f hooked_settings \<Rightarrow> 'f hooked_settings" where
  "write_num NF_FetchCount n p = p\<lparr>ps_fetch_count := n\<rparr>"
| "write_num NF_Histsize n p = p\<lparr>ps_histsize := n\<rparr>"
| "write_num NF_Ignoreeof n p = p\<lparr>ps_ignoreeof := n\<rparr>"

fun write_enum :: "enum_field \<Rightarrow> bytes option \<Rightarrow> 'f hooked_settings \<Rightarrow> 'f hooked_settings" where
  "write_enum EF_Echo v p = store (Option.bind v parse_echo) (\<lambda>e p. p\<lparr>ps_echo := e\<rparr>) p"
| "write_enum EF_EchoHidden v p = store (Option.bind v parse_echo_hidden) (\<lambda>e p. p\<lparr>ps_echo_hidden := e\<rparr>) p"
| "write_enum EF_OnErrorRollback v p = store (Option.bind v parse_error_rollback) (\<lambda>e p. p\<lparr>ps_on_error_rollback := e\<rparr>) p"
| "write_enum EF_CompCase v p = store (Option.bind v parse_comp_case) (\<lambda>e p. p\<lparr>ps_comp_case := e\<rparr>) p"
| "write_enum EF_Histcontrol v p = store (Option.bind v parse_histcontrol) (\<lambda>e p. p\<lparr>ps_histcontrol := e\<rparr>) p"
| "write_enum EF_Verbosity v p = store (Option.bind v parse_verbosity) (\<lambda>e p. p\<lparr>ps_verbosity := e\<rparr>) p"
| "write_enum EF_ShowContext v p = store (Option.bind v parse_show_context) (\<lambda>e p. p\<lparr>ps_show_context := e\<rparr>) p"

fun write_prompt :: "prompt_field \<Rightarrow> bytes \<Rightarrow> 'f hooked_settings \<Rightarrow> 'f hooked_settings" where
  "write_prompt PF_Prompt1 t p = p\<lparr>ps_prompt1 := t\<rparr>"
| "write_prompt PF_Prompt2 t p = p\<lparr>ps_prompt2 := t\<rparr>"
| "write_prompt PF_Prompt3 t p = p\<lparr>ps_prompt3 := t\<rparr>"

definition ok_value :: "('a, 'e) result \<Rightarrow> 'a option" where
  "ok_value r = (case r of Ok v \<Rightarrow> Some v | Err _ \<Rightarrow> None)"

fun apply_assign :: "'f watch_reader \<Rightarrow> assign_hook \<Rightarrow> bytes option \<Rightarrow> 'f hooked_settings \<Rightarrow> 'f hooked_settings" where
  "apply_assign watch (AssignBool f) v p = store (parse_variable_bool v) (write_bool f) p"
| "apply_assign watch (AssignNum f) v p = store (parse_variable_num v) (write_num f) p"
| "apply_assign watch AssignWatchInterval v p =
     store (ok_value (watch v)) (\<lambda>w p. p\<lparr>ps_watch_interval := w\<rparr>) p"
| "apply_assign watch (AssignEnum f) v p = write_enum f v p"
| "apply_assign watch (AssignPrompt f) v p = write_prompt f (text_or_empty v) p"
| "apply_assign watch AssignAccept v p = p"

definition settings_of :: "'f watch_reader \<Rightarrow> variable_space \<Rightarrow> 'f hooked_settings \<Rightarrow> 'f hooked_settings" where
  "settings_of watch sp base =
     fold (\<lambda>v p. case var_assign v of None \<Rightarrow> p | Some a \<Rightarrow> apply_assign watch a (var_value v) p) sp base"

section \<open>The space as a map\<close>

definition sorted_space :: "variable_space \<Rightarrow> bool" where
  "sorted_space sp = sorted_wrt (<) (map var_name sp)"

definition space_map :: "variable_space \<Rightarrow> bytes \<Rightarrow> variable option" where
  "space_map sp = map_of (map (\<lambda>v. (var_name v, v)) sp)"

lemma space_map_append: "space_map (xs @ ys) n = (case space_map xs n of Some v \<Rightarrow> Some v | None \<Rightarrow> space_map ys n)"
  by (simp add: space_map_def map_add_def split: option.split)

lemma space_map_Cons [simp]: "space_map (v # xs) = (space_map xs)(var_name v \<mapsto> v)"
  by (simp add: space_map_def)

lemma space_map_Nil [simp]: "space_map [] n = None"
  by (simp add: space_map_def)

lemma space_map_None: "space_map xs n = None \<longleftrightarrow> n \<notin> var_name ` set xs"
  by (force simp: space_map_def map_of_eq_None_iff image_iff)

lemma space_map_Some: "space_map xs n = Some v \<Longrightarrow> v \<in> set xs \<and> var_name v = n"
  by (auto simp: space_map_def dest: map_of_SomeD)

lemma sorted_space_append:
  "sorted_space (xs @ ys) \<longleftrightarrow> sorted_space xs \<and> sorted_space ys \<and> (\<forall>a \<in> set xs. \<forall>b \<in> set ys. var_name a < var_name b)"
  by (auto simp: sorted_space_def sorted_wrt_append)

lemma sorted_space_Cons: "sorted_space (v # xs) \<longleftrightarrow> (\<forall>b \<in> set xs. var_name v < var_name b) \<and> sorted_space xs"
  by (simp add: sorted_space_def)

text \<open>What the binary search answers on a sorted space.\<close>

lemma position_Ok:
  assumes "var_position sp name = Ok i"
  shows "i < length sp \<and> var_name (sp ! i) = name"
  using assms bsearch_loop_inside [of "length sp" 0 "map (\<lambda>v. (var_name v, ())) sp" name]
  by (cases sp) (auto simp: var_position_def Let_def split: if_splits)

lemma bsearch_loop_bracket:
  assumes "sorted_wrt (<) (map fst tbl)"
  shows "\<lbrakk>0 < width; base + width \<le> length tbl; base = 0 \<or> fst (tbl ! base) \<le> key;
      \<forall>j. base + width \<le> j \<and> j < length tbl \<longrightarrow> key < fst (tbl ! j)\<rbrakk> \<Longrightarrow>
    (bsearch_loop tbl key base width = 0 \<or> fst (tbl ! bsearch_loop tbl key base width) \<le> key) \<and>
    (\<forall>j. bsearch_loop tbl key base width < j \<and> j < length tbl \<longrightarrow> key < fst (tbl ! j))"
proof (induction width arbitrary: base rule: less_induct)
  case (less width)
  show ?case
  proof (cases "width > 1")
    case True
    let ?half = "width div 2" and ?mid = "base + width div 2"
    have mid: "?mid < length tbl" "0 < ?half" "width - ?half < width" "0 < width - ?half"
      using True less.prems by auto
    show ?thesis
    proof (cases "fst (tbl ! ?mid) > key")
      case above: True
      have "key < fst (tbl ! j)" if "base + (width - ?half) \<le> j" "j < length tbl" for j
      proof -
        have "?mid \<le> j"
          using that(1) by linarith
        then have "fst (tbl ! ?mid) \<le> fst (tbl ! j)"
          using assms that(2) by (cases "?mid = j") (auto simp: sorted_wrt_iff_nth_less intro: less_imp_le)
        with above show ?thesis
          by (rule less_le_trans)
      qed
      then have "(bsearch_loop tbl key base (width - ?half) = 0 \<or> fst (tbl ! bsearch_loop tbl key base (width - ?half)) \<le> key) \<and>
          (\<forall>j. bsearch_loop tbl key base (width - ?half) < j \<and> j < length tbl \<longrightarrow> key < fst (tbl ! j))"
        using less.prems mid by (intro less.IH) auto
      with True above show ?thesis
        by (simp add: bsearch_loop.simps [of tbl key base width] Let_def)
    next
      case False
      then have "(bsearch_loop tbl key ?mid (width - ?half) = 0 \<or> fst (tbl ! bsearch_loop tbl key ?mid (width - ?half)) \<le> key) \<and>
          (\<forall>j. bsearch_loop tbl key ?mid (width - ?half) < j \<and> j < length tbl \<longrightarrow> key < fst (tbl ! j))"
        using less.prems mid by (intro less.IH) auto
      with True False show ?thesis
        by (simp add: bsearch_loop.simps [of tbl key base width] Let_def)
    qed
  next
    case False
    then have "width = 1"
      using less.prems(1) by simp
    moreover have "bsearch_loop tbl key base 1 = base"
      by (subst bsearch_loop.simps) simp
    ultimately show ?thesis
      using less.prems by (simp add: Suc_le_eq)
  qed
qed

lemma position_Err:
  assumes "sorted_space sp" "var_position sp name = Err i"
  shows "i \<le> length sp \<and> (\<forall>v \<in> set (take i sp). var_name v < name) \<and> (\<forall>v \<in> set (drop i sp). name < var_name v)"
proof (cases "sp = []")
  case False
  let ?tbl = "map (\<lambda>v. (var_name v, ())) sp"
  define k where "k = bsearch_loop ?tbl name 0 (length sp)"
  have sorted: "sorted_wrt (<) (map fst ?tbl)"
    using assms(1) by (simp add: sorted_space_def comp_def)
  have k: "k < length sp"
    using bsearch_loop_inside [of "length ?tbl" 0 ?tbl name] False by (simp add: k_def)
  have "(k = 0 \<or> fst (?tbl ! k) \<le> name) \<and> (\<forall>j. k < j \<and> j < length ?tbl \<longrightarrow> name < fst (?tbl ! j))"
    unfolding k_def by (rule bsearch_loop_bracket [OF sorted]) (use False in auto)
  then have low: "k = 0 \<or> var_name (sp ! k) \<le> name" and high: "k < j \<Longrightarrow> j < length sp \<Longrightarrow> name < var_name (sp ! j)" for j
    using k by auto
  have ord: "j < l \<Longrightarrow> l < length sp \<Longrightarrow> var_name (sp ! j) < var_name (sp ! l)" for j l
    using assms(1) by (auto simp: sorted_space_def sorted_wrt_iff_nth_less)
  have ne: "var_name (sp ! k) \<noteq> name" and i: "i = (if var_name (sp ! k) < name then k + 1 else k)"
    using assms(2) False by (auto simp: var_position_def Let_def k_def [symmetric] split: if_splits)
  have "var_name (sp ! j) < name" if "j < i" for j
    using that i low ne ord [of j k] k by (auto simp: less_Suc_eq split: if_splits)
  moreover have "name < var_name (sp ! j)" if "i \<le> j" "j < length sp" for j
    using that i high [of j] ne by (cases "j = k") (auto split: if_splits)
  moreover have "i \<le> length sp"
    using i k by simp
  ultimately show ?thesis
    by (auto simp: in_set_conv_nth)
qed (use assms in \<open>simp add: var_position_def\<close>)

text \<open>Updating, inserting and removing at the position is updating the map.\<close>

lemma space_map_nth:
  assumes "sorted_space sp" "i < length sp"
  shows "space_map sp (var_name (sp ! i)) = Some (sp ! i)"
proof -
  have "distinct (map var_name sp)"
    using assms(1) strict_sorted_iff by (auto simp: sorted_space_def)
  then show ?thesis
    using assms(2) by (simp add: space_map_def map_of_eq_Some_iff comp_def image_iff)
qed

lemma position_map:
  assumes "sorted_space sp"
  shows "var_position sp name = Ok i \<Longrightarrow> space_map sp name = Some (sp ! i)"
    and "var_position sp name = Err j \<Longrightarrow> space_map sp name = None"
proof -
  assume "var_position sp name = Ok i"
  then show "space_map sp name = Some (sp ! i)"
    using position_Ok space_map_nth [OF assms] by metis
next
  assume "var_position sp name = Err j"
  then have "v \<in> set (take j sp) \<or> v \<in> set (drop j sp) \<Longrightarrow> var_name v \<noteq> name" for v
    using position_Err [OF assms, of name j] by auto
  then have "v \<in> set (take j sp @ drop j sp) \<Longrightarrow> var_name v \<noteq> name" for v
    by (simp del: append_take_drop_id)
  then show "space_map sp name = None"
    by (auto simp: space_map_None)
qed

lemma get_var_map: "sorted_space sp \<Longrightarrow> get_var sp name = Option.bind (space_map sp name) var_value"
  using position_map [of sp name] by (cases "var_position sp name") (auto simp: get_var_def)

lemma insert_at_map:
  assumes "sorted_space sp" "var_position sp (var_name e) = Err i"
  shows "sorted_space (insert_at i e sp) \<and> space_map (insert_at i e sp) = (space_map sp)(var_name e \<mapsto> e)"
proof -
  note pe = position_Err [OF assms]
  have split: "sp = take i sp @ drop i sp"
    by simp
  then have "sorted_space (take i sp) \<and> sorted_space (drop i sp) \<and>
      (\<forall>a \<in> set (take i sp). \<forall>b \<in> set (drop i sp). var_name a < var_name b)"
    using assms(1) sorted_space_append by metis
  then have "sorted_space (insert_at i e sp)"
    using pe by (simp add: insert_at_def sorted_space_append sorted_space_Cons)
  moreover have "space_map (insert_at i e sp) n = ((space_map sp)(var_name e \<mapsto> e)) n" for n
  proof -
    have "space_map (take i sp) (var_name e) = None"
      using pe by (auto simp: space_map_None)
    moreover have "space_map sp n = (case space_map (take i sp) n of Some v \<Rightarrow> Some v | None \<Rightarrow> space_map (drop i sp) n)"
      using space_map_append [of "take i sp" "drop i sp" n] by simp
    ultimately show ?thesis
      unfolding insert_at_def by (auto simp: space_map_append split: option.split)
  qed
  ultimately show ?thesis
    by blast
qed

lemma update_at_map:
  assumes "sorted_space sp" "var_position sp (var_name e) = Ok i"
  shows "sorted_space (sp[i := e]) \<and> space_map (sp[i := e]) = (space_map sp)(var_name e \<mapsto> e)"
proof -
  have i: "i < length sp" "var_name (sp ! i) = var_name e"
    using position_Ok [OF assms(2)] by simp_all
  then have names: "map var_name (sp[i := e]) = map var_name sp"
    by (metis list_update_id map_update nth_map)
  then have sorted: "sorted_space (sp[i := e])"
    using assms(1) by (simp add: sorted_space_def)
  have "space_map (sp[i := e]) n = ((space_map sp)(var_name e \<mapsto> e)) n" for n
  proof (cases "n = var_name e")
    case True
    then show ?thesis
      using space_map_nth [OF sorted, of i] i by simp
  next
    case False
    show ?thesis
    proof (cases "\<exists>j < length sp. var_name (sp ! j) = n")
      case True
      then obtain j where j: "j < length sp" "var_name (sp ! j) = n" "i \<noteq> j"
        using False i by auto
      then show ?thesis
        using space_map_nth [OF sorted, of j] space_map_nth [OF assms(1), of j] False by simp
    next
      case none: False
      then have "n \<notin> set (map var_name sp)"
        by (auto simp: in_set_conv_nth)
      then have "space_map sp n = None" "space_map (sp[i := e]) n = None"
        using names by (auto simp: space_map_None simp flip: set_map)
      then show ?thesis
        using False by simp
    qed
  qed
  then show ?thesis
    using sorted by blast
qed

lemma remove_at_map:
  assumes "sorted_space sp" "var_position sp name = Ok i"
  shows "sorted_space (remove_at i sp) \<and> space_map (remove_at i sp) = (space_map sp)(name := None)"
proof -
  have i: "i < length sp" "var_name (sp ! i) = name"
    using position_Ok [OF assms(2)] by simp_all
  have split: "sp = take i sp @ sp ! i # drop (Suc i) sp"
    using i(1) by (rule id_take_nth_drop)
  then have srt: "sorted_space (take i sp @ sp ! i # drop (Suc i) sp)"
    using assms(1) by simp
  then have "sorted_space (remove_at i sp)"
    by (auto simp: remove_at_def sorted_space_append sorted_space_Cons)
  moreover have "space_map (remove_at i sp) n = ((space_map sp)(name := None)) n" for n
  proof -
    have "space_map (take i sp) name = None" "space_map (drop (Suc i) sp) name = None"
      using srt i(2) by (auto simp: space_map_None sorted_space_append sorted_space_Cons)
    moreover have "space_map sp n = space_map (take i sp @ sp ! i # drop (Suc i) sp) n"
      using split by simp
    ultimately show ?thesis
      using i(2) by (auto simp: remove_at_def space_map_append split: option.split)
  qed
  ultimately show ?thesis
    by blast
qed

section \<open>Setting a variable\<close>

text \<open>What setting a variable does to a map of variables: the contract of \<open>set\<close>.\<close>

definition substituted :: "variable \<Rightarrow> bytes option \<Rightarrow> bytes option" where
  "substituted e value = (case var_substitute e of Some hook \<Rightarrow> apply_substitute hook value | None \<Rightarrow> value)"

definition hook_verdict :: "'f watch_reader \<Rightarrow> variable \<Rightarrow> bytes \<Rightarrow> bytes option \<Rightarrow> (unit, bytes) result" where
  "hook_verdict watch e name value =
     (case var_assign e of Some hook \<Rightarrow> check_assign watch hook name value | None \<Rightarrow> Ok ())"

definition set_spec ::
  "'f watch_reader \<Rightarrow> bytes \<Rightarrow> bytes option \<Rightarrow> (bytes \<Rightarrow> variable option) \<Rightarrow> (unit, bytes) result \<times> (bytes \<Rightarrow> variable option)" where
  "set_spec watch name value m =
     (if valid_variable_name name then
        let e = (case m name of
                   Some e \<Rightarrow> e
                 | None \<Rightarrow> \<lparr>var_name = name, var_value = None, var_substitute = None, var_assign = None\<rparr>);
            v = substituted e value
        in case hook_verdict watch e name v of
             Err message \<Rightarrow> (Err message, m)
           | Ok _ \<Rightarrow>
               (Ok (), m(name := if v = None \<and> var_substitute e = None \<and> var_assign e = None then None
                                 else Some (e\<lparr>var_value := v\<rparr>)))
      else if value = None then (Ok (), m)
      else (Err (bstr ''invalid variable name: '' @ quoted_name name), m))"

lemma set_var_map:
  assumes "sorted_space sp"
  shows "sorted_space (snd (set_var watch name newval sp)) \<and>
    (fst (set_var watch name newval sp), space_map (snd (set_var watch name newval sp))) =
      set_spec watch name newval (space_map sp)"
proof (cases "valid_variable_name name")
  case False
  then show ?thesis
    using assms by (cases newval) (auto simp: set_var_def set_spec_def)
next
  case valid: True
  show ?thesis
  proof (cases "var_position sp name")
    case (Ok i)
    let ?e = "sp ! i" and ?v = "substituted (sp ! i) newval"
    have m: "space_map sp name = Some ?e" and nm: "var_name ?e = name"
      using position_map(1) [OF assms Ok] position_Ok [OF Ok] by simp_all
    have pos: "var_position sp (var_name (?e\<lparr>var_value := ?v\<rparr>)) = Ok i"
      using Ok nm by simp
    have "set_var watch name newval sp =
      (case hook_verdict watch ?e name ?v of
         Err m \<Rightarrow> (Err m, sp)
       | Ok _ \<Rightarrow> (Ok (), if ?v = None \<and> var_substitute ?e = None \<and> var_assign ?e = None
                         then remove_at i sp else sp[i := ?e\<lparr>var_value := ?v\<rparr>]))"
      by (simp only: set_var_def hook_verdict_def substituted_def Let_def valid Ok not_True_eq_False if_False
          result.case)
    then show ?thesis
      using valid m nm assms remove_at_map [OF assms Ok] update_at_map [OF assms pos]
      by (auto simp: set_spec_def Let_def split: result.split)
  next
    case (Err j)
    have m: "space_map sp name = None"
      using position_map(2) [OF assms Err] .
    then have "(space_map sp)(name := None) = space_map sp"
      by (rule fun_upd_idem)
    then show ?thesis
      using valid m Err assms
        insert_at_map [OF assms, of "\<lparr>var_name = name, var_value = newval, var_substitute = None, var_assign = None\<rparr>" j]
      by (cases newval) (simp_all add: set_var_def set_spec_def hook_verdict_def substituted_def)
  qed
qed

text \<open>Installing hooks, and the table of hooks.\<close>

definition hooked_entry :: "bytes \<Rightarrow> substitute_hook option \<times> assign_hook option \<Rightarrow> bytes option \<Rightarrow> variable" where
  "hooked_entry name h value =
     \<lparr>var_name = name, var_value = (case fst h of Some hook \<Rightarrow> apply_substitute hook value | None \<Rightarrow> value),
      var_substitute = fst h, var_assign = snd h\<rparr>"

lemma set_hooks_map:
  assumes "sorted_space sp"
  shows "sorted_space (set_hooks name s a sp) \<and>
    space_map (set_hooks name s a sp) = (space_map sp)(name \<mapsto> hooked_entry name (s, a) (get_var sp name))"
proof -
  let ?e = "hooked_entry name (s, a) (get_var sp name)"
  have nm: "var_name ?e = name"
    by (simp add: hooked_entry_def)
  have "set_hooks name s a sp = (case var_position sp name of Ok i \<Rightarrow> sp[i := ?e] | Err i \<Rightarrow> insert_at i ?e sp)"
    by (simp only: set_hooks_def hooked_entry_def Let_def fst_conv snd_conv)
  then show ?thesis
    using update_at_map [OF assms, of ?e] insert_at_map [OF assms, of ?e] unfolding nm
    by (simp split: result.split)
qed

lemma fold_set_hooks:
  assumes "sorted_space sp" "distinct (map fst tbl)"
  shows "sorted_space (fold (\<lambda>(name, s, a). set_hooks name s a) tbl sp) \<and>
    space_map (fold (\<lambda>(name, s, a). set_hooks name s a) tbl sp) =
      (\<lambda>n. case map_of tbl n of Some h \<Rightarrow> Some (hooked_entry n h (get_var sp n)) | None \<Rightarrow> space_map sp n)"
  using assms
proof (induction tbl arbitrary: sp)
  case (Cons row tbl)
  obtain name s a where row: "row = (name, s, a)"
    by (cases row)
  let ?sp = "set_hooks name s a sp"
  have h: "sorted_space ?sp" "space_map ?sp = (space_map sp)(name \<mapsto> hooked_entry name (s, a) (get_var sp name))"
    using set_hooks_map [OF Cons.prems(1)] by blast+
  have same: "get_var ?sp n = get_var sp n" if "n \<noteq> name" for n
    using that h get_var_map [OF h(1)] get_var_map [OF Cons.prems(1)] by simp
  have fresh: "map_of tbl name = None"
    using Cons.prems(2) row by (simp add: map_of_eq_None_iff)
  show ?case
    using Cons.IH [OF h(1)] Cons.prems(2) row h(2) same fresh by (auto simp: fun_eq_iff split: option.split)
qed simp

lemma hook_table_distinct: "distinct (map fst hook_table)"
  by (simp add: hook_table_def)

lemma new_space_sorted: "sorted_space new_space"
  using fold_set_hooks [OF _ hook_table_distinct, of "[]"] by (simp add: new_space_def sorted_space_def)

lemma new_space_map: "space_map new_space n = map_option (\<lambda>h. hooked_entry n h None) (map_of hook_table n)"
  using fold_set_hooks [OF _ hook_table_distinct, of "[]"]
  by (simp add: new_space_def sorted_space_def get_var_def var_position_def split: option.split)

text \<open>C36: The sorted vector implements a map. Setting, unsetting and reading variables in the vector that is
  kept in name order and searched by halving is setting, unsetting and reading them in a map from names
  to variables: the same result and, after it, the same map, whether the entry is updated in place,
  inserted at the position the search gave, or removed because nothing has to be remembered of it. The
  vector stays strictly sorted, a refused assignment changes nothing, and the variable that has hooks
  is never forgotten.\<close>

theorem set_var_refines_map:
  assumes "sorted_space sp"
  shows "sorted_space (snd (set_var watch name newval sp)) \<and>
    (fst (set_var watch name newval sp), space_map (snd (set_var watch name newval sp))) =
      set_spec watch name newval (space_map sp) \<and>
    get_var sp n = Option.bind (space_map sp n) var_value"
  using set_var_map [OF assms] get_var_map [OF assms] by blast

definition no_watch :: "unit watch_reader" where
  "no_watch v = Err (\<lambda>name. bstr ''invalid value for '' @ name)"

theorem set_var_refines_map_witness:
  "sorted_space (snd (set_var no_watch (bstr ''b'') (Some []) new_space)) \<and>
   (fst (set_var no_watch (bstr ''b'') (Some []) new_space), space_map (snd (set_var no_watch (bstr ''b'') (Some []) new_space))) =
     set_spec no_watch (bstr ''b'') (Some []) (space_map new_space) \<and>
   get_var new_space (bstr ''QUIET'') = Option.bind (space_map new_space (bstr ''QUIET'')) var_value"
  by (rule set_var_refines_map [OF new_space_sorted])

section \<open>The hooks stay satisfied\<close>

text \<open>In every space that comes out of the program, a variable of the table has the hooks of the table and a
  value its assign hook accepts, and no other variable has hooks.\<close>

definition space_inv :: "'f watch_reader \<Rightarrow> variable_space \<Rightarrow> bool" where
  "space_inv watch sp =
     (sorted_space sp \<and>
      (\<forall>n. case map_of hook_table n of
             Some h \<Rightarrow> \<exists>v. space_map sp n = Some v \<and> var_name v = n \<and> (var_substitute v, var_assign v) = h \<and>
                         hook_verdict watch v n (var_value v) = Ok ()
           | None \<Rightarrow> \<forall>v. space_map sp n = Some v \<longrightarrow> var_name v = n \<and> var_substitute v = None \<and> var_assign v = None))"

definition space_init :: "'f watch_reader \<Rightarrow> variable_space \<Rightarrow> bool" where
  "space_init watch sp = (sp = new_space \<and> (\<exists>w. watch (Some (bstr ''2'')) = Ok w))"

definition space_step :: "'f watch_reader \<Rightarrow> variable_space \<Rightarrow> variable_space \<Rightarrow> bool" where
  "space_step watch sp sp' = (\<exists>name v. sp' = snd (set_var watch name v sp))"

lemma parse_defaults:
  "parse_variable_bool (Some [111, 102, 102]) = Some False"
  "parse_variable_num (Some [48]) = Some 0"
  "parse_variable_num (Some [53, 48, 48]) = Some 500"
  by (simp_all add: parse_variable_bool_def prefix_word_def lower_ascii_def parse_variable_num_def
      trim_start.simps [of "48 # _"] trim_start.simps [of "53 # _"] space_char_len_def begins_with_def from_str_radix_def radix_digit_def)

lemma hook_table_accepts:
  assumes "watch (Some (bstr ''2'')) = Ok w"
  shows "list_all (\<lambda>(n, h). hook_verdict watch (hooked_entry n h None) n (var_value (hooked_entry n h None)) = Ok ()) hook_table"
  using assms
  by (simp add: hook_table_def hook_verdict_def hooked_entry_def parse_defaults parse_echo_def parse_echo_hidden_def
      parse_error_rollback_def parse_comp_case_def parse_histcontrol_def parse_verbosity_def parse_show_context_def
      text_or_empty_def)

lemma space_inv_init: "space_init watch sp \<Longrightarrow> space_inv watch sp"
proof -
  assume "space_init watch sp"
  then obtain w where w: "watch (Some (bstr ''2'')) = Ok w" and sp: "sp = new_space"
    by (auto simp: space_init_def)
  have "hook_verdict watch (hooked_entry n h None) n (var_value (hooked_entry n h None)) = Ok ()"
    if "map_of hook_table n = Some h" for n h
    using hook_table_accepts [of watch w, OF w] map_of_SomeD [OF that] by (auto simp: list_all_iff)
  then show ?thesis
    by (auto simp: space_inv_def sp new_space_sorted new_space_map hooked_entry_def split: option.split)
qed

lemma hook_table_assigns: "map_of hook_table n = Some h \<Longrightarrow> snd h \<noteq> None"
proof -
  assume "map_of hook_table n = Some h"
  moreover have "list_all (\<lambda>(n, s, a). a \<noteq> None) hook_table"
    by (simp add: hook_table_def)
  ultimately show ?thesis
    by (auto simp: list_all_iff dest!: map_of_SomeD)
qed

text \<open>What the invariant says of one variable.\<close>

definition entry_inv :: "'f watch_reader \<Rightarrow> bytes \<Rightarrow> variable option \<Rightarrow> bool" where
  "entry_inv watch n e =
     (case map_of hook_table n of
        Some h \<Rightarrow> \<exists>v. e = Some v \<and> var_name v = n \<and> (var_substitute v, var_assign v) = h \<and>
                    hook_verdict watch v n (var_value v) = Ok ()
      | None \<Rightarrow> \<forall>v. e = Some v \<longrightarrow> var_name v = n \<and> var_substitute v = None \<and> var_assign v = None)"

lemma space_inv_entry: "space_inv watch sp \<longleftrightarrow> sorted_space sp \<and> (\<forall>n. entry_inv watch n (space_map sp n))"
  by (simp add: space_inv_def entry_inv_def)

lemma set_spec_inv:
  assumes "\<forall>n. entry_inv watch n (m n)"
  shows "entry_inv watch n (snd (set_spec watch name v m) n)"
proof (cases "n = name \<and> valid_variable_name name")
  case False
  then show ?thesis
    using assms by (auto simp: set_spec_def Let_def split: result.split)
next
  case True
  let ?e = "case m name of Some e \<Rightarrow> e | None \<Rightarrow> \<lparr>var_name = name, var_value = None, var_substitute = None, var_assign = None\<rparr>"
  have old: "entry_inv watch name (m name)"
    using assms by blast
  show ?thesis
  proof (cases "hook_verdict watch ?e name (substituted ?e v)")
    case (Err msg)
    then show ?thesis
      using True old by (simp add: set_spec_def Let_def)
  next
    case (Ok u)
    have kept: "hook_verdict watch (e\<lparr>var_value := x\<rparr>) k y = hook_verdict watch e k y" for e x k y
      by (simp add: hook_verdict_def)
    have "entry_inv watch name
        (if substituted ?e v = None \<and> var_substitute ?e = None \<and> var_assign ?e = None then None
         else Some (?e\<lparr>var_value := substituted ?e v\<rparr>))"
      using old Ok hook_table_assigns [of name]
      by (cases "map_of hook_table name"; cases "m name") (auto simp: entry_inv_def kept)
    then show ?thesis
      using True Ok by (simp add: set_spec_def Let_def)
  qed
qed

lemma space_inv_step: "\<lbrakk>space_inv watch sp; space_step watch sp sp'\<rbrakk> \<Longrightarrow> space_inv watch sp'"
proof -
  assume inv: "space_inv watch sp" and "space_step watch sp sp'"
  then obtain name v where sp': "sp' = snd (set_var watch name v sp)"
    by (auto simp: space_step_def)
  have "sorted_space sp" "\<forall>n. entry_inv watch n (space_map sp n)"
    using inv by (simp_all add: space_inv_entry)
  then show ?thesis
    using set_var_map [of sp watch name v] set_spec_inv [of watch "space_map sp" _ name v] unfolding space_inv_entry sp'
    by (metis snd_conv)
qed

interpretation var_machine: machine "space_init watch" "space_step watch" "space_inv watch"
  by unfold_locales (auto intro: space_inv_init space_inv_step)

section \<open>The settings follow the variables\<close>

text \<open>The variable of each field, and the field.\<close>

primrec bool_name :: "bool_field \<Rightarrow> bytes" where
  "bool_name BF_Autocommit = bstr ''AUTOCOMMIT''"
| "bool_name BF_OnErrorStop = bstr ''ON_ERROR_STOP''"
| "bool_name BF_Quiet = bstr ''QUIET''"
| "bool_name BF_Singleline = bstr ''SINGLELINE''"
| "bool_name BF_Singlestep = bstr ''SINGLESTEP''"
| "bool_name BF_ShowAllResults = bstr ''SHOW_ALL_RESULTS''"
| "bool_name BF_HideCompression = bstr ''HIDE_TOAST_COMPRESSION''"
| "bool_name BF_HideTableam = bstr ''HIDE_TABLEAM''"

primrec read_bool :: "bool_field \<Rightarrow> 'f hooked_settings \<Rightarrow> bool" where
  "read_bool BF_Autocommit = ps_autocommit"
| "read_bool BF_OnErrorStop = ps_on_error_stop"
| "read_bool BF_Quiet = ps_quiet"
| "read_bool BF_Singleline = ps_singleline"
| "read_bool BF_Singlestep = ps_singlestep"
| "read_bool BF_ShowAllResults = ps_show_all_results"
| "read_bool BF_HideCompression = ps_hide_compression"
| "read_bool BF_HideTableam = ps_hide_tableam"

primrec num_name :: "num_field \<Rightarrow> bytes" where
  "num_name NF_FetchCount = bstr ''FETCH_COUNT''"
| "num_name NF_Histsize = bstr ''HISTSIZE''"
| "num_name NF_Ignoreeof = bstr ''IGNOREEOF''"

primrec read_num :: "num_field \<Rightarrow> 'f hooked_settings \<Rightarrow> int" where
  "read_num NF_FetchCount = ps_fetch_count"
| "read_num NF_Histsize = ps_histsize"
| "read_num NF_Ignoreeof = ps_ignoreeof"

primrec prompt_name :: "prompt_field \<Rightarrow> bytes" where
  "prompt_name PF_Prompt1 = bstr ''PROMPT1''"
| "prompt_name PF_Prompt2 = bstr ''PROMPT2''"
| "prompt_name PF_Prompt3 = bstr ''PROMPT3''"

primrec read_prompt :: "prompt_field \<Rightarrow> 'f hooked_settings \<Rightarrow> bytes" where
  "read_prompt PF_Prompt1 = ps_prompt1"
| "read_prompt PF_Prompt2 = ps_prompt2"
| "read_prompt PF_Prompt3 = ps_prompt3"

text \<open>What the hooked settings are, field by field, from the current values.\<close>

definition settings_spec :: "'f watch_reader \<Rightarrow> variable_space \<Rightarrow> 'f hooked_settings" where
  "settings_spec watch sp =
     (let val = (\<lambda>n. get_var sp (bstr n));
          flag = (\<lambda>n. the (parse_variable_bool (val n)));
          num = (\<lambda>n. the (parse_variable_num (val n)))
      in \<lparr>ps_autocommit = flag ''AUTOCOMMIT'',
          ps_on_error_stop = flag ''ON_ERROR_STOP'',
          ps_quiet = flag ''QUIET'',
          ps_singleline = flag ''SINGLELINE'',
          ps_singlestep = flag ''SINGLESTEP'',
          ps_hide_compression = flag ''HIDE_TOAST_COMPRESSION'',
          ps_hide_tableam = flag ''HIDE_TABLEAM'',
          ps_fetch_count = num ''FETCH_COUNT'',
          ps_histsize = num ''HISTSIZE'',
          ps_ignoreeof = num ''IGNOREEOF'',
          ps_watch_interval = the (ok_value (watch (val ''WATCH_INTERVAL''))),
          ps_echo = the (Option.bind (val ''ECHO'') parse_echo),
          ps_echo_hidden = the (Option.bind (val ''ECHO_HIDDEN'') parse_echo_hidden),
          ps_on_error_rollback = the (Option.bind (val ''ON_ERROR_ROLLBACK'') parse_error_rollback),
          ps_comp_case = the (Option.bind (val ''COMP_KEYWORD_CASE'') parse_comp_case),
          ps_histcontrol = the (Option.bind (val ''HISTCONTROL'') parse_histcontrol),
          ps_prompt1 = text_or_empty (val ''PROMPT1''),
          ps_prompt2 = text_or_empty (val ''PROMPT2''),
          ps_prompt3 = text_or_empty (val ''PROMPT3''),
          ps_verbosity = the (Option.bind (val ''VERBOSITY'') parse_verbosity),
          ps_show_all_results = flag ''SHOW_ALL_RESULTS'',
          ps_show_context = the (Option.bind (val ''SHOW_CONTEXT'') parse_show_context)\<rparr>)"

lemma fold_field:
  assumes "\<And>v p. v \<in> set sp \<Longrightarrow> hit v \<Longrightarrow> g (f v p) = x" and "\<And>v p. v \<in> set sp \<Longrightarrow> \<not> hit v \<Longrightarrow> g (f v p) = g p"
    and "v \<in> set sp" "hit v"
  shows "g (fold f sp base) = x"
proof -
  have keep: "g (fold f xs p) = x" if "set xs \<subseteq> set sp" "g p = x" for xs p
    using that
  proof (induction xs arbitrary: p)
    case (Cons a xs)
    then have "g (f a p) = x"
      using assms(1,2) [of a p] by (cases "hit a") auto
    then show ?case
      using Cons by simp
  qed simp
  obtain xs ys where "sp = xs @ v # ys"
    using assms(3) by (meson split_list)
  then show ?thesis
    using keep [of ys "f v (fold f xs base)"] assms(1) [OF assms(3,4)] by auto
qed

text \<open>A field that one hook of the table writes holds what that hook makes of the variable's value.\<close>

lemma entry_inv_hooked:
  "\<lbrakk>entry_inv watch n (Some v); var_assign v = Some a\<rbrakk> \<Longrightarrow> map_of hook_table n = Some (var_substitute v, Some a)"
  by (cases "map_of hook_table n") (simp_all add: entry_inv_def)

lemma hooked_field:
  assumes inv: "space_inv watch sp" and row: "map_of hook_table name = Some (s, Some a)"
    and only: "list_all (\<lambda>(n, s', a'). a' = Some a \<longrightarrow> n = name) hook_table"
    and writes: "\<And>v p. check_assign watch a name v = Ok () \<Longrightarrow> g (apply_assign watch a v p) = k v"
    and others: "\<And>b v p. b \<noteq> a \<Longrightarrow> g (apply_assign watch b v p) = g p"
  shows "g (settings_of watch sp base) = k (get_var sp name)"
proof -
  have sorted: "sorted_space sp" and ent: "entry_inv watch n (space_map sp n)" for n
    using inv by (simp_all add: space_inv_entry)
  obtain e where e: "space_map sp name = Some e" "var_name e = name" "var_assign e = Some a"
    "check_assign watch a name (var_value e) = Ok ()"
    using ent [of name] row by (auto simp: entry_inv_def hook_verdict_def)
  have val: "get_var sp name = var_value e"
    using get_var_map [OF sorted] e(1) by simp
  have same: "v = e" if mem: "v \<in> set sp" and asg: "var_assign v = Some a" for v
  proof -
    have m: "space_map sp (var_name v) = Some v"
      using mem space_map_nth [OF sorted] by (auto simp: in_set_conv_nth)
    have "map_of hook_table (var_name v) = Some (var_substitute v, Some a)"
      using entry_inv_hooked [OF _ asg] ent [of "var_name v"] unfolding m .
    then have "(var_name v, var_substitute v, Some a) \<in> set hook_table"
      by (rule map_of_SomeD)
    from only [unfolded list_all_iff, THEN bspec, OF this] have "var_name v = name"
      by simp
    then show ?thesis
      using m e(1) by simp
  qed
  show ?thesis
    unfolding settings_of_def
  proof (rule fold_field [where hit = "\<lambda>v. var_assign v = Some a" and v = e])
    show "e \<in> set sp"
      using space_map_Some [OF e(1)] by blast
    show "g (case var_assign v of None \<Rightarrow> p | Some b \<Rightarrow> apply_assign watch b (var_value v) p) = k (get_var sp name)"
      if "v \<in> set sp" "var_assign v = Some a" for v p
      using same [OF that] that(2) writes [OF e(4)] val by simp
  qed (use e(3) others in \<open>auto split: option.split\<close>)
qed

lemma hook_exhaust:
  obtains "a = AssignBool BF_Autocommit" | "a = AssignBool BF_OnErrorStop" | "a = AssignBool BF_Quiet"
  | "a = AssignBool BF_Singleline" | "a = AssignBool BF_Singlestep" | "a = AssignBool BF_ShowAllResults"
  | "a = AssignBool BF_HideCompression" | "a = AssignBool BF_HideTableam"
  | "a = AssignNum NF_FetchCount" | "a = AssignNum NF_Histsize" | "a = AssignNum NF_Ignoreeof"
  | "a = AssignWatchInterval" | "a = AssignEnum EF_Echo" | "a = AssignEnum EF_EchoHidden"
  | "a = AssignEnum EF_OnErrorRollback" | "a = AssignEnum EF_CompCase" | "a = AssignEnum EF_Histcontrol"
  | "a = AssignEnum EF_Verbosity" | "a = AssignEnum EF_ShowContext"
  | "a = AssignPrompt PF_Prompt1" | "a = AssignPrompt PF_Prompt2" | "a = AssignPrompt PF_Prompt3" | "a = AssignAccept"
proof (cases a)
  case (AssignBool f)
  then show thesis
    by (cases f) (simp_all add: that(1-8))
next
  case (AssignNum f)
  then show thesis
    by (cases f) (simp_all add: that(9-11))
next
  case (AssignEnum f)
  then show thesis
    by (cases f) (simp_all add: that(13-19))
next
  case (AssignPrompt f)
  then show thesis
    by (cases f) (simp_all add: that(20-22))
qed (simp_all add: that(12,23))

lemmas parse_empty =
  parse_echo_def parse_echo_hidden_def parse_error_rollback_def parse_comp_case_def parse_histcontrol_def
  parse_verbosity_def parse_show_context_def parse_variable_bool_def prefix_word_def

lemma enum_accepts_nonempty: "\<not> enum_accepts f []"
  by (cases f) (simp_all add: parse_empty Let_def)

text \<open>No hook but the one of a field writes the field.\<close>

lemma apply_assign_others:
  "b \<noteq> AssignBool BF_Autocommit \<Longrightarrow> ps_autocommit (apply_assign watch b v p) = ps_autocommit p"
  "b \<noteq> AssignBool BF_OnErrorStop \<Longrightarrow> ps_on_error_stop (apply_assign watch b v p) = ps_on_error_stop p"
  "b \<noteq> AssignBool BF_Quiet \<Longrightarrow> ps_quiet (apply_assign watch b v p) = ps_quiet p"
  "b \<noteq> AssignBool BF_Singleline \<Longrightarrow> ps_singleline (apply_assign watch b v p) = ps_singleline p"
  "b \<noteq> AssignBool BF_Singlestep \<Longrightarrow> ps_singlestep (apply_assign watch b v p) = ps_singlestep p"
  "b \<noteq> AssignBool BF_HideCompression \<Longrightarrow> ps_hide_compression (apply_assign watch b v p) = ps_hide_compression p"
  "b \<noteq> AssignBool BF_HideTableam \<Longrightarrow> ps_hide_tableam (apply_assign watch b v p) = ps_hide_tableam p"
  "b \<noteq> AssignBool BF_ShowAllResults \<Longrightarrow> ps_show_all_results (apply_assign watch b v p) = ps_show_all_results p"
  "b \<noteq> AssignNum NF_FetchCount \<Longrightarrow> ps_fetch_count (apply_assign watch b v p) = ps_fetch_count p"
  "b \<noteq> AssignNum NF_Histsize \<Longrightarrow> ps_histsize (apply_assign watch b v p) = ps_histsize p"
  "b \<noteq> AssignNum NF_Ignoreeof \<Longrightarrow> ps_ignoreeof (apply_assign watch b v p) = ps_ignoreeof p"
  "b \<noteq> AssignWatchInterval \<Longrightarrow> ps_watch_interval (apply_assign watch b v p) = ps_watch_interval p"
  "b \<noteq> AssignEnum EF_Echo \<Longrightarrow> ps_echo (apply_assign watch b v p) = ps_echo p"
  "b \<noteq> AssignEnum EF_EchoHidden \<Longrightarrow> ps_echo_hidden (apply_assign watch b v p) = ps_echo_hidden p"
  "b \<noteq> AssignEnum EF_OnErrorRollback \<Longrightarrow> ps_on_error_rollback (apply_assign watch b v p) = ps_on_error_rollback p"
  "b \<noteq> AssignEnum EF_CompCase \<Longrightarrow> ps_comp_case (apply_assign watch b v p) = ps_comp_case p"
  "b \<noteq> AssignEnum EF_Histcontrol \<Longrightarrow> ps_histcontrol (apply_assign watch b v p) = ps_histcontrol p"
  "b \<noteq> AssignEnum EF_Verbosity \<Longrightarrow> ps_verbosity (apply_assign watch b v p) = ps_verbosity p"
  "b \<noteq> AssignEnum EF_ShowContext \<Longrightarrow> ps_show_context (apply_assign watch b v p) = ps_show_context p"
  "b \<noteq> AssignPrompt PF_Prompt1 \<Longrightarrow> ps_prompt1 (apply_assign watch b v p) = ps_prompt1 p"
  "b \<noteq> AssignPrompt PF_Prompt2 \<Longrightarrow> ps_prompt2 (apply_assign watch b v p) = ps_prompt2 p"
  "b \<noteq> AssignPrompt PF_Prompt3 \<Longrightarrow> ps_prompt3 (apply_assign watch b v p) = ps_prompt3 p"
  by (cases b rule: hook_exhaust; simp add: store_def split: option.split)+

lemma bind_value_nonempty:
  "\<lbrakk>enum_accepts f (text_or_empty v)\<rbrakk> \<Longrightarrow> \<exists>t. v = Some t"
  using enum_accepts_nonempty [of f] by (cases v) (auto simp: text_or_empty_def)

text \<open>The fields by the kind of their hook.\<close>

lemma bool_setting:
  assumes "space_inv watch sp" "map_of hook_table name = Some (s, Some (AssignBool f))"
    and "list_all (\<lambda>(n, s', a'). a' = Some (AssignBool f) \<longrightarrow> n = name) hook_table"
    and "\<And>b p. g (write_bool f b p) = b" "\<And>b v p. b \<noteq> AssignBool f \<Longrightarrow> g (apply_assign watch b v p) = g p"
  shows "g (settings_of watch sp base) = the (parse_variable_bool (get_var sp name))"
  by (rule hooked_field [where g = g and k = "\<lambda>v. the (parse_variable_bool v)", OF assms(1-3) _ assms(5)])
    (auto simp: store_def assms(4) split: if_splits)

lemma num_setting:
  assumes "space_inv watch sp" "map_of hook_table name = Some (s, Some (AssignNum f))"
    and "list_all (\<lambda>(n, s', a'). a' = Some (AssignNum f) \<longrightarrow> n = name) hook_table"
    and "\<And>b p. g (write_num f b p) = b" "\<And>b v p. b \<noteq> AssignNum f \<Longrightarrow> g (apply_assign watch b v p) = g p"
  shows "g (settings_of watch sp base) = the (parse_variable_num (get_var sp name))"
  by (rule hooked_field [where g = g and k = "\<lambda>v. the (parse_variable_num v)", OF assms(1-3) _ assms(5)])
    (auto simp: store_def assms(4) split: if_splits)

lemma enum_setting:
  assumes "space_inv watch sp" "map_of hook_table name = Some (s, Some (AssignEnum f))"
    and "list_all (\<lambda>(n, s', a'). a' = Some (AssignEnum f) \<longrightarrow> n = name) hook_table"
    and "\<And>t. enum_accepts f t \<Longrightarrow> parse t \<noteq> None"
    and "\<And>t e p. parse t = Some e \<Longrightarrow> g (write_enum f (Some t) p) = e"
    and "\<And>b v p. b \<noteq> AssignEnum f \<Longrightarrow> g (apply_assign watch b v p) = g p"
  shows "g (settings_of watch sp base) = the (Option.bind (get_var sp name) parse)"
proof (rule hooked_field [where g = g and k = "\<lambda>v. the (Option.bind v parse)", OF assms(1-3) _ assms(6)])
  fix v p
  assume "check_assign watch (AssignEnum f) name v = Ok ()"
  then have acc: "enum_accepts f (text_or_empty v)"
    by (simp add: Let_def split: if_splits)
  then obtain t where t: "v = Some t"
    using bind_value_nonempty by blast
  then obtain e where "parse t = Some e"
    using acc assms(4) by (auto simp: text_or_empty_def)
  then show "g (apply_assign watch (AssignEnum f) v p) = the (Option.bind v parse)"
    using t assms(5) by simp
qed

lemma prompt_setting:
  assumes "space_inv watch sp" "map_of hook_table name = Some (s, Some (AssignPrompt f))"
    and "list_all (\<lambda>(n, s', a'). a' = Some (AssignPrompt f) \<longrightarrow> n = name) hook_table"
    and "\<And>b p. g (write_prompt f b p) = b" "\<And>b v p. b \<noteq> AssignPrompt f \<Longrightarrow> g (apply_assign watch b v p) = g p"
  shows "g (settings_of watch sp base) = text_or_empty (get_var sp name)"
  by (rule hooked_field [where g = g and k = text_or_empty, OF assms(1-3) _ assms(5)]) (simp add: assms(4))

lemma watch_setting:
  assumes "space_inv watch sp"
  shows "ps_watch_interval (settings_of watch sp base) = the (ok_value (watch (get_var sp (bstr ''WATCH_INTERVAL''))))"
  by (rule hooked_field [where g = ps_watch_interval and k = "\<lambda>v. the (ok_value (watch v))"
        and a = AssignWatchInterval, OF assms _ _ _ apply_assign_others(12)])
    (auto simp: hook_table_def store_def ok_value_def split: result.splits)

lemma read_bool_setting:
  assumes "space_inv watch sp"
  shows "read_bool f (settings_of watch sp base) = the (parse_variable_bool (get_var sp (bool_name f)))"
proof (rule bool_setting [where f = f and g = "read_bool f" and s = "Some SubBool", OF assms])
  show "map_of hook_table (bool_name f) = Some (Some SubBool, Some (AssignBool f))"
    by (cases f) (simp_all add: hook_table_def)
  show "list_all (\<lambda>(n, s', a'). a' = Some (AssignBool f) \<longrightarrow> n = bool_name f) hook_table"
    by (cases f) (simp_all add: hook_table_def)
  show "read_bool f (write_bool f b p) = b" for b and p :: "'a hooked_settings"
    by (cases f) simp_all
  show "b \<noteq> AssignBool f \<Longrightarrow> read_bool f (apply_assign watch b v p) = read_bool f p" for b v p
    by (cases f) (simp_all add: apply_assign_others)
qed

lemma read_num_setting:
  assumes "space_inv watch sp"
  shows "read_num f (settings_of watch sp base) = the (parse_variable_num (get_var sp (num_name f)))"
proof (rule num_setting [where f = f and g = "read_num f", OF assms])
  show "map_of hook_table (num_name f) =
      Some (Some (case f of NF_FetchCount \<Rightarrow> SubDefault (bstr ''0'') | NF_Histsize \<Rightarrow> SubDefault (bstr ''500'') | NF_Ignoreeof \<Rightarrow> SubIgnoreEof),
        Some (AssignNum f))"
    by (cases f) (simp_all add: hook_table_def)
  show "list_all (\<lambda>(n, s', a'). a' = Some (AssignNum f) \<longrightarrow> n = num_name f) hook_table"
    by (cases f) (simp_all add: hook_table_def)
  show "read_num f (write_num f b p) = b" for b and p :: "'a hooked_settings"
    by (cases f) simp_all
  show "b \<noteq> AssignNum f \<Longrightarrow> read_num f (apply_assign watch b v p) = read_num f p" for b v p
    by (cases f) (simp_all add: apply_assign_others)
qed

lemma read_prompt_setting:
  assumes "space_inv watch sp"
  shows "read_prompt f (settings_of watch sp base) = text_or_empty (get_var sp (prompt_name f))"
proof (rule prompt_setting [where f = f and g = "read_prompt f" and s = None, OF assms])
  show "map_of hook_table (prompt_name f) = Some (None, Some (AssignPrompt f))"
    by (cases f) (simp_all add: hook_table_def)
  show "list_all (\<lambda>(n, s', a'). a' = Some (AssignPrompt f) \<longrightarrow> n = prompt_name f) hook_table"
    by (cases f) (simp_all add: hook_table_def)
  show "read_prompt f (write_prompt f b p) = b" for b and p :: "'a hooked_settings"
    by (cases f) simp_all
  show "b \<noteq> AssignPrompt f \<Longrightarrow> read_prompt f (apply_assign watch b v p) = read_prompt f p" for b v p
    by (cases f) (simp_all add: apply_assign_others)
qed

lemmas enum_simps = hook_table_def store_def apply_assign_others

lemma enum_settings:
  assumes "space_inv watch sp"
  shows "ps_echo (settings_of watch sp base) = the (Option.bind (get_var sp (bstr ''ECHO'')) parse_echo)"
    and "ps_echo_hidden (settings_of watch sp base) = the (Option.bind (get_var sp (bstr ''ECHO_HIDDEN'')) parse_echo_hidden)"
    and "ps_on_error_rollback (settings_of watch sp base) =
      the (Option.bind (get_var sp (bstr ''ON_ERROR_ROLLBACK'')) parse_error_rollback)"
    and "ps_comp_case (settings_of watch sp base) = the (Option.bind (get_var sp (bstr ''COMP_KEYWORD_CASE'')) parse_comp_case)"
    and "ps_histcontrol (settings_of watch sp base) = the (Option.bind (get_var sp (bstr ''HISTCONTROL'')) parse_histcontrol)"
    and "ps_verbosity (settings_of watch sp base) = the (Option.bind (get_var sp (bstr ''VERBOSITY'')) parse_verbosity)"
    and "ps_show_context (settings_of watch sp base) = the (Option.bind (get_var sp (bstr ''SHOW_CONTEXT'')) parse_show_context)"
  apply (rule enum_setting [where f = EF_Echo, OF assms]; simp add: enum_simps)
  apply (rule enum_setting [where f = EF_EchoHidden, OF assms]; simp add: enum_simps)
  apply (rule enum_setting [where f = EF_OnErrorRollback, OF assms]; simp add: enum_simps)
  apply (rule enum_setting [where f = EF_CompCase, OF assms]; simp add: enum_simps)
  apply (rule enum_setting [where f = EF_Histcontrol, OF assms]; simp add: enum_simps)
  apply (rule enum_setting [where f = EF_Verbosity, OF assms]; simp add: enum_simps)
  apply (rule enum_setting [where f = EF_ShowContext, OF assms]; simp add: enum_simps)
  done

lemma settings_exact:
  assumes "space_inv watch sp"
  shows "settings_of watch sp base = settings_spec watch sp"
proof -
  note b = read_bool_setting [OF assms, of _ base] and n = read_num_setting [OF assms, of _ base]
    and p = read_prompt_setting [OF assms, of _ base]
  show ?thesis
    unfolding settings_spec_def Let_def
    using b [of BF_Autocommit] b [of BF_OnErrorStop] b [of BF_Quiet] b [of BF_Singleline] b [of BF_Singlestep]
      b [of BF_ShowAllResults] b [of BF_HideCompression] b [of BF_HideTableam]
      n [of NF_FetchCount] n [of NF_Histsize] n [of NF_Ignoreeof] p [of PF_Prompt1] p [of PF_Prompt2] p [of PF_Prompt3]
      watch_setting [OF assms, of base] enum_settings [OF assms, of base]
    by (intro hooked_settings.equality) simp_all
qed

text \<open>C37: The settings are the variables. In every variable space the program can reach, from the table of
  hooks by any sequence of assignments and unsettings, accepted or refused, the settings derived from
  the space are exactly what the current values of the hooked variables say, every one of them: no
  assignment that was let through leaves a value that a setting cannot be read from, so that nothing
  of the settings they were derived over remains. The one fact used of the reader of intervals is that
  it accepts the default interval.\<close>

theorem settings_follow_variables:
  assumes "reach (space_init watch) (space_step watch) sp"
  shows "settings_of watch sp base = settings_spec watch sp"
  by (rule settings_exact [OF var_machine.reach_inv [OF assms]])

definition any_watch :: "nat watch_reader" where
  "any_watch v = Ok 2"

theorem settings_follow_variables_witness:
  "reach (space_init any_watch) (space_step any_watch) (snd (set_var any_watch (bstr ''QUIET'') (Some []) new_space)) \<and>
   settings_of any_watch (snd (set_var any_watch (bstr ''QUIET'') (Some []) new_space))
     (settings_spec any_watch new_space) =
   settings_spec any_watch (snd (set_var any_watch (bstr ''QUIET'') (Some []) new_space))"
proof -
  have "reach (space_init any_watch) (space_step any_watch) new_space"
    by (rule reach_init) (simp add: space_init_def any_watch_def)
  then have r: "reach (space_init any_watch) (space_step any_watch) (snd (set_var any_watch (bstr ''QUIET'') (Some []) new_space))"
    by (rule reach_step) (auto simp: space_step_def)
  show ?thesis
    using r settings_follow_variables [OF r] by blast
qed

text \<open>The list of values offered for ON_ERROR_ROLLBACK names one the hook refuses and not one it accepts.\<close>

lemma rollback_suggestions:
  "\<not> enum_accepts EF_OnErrorRollback (bstr ''noexec'') \<and> enum_accepts EF_OnErrorRollback (bstr ''interactive'') \<and>
   enum_suggestions EF_OnErrorRollback = bstr ''on, off, noexec''"
  by (simp add: parse_error_rollback_def parse_variable_bool_def prefix_word_def lower_ascii_def)

text \<open>A second sign is read after the first.\<close>

lemma double_sign: "parse_variable_num (Some (bstr ''--5'')) = Some 5"
  by (simp add: parse_variable_num_def trim_start.simps [of "45 # _"] space_char_len_def begins_with_def from_str_radix_def
      radix_digit_def)

lemma negation_overflows:
  "from_str_radix (bstr ''-9223372036854775808'') 10 = Some (- (2 ^ 63))"
  "parse_variable_num (Some (bstr ''--9223372036854775808'')) = None"
  by (simp_all add: parse_variable_num_def trim_start.simps [of "45 # _"] space_char_len_def begins_with_def
      from_str_radix_def radix_digit_def)

section \<open>The lexer on the variable space\<close>

text \<open>The space is finite, so that the lexer's contract with its variable source holds, and a line scanned with
  the variables of the client comes back.\<close>

lemma var_view_finite: "finite {n. var_view sp n Plain \<noteq> None}"
proof (rule finite_subset)
  show "{n. var_view sp n Plain \<noteq> None} \<subseteq> var_name ` set sp"
  proof (clarsimp simp: var_view_def split: option.splits)
    fix n v
    assume "get_var sp n = Some v"
    then obtain i where "var_position sp n = Ok i"
      by (cases "var_position sp n") (auto simp: get_var_def)
    then show "n \<in> var_name ` set sp"
      using position_Ok by (metis image_eqI nth_mem)
  qed
qed simp

interpretation view: variable_provider "var_view sp"
  by unfold_locales (rule var_view_finite)

lemma client_line_scans:
  "state_ok (lex_state s) \<Longrightarrow>
   \<exists>res prompt s' out'. scan_query (var_view sp) (setup_line line std s) out = Some ((res, prompt), s', out') \<and>
     scanner_ok s' \<and> scan_left res s' out'"
  by (rule view.line_scans [OF setup_line_ok])

end
