(* ===== verification/Slash.thy ===== *)
theory Slash
  imports Scan
begin

text \<open>
  The lexer of backslash commands, \<^verbatim>\<open>crates/rpsql/src/slash.rs\<close>: it goes on reading the buffer in which the
  statement lexer of \<open>Scan\<close> met a backslash. The name of a command, its arguments in their several quotings,
  and what separates it from the next command. The loops end because every turn consumes a byte of the
  buffer.

  The source calls these functions only behind \<open>setup\<close>, with a line on the stack of buffers; without one
  it panics, while \<open>rest\<close> is empty here and the functions below return. Their lemmas are about
  scanners that hold a line.
\<close>

section \<open>Arguments\<close>

record slash_option =
  so_value :: bytes
  so_quote :: "byte option"

definition is_backquoted :: "slash_option \<Rightarrow> bool" where
  "is_backquoted a = (so_quote a = Some 96)"

text \<open>\<open>u8::is_ascii_whitespace\<close>, which leaves the vertical tab out.\<close>

definition is_ascii_whitespace :: "byte \<Rightarrow> bool" where
  "is_ascii_whitespace c = (c \<in> {32, 9, 10, 12, 13})"

fun dequote_loop :: "bool \<Rightarrow> bool \<Rightarrow> bytes \<Rightarrow> bytes" where
  "dequote_loop downcase inquotes [] = []"
| "dequote_loop downcase inquotes (c # r) =
     (if c = 34 then
        if inquotes \<and> byte_at r 0 = Some 34 then 34 # dequote_loop downcase inquotes (drop 1 r)
        else dequote_loop downcase (\<not> inquotes) r
      else (if downcase \<and> \<not> inquotes then lower_ascii c else c) # dequote_loop downcase inquotes r)"

definition dequote_downcase_identifier :: "bytes \<Rightarrow> bool \<Rightarrow> bytes" where
  "dequote_downcase_identifier s downcase = dequote_loop downcase False s"

definition slash_command :: "scanner \<Rightarrow> bytes \<times> scanner" where
  "slash_command s =
     (let n = run_len (\<lambda>c. \<not> is_ascii_whitespace c \<and> c \<noteq> 92) (rest s)
      in (utf8_lossy (take n (rest s)), skip_bytes n s))"

section \<open>Quoted text\<close>

definition unescape_byte :: "byte \<Rightarrow> byte" where
  "unescape_byte e =
     (if e = 110 then 10 else if e = 116 then 9 else if e = 98 then 8 else if e = 114 then 13
      else if e = 102 then 12 else e)"

lemma skip_shorter: "\<lbrakk>rest s \<noteq> []; 0 < n\<rbrakk> \<Longrightarrow> length (rest (skip_bytes n s)) < length (rest s)"
  by (simp add: rest_skip)

function read_single_quoted :: "scanner \<Rightarrow> bytes \<Rightarrow> scanner \<times> bytes" where
  "read_single_quoted s out =
     (if rest s = [] then (s, out)
      else let c = rest s ! 0
           in if c = 39 then
                if byte_at (rest s) 1 = Some 39 then read_single_quoted (skip_bytes 2 s) (out @ [39])
                else (skip_bytes 1 s, out)
              else if c = 92 then
                (case byte_at (rest s) 1 of
                   None \<Rightarrow> (skip_bytes 1 s, out)
                 | Some e \<Rightarrow> read_single_quoted (skip_bytes 2 s) (out @ [unescape_byte e]))
              else read_single_quoted (skip_bytes 1 s) (out @ [c]))"
  by pat_completeness auto
termination
  by (relation "measure (\<lambda>(s, out). length (rest s))") (auto simp: rest_skip)

declare read_single_quoted.simps [simp del]

definition read_double_quoted :: "scanner \<Rightarrow> bytes \<Rightarrow> scanner \<times> bytes" where
  "read_double_quoted s out =
     (let r = rest s; n = run_len (\<lambda>c. c \<noteq> 34) r; out = out @ take n r; s = skip_bytes n s
      in if length r > n then (skip_bytes 1 s, out @ [34]) else (s, out))"

definition read_backquoted :: "scanner \<Rightarrow> bytes \<Rightarrow> scanner \<times> bytes" where
  "read_backquoted s out =
     (let r = rest s; n = run_len (\<lambda>c. c \<noteq> 96) r
      in (skip_bytes (n + (if length r > n then 1 else 0)) s, out @ take n r))"

section \<open>Variables\<close>

datatype variable_rule = Substituted | Tested | Colon

definition read_variable :: "variable_source \<Rightarrow> scanner \<Rightarrow> bytes \<Rightarrow> variable_rule \<times> scanner \<times> bytes" where
  "read_variable vars s out =
     (let r = rest s; colon = (Colon, skip_bytes 1 s, out @ [58])
      in if byte_at r 1 \<in> {Some 39, Some 34} then
           let delim = r ! 1; len = run_len is_variable_char (drop 2 r)
           in if len > 0 \<and> byte_at r (2 + len) = Some delim then
                let name = utf8_lossy (take len (drop 2 r));
                    value = (case vars name (if delim = 39 then SqlLiteral else SqlIdent) of
                               Some v \<Rightarrow> v
                             | None \<Rightarrow> if delim = 39 then escape_literal_text [] else escape_identifier_text name)
                in (Substituted, skip_bytes (3 + len) s, out @ value)
              else colon
         else if byte_at r 1 = Some 123 \<and> byte_at r 2 = Some 63 then
           let len = run_len is_variable_char (drop 3 r)
           in if len > 0 \<and> byte_at r (3 + len) = Some 125 then
                (Tested, skip_bytes (4 + len) s,
                 out @ (if vars (utf8_lossy (take len (drop 3 r))) Plain \<noteq> None then bstr ''TRUE'' else bstr ''FALSE''))
              else colon
         else
           let len = run_len is_variable_char (drop 1 r)
           in if len = 0 then colon
              else let name = utf8_lossy (take len (drop 1 r))
                   in (Substituted, skip_bytes (1 + len) s,
                       out @ (case vars name Plain of Some v \<Rightarrow> v | None \<Rightarrow> [58] @ name)))"

section \<open>One argument\<close>

lemma read_single_quoted_le: "length (rest (fst (read_single_quoted s out))) \<le> length (rest s)"
proof (induction s out rule: read_single_quoted.induct)
  case (1 s out)
  then show ?case
    by (subst read_single_quoted.simps)
      (auto simp: rest_skip Let_def split: option.split intro: le_trans)
qed

lemma read_double_quoted_le: "length (rest (fst (read_double_quoted s out))) \<le> length (rest s)"
  by (simp add: read_double_quoted_def Let_def rest_skip)

lemma read_backquoted_le: "length (rest (fst (read_backquoted s out))) \<le> length (rest s)"
  by (simp add: read_backquoted_def Let_def rest_skip)

lemma read_variable_shorter:
  "rest s \<noteq> [] \<Longrightarrow> length (rest (fst (snd (read_variable vars s out)))) < length (rest s)"
  by (simp add: read_variable_def Let_def rest_skip)

lemmas read_le = read_single_quoted_le read_double_quoted_le read_backquoted_le

lemma read_shorter:
  assumes "rest s \<noteq> []"
  shows "(s', out') = read_single_quoted (skip_bytes (Suc 0) s) out \<Longrightarrow> length (rest s') < length (rest s)"
    and "(s', out') = read_double_quoted (skip_bytes (Suc 0) s) out \<Longrightarrow> length (rest s') < length (rest s)"
    and "(s', out') = read_backquoted (skip_bytes (Suc 0) s) out \<Longrightarrow> length (rest s') < length (rest s)"
    and "(rl, s', out') = read_variable vars s out \<Longrightarrow> length (rest s') < length (rest s)"
  using read_le [of "skip_bytes (Suc 0) s" out] skip_shorter [OF assms, of "Suc 0"]
    read_variable_shorter [OF assms, of vars out]
  by (auto dest!: sym [of "(_, _)"])

text \<open>The loop over the bytes of an argument; it keeps the argument, its quoting mark and how many bytes at the
  end of it were not quoted.\<close>

function arg_loop ::
  "variable_source \<Rightarrow> scanner \<Rightarrow> bytes \<Rightarrow> byte option \<Rightarrow> nat \<Rightarrow> scanner \<times> bytes \<times> byte option \<times> nat" where
  "arg_loop vars s out quote unquoted =
     (if rest s = [] then (s, out, quote, unquoted)
      else let c = rest s ! 0
           in if is_ascii_whitespace c \<or> c = 92 then (s, out, quote, unquoted)
              else if c = 39 then
                let (s', out') = read_single_quoted (skip_bytes 1 s) out
                in arg_loop vars s' out' (Some 39) 0
              else if c = 34 then
                let (s', out') = read_double_quoted (skip_bytes 1 s) (out @ [34])
                in arg_loop vars s' out' (Some 34) 0
              else if c = 96 then
                let (s', out') = read_backquoted (skip_bytes 1 s) out
                in arg_loop vars s' out' (Some 96) 0
              else if c = 58 then
                let (rule, s', out') = read_variable vars s out
                in (case rule of
                      Substituted \<Rightarrow> arg_loop vars s' out' (Some 58) 0
                    | Tested \<Rightarrow> arg_loop vars s' out' quote unquoted
                    | Colon \<Rightarrow> arg_loop vars s' out' quote (unquoted + 1))
              else arg_loop vars (skip_bytes 1 s) (out @ [c]) quote (unquoted + 1))"
  by pat_completeness auto
termination
  by (relation "measure (\<lambda>(vars, s, out, quote, unquoted). length (rest s))")
    (auto dest: read_shorter simp: skip_shorter)

declare arg_loop.simps [simp del]

text \<open>The loop that strips unquoted semicolons.\<close>

fun strip_semicolons :: "nat \<Rightarrow> bytes \<Rightarrow> bytes" where
  "strip_semicolons 0 out = out"
| "strip_semicolons (Suc n) out = (if out \<noteq> [] \<and> last out = 59 then strip_semicolons n (butlast out) else out)"

definition strip_pipe :: "bytes \<Rightarrow> bytes" where
  "strip_pipe line = rev (dropWhile (\<lambda>c. c = 59 \<or> is_ascii_whitespace c \<or> c = 11) (rev line))"

definition slash_option_with ::
  "variable_source \<Rightarrow> bool \<Rightarrow> bool \<Rightarrow> scanner \<Rightarrow> slash_option option \<times> scanner" where
  "slash_option_with vars filepipe semicolon s =
     (let s = skip_bytes (run_len is_ascii_whitespace (rest s)) s; r = rest s
      in if r = [] \<or> r ! 0 = 92 then (None, s)
         else if filepipe \<and> r ! 0 = 124 then
           (Some \<lparr>so_value = utf8_lossy (if semicolon then strip_pipe r else r), so_quote = None\<rparr>, skip_bytes (length r) s)
         else
           let (s', out, quote, unquoted) = arg_loop vars s [] None 0;
               out = (if semicolon then strip_semicolons unquoted out else out)
           in (if out = [] \<and> quote = None then None else Some \<lparr>so_value = utf8_lossy out, so_quote = quote\<rparr>, s'))"

definition slash_option_normal :: "variable_source \<Rightarrow> scanner \<Rightarrow> slash_option option \<times> scanner" where
  "slash_option_normal vars s = slash_option_with vars False False s"

definition slash_option_filepipe :: "variable_source \<Rightarrow> bool \<Rightarrow> scanner \<Rightarrow> slash_option option \<times> scanner" where
  "slash_option_filepipe vars semicolon s = slash_option_with vars True semicolon s"

definition slash_option_whole_line :: "scanner \<Rightarrow> bytes option \<times> scanner" where
  "slash_option_whole_line s =
     (let s = skip_bytes (run_len is_space_lex (rest s)) s; line = rest s
      in (if line = [] then None else Some line, skip_bytes (length line) s))"

definition slash_command_end :: "scanner \<Rightarrow> scanner" where
  "slash_command_end s =
     (let s = skip_bytes (run_len is_ascii_whitespace (rest s)) s
      in if begins_with [92, 92] (rest s) then skip_bytes 2 s else s)"

lemma arg_loop_turn:
  assumes ne: "rest s \<noteq> []" and "\<not> is_ascii_whitespace (rest s ! 0)" "rest s ! 0 \<noteq> 92"
  obtains s' out' q u where "length (rest s') < length (rest s)"
    "arg_loop vars s out quote unquoted = arg_loop vars s' out' q u"
proof -
  obtain s1 o1 where r1: "read_single_quoted (skip_bytes 1 s) out = (s1, o1)"
    by fastforce
  obtain s2 o2 where r2: "read_double_quoted (skip_bytes 1 s) (out @ [34]) = (s2, o2)"
    by fastforce
  obtain s3 o3 where r3: "read_backquoted (skip_bytes 1 s) out = (s3, o3)"
    by fastforce
  obtain rl s4 o4 where r4: "read_variable vars s out = (rl, s4, o4)"
    by (metis prod_cases3)
  have shorter: "length (rest s1) < length (rest s)" "length (rest s2) < length (rest s)" "length (rest s3) < length (rest s)"
    "length (rest s4) < length (rest s)" "length (rest (skip_bytes 1 s)) < length (rest s)"
    using read_shorter [OF ne] r1 r2 r3 r4 skip_shorter [OF ne, of 1] by (metis One_nat_def zero_less_one)+
  show thesis
    using that shorter ne assms(2,3) r1 r2 r3 r4 arg_loop.simps [of vars s out quote unquoted]
    by (cases rl; simp add: Let_def split: if_splits)
qed

lemma arg_loop_le: "length (rest (fst (arg_loop vars s out quote unquoted))) \<le> length (rest s)"
proof (induction "length (rest s)" arbitrary: s out quote unquoted rule: less_induct)
  case less
  show ?case
  proof (cases "rest s = [] \<or> is_ascii_whitespace (rest s ! 0) \<or> rest s ! 0 = 92")
    case True
    then show ?thesis
      by (subst arg_loop.simps) (auto simp: Let_def)
  next
    case False
    then obtain s' out' q u where "length (rest s') < length (rest s)"
      "arg_loop vars s out quote unquoted = arg_loop vars s' out' q u"
      using arg_loop_turn [of s vars out quote unquoted] by blast
    then show ?thesis
      using less [of s' out' q u] by simp
  qed
qed

section \<open>All arguments\<close>

lemma drop_run_len: "drop (run_len P r) r = dropWhile P r"
  by (simp add: run_len_def dropWhile_eq_drop)

lemma slash_option_shorter:
  assumes "slash_option_normal vars s = (Some a, s')"
  shows "length (rest s') < length (rest s)"
proof -
  let ?s = "skip_bytes (run_len is_ascii_whitespace (rest s)) s"
  have r: "rest ?s = dropWhile is_ascii_whitespace (rest s)"
    by (simp add: rest_skip drop_run_len)
  have ne: "rest ?s \<noteq> []" "rest ?s ! 0 \<noteq> 92" and s': "s' = fst (arg_loop vars ?s [] None 0)"
    using assms by (auto simp: slash_option_normal_def slash_option_with_def Let_def split: if_splits prod.splits)
  have "\<not> is_ascii_whitespace (rest ?s ! 0)"
    using ne(1) hd_dropWhile [of is_ascii_whitespace "rest s"] unfolding r by (metis hd_conv_nth)
  then obtain s1 out q u where "length (rest s1) < length (rest ?s)" "arg_loop vars ?s [] None 0 = arg_loop vars s1 out q u"
    using arg_loop_turn [OF ne(1) _ ne(2)] by blast
  then have "length (rest s') < length (rest ?s)"
    using arg_loop_le [of vars s1 out q u] s' by simp
  then show ?thesis
    using r length_dropWhile_le [of is_ascii_whitespace "rest s"] by simp
qed

function slash_options :: "variable_source \<Rightarrow> scanner \<Rightarrow> slash_option list \<times> scanner" where
  "slash_options vars s =
     (case slash_option_normal vars s of
        (None, s') \<Rightarrow> ([], s')
      | (Some a, s') \<Rightarrow> (case slash_options vars s' of (as, s'') \<Rightarrow> (a # as, s'')))"
  by pat_completeness auto
termination
  by (relation "measure (\<lambda>(vars, s). length (rest s))") (auto dest: slash_option_shorter [OF sym])

declare slash_options.simps [simp del]

section \<open>Arguments in quotes read back\<close>

text \<open>How a command line is written: each argument in single quotes, with quotes and backslashes doubled,
  after a space.\<close>

definition slash_escape :: "bytes \<Rightarrow> bytes" where
  "slash_escape a = concat (map (\<lambda>c. if c \<in> {39, 92} then [c, c] else [c]) a)"

definition slash_quote :: "bytes \<Rightarrow> bytes" where
  "slash_quote a = [39] @ slash_escape a @ [39]"

definition args_text :: "bytes list \<Rightarrow> bytes" where
  "args_text args = concat (map (\<lambda>a. 32 # slash_quote a) args)"

lemma utf8_lossy_valid: "utf8_valid bs \<Longrightarrow> utf8_lossy bs = bs"
proof (induction bs rule: utf8_valid.induct)
  case (2 b r)
  obtain n ok where c: "utf8_chunk b r = (n, ok)"
    by fastforce
  then have "ok" "utf8_valid (drop n (b # r))"
    using 2 by simp_all
  then have "utf8_lossy (drop n (b # r)) = drop n (b # r)"
    using 2 c by simp
  then show ?case
    using c \<open>ok\<close> by (simp del: drop.simps take.simps)
qed simp

lemma read_single_quoted_escape:
  assumes "rest s = slash_escape a @ 39 # tail" "tail = [] \<or> hd tail \<noteq> 39"
  shows "\<exists>s'. read_single_quoted s out = (s', out @ a) \<and> rest s' = tail"
  using assms(1)
proof (induction a arbitrary: s out)
  case Nil
  then have "read_single_quoted s out = (skip_bytes 1 s, out)"
    using assms(2) by (subst read_single_quoted.simps) (cases tail; simp add: slash_escape_def byte_at_def)
  then show ?case
    using Nil by (simp add: rest_skip slash_escape_def)
next
  case (Cons c a)
  let ?k = "if c \<in> {39, 92} then 2 else 1 :: nat"
  have r: "rest (skip_bytes ?k s) = slash_escape a @ 39 # tail"
    using Cons.prems by (simp add: rest_skip slash_escape_def)
  have "read_single_quoted s out = read_single_quoted (skip_bytes ?k s) (out @ [c])"
    using Cons.prems by (subst read_single_quoted.simps) (auto simp: slash_escape_def byte_at_def unescape_byte_def)
  then show ?case
    using Cons.IH [OF r, of "out @ [c]"] by simp
qed

lemma arg_loop_quoted:
  assumes "rest s = slash_quote a @ tail" "tail = [] \<or> is_ascii_whitespace (hd tail) \<or> hd tail = 92"
  shows "\<exists>s'. arg_loop vars s [] None 0 = (s', a, Some 39, 0) \<and> rest s' = tail"
proof -
  have r: "rest (skip_bytes 1 s) = slash_escape a @ 39 # tail"
    using assms(1) by (simp add: rest_skip slash_quote_def)
  have "tail = [] \<or> hd tail \<noteq> 39"
    using assms(2) by (auto simp: is_ascii_whitespace_def)
  then obtain s' where s': "read_single_quoted (skip_bytes 1 s) [] = (s', a)" "rest s' = tail"
    using read_single_quoted_escape [OF r, of "[]"] by auto
  then have "arg_loop vars s [] None 0 = arg_loop vars s' a (Some 39) 0"
    using assms(1) by (subst arg_loop.simps) (simp add: slash_quote_def is_ascii_whitespace_def)
  also have "\<dots> = (s', a, Some 39, 0)"
    using s'(2) assms(2) by (subst arg_loop.simps) (cases tail; auto)
  finally show ?thesis
    using s'(2) by blast
qed

lemma slash_option_quoted:
  assumes "rest s = 32 # slash_quote a @ tail" "tail = [] \<or> is_ascii_whitespace (hd tail) \<or> hd tail = 92" "utf8_valid a"
  shows "\<exists>s'. slash_option_normal vars s = (Some \<lparr>so_value = a, so_quote = Some 39\<rparr>, s') \<and> rest s' = tail"
proof -
  have "run_len is_ascii_whitespace (rest s) = 1"
    using assms(1) by (simp add: run_len_def slash_quote_def is_ascii_whitespace_def)
  moreover have r: "rest (skip_bytes 1 s) = slash_quote a @ tail"
    using assms(1) by (simp add: rest_skip)
  moreover obtain s' where "arg_loop vars (skip_bytes 1 s) [] None 0 = (s', a, Some 39, 0)" "rest s' = tail"
    using arg_loop_quoted [OF r assms(2)] by blast
  ultimately show ?thesis
    using utf8_lossy_valid [OF assms(3)] by (simp add: slash_option_normal_def slash_option_with_def slash_quote_def)
qed

text \<open>C39: The arguments of a backslash command read back. A command line on which every argument is put into
  single quotes, with the quotes and backslashes in it doubled, is read as exactly these arguments, whatever
  valid text they hold (spaces, semicolons, colons, quotes, nothing at all) and whatever variables are set;
  each is marked as quoted. Reading stops at the end of the line or at the backslash of the next command
  and leaves it unread.\<close>

theorem slash_arguments_round_trip:
  assumes "rest s = args_text args @ tail" "tail = [] \<or> hd tail = 92" "list_all utf8_valid args"
  shows "\<exists>s'. slash_options vars s = (map (\<lambda>a. \<lparr>so_value = a, so_quote = Some 39\<rparr>) args, s') \<and> rest s' = tail"
  using assms(1,3)
proof (induction args arbitrary: s)
  case Nil
  then have r: "rest s = tail"
    by (simp add: args_text_def)
  have w: "run_len is_ascii_whitespace tail = 0"
    using assms(2) by (cases tail) (auto simp: run_len_def is_ascii_whitespace_def)
  have "slash_option_normal vars s = (None, skip_bytes 0 s)"
    using r w assms(2) by (cases tail) (auto simp: slash_option_normal_def slash_option_with_def Let_def rest_skip)
  then show ?case
    using r by (subst slash_options.simps) (simp add: rest_skip)
next
  case (Cons a args)
  have r: "rest s = 32 # slash_quote a @ (args_text args @ tail)"
    using Cons.prems(1) by (simp add: args_text_def)
  have "args_text args @ tail = [] \<or> is_ascii_whitespace (hd (args_text args @ tail)) \<or> hd (args_text args @ tail) = 92"
    using assms(2) by (cases args) (auto simp: args_text_def is_ascii_whitespace_def)
  then obtain s1 where s1: "slash_option_normal vars s = (Some \<lparr>so_value = a, so_quote = Some 39\<rparr>, s1)"
    "rest s1 = args_text args @ tail"
    using slash_option_quoted [OF r] Cons.prems(2) by auto
  then show ?case
    using Cons.IH [OF s1(2)] Cons.prems(2) by (subst slash_options.simps) auto
qed

theorem slash_arguments_round_trip_witness:
  "\<exists>s'. slash_options no_variables
      (setup_line (args_text [bstr ''a b;'', [39, 92], []] @ [92]) True new_scanner) =
     (map (\<lambda>a. \<lparr>so_value = a, so_quote = Some 39\<rparr>) [bstr ''a b;'', [39, 92], []], s') \<and> rest s' = [92]"
  by (rule slash_arguments_round_trip)
    (simp_all add: setup_line_def rest_def upd_def utf8_chunk_def utf8_width_def)

text \<open>A delimited identifier is itself again once its quotes are removed, its letters as they were.\<close>

lemma dequote_escaped: "dequote_downcase_identifier (escape_identifier_text v) downcase = v"
proof -
  have "dequote_loop downcase True (double_byte 34 v @ [34]) = v"
    by (induction v) (auto simp: byte_at_def)
  then show ?thesis
    by (simp add: dequote_downcase_identifier_def escape_identifier_text_def byte_at_def)
qed

text \<open>A numeric escape is not one: the backslash is dropped and the digits stay.\<close>

lemma numeric_escape_kept:
  assumes "rest s = bstr [CHR 0x5C, CHR ''1'', CHR ''0'', CHR ''1''] @ [39]"
  shows "\<exists>s'. read_single_quoted s [] = (s', bstr ''101'') \<and> rest s' = []"
proof -
  have r: "rest (skip_bytes 2 s) = slash_escape (bstr ''01'') @ 39 # []"
    using assms by (simp add: rest_skip slash_escape_def)
  have "read_single_quoted s [] = read_single_quoted (skip_bytes 2 s) (bstr ''1'')"
    using assms by (subst read_single_quoted.simps) (simp add: byte_at_def unescape_byte_def)
  then show ?thesis
    using read_single_quoted_escape [OF r, of "bstr ''1''"] by simp
qed

end
