(* ===== verification/Statement.thy ===== *)
theory Statement
  imports Scan
begin

text \<open>
  Where a statement ends, for the lexer of \<open>Scan\<close>: an abstract view of SQL statements, as tokens, and the proof
  that one scan reads exactly one of them.

  The view does not use the lexer's rules: a comment is a text in which every opening has its closing,
  a routine is a statement that begins with the words of \<open>CREATE FUNCTION\<close> or \<open>CREATE PROCEDURE\<close>, and the
  semicolons that belong to a statement are those in parentheses or between \<open>BEGIN\<close> and \<open>END\<close> of a
  routine.
\<close>

section \<open>Where a statement ends\<close>

text \<open>A text that the lexer reads from states satisfying \<open>P\<close> into a state satisfying \<open>Q\<close>, echoing it, when
  \<open>tail\<close> follows.\<close>

definition reads ::
  "variable_source \<Rightarrow> (scan_state \<Rightarrow> bool) \<Rightarrow> bytes \<Rightarrow> bytes \<Rightarrow> (scan_state \<Rightarrow> bool) \<Rightarrow> bool" where
  "reads vars P text tail Q =
     (\<forall>s out. stack s \<noteq> [] \<and> P (lex_state s) \<and> rest s = text @ tail \<longrightarrow>
        (\<exists>s'. stack s' \<noteq> [] \<and> Q (lex_state s') \<and> rest s' = tail \<and>
              lex_loop vars s out = lex_loop vars s' (out @ text)))"

lemma reads_then:
  assumes "reads vars P a (b @ tail) Q" "reads vars Q b tail R"
  shows "reads vars P (a @ b) tail R"
  unfolding reads_def
proof (intro allI impI)
  fix s out
  assume "stack s \<noteq> [] \<and> P (lex_state s) \<and> rest s = (a @ b) @ tail"
  then obtain s1 where s1: "stack s1 \<noteq> []" "Q (lex_state s1)" "rest s1 = b @ tail"
    "lex_loop vars s out = lex_loop vars s1 (out @ a)"
    using assms(1) unfolding reads_def by (metis append_assoc)
  then obtain s' where "stack s' \<noteq> []" "R (lex_state s')" "rest s' = tail"
    "lex_loop vars s1 (out @ a) = lex_loop vars s' ((out @ a) @ b)"
    using assms(2) unfolding reads_def by metis
  then show "\<exists>s'. stack s' \<noteq> [] \<and> R (lex_state s') \<and> rest s' = tail \<and>
      lex_loop vars s out = lex_loop vars s' (out @ a @ b)"
    using s1(4) by auto
qed

lemma reads_one:
  assumes "\<And>s out. \<lbrakk>stack s \<noteq> []; P (lex_state s); rest s = text @ tail\<rbrakk> \<Longrightarrow>
    \<exists>f. lex_step vars s out = keep (echo (length text) (upd f s) out) \<and> Q (f (lex_state s))"
  shows "reads vars P text tail Q"
  unfolding reads_def
proof (intro allI impI)
  fix s out
  assume s: "stack s \<noteq> [] \<and> P (lex_state s) \<and> rest s = text @ tail"
  then obtain f where f: "lex_step vars s out = keep (echo (length text) (upd f s) out)" "Q (f (lex_state s))"
    using assms by blast
  let ?s = "skip_bytes (length text) (upd f s)"
  have ne: "stack ?s \<noteq> []"
    using s by (auto simp: skip_bytes_def upd_def split: list.split)
  have "lex_loop vars s out = lex_loop vars ?s (out @ text)"
    using s f(1) by (intro lex_loop_step) (auto simp: keep_def echo_def)
  then show "\<exists>s'. stack s' \<noteq> [] \<and> Q (lex_state s') \<and> rest s' = tail \<and> lex_loop vars s out = lex_loop vars s' (out @ text)"
    using s f(2) ne by (intro exI [of _ ?s]) (simp add: rest_skip upd_def)
qed

text \<open>Where in a statement the lexer is: how many parentheses are open, how deep it is in the blocks of a
  routine, and the words read outside parentheses. The words \<open>CREATE FUNCTION\<close> or \<open>CREATE PROCEDURE\<close>,
  with or without \<open>OR REPLACE\<close>, begin a routine.\<close>

record nesting =
  parens :: int
  blocks :: int
  words :: "bytes list"

definition statement_start :: nesting where
  "statement_start = \<lparr> parens = 0, blocks = 0, words = [] \<rparr>"

fun routine :: "bytes list \<Rightarrow> bool" where
  "routine (a # b # ws) =
     (eq_ignore_case a (bstr ''create'') \<and>
      (eq_ignore_case b (bstr ''function'') \<or> eq_ignore_case b (bstr ''procedure'') \<or>
       eq_ignore_case b (bstr ''or'') \<and>
       (case ws of
          c # e # _ \<Rightarrow> eq_ignore_case c (bstr ''replace'') \<and>
            (eq_ignore_case e (bstr ''function'') \<or> eq_ignore_case e (bstr ''procedure''))
        | _ \<Rightarrow> False)))"
| "routine ws = False"

definition note_word :: "bytes \<Rightarrow> nesting \<Rightarrow> nesting" where
  "note_word w n =
     (if parens n \<noteq> 0 then n
      else if \<not> routine (words n @ [w]) then n\<lparr>words := words n @ [w]\<rparr>
      else n\<lparr>words := words n @ [w],
             blocks := (if eq_ignore_case w (bstr ''begin'') \<or> eq_ignore_case w (bstr ''case'') \<and> 0 < blocks n then blocks n + 1
                        else if eq_ignore_case w (bstr ''end'') \<and> 0 < blocks n then blocks n - 1
                        else blocks n)\<rparr>)"

text \<open>The letter that the lexer keeps of a word, the eight letters that it keeps of a statement, and the states that
  stand for a place in a statement.\<close>

definition mark :: "bytes \<Rightarrow> byte" where
  "mark w =
     (if list_ex (eq_ignore_case w)
           [bstr ''create'', bstr ''function'', bstr ''procedure'', bstr ''or'', bstr ''replace''] then lower_ascii (hd w)
      else if list_ex (eq_ignore_case w) [bstr ''copy'', bstr ''from'', bstr ''stdin'', bstr ''stdout''] then upper_ascii (hd w)
      else 0)"

definition marks :: "bytes list \<Rightarrow> bytes" where
  "marks ws = take 8 (map mark ws @ replicate 8 0)"

definition inside :: "start_state \<Rightarrow> nesting \<Rightarrow> scan_state \<Rightarrow> bool" where
  "inside st n t =
     (start_state t = st \<and> paren_depth t = parens n \<and> begin_depth t = blocks n \<and> std_strings t \<and>
      init_idents_count t = min 8 (length (words n)) \<and> (words n \<noteq> [] \<longrightarrow> init_idents t = marks (words n)))"

lemma inside_updates:
  "inside st n t \<Longrightarrow> inside st' n (t\<lparr>start_state := st'\<rparr>)" "inside st n t \<Longrightarrow> start_state t = st"
  "inside st n (t\<lparr>xcdepth := k\<rparr>) = inside st n t"
  by (simp_all add: inside_def)

lemma double_byte_append: "double_byte q (a @ b) = double_byte q a @ double_byte q b"
  by (induction a) auto

lemma double_byte_none: "q \<notin> set a \<Longrightarrow> double_byte q a = a"
  by (induction a) auto

text \<open>The contract of a quoted token whose quote is doubled inside: one rule for two quotes, one for the
  closing quote, one for everything else.\<close>

locale quoted_reader =
  fixes vars :: variable_source and P Q :: "scan_state \<Rightarrow> bool" and q :: byte and stop :: "scan_state \<Rightarrow> scan_state"
  assumes quote_rules: "\<lbrakk>stack s \<noteq> []; rest s \<noteq> []; P (lex_state s)\<rbrakk> \<Longrightarrow>
      lex_step vars s out =
        keep (if begins_with [q, q] (rest s) then echo 2 s out
              else if rest s ! 0 = q then echo 1 (upd stop s) out
              else echo (run_len (\<lambda>c. c \<noteq> q) (rest s)) s out)"
    and quote_closes: "P t \<Longrightarrow> Q (stop t)"
begin

lemma reads_doubled:
  assumes "tail = [] \<or> hd tail \<noteq> q"
  shows "reads vars P (double_byte q v @ [q]) tail Q"
proof (induction "length v" arbitrary: v rule: less_induct)
  case less
  consider "v = []" | w where "v = q # w" | c w where "v = c # w" "c \<noteq> q"
    by (cases v) auto
  then show ?case
  proof cases
    case 1
    have "\<not> begins_with [q, q] (q # tail)"
      using assms by (cases tail) (auto simp: begins_with_def)
    then have "reads vars P [q] tail Q"
      by (intro reads_one) (auto simp: quote_rules quote_closes)
    then show ?thesis
      using 1 by simp
  next
    case 2
    have "reads vars P [q, q] ((double_byte q w @ [q]) @ tail) P"
      by (intro reads_one exI [of _ id]) (simp add: quote_rules begins_with_def upd_def numeral_2_eq_2)
    then show ?thesis
      using reads_then less [of w] 2 by fastforce
  next
    case 3
    let ?a = "takeWhile (\<lambda>c. c \<noteq> q) v" and ?w = "dropWhile (\<lambda>c. c \<noteq> q) v"
    have "double_byte q ?a = ?a"
      by (rule double_byte_none) (auto dest: set_takeWhileD)
    then have split: "double_byte q v = ?a @ double_byte q ?w"
      using double_byte_append [of q ?a ?w] by simp
    have shorter: "length ?w < length v"
      using 3 by (simp add: le_imp_less_Suc length_dropWhile_le)
    have "hd (double_byte q w @ q # tail) = q" if "w = [] \<or> hd w = q" for w
      using that by (cases w) auto
    then have hdw: "hd (double_byte q ?w @ q # tail) = q"
      using hd_dropWhile [of "\<lambda>c. c \<noteq> q" v] by blast
    have "run_len (\<lambda>c. c \<noteq> q) (?a @ double_byte q ?w @ [q] @ tail) = length ?a"
      by (rule run_len_stop) (use hdw in \<open>auto simp: list_all_iff dest: set_takeWhileD\<close>)
    then have "reads vars P ?a ((double_byte q ?w @ [q]) @ tail) P"
      using 3 by (intro reads_one exI [of _ id]) (simp add: quote_rules begins_with_def upd_def)
    then show ?thesis
      using reads_then [OF _ less [OF shorter]] split by simp
  qed
qed

end

interpretation sq: quoted_reader vars "inside Xq d" "inside Xqs d" 39
  "\<lambda>t. t\<lparr>state_before_str_stop := Xq, start_state := Xqs\<rparr>"
  by unfold_locales (simp_all add: inside_def lex_step_def step_xq_def Let_def quote_stop_def)

interpretation dq: quoted_reader vars "inside Xd d" "inside Initial d" 34 "\<lambda>t. t\<lparr>start_state := Initial\<rparr>"
  by unfold_locales (simp_all add: inside_def lex_step_def step_xd_def Let_def goto_def)

text \<open>What may follow a token: a space and the first byte of another token.\<close>

definition follows :: "bytes \<Rightarrow> bool" where
  "follows tail = (\<exists>c r. tail = 32 # c # r \<and> \<not> is_space_lex c \<and> \<not> begins_with (bstr ''--'') (c # r))"

lemma follows_no_continuation: "follows tail \<Longrightarrow> match_quotecontinue tail = None"
proof -
  assume "follows tail"
  then obtain c r where t: "tail = 32 # c # r" "\<not> is_space_lex c" "\<not> begins_with (bstr ''--'') (c # r)"
    unfolding follows_def by blast
  then have "skip_before_newline tail 1 = 1"
    by (subst skip_before_newline.simps) (auto simp: is_space_lex_def is_non_newline_space_def)
  then have "skip_before_newline tail 0 = 1"
    using t by (subst skip_before_newline.simps) (simp add: is_non_newline_space_def)
  then show ?thesis
    using t by (simp add: match_quotecontinue_def is_newline_def is_space_lex_def)
qed

lemma reads_quote_stop: "follows tail \<Longrightarrow> reads vars (inside Xqs d) [] tail (inside Initial d)"
proof (rule reads_one)
  fix s :: scanner and out
  assume "follows tail" "stack s \<noteq> []" "inside Xqs d (lex_state s)" "rest s = [] @ tail"
  then have "lex_step vars s out = keep (goto Initial s, out)" "rest s \<noteq> []"
    using follows_no_continuation [of tail] by (auto simp: lex_step_def inside_def step_xqs_def follows_def)
  moreover have "skip_bytes 0 (goto Initial s) = goto Initial s"
    by (simp add: skip_bytes_def goto_def upd_def split: list.split)
  ultimately show "\<exists>f. lex_step vars s out = keep (echo (length []) (upd f s) out) \<and> inside Initial d (f (lex_state s))"
    using \<open>inside Xqs d (lex_state s)\<close>
    by (intro exI [of _ "\<lambda>t. t\<lparr>start_state := Initial\<rparr>"]) (simp add: echo_def goto_def inside_def)
qed

lemma step_initial_byte:
  assumes "start_state (lex_state s) = Initial" "rest s = c # r" "\<not> is_space_lex c" "c \<noteq> 45" "c \<noteq> 47"
    and "step_prefixed_quote s out = None"
  shows "lex_step vars s out =
    (if c = 39 then keep (echo 1 (goto (if std_strings (lex_state s) then Xq else Xe) s) out)
     else if c = 34 then keep (echo 1 (goto Xd s) out)
     else if c = 36 then keep (step_dollar s out)
     else if c = 40 then keep (echo 1 (upd (\<lambda>t. t\<lparr>paren_depth := paren_depth t + 1\<rparr>) s) out)
     else if c = 41 then
       keep (echo 1 (if paren_depth (lex_state s) > 0
                     then upd (\<lambda>t. t\<lparr>paren_depth := paren_depth t - 1\<rparr>) s else s) out)
     else if c = 59 then step_semicolon s out
     else step_initial vars s out)"
proof -
  have "\<not> begins_with (bstr ''--'') (rest s)" "\<not> begins_with (bstr ''/*'') (rest s)"
    using assms(2,4,5) by (auto simp: begins_with_def)
  then show ?thesis
    using assms by (simp add: lex_step_def step_initial_def)
qed

lemma prefixed_quote_None:
  "rest s = c # r \<Longrightarrow> c \<notin> {98, 66, 120, 88, 110, 78, 101, 69, 117, 85} \<Longrightarrow> step_prefixed_quote s out = None"
  by (auto simp: step_prefixed_quote_def Let_def)

lemma reads_open: "reads vars (inside Initial n) [40] tail (inside Initial (n\<lparr>parens := parens n + 1\<rparr>))"
  by (rule reads_one, subst step_initial_byte [where c = 40])
    (auto simp: inside_def is_space_lex_def prefixed_quote_None)

lemma reads_close:
  "0 < parens n \<Longrightarrow> reads vars (inside Initial n) [41] tail (inside Initial (n\<lparr>parens := parens n - 1\<rparr>))"
  by (rule reads_one, subst step_initial_byte [where c = 41])
    (auto simp: inside_def is_space_lex_def prefixed_quote_None)

lemma reads_semi: "0 < parens n \<or> 0 < blocks n \<Longrightarrow> reads vars (inside Initial n) [59] tail (inside Initial n)"
  by (rule reads_one, subst step_initial_byte [where c = 59])
    (auto simp: inside_def is_space_lex_def prefixed_quote_None step_semicolon_def at_top_level_def echo_def
      keep_def upd_def intro!: exI [of _ id])

lemma reads_literal: "follows tail \<Longrightarrow> reads vars (inside Initial d) (escape_literal_text v) tail (inside Initial d)"
proof -
  assume tail: "follows tail"
  have "reads vars (inside Initial d) [39] t (inside Xq d)" for t
    by (rule reads_one, subst step_initial_byte [where c = 39])
      (auto simp: inside_def is_space_lex_def prefixed_quote_None goto_def)
  moreover have "reads vars (inside Xq d) (double_byte 39 v @ [39]) ([] @ tail) (inside Xqs d)"
    using tail by (intro sq.reads_doubled) (auto simp: follows_def)
  ultimately show ?thesis
    using reads_then [OF _ reads_quote_stop [OF tail, of vars d], of "inside Xq d" "double_byte 39 v @ [39]"]
      reads_then [of vars "inside Initial d" "[39]" "double_byte 39 v @ [39]" tail "inside Xq d"]
    unfolding escape_literal_text_def by simp
qed

lemma reads_delimited: "follows tail \<Longrightarrow> reads vars (inside Initial d) (escape_identifier_text v) tail (inside Initial d)"
proof -
  assume tail: "follows tail"
  have "reads vars (inside Initial d) [34] t (inside Xd d)" for t
    by (rule reads_one, subst step_initial_byte [where c = 34])
      (auto simp: inside_def is_space_lex_def prefixed_quote_None goto_def)
  moreover have "reads vars (inside Xd d) (double_byte 34 v @ [34]) tail (inside Initial d)"
    using tail by (intro dq.reads_doubled) (auto simp: follows_def)
  ultimately show ?thesis
    using reads_then unfolding escape_identifier_text_def by blast
qed

lemma reads_space:
  assumes "reads vars P a (32 # tail) (inside Initial d)" "a \<noteq> []" "tail = [] \<or> \<not> is_space_lex (hd tail)"
  shows "reads vars P (a @ [32]) tail (inside Initial d)"
  unfolding reads_def
proof (intro allI impI)
  fix s out
  assume "stack s \<noteq> [] \<and> P (lex_state s) \<and> rest s = (a @ [32]) @ tail"
  then obtain s1 where s1: "stack s1 \<noteq> []" "inside Initial d (lex_state s1)" "rest s1 = 32 # tail"
    "lex_loop vars s out = lex_loop vars s1 (out @ a)"
    using assms(1) unfolding reads_def by (metis append_Cons append_Nil append_assoc)
  have "run_len is_space_lex ([32] @ tail) = 1"
    using run_len_stop [of is_space_lex "[32]" tail] assms(3) by (simp add: is_space_lex_def)
  then have "lex_step vars s1 (out @ a) = (skip_bytes 1 s1, (out @ a) @ [32], None)"
    using s1(2,3) assms(2)
    by (simp add: lex_step_def inside_def step_initial_def is_space_lex_def suppressed_def echo_def keep_def)
  then have "lex_loop vars s1 (out @ a) = lex_loop vars (skip_bytes 1 s1) (out @ a @ [32])"
    using lex_loop_step [OF s1(1)] by simp
  moreover have "stack (skip_bytes 1 s1) \<noteq> []"
    using s1(1) by (auto simp: skip_bytes_def split: list.split)
  ultimately show "\<exists>s'. stack s' \<noteq> [] \<and> inside Initial d (lex_state s') \<and> rest s' = tail \<and>
      lex_loop vars s out = lex_loop vars s' (out @ a @ [32])"
    using s1 by (intro exI [of _ "skip_bytes 1 s1"]) (simp add: rest_skip)
qed

subsection \<open>Words\<close>

lemma marks_nth: "i < 8 \<Longrightarrow> marks ws ! i = (if i < length ws then mark (ws ! i) else 0)"
  by (simp add: marks_def nth_append)

lemma marks_append: "marks (ws @ [w]) = (if length ws < 8 then (marks ws)[length ws := mark w] else marks ws)"
proof (rule nth_equalityI)
  have len: "length (marks ws) = 8" for ws
    by (simp add: marks_def)
  then show "length (marks (ws @ [w])) = length (if length ws < 8 then (marks ws)[length ws := mark w] else marks ws)"
    by simp
  fix i
  assume "i < length (marks (ws @ [w]))"
  then have "i < 8"
    using len by simp
  then show "marks (ws @ [w]) ! i = (if length ws < 8 then (marks ws)[length ws := mark w] else marks ws) ! i"
    using len [of ws] by (auto simp: marks_nth nth_list_update nth_append)
qed

lemma marks_length [simp]: "length (marks ws) = 8"
  by (simp add: marks_def)

lemma marks_unmarked: "length ws < 8 \<Longrightarrow> (marks ws)[length ws := 0] = marks ws"
  using list_update_id [of "marks ws" "length ws"] by (simp add: marks_nth)

lemma eq_ignore_case_map: "eq_ignore_case a b = (map lower_ascii a = map lower_ascii b)"
  by (auto simp: eq_ignore_case_def list_eq_iff_nth_eq list_all_length)

lemma upper_lower: "upper_ascii (lower_ascii x) = upper_ascii x"
proof (cases "65 \<le> x \<and> x \<le> 90")
  case True
  then have "unat (x + 32) = unat x + 32"
    by (simp add: unat_word_ariths word_le_nat_alt)
  then show ?thesis
    using True by (simp add: upper_ascii_def lower_ascii_def word_le_nat_alt)
qed (auto simp: lower_ascii_def)

lemma lower_keywords:
  "map lower_ascii (bstr ''create'') = bstr ''create''" "map lower_ascii (bstr ''function'') = bstr ''function''"
  "map lower_ascii (bstr ''procedure'') = bstr ''procedure''" "map lower_ascii (bstr ''or'') = bstr ''or''"
  "map lower_ascii (bstr ''replace'') = bstr ''replace''" "map lower_ascii (bstr ''copy'') = bstr ''copy''"
  "map lower_ascii (bstr ''from'') = bstr ''from''" "map lower_ascii (bstr ''stdin'') = bstr ''stdin''"
  "map lower_ascii (bstr ''stdout'') = bstr ''stdout''"
  by (simp_all add: lower_ascii_def)

lemma mark_spelled:
  "mark w =
     (let l = map lower_ascii w
      in if l \<in> {bstr ''create'', bstr ''function'', bstr ''procedure'', bstr ''or'', bstr ''replace''} then hd l
         else if l \<in> {bstr ''copy'', bstr ''from'', bstr ''stdin'', bstr ''stdout''} then upper_ascii (hd l)
         else 0)"
proof (cases w)
  case (Cons c v)
  then show ?thesis
    by (simp add: mark_def eq_ignore_case_map lower_keywords upper_lower Let_def del: bstr_Cons)
qed (simp add: mark_def eq_ignore_case_map)

lemma mark_eqs:
  "mark w = 99 \<longleftrightarrow> eq_ignore_case w (bstr ''create'')" "mark w = 102 \<longleftrightarrow> eq_ignore_case w (bstr ''function'')"
  "mark w = 112 \<longleftrightarrow> eq_ignore_case w (bstr ''procedure'')" "mark w = 111 \<longleftrightarrow> eq_ignore_case w (bstr ''or'')"
  "mark w = 114 \<longleftrightarrow> eq_ignore_case w (bstr ''replace'')"
  unfolding mark_spelled eq_ignore_case_map lower_keywords Let_def by (auto simp: upper_ascii_def)

lemma routine_marks: "is_create_routine (marks ws) = routine ws"
  by (cases ws rule: routine.cases)
    (auto simp: is_create_routine_def marks_nth mark_eqs split: list.split)

lemma track_identifier_inside:
  assumes "inside Initial n t"
  shows "inside Initial (note_word w n) (track_identifier w t)"
proof (cases "paren_depth t = 0")
  case True
  define u where "u = (if init_idents_count t = 0 then t\<lparr>init_idents := replicate 8 0\<rparr> else t)"
  have u: "init_idents u = marks (words n)" "init_idents_count u = min 8 (length (words n))" "inside Initial n u"
    using assms by (auto simp: u_def inside_def marks_def min_def split: if_splits)
  have r: "init_idents (record_initial_keyword w u) = marks (words n @ [w])"
      "init_idents_count (record_initial_keyword w u) = min 8 (Suc (length (words n)))"
    using u by (auto simp: record_initial_keyword_def Let_def mark_def marks_append marks_unmarked simp del: bstr_Cons)
  show ?thesis
    using True assms r routine_marks [of "words n @ [w]"] unfolding track_identifier_def Let_def u_def [symmetric]
    using u(3) by (simp add: inside_def note_word_def record_initial_keyword_same)
qed (use assms in \<open>simp add: inside_def note_word_def track_identifier_def\<close>)

lemma ident_not_special:
  "is_ident_start c \<Longrightarrow> \<not> is_space_lex c \<and> \<not> is_op_char c \<and> \<not> is_ascii_digit c \<and> c \<notin> {45, 47, 39, 34, 36, 40, 41, 59, 92, 58, 46}"
  by (auto simp: is_ident_start_def is_space_lex_def is_op_char_def is_ascii_digit_def word_le_nat_alt)

lemma reads_word:
  assumes "is_ident_start c" "list_all is_ident_cont w" "follows tail"
  shows "reads vars (inside Initial d) (c # w) tail (inside Initial (note_word (c # w) d))"
proof (rule reads_one)
  fix s :: scanner and out
  assume s: "stack s \<noteq> []" "inside Initial d (lex_state s)" "rest s = (c # w) @ tail"
  note c = ident_not_special [OF assms(1)]
  have second: "byte_at (rest s) 1 \<notin> {Some 39, Some 38}"
    using assms(2,3) s(3) by (cases w) (auto simp: byte_at_def follows_def is_ident_cont_def is_ident_start_def is_ascii_digit_def)
  have "run_len is_ident_cont (w @ tail) = length w"
    using assms(2,3) by (intro run_len_stop)
      (auto simp: follows_def is_ident_cont_def is_ident_start_def is_ascii_digit_def)
  then have "step_identifier s out = echo (length (c # w)) (upd (track_identifier (c # w)) s) out"
    using s(3) by (simp add: step_identifier_def)
  moreover have "lex_step vars s out = keep (step_identifier s out)"
    using s(2,3) c second assms(1) by (auto simp: lex_step_def inside_def step_initial_def step_prefixed_quote_def begins_with_def)
  ultimately show "\<exists>f. lex_step vars s out = keep (echo (length (c # w)) (upd f s) out) \<and> inside Initial (note_word (c # w) d) (f (lex_state s))"
    using track_identifier_inside [OF s(2)] by auto
qed

subsection \<open>Comments\<close>

text \<open>The text behind the opening of a comment, \<open>k\<close> comments deep, is a comment to its end if every opening
  in it has its closing, and the last closing is at the end.\<close>

fun closes_comment :: "nat \<Rightarrow> bytes \<Rightarrow> bool" where
  "closes_comment k (a # b # r) =
     (if a = 47 \<and> b = 42 then closes_comment (Suc k) r
      else if a = 42 \<and> b = 47 then (case k of 0 \<Rightarrow> r = [] | Suc j \<Rightarrow> closes_comment j r)
      else closes_comment k (b # r))"
| "closes_comment k r = False"

lemma closes_comment_skip: "\<lbrakk>closes_comment k (a @ b); 42 \<notin> set a; 47 \<notin> set a\<rbrakk> \<Longrightarrow> closes_comment k b"
proof (induction a)
  case (Cons c a)
  then show ?case
    by (cases "a @ b") auto
qed simp

lemma closes_comment_stars:
  "closes_comment k (replicate (Suc n) 42 @ c # r) =
     (if c = 47 then (case k of 0 \<Rightarrow> r = [] | Suc j \<Rightarrow> closes_comment j r) else closes_comment k (42 # c # r))"
proof (induction n)
  case (Suc n)
  have "closes_comment k (replicate (Suc (Suc n)) 42 @ c # r) = closes_comment k (replicate (Suc n) 42 @ c # r)"
    by simp
  then show ?case
    using Suc by metis
qed simp

lemma closes_comment_nonempty: "closes_comment k r \<Longrightarrow> r \<noteq> []"
  by auto

lemma closes_comment_all_stars: "\<not> closes_comment k (replicate n 42)"
proof (induction n)
  case (Suc n)
  then show ?case
    by (cases n) simp_all
qed simp

text \<open>The first lexeme of a comment.\<close>

lemma comment_lexeme:
  assumes "closes_comment k body"
  obtains (nested) r where "body = 47 # 42 # r" "closes_comment (Suc k) r"
  | (last_stop) n where "body = replicate (Suc n) 42 @ [47]" "k = 0"
  | (stop) n r j where "body = replicate (Suc n) 42 @ 47 # r" "k = Suc j" "closes_comment j r"
  | (stars) n c r where "body = replicate (Suc n) 42 @ c # r" "c \<noteq> 47" "c \<noteq> 42" "closes_comment k (c # r)"
  | (slash) c r where "body = 47 # c # r" "c \<noteq> 42" "closes_comment k (c # r)"
  | (plain) a r where "body = a @ r" "a \<noteq> []" "42 \<notin> set a" "47 \<notin> set a" "closes_comment k r" "r \<noteq> []" "hd r \<in> {42, 47}"
proof -
  obtain c r where b: "body = c # r" "r \<noteq> []"
    using assms by (cases "(k, body)" rule: closes_comment.cases) auto
  consider "c = 42" | "c = 47" | "c \<noteq> 42" "c \<noteq> 47"
    by blast
  then show thesis
  proof cases
    case 1
    define m where "m = takeWhile (\<lambda>x. x = 42) r"
    have m: "m = replicate (length m) 42"
      by (rule replicate_length_same [symmetric]) (auto simp: m_def dest: set_takeWhileD)
    have split: "body = replicate (Suc (length m)) 42 @ dropWhile (\<lambda>x. x = 42) r"
      using b 1 m takeWhile_dropWhile_id [of "\<lambda>x. x = 42" r] unfolding m_def by simp
    have "dropWhile (\<lambda>x. x = 42) r \<noteq> []"
    proof
      assume e: "dropWhile (\<lambda>x. x = 42) r = []"
      then have "closes_comment k (replicate (Suc (length m)) 42)"
        using assms unfolding split e by simp
      then show False
        using closes_comment_all_stars by blast
    qed
    then obtain d s where "dropWhile (\<lambda>x. x = 42) r = d # s" "d \<noteq> 42"
      using hd_dropWhile [of "\<lambda>x. x = 42" r] by (cases "dropWhile (\<lambda>x. x = 42) r") auto
    then have body: "body = replicate (Suc (length m)) 42 @ d # s" "d \<noteq> 42"
      using split by simp_all
    have c: "if d = 47 then (case k of 0 \<Rightarrow> s = [] | Suc j \<Rightarrow> closes_comment j s) else closes_comment k (42 # d # s)"
      using assms closes_comment_stars [of k "length m" d s] unfolding body(1) by simp
    show ?thesis
    proof (cases "d = 47")
      case True
      then show ?thesis
        using body(1) c last_stop stop by (cases k) simp_all
    next
      case False
      then show ?thesis
        using body c stars by simp
    qed
  next
    case 2
    obtain d s where "r = d # s"
      using b(2) by (cases r) simp_all
    then show ?thesis
      using assms b 2 nested slash by (auto split: if_splits)
  next
    case 3
    let ?P = "\<lambda>x. x \<noteq> 42 \<and> x \<noteq> 47"
    have split: "body = takeWhile ?P body @ dropWhile ?P body"
      by simp
    have a: "42 \<notin> set (takeWhile ?P body)" "47 \<notin> set (takeWhile ?P body)" "takeWhile ?P body \<noteq> []"
      using 3 b by (auto dest: set_takeWhileD)
    then have "closes_comment k (dropWhile ?P body)"
      using closes_comment_skip [of k "takeWhile ?P body" "dropWhile ?P body"] assms by simp
    moreover from this have ne: "dropWhile ?P body \<noteq> []"
      by (rule closes_comment_nonempty)
    moreover have "hd (dropWhile ?P body) \<in> {42, 47}"
      using hd_dropWhile [of ?P body] ne by blast
    ultimately show ?thesis
      using plain [OF split] a by blast
  qed
qed

lemma reads_in_comment:
  assumes "\<And>s. \<lbrakk>start_state (lex_state s) = Xc; rest s = text @ tail; P (lex_state s)\<rbrakk> \<Longrightarrow>
      \<forall>out. step_xc s out = echo (length text) (upd f s) out"
    and "\<And>t. P t \<Longrightarrow> start_state t = Xc \<and> Q (f t)" and "text \<noteq> []"
  shows "reads vars P text tail Q"
  using assms by (intro reads_one exI [of _ f]) (simp add: lex_step_def)

lemma run_len_stars: "c \<noteq> 42 \<Longrightarrow> run_len (\<lambda>x. x = 42) (replicate n 42 @ c # r) = n"
  by (induction n) (simp_all add: run_len_def)

lemma xcstop_stars: "match_xcstop (replicate (Suc n) 42 @ c # r) = (if c = 47 then Some (n + 2) else None)" if "c \<noteq> 42"
proof -
  show ?thesis
    using run_len_stars [OF that, of "Suc n" r] byte_at_append [of "replicate (Suc n) 42" "c # r"] by (simp add: match_xcstop_def byte_at_def del: replicate.simps)
qed

lemma reads_comment_body:
  assumes "closes_comment k body"
  shows "reads vars (\<lambda>t. inside Xc d t \<and> xcdepth t = int k) body tail (inside Initial d)"
  using assms
proof (induction "length body" arbitrary: k body rule: less_induct)
  case less
  let ?P = "\<lambda>k t. inside Xc d t \<and> xcdepth t = int k"
  have onward: ?case if "body = a @ r" "a \<noteq> []" "closes_comment j r" "reads vars (?P k) a (r @ tail) (?P j)" for a r j
    using reads_then [OF that(4) less(1) [of r j]] that by simp
  from less(2) show ?case
  proof (cases rule: comment_lexeme)
    case (nested r)
    show ?thesis
    proof (rule onward [of "[47, 42]" r "Suc k"])
      show "reads vars (?P k) [47, 42] (r @ tail) (?P (Suc k))"
        by (rule reads_in_comment [where f = "\<lambda>t. t\<lparr>xcdepth := xcdepth t + 1\<rparr>"])
          (auto simp: inside_updates step_xc_def begins_with_def numeral_2_eq_2 [symmetric])
    qed (use nested in simp_all)
  next
    case (last_stop n)
    have "reads vars (?P k) (replicate (Suc n) 42 @ [47]) tail (inside Initial d)"
      by (rule reads_in_comment [where f = "\<lambda>t. t\<lparr>start_state := Initial\<rparr>"])
        (use last_stop xcstop_stars [of 47 n tail] in \<open>auto simp: inside_updates step_xc_def begins_with_def goto_def\<close>)
    then show ?thesis
      using last_stop by simp
  next
    case (stop n r j)
    show ?thesis
    proof (rule onward [of "replicate (Suc n) 42 @ [47]" r j])
      show "reads vars (?P k) (replicate (Suc n) 42 @ [47]) (r @ tail) (?P j)"
        by (rule reads_in_comment [where f = "\<lambda>t. t\<lparr>xcdepth := xcdepth t - 1\<rparr>"])
          (use stop xcstop_stars [of 47 n "r @ tail"] in \<open>auto simp: inside_updates step_xc_def begins_with_def\<close>)
    qed (use stop in simp_all)
  next
    case (stars n c r)
    have run: "run_len (\<lambda>x. x = 42) (replicate (Suc n) 42 @ c # r @ tail) = Suc n"
      using stars(3) by (rule run_len_stars)
    show ?thesis
    proof (rule onward [of "replicate (Suc n) 42" "c # r" k])
      show "reads vars (?P k) (replicate (Suc n) 42) ((c # r) @ tail) (?P k)"
        by (rule reads_in_comment [where f = id])
          (use stars run xcstop_stars [of c n "r @ tail"] in
            \<open>auto simp: inside_updates step_xc_def begins_with_def upd_def run_len_def [of "\<lambda>c. c \<noteq> 42 \<and> c \<noteq> 47"]\<close>)
    qed (use stars in simp_all)
  next
    case (slash c r)
    show ?thesis
    proof (rule onward [of "[47]" "c # r" k])
      show "reads vars (?P k) [47] ((c # r) @ tail) (?P k)"
        by (rule reads_in_comment [where f = id])
          (use slash in \<open>auto simp: inside_updates step_xc_def begins_with_def upd_def match_xcstop_def run_len_def\<close>)
    qed (use slash in simp_all)
  next
    case (plain a r)
    have run: "run_len (\<lambda>x. x \<noteq> 42 \<and> x \<noteq> 47) (a @ r @ tail) = length a"
      using plain by (intro run_len_stop) (auto simp: list_all_iff)
    obtain x b where x: "a = x # b" "x \<noteq> 42" "x \<noteq> 47"
      using plain by (cases a) auto
    show ?thesis
    proof (rule onward [of a r k])
      show "reads vars (?P k) a (r @ tail) (?P k)"
        by (rule reads_in_comment [where f = id])
          (use x run in \<open>auto simp: inside_updates step_xc_def begins_with_def upd_def match_xcstop_def run_len_def [of "\<lambda>c. c = 42"]\<close>)
    qed (use plain in simp_all)
  qed
qed

lemma reads_comment:
  assumes "closes_comment 0 body"
  shows "reads vars (inside Initial d) ([47, 42] @ body) tail (inside Initial d)"
proof (rule reads_then)
  show "reads vars (inside Initial d) [47, 42] (body @ tail) (\<lambda>t. inside Xc d t \<and> xcdepth t = int 0)"
    by (rule reads_one, rule exI [of _ "\<lambda>t. t\<lparr>xcdepth := 0, start_state := Xc\<rparr>"])
      (auto simp: lex_step_def inside_updates step_initial_def begins_with_def is_space_lex_def numeral_2_eq_2 [symmetric])
qed (rule reads_comment_body [OF assms])

subsection \<open>Dollar quotes\<close>

definition tag_ok :: "bytes \<Rightarrow> bool" where
  "tag_ok tag = (list_all is_dolq_cont tag \<and> (tag = [] \<or> is_dolq_start (hd tag)))"

definition delimiter :: "bytes \<Rightarrow> bytes" where
  "delimiter tag = [36] @ tag @ [36]"

definition no_delimiter :: "bytes \<Rightarrow> bytes \<Rightarrow> bool" where
  "no_delimiter tag body = list_all (\<lambda>i. \<not> begins_with (delimiter tag) (drop i (body @ delimiter tag))) [0..<length body]"

lemma dolq_cont_not_dollar: "is_dolq_cont c \<Longrightarrow> c \<noteq> 36"
  by (auto simp: is_dolq_cont_def is_ident_start_def is_ascii_digit_def)

lemma run_len_nth: "i < run_len P r \<Longrightarrow> P (r ! i)"
  unfolding run_len_def by (metis nth_mem set_takeWhileD takeWhile_nth)

lemma match_delimiter:
  assumes "tag_ok tag"
  shows "match_dolqdelim (delimiter tag @ r) = Some (length (delimiter tag))"
proof (cases tag)
  case Nil
  then show ?thesis
    by (simp add: match_dolqdelim_def delimiter_def byte_at_def)
next
  case (Cons c cs)
  then have "run_len is_dolq_cont (cs @ 36 # r) = length cs" "c \<noteq> 36" "is_dolq_start c"
    using assms dolq_cont_not_dollar [of 36] dolq_cont_not_dollar [of c] by (auto simp: tag_ok_def intro!: run_len_stop)
  then show ?thesis
    using Cons by (simp add: match_dolqdelim_def delimiter_def byte_at_def nth_append)
qed

lemma match_dolqdelim_between: "\<lbrakk>match_dolqdelim r = Some n; 0 < i; i < n - 1\<rbrakk> \<Longrightarrow> r ! i \<noteq> 36"
proof -
  assume m: "match_dolqdelim r = Some n" and i: "0 < i" "i < n - 1"
  then obtain c where c: "byte_at r 1 = Some c" "is_dolq_start c"
    "n = 3 + run_len is_dolq_cont (drop 2 r)"
    by (auto simp: match_dolqdelim_def Let_def split: if_splits option.splits)
  show ?thesis
  proof (cases "i = 1")
    case True
    then show ?thesis
      using c ident_not_special by (auto simp: is_dolq_start_def)
  next
    case False
    then have "i - 2 < run_len is_dolq_cont (drop 2 r)"
      using i c(3) by simp
    then have "is_dolq_cont (drop 2 r ! (i - 2))"
      by (rule run_len_nth)
    moreover have "2 + (i - 2) = i"
      using False i by simp
    ultimately show ?thesis
      using c(1) dolq_cont_not_dollar [of "r ! i"] by (metis Suc_leI byte_at_Some nth_drop numeral_2_eq_2 One_nat_def)
  qed
qed

text \<open>Inside a dollar quote no rule reads past the next dollar sign.\<close>

definition dolq_len :: "bytes \<Rightarrow> nat" where
  "dolq_len r =
     (case match_dolqdelim r of
        Some n \<Rightarrow> n - 1
      | None \<Rightarrow> if r ! 0 = 36 then 1 + run_len is_dolq_cont (drop 1 r) else run_len (\<lambda>c. c \<noteq> 36) r)"

lemma dolq_len_pos: "r \<noteq> [] \<Longrightarrow> 0 < dolq_len r"
  using run_len_pos [of r "\<lambda>c. c \<noteq> 36"] match_dolqdelim_bounds [of r]
  by (auto simp: dolq_len_def split: option.split)

lemma dolq_len_before_dollar:
  assumes "0 < i" "r ! i = 36"
  shows "dolq_len r \<le> i"
proof (cases "match_dolqdelim r")
  case None
  have "\<not> i - 1 < run_len is_dolq_cont (drop 1 r)" if "r ! 0 = 36"
  proof
    assume less: "i - 1 < run_len is_dolq_cont (drop 1 r)"
    then have "1 \<le> length r"
      using run_len_le [of is_dolq_cont "drop 1 r"] by simp
    then show False
      using run_len_nth [OF less] dolq_cont_not_dollar [of 36] assms by (simp add: Suc_leI)
  qed
  moreover have "\<not> i < run_len (\<lambda>c. c \<noteq> 36) r"
    using run_len_nth [of i "\<lambda>c. c \<noteq> 36" r] assms(2) by blast
  ultimately show ?thesis
    using None assms(1) by (auto simp: dolq_len_def)
next
  case (Some n)
  have "\<not> i < n - 1"
    using match_dolqdelim_between [OF Some assms(1)] assms(2) by blast
  then show ?thesis
    by (simp add: dolq_len_def Some)
qed

lemma dolq_step:
  assumes "stack s \<noteq> []" "inside Xdolq d (lex_state s)" "dolqstart (lex_state s) = Some (delimiter tag)"
    and "rest s \<noteq> []" "\<not> begins_with (delimiter tag) (rest s)"
  shows "lex_step vars s out = keep (echo (dolq_len (rest s)) s out)"
proof -
  have "take n (rest s) \<noteq> delimiter tag" if "match_dolqdelim (rest s) = Some n" for n
    using assms(5) match_dolqdelim_bounds [OF that] unfolding begins_with_def by (metis length_take min.absorb2)
  then show ?thesis
    using assms by (auto simp: lex_step_def inside_def step_xdolq_def dolq_len_def Let_def split: option.split)
qed

lemma no_delimiter_drop: "\<lbrakk>no_delimiter tag body; n \<le> length body\<rbrakk> \<Longrightarrow> no_delimiter tag (drop n body)"
proof -
  assume nd: "no_delimiter tag body" and n: "n \<le> length body"
  have "\<not> begins_with (delimiter tag) (drop i (drop n body @ delimiter tag))" if "i < length (drop n body)" for i
    using nd n that unfolding no_delimiter_def list_all_iff
    by (metis (no_types, lifting) add.commute atLeast_upt diff_is_0_eq drop0 drop_append drop_drop length_drop less_diff_conv lessThan_iff)
  then show ?thesis
    by (simp add: no_delimiter_def list_all_iff)
qed

lemma no_delimiter_here:
  assumes "no_delimiter tag body" "body \<noteq> []"
  shows "\<not> begins_with (delimiter tag) (body @ delimiter tag @ tail)"
proof -
  have "\<not> begins_with (delimiter tag) (body @ delimiter tag)"
    using assms unfolding no_delimiter_def list_all_iff by (metis atLeast_upt drop0 length_greater_0_conv lessThan_iff)
  then show ?thesis
    by (simp add: begins_with_def)
qed

lemma reads_dollar_body:
  assumes "tag_ok tag" "no_delimiter tag body"
  shows "reads vars (\<lambda>t. inside Xdolq d t \<and> dolqstart t = Some (delimiter tag)) (body @ delimiter tag) tail (inside Initial d)"
  using assms(2)
proof (induction "length body" arbitrary: body rule: less_induct)
  case less
  let ?P = "\<lambda>t. inside Xdolq d t \<and> dolqstart t = Some (delimiter tag)"
  show ?case
  proof (cases "body = []")
    case True
    have "reads vars ?P (delimiter tag) tail (inside Initial d)"
      by (rule reads_one, rule exI [of _ "\<lambda>t. t\<lparr>dolqstart := None, start_state := Initial\<rparr>"])
        (simp add: lex_step_def inside_def step_xdolq_def match_delimiter [OF assms(1)], simp add: delimiter_def)
    then show ?thesis
      using True by simp
  next
    case False
    let ?r = "body @ delimiter tag @ tail"
    let ?n = "dolq_len ?r"
    have pos: "0 < ?n" and le: "?n \<le> length body"
      using False by (auto intro!: dolq_len_pos dolq_len_before_dollar simp: delimiter_def nth_append)
    have "reads vars ?P (take ?n body) ((drop ?n body @ delimiter tag) @ tail) ?P"
    proof (rule reads_one, rule exI [of _ id], intro conjI)
      fix s :: scanner and out
      assume s: "stack s \<noteq> []" "?P (lex_state s)" "rest s = take ?n body @ (drop ?n body @ delimiter tag) @ tail"
      then have r: "rest s = ?r"
        by (metis append.assoc append_take_drop_id)
      then have "lex_step vars s out = keep (echo ?n s out)"
        using dolq_step [of s d tag] s(1,2) False no_delimiter_here [OF less.prems False, of tail] by simp
      then show "lex_step vars s out = keep (echo (length (take ?n body)) (upd id s) out)"
        using le by (simp add: upd_def)
    qed simp_all
    moreover have "reads vars ?P (drop ?n body @ delimiter tag) tail (inside Initial d)"
      using less.hyps [of "drop ?n body"] no_delimiter_drop [OF less.prems le] pos False by simp
    ultimately have "reads vars ?P (take ?n body @ drop ?n body @ delimiter tag) tail (inside Initial d)"
      by (rule reads_then)
    then show ?thesis
      unfolding append.assoc [symmetric] append_take_drop_id .
  qed
qed

lemma reads_dollar:
  assumes "tag_ok tag" "no_delimiter tag body"
  shows "reads vars (inside Initial d) (delimiter tag @ body @ delimiter tag) tail (inside Initial d)"
proof (rule reads_then)
  show "reads vars (inside Initial d) (delimiter tag) ((body @ delimiter tag) @ tail)
      (\<lambda>t. inside Xdolq d t \<and> dolqstart t = Some (delimiter tag))"
  proof (rule reads_one, rule exI [of _ "\<lambda>t. t\<lparr>dolqstart := Some (delimiter tag), start_state := Xdolq\<rparr>"])
    fix s :: scanner and out
    assume s: "stack s \<noteq> []" "inside Initial d (lex_state s)" "rest s = delimiter tag @ (body @ delimiter tag) @ tail"
    then have r: "rest s = 36 # tag @ 36 # (body @ delimiter tag) @ tail"
      by (simp add: delimiter_def)
    have "lex_step vars s out = keep (step_dollar s out)"
      using step_initial_byte [OF _ r, of out vars] s(2) prefixed_quote_None [OF r]
      by (simp add: inside_def is_space_lex_def)
    then show "lex_step vars s out =
        keep (echo (length (delimiter tag)) (upd (\<lambda>t. t\<lparr>dolqstart := Some (delimiter tag), start_state := Xdolq\<rparr>) s) out) \<and>
        inside Xdolq d ((lex_state s)\<lparr>dolqstart := Some (delimiter tag), start_state := Xdolq\<rparr>) \<and>
        dolqstart ((lex_state s)\<lparr>dolqstart := Some (delimiter tag), start_state := Xdolq\<rparr>) = Some (delimiter tag)"
      using s match_delimiter [OF assms(1)] by (simp add: step_dollar_def inside_def)
  qed
qed (rule reads_dollar_body [OF assms])


subsection \<open>Numbers, operators and punctuation\<close>

text \<open>A number of digits, with or without a fraction.\<close>

definition fraction :: "bytes option \<Rightarrow> bytes" where
  "fraction f = (case f of None \<Rightarrow> [] | Some ds \<Rightarrow> 46 # ds)"

definition number_ok :: "bytes \<Rightarrow> bytes option \<Rightarrow> bool" where
  "number_ok ds f =
     (ds \<noteq> [] \<and> list_all is_ascii_digit ds \<and> (case f of None \<Rightarrow> True | Some fs \<Rightarrow> list_all is_ascii_digit fs))"

text \<open>An operator: operator characters that do not open a comment, and that end in a sign only if there is
  nothing before it or one of the characters that allow it.\<close>

definition operator_ok :: "bytes \<Rightarrow> bool" where
  "operator_ok p =
     (p \<noteq> [] \<and> list_all is_op_char p \<and> find_window p (bstr ''/*'') = None \<and> find_window p (bstr ''--'') = None \<and>
      (length p = 1 \<or> last p \<notin> {43, 45} \<or> list_ex qualifies_trailing_sign p))"

lemma digit_run: "list_all is_ascii_digit ds \<Longrightarrow> b = [] \<or> \<not> is_ascii_digit (hd b) \<and> hd b \<noteq> 95 \<Longrightarrow>
   digits_from (a @ ds @ b) (length a) = length ds"
  unfolding digits_from_def using run_len_stop [of "\<lambda>c. is_ascii_digit c \<or> c = 95" ds b]
  by (auto simp: list_all_iff)

lemma digits_not_radix:
  assumes "list_all is_ascii_digit ds" "ds \<noteq> []" and "hd b \<in> {32, 46}" "b \<noteq> []"
  shows "number_radix (ds @ b) = None"
proof -
  have "byte_at (ds @ b) 1 \<notin> {Some 120, Some 88, Some 111, Some 79, Some 98, Some 66}"
    using assms by (cases ds; cases "tl ds"; cases b) (auto simp: byte_at_def is_ascii_digit_def)
  then show ?thesis
    by (auto simp: number_radix_def)
qed

lemma number_length:
  assumes "number_ok ds f"
  shows "match_number (ds @ fraction f @ 32 # r) = length (ds @ fraction f)"
proof -
  have ds: "list_all is_ascii_digit ds" "ds \<noteq> []"
    using assms by (simp_all add: number_ok_def)
  have no_end: "match_exponent (x @ 32 # r) (length x) = length x" "run_len is_ident_cont (32 # r) = 0" for x
    by (simp_all add: match_exponent_def byte_at_def run_len_def is_ident_cont_def is_ident_start_def is_ascii_digit_def)
  have radix: "number_radix (ds @ fraction f @ 32 # r) = None"
    using ds by (intro digits_not_radix) (auto simp: fraction_def split: option.split)
  have whole: "digits_from (ds @ fraction f @ 32 # r) 0 = length ds"
    using digit_run [OF ds(1), of "fraction f @ 32 # r" "[]"]
    by (auto simp: fraction_def is_ascii_digit_def split: option.split)
  show ?thesis
  proof (cases f)
    case None
    then show ?thesis
      using radix whole no_end(1) [of ds] no_end(2)
      by (simp add: match_number_def fraction_def begins_with_def byte_at_def)
  next
    case (Some fs)
    then have fs: "list_all is_ascii_digit fs"
      using assms by (simp add: number_ok_def)
    have "digits_from (ds @ 46 # fs @ 32 # r) (Suc (length ds)) = length fs"
      using digit_run [OF fs, of "32 # r" "ds @ [46]"] by (simp add: is_ascii_digit_def)
    moreover have "\<not> begins_with (bstr ''..'') (46 # fs @ 32 # r)"
      using fs by (cases fs) (auto simp: begins_with_def is_ascii_digit_def)
    ultimately show ?thesis
      using radix whole no_end(1) [of "ds @ 46 # fs"] no_end(2) Some
      by (simp add: match_number_def fraction_def byte_at_def)
  qed
qed

lemma operator_length_ok:
  assumes "operator_ok p"
  shows "operator_length (p @ 32 # r) = length p"
proof -
  have p: "p \<noteq> []" "list_all is_op_char p" "find_window p (bstr ''/*'') = None" "find_window p (bstr ''--'') = None"
    using assms by (simp_all add: operator_ok_def)
  have run: "run_len is_op_char (p @ 32 # r) = length p"
    using p(2) by (intro run_len_stop) (simp_all add: is_op_char_def)
  have last: "(p @ 32 # r) ! (length p - 1) = last p"
    using p(1) by (simp add: nth_append last_conv_nth)
  have sign: "list_ex qualifies_trailing_sign (rev (take (length p - 1) (p @ 32 # r)))"
    if "1 < length p" "last p \<in> {43, 45}"
  proof -
    have "list_ex qualifies_trailing_sign p" "\<not> qualifies_trailing_sign (last p)"
      using assms that by (auto simp: operator_ok_def qualifies_trailing_sign_def)
    moreover have "p = take (length p - 1) p @ [last p]"
      using p(1) append_butlast_last_id [of p] by (simp add: butlast_conv_take)
    ultimately have "list_ex qualifies_trailing_sign (take (length p - 1) p)"
      by (metis (no_types, lifting) list_ex_append list_ex_iff empty_iff list.set(1) set_ConsD)
    then show ?thesis
      by simp
  qed
  have "1 \<le> length p"
    using p(1) by (cases p) simp_all
  then show ?thesis
    using p(3,4) run last sign by (auto simp: operator_length_def Let_def simp del: bstr_Cons)
qed

lemma reads_plain_byte:
  assumes "\<not> is_space_lex c" "c \<notin> {39, 34, 36, 40, 41, 59, 92, 58}" "\<not> is_ident_start c"
    and "\<not> begins_with (bstr ''--'') (c # r)" "\<not> begins_with (bstr ''/*'') (c # r)"
    and "inside Initial n (lex_state s)" "rest s = c # r"
  shows "lex_step vars s out = keep (echo
    (if is_op_char c then operator_length (c # r)
     else if is_ascii_digit c \<or> c = 46 \<and> (case byte_at (c # r) 1 of None \<Rightarrow> False | Some d \<Rightarrow> is_ascii_digit d)
       then match_number (c # r)
     else 1) s out)"
proof -
  have "step_prefixed_quote s out = None"
    using assms(3,7) by (intro prefixed_quote_None) (auto simp: is_ident_start_def)
  then show ?thesis
    using assms by (auto simp: lex_step_def step_initial_def inside_updates Let_def)
qed

lemma reads_number:
  assumes "number_ok ds f" "follows tail"
  shows "reads vars (inside Initial n) (ds @ fraction f) tail (inside Initial n)"
proof (rule reads_one, rule exI [of _ id], intro conjI)
  fix s :: scanner and out
  assume s: "stack s \<noteq> []" "inside Initial n (lex_state s)" "rest s = (ds @ fraction f) @ tail"
  obtain c d r where c: "ds = c # d" "tail = 32 # r" "is_ascii_digit c"
    using assms by (cases ds) (auto simp: number_ok_def follows_def)
  then have "\<not> is_space_lex c" "c \<notin> {39, 34, 36, 40, 41, 59, 92, 58, 45, 47}" "\<not> is_ident_start c" "\<not> is_op_char c"
    by (auto simp: is_ascii_digit_def is_space_lex_def is_ident_start_def is_op_char_def word_le_nat_alt)
  then have "lex_step vars s out = keep (echo (match_number (rest s)) s out)"
    using reads_plain_byte [of c "d @ fraction f @ tail" n s vars out] s(2,3) c by (simp add: begins_with_def)
  then show "lex_step vars s out = keep (echo (length (ds @ fraction f)) (upd id s) out)"
    using number_length [OF assms(1), of r] s(3) c(2) by (simp add: upd_def)
qed simp

lemma operator_no_comment:
  assumes "operator_ok p" "p = c # q"
  shows "\<not> begins_with (bstr ''--'') (p @ 32 # r)" "\<not> begins_with (bstr ''/*'') (p @ 32 # r)"
proof -
  have no: "\<not> begins_with w (p @ 32 # r)" if "find_window p w = None" "length w = 2" "w ! 1 \<noteq> 32" for w
  proof
    assume b: "begins_with w (p @ 32 # r)"
    show False
    proof (cases q)
      case Nil
      then show False
        using b that(2,3) assms(2) by (auto simp: begins_with_def numeral_2_eq_2)
    next
      case (Cons e v)
      then have "take 2 p = w"
        using b that(2) assms(2) by (simp add: begins_with_def numeral_2_eq_2)
      moreover have "0 \<in> set [0..<Suc (length p) - length w]"
        using that(2) Cons assms(2) by simp
      ultimately show False
        using that(1,2) unfolding find_window_def find_None_iff by (metis drop0)
    qed
  qed
  show "\<not> begins_with (bstr ''--'') (p @ 32 # r)" "\<not> begins_with (bstr ''/*'') (p @ 32 # r)"
    using assms(1) no [of "bstr ''--''"] no [of "bstr ''/*''"] by (simp_all add: operator_ok_def)
qed

lemma reads_operator:
  assumes "operator_ok p" "follows tail"
  shows "reads vars (inside Initial n) p tail (inside Initial n)"
proof (rule reads_one, rule exI [of _ id], intro conjI)
  fix s :: scanner and out
  assume s: "stack s \<noteq> []" "inside Initial n (lex_state s)" "rest s = p @ tail"
  obtain c d r where c: "p = c # d" "tail = 32 # r" "is_op_char c"
    using assms by (cases p) (auto simp: operator_ok_def follows_def)
  have "\<not> is_space_lex c" "c \<notin> {39, 34, 36, 40, 41, 59, 92, 58}" "\<not> is_ident_start c"
    using c(3) by (auto simp: is_op_char_def is_space_lex_def is_ident_start_def)
  then have "lex_step vars s out = keep (echo (operator_length (rest s)) s out)"
    using reads_plain_byte [of c "d @ tail" n s vars out] operator_no_comment [OF assms(1) c(1), of r] s(2,3) c by simp
  then show "lex_step vars s out = keep (echo (length p) (upd id s) out)"
    using operator_length_ok [OF assms(1), of r] s(3) c(2) by (simp add: upd_def)
qed simp

lemma reads_punctuation:
  assumes "c \<in> {44, 46, 91, 93}" "follows tail"
  shows "reads vars (inside Initial n) [c] tail (inside Initial n)"
proof (rule reads_one, rule exI [of _ id], intro conjI)
  fix s :: scanner and out
  assume s: "stack s \<noteq> []" "inside Initial n (lex_state s)" "rest s = [c] @ tail"
  obtain r where r: "tail = 32 # r"
    using assms(2) by (auto simp: follows_def)
  have "\<not> is_space_lex c" "c \<notin> {39, 34, 36, 40, 41, 59, 92, 58}" "\<not> is_ident_start c" "\<not> is_op_char c" "\<not> is_ascii_digit c"
    "\<not> begins_with (bstr ''--'') (c # tail)" "\<not> begins_with (bstr ''/*'') (c # tail)"
    using assms(1) by (auto simp: is_op_char_def is_space_lex_def is_ident_start_def is_ascii_digit_def begins_with_def)
  then show "lex_step vars s out = keep (echo (length [c]) (upd id s) out)"
    using reads_plain_byte [of c tail n s vars out] s(2,3) r by (auto simp: byte_at_def is_ascii_digit_def upd_def)
qed simp

subsection \<open>Statements\<close>

text \<open>An abstract view of a statement: words (keywords and identifiers), numbers, operators, punctuation,
  literals and delimited identifiers holding any bytes, dollar-quoted bodies, comments, nested ones
  too, parentheses, and semicolons, which belong to the statement inside parentheses and in the blocks of a
  routine only. Each is written with a space after it. The lexer never sees this type; the theorem
  below says it finds the end of every statement that can be written this way.\<close>

datatype sql_token =
  Word byte bytes | Number bytes "bytes option" | Operator bytes | Punctuation byte
| Literal bytes | Delimited bytes | DollarQuoted bytes bytes | BlockComment bytes
| OpenParen | CloseParen | Semi

fun token_text :: "sql_token \<Rightarrow> bytes" where
  "token_text (Word c w) = c # w"
| "token_text (Number ds f) = ds @ fraction f"
| "token_text (Operator p) = p"
| "token_text (Punctuation c) = [c]"
| "token_text (Literal v) = escape_literal_text v"
| "token_text (Delimited v) = escape_identifier_text v"
| "token_text (DollarQuoted tag body) = delimiter tag @ body @ delimiter tag"
| "token_text (BlockComment body) = [47, 42] @ body"
| "token_text OpenParen = [40]"
| "token_text CloseParen = [41]"
| "token_text Semi = [59]"

fun token_ok :: "sql_token \<Rightarrow> bool" where
  "token_ok (Word c w) = (is_ident_start c \<and> list_all is_ident_cont w)"
| "token_ok (Number ds f) = number_ok ds f"
| "token_ok (Operator p) = operator_ok p"
| "token_ok (Punctuation c) = (c \<in> {44, 46, 91, 93})"
| "token_ok (DollarQuoted tag body) = (tag_ok tag \<and> no_delimiter tag body)"
| "token_ok (BlockComment body) = closes_comment 0 body"
| "token_ok t = True"

text \<open>Where a token leads; \<open>None\<close> for a parenthesis that closes nothing and for the semicolon that ends
  the statement.\<close>

fun nest :: "nesting \<Rightarrow> sql_token \<Rightarrow> nesting option" where
  "nest n (Word c w) = Some (note_word (c # w) n)"
| "nest n OpenParen = Some (n\<lparr>parens := parens n + 1\<rparr>)"
| "nest n CloseParen = (if 0 < parens n then Some (n\<lparr>parens := parens n - 1\<rparr>) else None)"
| "nest n Semi = (if 0 < parens n \<or> 0 < blocks n then Some n else None)"
| "nest n t = Some n"

fun tokens_ok :: "nesting \<Rightarrow> sql_token list \<Rightarrow> bool" where
  "tokens_ok n [] = (parens n = 0 \<and> blocks n = 0)"
| "tokens_ok n (t # ts) = (token_ok t \<and> (case nest n t of None \<Rightarrow> False | Some m \<Rightarrow> tokens_ok m ts))"

definition statement_text :: "sql_token list \<Rightarrow> bytes" where
  "statement_text ts = concat (map (\<lambda>t. token_text t @ [32]) ts)"

lemma token_text_start:
  assumes "token_ok t"
  shows "\<exists>c r. token_text t @ 32 # tail = c # r \<and> \<not> is_space_lex c \<and> \<not> begins_with (bstr ''--'') (c # r)"
    and "token_text t \<noteq> []"
proof -
  obtain c r where c: "token_text t = c # r" "\<not> is_space_lex c" "c \<noteq> 45 \<or> (\<exists>p. t = Operator p)"
  proof (cases t)
    case (Word c w)
    then show ?thesis
      using assms ident_not_special [of c] by (intro that [of c w]) auto
  next
    case (Number ds f)
    then obtain c d where "ds = c # d" "is_ascii_digit c"
      using assms by (cases ds) (auto simp: number_ok_def)
    then show ?thesis
      using Number by (intro that [of c "d @ fraction f"]) (auto simp: is_space_lex_def is_ascii_digit_def)
  next
    case (Operator p)
    then obtain c q where "p = c # q" "is_op_char c"
      using assms by (cases p) (auto simp: operator_ok_def)
    then show ?thesis
      using Operator by (intro that [of c q]) (auto simp: is_space_lex_def is_op_char_def)
  qed (use assms in \<open>auto intro!: that simp: escape_literal_text_def escape_identifier_text_def delimiter_def is_space_lex_def\<close>)
  then show "token_text t \<noteq> []"
    by simp
  have "\<not> begins_with (bstr ''--'') (token_text t @ 32 # tail)"
    using c(3)
  proof
    assume "\<exists>p. t = Operator p"
    then show ?thesis
      using assms c(1) operator_no_comment(1) by auto
  qed (use c(1) in \<open>simp add: begins_with_def\<close>)
  then show "\<exists>c r. token_text t @ 32 # tail = c # r \<and> \<not> is_space_lex c \<and> \<not> begins_with (bstr ''--'') (c # r)"
    using c by simp
qed

lemma statement_follows: "tokens_ok n ts \<Longrightarrow> follows (32 # statement_text ts @ 59 # tail)"
proof (cases ts)
  case (Cons t us)
  assume "tokens_ok n ts"
  then have "token_ok t"
    using Cons by simp
  from token_text_start(1) [OF this, of "statement_text us @ 59 # tail"] show ?thesis
    using Cons by (auto simp: follows_def statement_text_def)
qed (simp add: follows_def statement_text_def is_space_lex_def begins_with_def)

lemma reads_token:
  assumes "token_ok t" "nest n t = Some m" "follows tail"
  shows "reads vars (inside Initial n) (token_text t) tail (inside Initial m)"
proof (cases t)
  case (Word c w)
  then show ?thesis
    using assms reads_word [of c w tail vars n] by auto
next
  case (Number ds f)
  then show ?thesis
    using assms reads_number [of ds f tail vars n] by auto
next
  case (Operator p)
  then show ?thesis
    using assms reads_operator [of p tail vars n] by auto
next
  case (Punctuation c)
  then show ?thesis
    using assms reads_punctuation [of c tail vars n] by auto
next
  case (Literal v)
  then show ?thesis
    using assms reads_literal [of tail vars n v] by auto
next
  case (Delimited v)
  then show ?thesis
    using assms reads_delimited [of tail vars n v] by auto
next
  case (DollarQuoted tag body)
  then show ?thesis
    using assms reads_dollar [of tag body vars n tail] by auto
next
  case (BlockComment body)
  then show ?thesis
    using assms reads_comment [of body vars n tail] by auto
next
  case OpenParen
  then show ?thesis
    using assms reads_open [of vars n tail] by auto
next
  case CloseParen
  then show ?thesis
    using assms reads_close [of n vars tail] by (auto split: if_splits)
next
  case Semi
  then show ?thesis
    using assms reads_semi [of n vars tail] by (auto split: if_splits)
qed

lemma reads_nothing: "reads vars P [] tail P"
  unfolding reads_def by auto

text \<open>The places at which a statement may end.\<close>

definition at_end :: "scan_state \<Rightarrow> bool" where
  "at_end t = (\<exists>n. inside Initial n t \<and> parens n = 0 \<and> blocks n = 0)"

lemma reads_statement:
  "tokens_ok n ts \<Longrightarrow> reads vars (inside Initial n) (statement_text ts) (59 # tail) at_end"
proof (induction ts arbitrary: n)
  case Nil
  then show ?case
    using reads_nothing [of vars "inside Initial n" "59 # tail"]
    unfolding reads_def at_end_def by (fastforce simp: statement_text_def)
next
  case (Cons t ts)
  let ?next = "statement_text ts @ 59 # tail"
  obtain m where ok: "token_ok t" "nest n t = Some m" "tokens_ok m ts"
    using Cons.prems by (auto split: option.splits)
  note next_ok = statement_follows [OF ok(3), of tail]
  have "reads vars (inside Initial n) (token_text t @ [32]) ?next (inside Initial m)"
    using reads_token [OF ok(1,2) next_ok] token_text_start(2) [OF ok(1)] next_ok
    by (intro reads_space) (auto simp: follows_def)
  from reads_then [OF this Cons.IH [OF ok(3)]] show ?case
    by (simp add: statement_text_def)
qed

text \<open>C33: A statement ends at its own semicolon. From the start of a statement, for every sequence of words, numbers,
  operators, punctuation, quoted literals and identifiers (with any bytes between the quotes),
  dollar-quoted bodies, block comments (whatever they hold, nested comments too, as long as each has its end),
  parentheses, and semicolons inside parentheses or between the \<open>BEGIN\<close> and \<open>END\<close> of a routine, that is
  balanced, each followed by a space, and whatever follows the semicolon after it: one scan returns
  \<open>Semicolon\<close>, has appended exactly the statement and its semicolon to the query buffer, leaves exactly
  what follows unread, and is back at the start of a statement. The variables that are set do not
  matter.\<close>

theorem statement_ends_at_its_semicolon:
  assumes "stack s \<noteq> []" "inside Initial statement_start (lex_state s)" "tokens_ok statement_start ts"
    and "rest s = statement_text ts @ 59 # tail"
  shows "\<exists>s'. scan_query vars s out = Some ((ScanSemicolon, PromptReady), s', out @ statement_text ts @ [59]) \<and>
    rest s' = tail \<and> inside Initial statement_start (lex_state s')"
proof -
  obtain s1 where s1: "stack s1 \<noteq> []" "at_end (lex_state s1)" "rest s1 = 59 # tail"
    "lex_loop vars s out = lex_loop vars s1 (out @ statement_text ts)"
    using reads_statement [OF assms(3), of vars tail] assms(1,2,4) unfolding reads_def by blast
  obtain n where n: "inside Initial n (lex_state s1)" "parens n = 0" "blocks n = 0"
    using s1(2) unfolding at_end_def by blast
  let ?s = "upd statement_end (skip_bytes 1 s1)"
  have "lex_step vars s1 (out @ statement_text ts) = (?s, out @ statement_text ts @ [59], Some LexSemi)"
    using step_initial_byte [OF _ s1(3)] prefixed_quote_None [OF s1(3)] s1(3) n
    by (simp add: inside_def is_space_lex_def step_semicolon_def echo_def at_top_level_def)
  then have "lex_loop vars s out = Some (LexSemi, ?s, out @ statement_text ts @ [59])"
    using s1(1,4) by (simp add: lex_loop.simps [of vars s1])
  moreover have "rest ?s = tail" "inside Initial statement_start (lex_state ?s)"
    using s1(3) n by (simp_all add: rest_skip upd_def inside_def statement_end_def statement_start_def Let_def)
  ultimately show ?thesis
    by (simp add: scan_query_def scan_outcome_def)
qed

text \<open>A routine whose body holds semicolons, with a comment in a comment, and a literal and a dollar quote
  that hold semicolons and quotes.\<close>

definition demo_statement :: "sql_token list" where
  "demo_statement =
     [Word 67 (bstr ''reate''), Word 102 (bstr ''unction''), Word 102 [], OpenParen, Semi, CloseParen,
      BlockComment (bstr ''*; /* ; ** */ / ; **/''), Word 98 (bstr ''egin''), Word 115 (bstr ''elect''), Number [49] (Some [53]),
      Operator (bstr ''<>''), Literal [59, 39], Punctuation 44, DollarQuoted [] [59, 36, 49], Semi, Word 69 (bstr ''nd'')]"

lemma demo_statement_ok: "tokens_ok statement_start demo_statement"
  by code_simp

theorem statement_ends_witness:
  "tokens_ok statement_start demo_statement \<and>
   (\<exists>s'. scan_query no_variables (setup_line (statement_text demo_statement @ 59 # bstr '' x'') True new_scanner) [] =
     Some ((ScanSemicolon, PromptReady), s', [] @ statement_text demo_statement @ [59]) \<and>
     rest s' = bstr '' x'' \<and> inside Initial statement_start (lex_state s'))"
  by (intro conjI statement_ends_at_its_semicolon demo_statement_ok)
    (simp_all add: setup_line_def upd_def new_scanner_def inside_def statement_start_def rest_def)

end
