(* ===== verification/Spec2Isabelle.thy ===== *)
theory Spec2Isabelle
  imports Uri Client Service Expand Wal SystemId Variables Slash Statement
begin

text \<open>
  A verification development for \<open>pgrust-drop\<close>, PostgreSQL's client tools in Rust. Its subjects are the
  client library, \<open>crates/rlibpq\<close>, a port of \<open>libpq\<close>: everything the other crates say to a server goes
  through it; the formats \<open>crates/rinitdb\<close> creates a cluster from and with; and the part of the interactive
  client \<open>crates/rpsql\<close> that decides what is sent as a statement. Paths below are relative
  to \<open>src/crates/rlibpq/src\<close>, those of cluster creation to \<open>src/crates/rinitdb/src\<close>, those of the
  interactive client to \<open>src/crates/rpsql/src\<close>.

  \<^bold>\<open>How the program is put together.\<close> A connection string (\<open>conninfo.rs\<close>, \<open>uri.rs\<close>) gives a table of
  settings. From it come the list of hosts and the order they are tried in (\<open>hosts.rs\<close>), the methods of
  encryption (\<open>negotiate.rs\<close>) and what the server has to be (\<open>target.rs\<close>). A connection
  (\<open>connection.rs\<close>) reads and writes a socket through two buffers; the bytes are cut into messages,
  decoded and encoded by \<open>message.rs\<close>. During startup the messages go to the authenticator (\<open>auth.rs\<close>,
  over \<open>scram.rs\<close>, \<open>hmac.rs\<close>, \<open>sha256.rs\<close>, \<open>md5.rs\<close>, \<open>base64.rs\<close>), afterwards to the state machine of
  query execution (\<open>pipeline.rs\<close>), which builds results (\<open>result.rs\<close>). \<open>extended.rs\<close> says which
  messages a command sends. \<open>escape.rs\<close> and \<open>encoding.rs\<close> make text safe to put into a query.
  A new cluster is expanded from a packed template (\<open>image.rs\<close>, checked by \<open>crc32c.rs\<close>); it gets a control
  file of its own, with a fresh identifier (\<open>control.rs\<close>), and a first WAL segment that holds the checkpoint
  the control file points at (\<open>wal.rs\<close>). The interactive client reads lines, expands its variables
  (\<open>variables.rs\<close>) in them and cuts them into statements (\<open>scan.rs\<close>) and backslash commands
  (\<open>slash.rs\<close>).

  \<^bold>\<open>Theories.\<close> One theory per source file, in dependency order.

  \<^item> \<open>Prelude\<close>: bytes, Rust's \<open>Result\<close>, integers on the wire, the string primitives of \<open>cstr.rs\<close>, decimal
    numbers, and the locale \<open>machine\<close> of a state machine with an invariant, interpreted on the
    generator of random numbers, the SCRAM exchange, the authenticator, the pipeline and the
    generation of identifiers. \<open>Text_Std\<close> and \<open>LittleEndian\<close>: cutting texts, UTF-8, bytes of integers.
  \<^item> \<open>Encoding\<close> (\<open>encoding.rs\<close>): the encodings, their names, character lengths and verification. The binary
    search over the names is a lookup in the table; a verified character is as long as announced and
    lies inside its slice; the bytes written for a bad character are refused.
  \<^item> \<open>QueryResult\<close> (\<open>result.rs\<close>): results and their accessors.
  \<^item> \<open>Message\<close> (\<open>message.rs\<close>, the requests of \<open>auth.rs\<close>): framing, decoding, encoding. Framing does not depend
    on how the bytes arrive; decoding inverts the documented layout of every message; what is encoded
    can be read back.
  \<^item> \<open>Pipeline\<close> (\<open>pipeline.rs\<close>): \<open>PipelineState\<close> and \<open>QueryRunner\<close>, an operation of the source per function. The
    invariant of all reachable states; the report of an aborted pipeline; rows delivered once and in
    order in every row mode; the loops of the runner return.
  \<^item> \<open>Extended\<close> (\<open>extended.rs\<close>): the messages of a command and the checks of its arguments.
  \<^item> \<open>Conninfo\<close>, \<open>Uri\<close> (\<open>conninfo.rs\<close>, \<open>uri.rs\<close>, \<open>pg_config.rs\<close>, the errors of \<open>error.rs\<close>): the settings, the two
    syntaxes of a connection string, the fallbacks. Round trips of both syntaxes, the precedence of
    values, and that the parser returns on every input.
  \<^item> \<open>Service\<close> (\<open>service.rs\<close>): the lookup of a service. A file is read as the groups it was written from; no outcome
    changes a value that was given.
  \<^item> \<open>Negotiate\<close> (\<open>negotiate.rs\<close>): no run of failures falls back to a method that the options forbid; the
    methods are tried in order, each once.
  \<^item> \<open>Hosts\<close>, \<open>Target\<close> (\<open>hosts.rs\<close>, \<open>target.rs\<close>): the host list, the generator and the shuffle (locale
    \<open>draw_source\<close>), the check of a server. Each order of the hosts comes from exactly one sequence of
    draws; a server is accepted exactly when it is what was asked for, after at most one question.
  \<^item> \<open>HashStream\<close>, \<open>Sha256\<close>, \<open>Md5\<close>, \<open>Hmac\<close>: the streaming hashes refine FIPS 180-4, RFC 1321 and RFC 2104. The
    buffering is proved once (locale \<open>streaming\<close>, interpreted on the three contexts).
  \<^item> \<open>Base64\<close>, \<open>Scram\<close>, \<open>Auth\<close> (\<open>base64.rs\<close>, \<open>scram.rs\<close>, \<open>auth.rs\<close>): the exchange with a genuine server succeeds;
    a final message is accepted only with the signature over this exchange; two places where the
    code is weaker than its documentation.
  \<^item> \<open>Escape\<close> (\<open>escape.rs\<close>): what is escaped reads back and cannot end its own literal (locale \<open>char_reader\<close>,
    interpreted on every encoding); \<open>bytea\<close> values survive.
  \<^item> \<open>Connection\<close> (\<open>connection.rs\<close>): the record of a connection and the calls that move bytes. The operating
    system is an argument that answers each read, write and wait; theorems hold for every such
    argument. A flush sends exactly the buffered bytes and returns when the socket lets it.
  \<^item> \<open>Session\<close> (\<open>connection.rs\<close>): every call on an open connection. Parsing does not depend on how the input
    arrives; a command puts exactly its own messages on the wire.
  \<^item> \<open>Startup\<close> (\<open>connection.rs\<close>): ports, addresses, the startup exchange and the walk over the hosts. What is handed
    out was asked for and checked; the walk ends with a connection or a reason.
  \<^item> \<open>Client\<close>: what holds across all calls, proved once for every relation that the primitive changes keep
    (locales \<open>moving_relation\<close>, \<open>call_relation\<close> and \<open>step_relation\<close>). A connection refines the machine of \<open>Pipeline\<close>, so
    that its invariant holds in every connection a client can have; the input is cut into whole
    messages, each parsed once (the trace records them), and what \<open>parse_input\<close> takes it applies. The startup exchange accepts a server that was never authenticated.
  \<^item> \<open>Crc32c\<close> (\<open>crc32c.rs\<close>): the table-driven checksum is the shift register of its polynomial and detects every
    burst of 32 bits.
  \<^item> \<open>Image\<close>, \<open>Expand\<close> (\<open>image.rs\<close>, \<open>file_perm.rs\<close>): the template image. Parsing accepts exactly what packing makes;
    the check of the order is exact; damage is refused; paths stay inside; a parsed image expands
    front to back.
  \<^item> \<open>Control\<close>, \<open>Wal\<close> (\<open>control.rs\<close>, \<open>wal.rs\<close>): the control file, whose fields and padding tile the struct, round
    trips in both directions, and the first segment of a new cluster.
  \<^item> \<open>SystemId\<close> (\<open>control.rs\<close>): several threads that draw identifiers, as a step relation.
  \<^item> \<open>Scan\<close> (\<open>scan.rs\<close>, one function of \<open>common.rs\<close>): the lexer that finds the end of a statement, a rule of the
    source per branch. Its rule firings as a step relation; a scan returns whatever the variables hold
    (locale \<open>variable_provider\<close>); nothing of a line is lost; two deviations from the documentation.
  \<^item> \<open>Statement\<close>: what the lexer of \<open>Scan\<close> makes of SQL, seen as tokens. A statement ends at its own semicolon,
    with the two kinds of doubled quotes proved once (locale \<open>quoted_reader\<close>), nested comments
    against a grammar of their own, and the blocks of routines.
  \<^item> \<open>Slash\<close> (\<open>slash.rs\<close>): the lexer of backslash commands on the same buffers. Its loops end; arguments that are
    put into quotes read back.
  \<^item> \<open>Variables\<close> (\<open>variables.rs\<close>, the settings of \<open>settings.rs\<close> that hooks own): the sorted vector of variables
    implements a map; in every reachable space (the locale \<open>machine\<close> again) the settings are what the
    variables say; the lexer's contract holds of the space.

  \<^bold>\<open>Conventions.\<close> A function of the source that changes \<open>self\<close> returns the changed value beside its result, also
  when it fails. \<open>Result\<close> is the datatype \<open>result\<close>. Panics are \<open>None\<close>. A loop of the source is a recursive
  function with a termination proof wherever it ends; a loop that only ends if the socket, the
  random numbers or the variables let it is a \<open>partial_function (option)\<close>, and theorems say when it returns. There is no
  fuel. Machine integers are words where they can overflow. A specification that is not code of the
  repository (the standard of a hash, the layout of a message, the server's reader of literals) is
  kept apart from the model in a section of its own.

  \<^bold>\<open>Not modelled.\<close> The text of errors and notices (except where a later step reads it); the display width of
  characters (\<open>wcwidth.rs\<close>) and the printing of results (\<open>print.rs\<close>); the rendering of traces (\<open>trace.rs\<close>; the
  connection keeps the records to be rendered); large objects
  (\<open>lobj.rs\<close>); the cancel connection (\<open>cancel.rs\<close>) and \<open>poll.rs\<close>, which are calls of the operating system;
  of \<open>rinitdb\<close> the command line, the configuration files, the search for the time zone and the work on the
  file system around the formats above, and symbolic links in the tree an image is expanded into;
  of \<open>rpsql\<close> the main loop, the execution of backslash commands, the printing of results and the terminal, and the reading of
  floating-point numbers (\<open>strtonum.rs\<close>), whose verdict on the interval of the watch command is an argument of
  \<open>Variables\<close>; and the crates \<open>pgdrop\<close> and \<open>testkit\<close>.
\<close>

end
